(* ===== verification/Wampes_Prelude.thy ===== *)
theory Wampes_Prelude
  imports Main "HOL-Library.Word" "HOL-Library.Char_ord"
begin

text \<open>
  Shared vocabulary of the development: the names of the C types, the big-endian
  readers and writers of \<^verbatim>\<open>src/src/misc.c\<close> (\<^verbatim>\<open>put16\<close>, \<^verbatim>\<open>put32\<close>, \<^verbatim>\<open>get16\<close>, \<^verbatim>\<open>get32\<close>),
  the ASCII case folding of the same file, the collections of rewrite rules the component
  theories fill, and the generic facts on lists and words they share.

  C types: \<open>uint8\<close> is \<open>8 word\<close>; \<open>uint\<close>, \<open>int32\<close> and \<open>uint32\<close> are \<open>32 word\<close> (the same bits;
  a signed reading is written \<open>sint\<close>); counts of bytes in buffers are \<open>nat\<close>.
\<close>

unbundle bit_operations_syntax

type_synonym byte = "8 word"
type_synonym u16 = "16 word"
type_synonym u32 = "32 word"

named_theorems content_simps
  \<open>what the buffer operations do to the bytes of a packet\<close>

named_theorems wire_simps
  \<open>what the encoders and decoders of header fields compute\<close>

section \<open>Network byte order (misc.c)\<close>

text \<open>\<^verbatim>\<open>put16\<close> stores the two low octets of an unsigned int, most significant first.\<close>

definition put16 :: "u32 \<Rightarrow> byte list" where
  "put16 x = [ucast (drop_bit 8 x), ucast x]"

definition put32 :: "u32 \<Rightarrow> byte list" where
  "put32 x = [ucast (drop_bit 24 x), ucast (drop_bit 16 x), ucast (drop_bit 8 x), ucast x]"

definition get16 :: "byte \<Rightarrow> byte \<Rightarrow> u32" where
  "get16 a b = push_bit 8 (ucast a) OR ucast b"

definition get32 :: "byte \<Rightarrow> byte \<Rightarrow> byte \<Rightarrow> byte \<Rightarrow> u32" where
  "get32 a b c d =
     (let rval = ucast a;
          rval = push_bit 8 rval OR ucast b;
          rval = push_bit 8 rval OR ucast c
      in push_bit 8 rval OR ucast d)"

lemma length_put16 [simp]: "length (put16 x) = 2"
  by (simp add: put16_def)

lemma length_put32 [simp]: "length (put32 x) = 4"
  by (simp add: put32_def)

lemma get16_put16: "get16 (ucast (drop_bit 8 x)) (ucast x) = take_bit 16 x"
  unfolding get16_def by (rule bit_word_eqI) (auto simp: bit_simps)

lemma put16_get16 [wire_simps]: "put16 (get16 a b) = [a, b]"
  unfolding put16_def get16_def list.inject
  by (intro conjI refl; rule bit_word_eqI; auto simp: bit_simps dest: bit_imp_le_length)

lemma take_bit_word_small: "(x :: 'a::len word) < 2 ^ n \<Longrightarrow> n < LENGTH('a) \<Longrightarrow> take_bit n x = x"
  by (simp add: take_bit_eq_mask less_mask_eq)

lemma get16_put16_small [wire_simps]:
  "x < 0x10000 \<Longrightarrow> get16 (ucast (drop_bit 8 x)) (ucast x) = x"
  using take_bit_word_small [of x 16] by (simp add: get16_put16)

lemma get32_put32 [wire_simps]:
  "get32 (ucast (drop_bit 24 x)) (ucast (drop_bit 16 x)) (ucast (drop_bit 8 x)) (ucast x) = x"
  unfolding get32_def Let_def
proof (rule bit_word_eqI)
  fix n assume "n < LENGTH(32)"
  then consider "n < 8" | "8 \<le> n" "n < 16" | "16 \<le> n" "n < 24" | "24 \<le> n" "n < 32"
    by fastforce
  then show "bit (push_bit 8 (push_bit 8 (push_bit 8 (ucast (ucast (drop_bit 24 x) :: byte))
        OR ucast (ucast (drop_bit 16 x) :: byte)) OR ucast (ucast (drop_bit 8 x) :: byte))
        OR ucast (ucast x :: byte) :: u32) n = bit (x :: u32) n"
    by cases (auto simp: bit_simps)
qed

lemma put32_get32 [wire_simps]: "put32 (get32 a b c d) = [a, b, c, d]"
  unfolding put32_def get32_def Let_def list.inject
  by (intro conjI refl; rule bit_word_eqI; auto simp: bit_simps dest: bit_imp_le_length)

lemma unat_byte_less: "unat (b :: byte) < 256"
  using unsigned_less [of b] by simp

lemma unat_get16: "unat (get16 a b) = 256 * unat a + unat b"
proof -
  have "get16 a b = push_bit 8 (ucast a) + ucast b"
    unfolding get16_def
    by (rule disjunctive_add [symmetric]) (auto simp: bit_simps dest: bit_imp_le_length)
  also have "unat \<dots> = 256 * unat a + unat b"
    using unat_byte_less [of a] unat_byte_less [of b]
    by (simp add: unat_word_ariths push_bit_eq_mult unsigned_ucast_eq take_bit_eq_mod)
  finally show ?thesis .
qed

lemma get16_bound [simp]: "unat (get16 a b) < 65536"
  using unat_byte_less [of a] unat_byte_less [of b] by (simp add: unat_get16)

lemma put16_inject:
  assumes "x < 0x10000" "y < 0x10000" "put16 x = put16 y"
  shows "x = y"
proof -
  have "get16 (put16 x ! 0) (put16 x ! 1) = x" "get16 (put16 y ! 0) (put16 y ! 1) = y"
    using assms(1,2) by (simp_all add: put16_def get16_put16_small)
  with assms(3) show ?thesis by simp
qed

lemma put32_inject:
  assumes "put32 x = put32 y"
  shows "x = y"
proof -
  have "get32 (put32 z ! 0) (put32 z ! 1) (put32 z ! 2) (put32 z ! 3) = z" for z
    by (simp add: put32_def get32_put32)
  with assms show ?thesis by metis
qed

section \<open>Characters (misc.c)\<close>

text \<open>\<^verbatim>\<open>Xtolower\<close> and \<^verbatim>\<open>Xtoupper\<close> fold the 26 ASCII letters and nothing else.\<close>

definition Xtolower :: "char \<Rightarrow> char" where
  "Xtolower c = (if CHR ''A'' \<le> c \<and> c \<le> CHR ''Z'' then char_of (of_char c + 32 :: nat) else c)"

definition Xtoupper :: "char \<Rightarrow> char" where
  "Xtoupper c = (if CHR ''a'' \<le> c \<and> c \<le> CHR ''z'' then char_of (of_char c - 32 :: nat) else c)"

definition byte_of_char :: "char \<Rightarrow> byte" where
  "byte_of_char c = of_char c"

definition char_of_byte :: "byte \<Rightarrow> char" where
  "char_of_byte b = char_of (unat b)"

lemma char_of_byte_of_char [simp]: "char_of_byte (byte_of_char c) = c"
proof -
  have "(of_char c :: nat) < 256"
    using of_char_mod_256 [of c, where 'a = nat] by (metis mod_less_divisor zero_less_numeral)
  moreover have "(of_char c :: byte) = of_nat (of_char c)"
    by (simp add: of_nat_of_char)
  ultimately show ?thesis
    by (simp add: char_of_byte_def byte_of_char_def unat_of_nat)
qed

lemma byte_of_char_of_byte [simp]: "byte_of_char (char_of_byte b) = b"
proof -
  have "(of_char (char_of (unat b)) :: byte) = of_nat (of_char (char_of (unat b)))"
    by (simp only: of_nat_of_char)
  also have "\<dots> = of_nat (unat b mod 256)"
    by (simp only: of_char_of)
  also have "\<dots> = b" using unat_byte_less [of b] by simp
  finally show ?thesis by (simp add: char_of_byte_def byte_of_char_def)
qed

section \<open>Lists and options\<close>

lemma concat_single [content_simps]: "concat [x] = x"
  by simp

lemma take_min_length [simp]: "take (min n (length xs)) xs = take n xs"
  by (cases "n \<le> length xs") (auto simp: min_def)

lemma drop_min_length [simp]: "drop (min n (length xs)) xs = drop n xs"
  by (cases "n \<le> length xs") (auto simp: min_def)

lemma find_None_filter: "find P xs = None \<longleftrightarrow> filter P xs = []"
  by (induction xs) auto

end
