(* ===== verification/Mbuf.thy ===== *)
theory Mbuf
  imports Wampes_Prelude
begin

text \<open>
  The message buffers of \<^verbatim>\<open>src/src/mbuf.c\<close>.  A packet is a chain of mbufs linked by \<^verbatim>\<open>next\<close>;
  the model keeps, for each mbuf of the chain, the bytes between \<^verbatim>\<open>data\<close> and \<^verbatim>\<open>data + cnt\<close>, so a
  chain is a list of byte lists and the NULL pointer is the empty list.  A queue of packets
  linked by \<^verbatim>\<open>anext\<close> is a list of chains.  Two things the content does not determine are
  arguments: whether the first mbuf has room in front (\<^verbatim>\<open>pushdown\<close>) and how many header
  allocations succeed (\<^verbatim>\<open>dup_p\<close>, \<^verbatim>\<open>copy_p\<close>).

  The abstraction is \<open>content\<close>, the bytes of the packet in order.  Each operation is shown
  to act on the content alone; the locale \<open>byte_stream\<close> states what the header decoders
  rely on, and its interpretation discharges it for \<^verbatim>\<open>pullup\<close>.
\<close>

type_synonym chain = "byte list list"
type_synonym pqueue = "chain list"

definition content :: "chain \<Rightarrow> byte list" where
  "content bp = concat bp"

lemma content_Nil [simp]: "content [] = []"
  by (simp add: content_def)

lemma content_Cons [simp]: "content (s # bp) = s @ content bp"
  by (simp add: content_def)

lemma content_append [simp]: "content (xs @ ys) = content xs @ content ys"
  by (simp add: content_def)

section \<open>Measuring and trimming\<close>

fun len_p :: "chain \<Rightarrow> nat" where
  "len_p [] = 0"
| "len_p (s # bp) = length s + len_p bp"

lemma len_p_content [content_simps]: "len_p bp = length (content bp)"
  by (induction bp) auto

text \<open>The loop of \<^verbatim>\<open>trim_mbuf\<close>: \<open>tot\<close> bytes are already kept, the cut is at \<open>n\<close>.\<close>

fun trim_loop :: "nat \<Rightarrow> nat \<Rightarrow> chain \<Rightarrow> chain" where
  "trim_loop n tot [] = []"
| "trim_loop n tot (s # bp) =
     (if tot + length s < n then s # trim_loop n (tot + length s) bp
      else [take (n - tot) s])"

definition trim_mbuf :: "chain \<Rightarrow> nat \<Rightarrow> chain" where
  "trim_mbuf bp n =
     (if bp = [] then []
      else if n = 0 then []
      else trim_loop n 0 bp)"

lemma trim_loop_content: "tot \<le> n \<Longrightarrow> content (trim_loop n tot bp) = take (n - tot) (content bp)"
  by (induction bp arbitrary: tot) auto

lemma trim_mbuf_content [content_simps]: "content (trim_mbuf bp n) = take n (content bp)"
  by (simp add: trim_mbuf_def trim_loop_content)

section \<open>Duplicating and copying\<close>

text \<open>Skip the leading mbufs that lie wholly below the offset (\<^verbatim>\<open>dup_p\<close>, \<^verbatim>\<open>extract\<close>).\<close>

fun skip_p :: "chain \<Rightarrow> nat \<Rightarrow> chain \<times> nat" where
  "skip_p [] offset = ([], offset)"
| "skip_p (s # bp) offset =
     (if length s \<le> offset then skip_p bp (offset - length s) else (s # bp, offset))"

text \<open>The copying loop of \<^verbatim>\<open>dup_p\<close>; \<open>avail\<close> further mbuf headers can be allocated.\<close>

fun dup_loop :: "nat \<Rightarrow> chain \<Rightarrow> nat \<Rightarrow> nat \<Rightarrow> nat \<times> chain" where
  "dup_loop avail [] offset cnt = (0, [])"
| "dup_loop avail (s # bp) offset cnt =
     (let n = min cnt (length s - offset);
          d = take n (drop offset s)
      in if cnt - n = 0 \<or> bp = [] \<or> avail = 0 then (n, [d])
         else let (tot, cp) = dup_loop (avail - 1) bp 0 (cnt - n) in (n + tot, d # cp))"

definition dup_p :: "nat \<Rightarrow> chain \<Rightarrow> nat \<Rightarrow> nat \<Rightarrow> nat \<times> chain" where
  "dup_p avail bp offset cnt =
     (if cnt = 0 \<or> bp = [] then (0, [])
      else if avail = 0 then (0, [])
      else case skip_p bp offset of
             ([], _) \<Rightarrow> (0, [])
           | (bp', offset') \<Rightarrow> dup_loop (avail - 1) bp' offset' cnt)"

lemma skip_p_drop:
  "skip_p bp offset = (bp', offset') \<Longrightarrow>
     drop offset (content bp) = drop offset' (content bp') \<and>
     (case bp' of [] \<Rightarrow> True | s # _ \<Rightarrow> offset' < length s) \<and> length bp' \<le> length bp"
  by (induction bp offset rule: skip_p.induct) (auto split: if_splits)

lemma dup_loop_enough:
  "length bp \<le> Suc avail \<Longrightarrow> offset \<le> length (hd bp) \<Longrightarrow> bp \<noteq> [] \<Longrightarrow>
     content (snd (dup_loop avail bp offset cnt)) = take cnt (drop offset (content bp))"
proof (induction avail bp offset cnt rule: dup_loop.induct)
  case (2 avail s bp offset cnt)
  then show ?case
    by (auto simp: Let_def min_def split: prod.splits)
qed simp

lemma dup_loop_count:
  "fst (dup_loop avail bp offset cnt) = length (content (snd (dup_loop avail bp offset cnt)))"
  by (induction avail bp offset cnt rule: dup_loop.induct) (auto simp: Let_def split: prod.splits)

lemma dup_loop_prefix:
  "offset \<le> length (hd bp) \<Longrightarrow> bp \<noteq> [] \<Longrightarrow>
     \<exists>k \<le> cnt. content (snd (dup_loop avail bp offset cnt)) = take k (drop offset (content bp))"
proof (induction avail bp offset cnt rule: dup_loop.induct)
  case (2 avail s bp offset cnt)
  let ?n = "min cnt (length s - offset)"
  show ?case
  proof (cases "cnt - ?n = 0 \<or> bp = [] \<or> avail = 0")
    case True
    then show ?thesis
      by (auto simp: Let_def intro!: exI [of _ ?n])
  next
    case False
    then obtain k where "k \<le> cnt - ?n"
      "content (snd (dup_loop (avail - 1) bp 0 (cnt - ?n))) = take k (content bp)"
      using 2(1) [of ?n "take ?n (drop offset s)"] by auto
    moreover have "?n = length s - offset" using False by auto
    ultimately show ?thesis using False 2(2)
      by (auto simp: Let_def split: prod.splits intro!: exI [of _ "?n + k"])
  qed
qed simp

lemma dup_p_enough [content_simps]:
  "length bp \<le> avail \<Longrightarrow> content (snd (dup_p avail bp offset cnt)) = take cnt (drop offset (content bp))"
  using skip_p_drop [of bp offset]
  by (auto simp: dup_p_def dup_loop_enough simp del: dup_loop.simps split: prod.splits list.splits)

lemma dup_p_count: "fst (dup_p avail bp offset cnt) = length (content (snd (dup_p avail bp offset cnt)))"
  by (auto simp: dup_p_def dup_loop_count simp del: dup_loop.simps split: prod.splits list.splits)

lemma dup_p_prefix:
  "\<exists>k \<le> cnt. content (snd (dup_p avail bp offset cnt)) = take k (drop offset (content bp))"
proof (cases "cnt = 0 \<or> bp = [] \<or> avail = 0 \<or> fst (skip_p bp offset) = []")
  case True
  then show ?thesis by (auto simp: dup_p_def split: prod.splits intro!: exI [of _ 0])
next
  case False
  then obtain s r o' where sk: "skip_p bp offset = (s # r, o')"
    by (metis list.exhaust prod.collapse)
  with skip_p_drop [OF this] dup_loop_prefix [of o' "s # r" cnt "avail - 1"] False
  show ?thesis by (simp add: dup_p_def)
qed

text \<open>\<^verbatim>\<open>copy_p\<close>: at most \<open>cnt\<close> bytes into one new mbuf, NULL when it cannot be allocated.\<close>

fun copy_loop :: "chain \<Rightarrow> nat \<Rightarrow> byte list" where
  "copy_loop [] cnt = []"
| "copy_loop (s # bp) cnt =
     (if cnt = 0 then []
      else let n = min cnt (length s) in take n s @ copy_loop bp (cnt - n))"

definition copy_p :: "bool \<Rightarrow> chain \<Rightarrow> nat \<Rightarrow> chain" where
  "copy_p mem bp cnt = (if bp = [] \<or> cnt = 0 \<or> \<not> mem then [] else [copy_loop bp cnt])"

lemma copy_loop_content: "copy_loop bp cnt = take cnt (content bp)"
  by (induction bp arbitrary: cnt) (auto simp: Let_def min_def)

lemma copy_p_content [content_simps]: "content (copy_p True bp cnt) = take cnt (content bp)"
  by (auto simp: copy_p_def copy_loop_content)

section \<open>Pulling and pushing\<close>

text \<open>
  \<^verbatim>\<open>pullup\<close>: an mbuf emptied by the copy is freed, the packet then starts at the next one.
  The result is the bytes copied out and the rest of the packet.
\<close>

function pullup :: "chain \<Rightarrow> nat \<Rightarrow> byte list \<times> chain" where
  "pullup [] cnt = ([], [])"
| "pullup (s # bp) cnt =
     (if cnt = 0 then ([], s # bp)
      else let n = min cnt (length s);
               rest = drop n s;
               (buf, bp') = pullup (if rest = [] then bp else rest # bp) (cnt - n)
           in (take n s @ buf, bp'))"
  by pat_completeness auto
termination
  by (relation "measure (\<lambda>(bp, cnt). length bp + cnt)") (auto simp: min_def)

declare pullup.simps(2) [simp del]

lemma pullup_0 [simp]: "pullup bp 0 = ([], bp)"
  by (cases bp) (auto simp: pullup.simps(2))

lemma pullup_bytes_rest:
  "fst (pullup bp cnt) = take cnt (content bp) \<and> content (snd (pullup bp cnt)) = drop cnt (content bp)"
proof (induction bp cnt rule: pullup.induct)
  case (2 s bp cnt)
  then show ?case
    by (cases "length s \<le> cnt") (auto simp: pullup.simps(2) Let_def min_def split: prod.splits)
qed simp

lemma pullup_fst [content_simps]: "fst (pullup bp cnt) = take cnt (content bp)"
  and pullup_snd [content_simps]: "content (snd (pullup bp cnt)) = drop cnt (content bp)"
  using pullup_bytes_rest by blast+

lemma pullup_prod:
  "pullup bp cnt = (buf, bp') \<Longrightarrow> buf = take cnt (content bp) \<and> content bp' = drop cnt (content bp)"
  using pullup_bytes_rest [of bp cnt] by simp

text \<open>\<^verbatim>\<open>extract\<close> copies from the middle and leaves the packet as it is.\<close>

function extract_loop :: "chain \<Rightarrow> nat \<Rightarrow> nat \<Rightarrow> byte list" where
  "extract_loop [] offset len = []"
| "extract_loop (s # bp) offset len =
     (if len = 0 then []
      else let n = min len (length s - offset)
           in take n (drop offset s) @
              extract_loop (if n + offset = length s then bp else s # bp) 0 (len - n))"
  by pat_completeness auto
termination
  by (relation "measures [\<lambda>(bp, offset, len). length bp + len, \<lambda>(bp, offset, len). offset]")
     (auto simp: min_def)

declare extract_loop.simps(2) [simp del]

definition extract_p :: "chain \<Rightarrow> nat \<Rightarrow> nat \<Rightarrow> byte list" where
  "extract_p bp offset len =
     (let (bp', offset') = skip_p bp offset in extract_loop bp' offset' len)"

lemma extract_loop_content:
  "(case bp of [] \<Rightarrow> True | s # _ \<Rightarrow> offset \<le> length s) \<Longrightarrow>
     extract_loop bp offset len = take len (drop offset (content bp))"
proof (induction bp offset len rule: extract_loop.induct)
  case (2 s bp offset len)
  show ?case
  proof (cases "len \<le> length s - offset")
    case True
    then show ?thesis using 2
      by (cases "len = 0")
         (auto simp: extract_loop.simps(2) [of s bp] extract_loop.simps(2) [of _ _ 0 0]
            Let_def min_def extract_loop.simps(1) split: list.splits)
  next
    case False
    then show ?thesis using 2
      by (auto simp: extract_loop.simps(2) [of s bp] Let_def min_def split: list.splits)
  qed
qed simp

lemma extract_p_content [content_simps]: "extract_p bp offset len = take len (drop offset (content bp))"
proof -
  obtain bp' o' where sk: "skip_p bp offset = (bp', o')" by fastforce
  with skip_p_drop [OF this] show ?thesis
    by (simp add: extract_p_def extract_loop_content split: list.splits)
qed

text \<open>
  \<^verbatim>\<open>append\<close> and \<^verbatim>\<open>pushdown\<close>.  \<open>fits\<close> says that the first mbuf is neither shared nor a
  duplicate and has \<open>size\<close> bytes of room in front of its data; otherwise a new mbuf is
  put in front of the chain.
\<close>

definition append_p :: "chain \<Rightarrow> chain \<Rightarrow> chain" where
  "append_p bph bpp = (if bpp = [] then bph else if bph = [] then bpp else bph @ bpp)"

definition pushdown :: "bool \<Rightarrow> byte list \<Rightarrow> chain \<Rightarrow> chain" where
  "pushdown fits buf bpp =
     (if buf = [] then bpp
      else case bpp of
             s # bp \<Rightarrow> if fits then (buf @ s) # bp else buf # s # bp
           | [] \<Rightarrow> [buf])"

definition qdata :: "byte list \<Rightarrow> chain" where
  "qdata data = [data]"

lemma append_p_content [content_simps]: "content (append_p bph bpp) = content bph @ content bpp"
  by (simp add: append_p_def)

lemma pushdown_content [content_simps]: "content (pushdown fits buf bp) = buf @ content bp"
  by (simp add: pushdown_def split: list.splits)

lemma qdata_content [content_simps]: "content (qdata data) = data"
  by (simp add: qdata_def)

text \<open>
  The readers of one, two and four bytes.  \<^verbatim>\<open>pull8\<close> and \<^verbatim>\<open>pull16\<close> return -1 on a short packet
  (here \<open>None\<close>), \<^verbatim>\<open>pull32\<close> returns 0; all three have eaten what there was.  \<^verbatim>\<open>PULLCHAR\<close> of
  \<^verbatim>\<open>mbuf.h\<close> takes a byte off the first mbuf when at least two are there.
\<close>

definition pull32 :: "chain \<Rightarrow> u32 \<times> chain" where
  "pull32 bpp =
     (case pullup bpp 4 of
        ([a, b, c, d], bpp') \<Rightarrow> (get32 a b c d, bpp')
      | (_, bpp') \<Rightarrow> (0, bpp'))"

definition pull16 :: "chain \<Rightarrow> u32 option \<times> chain" where
  "pull16 bpp =
     (case pullup bpp 2 of
        ([a, b], bpp') \<Rightarrow> (Some (get16 a b), bpp')
      | (_, bpp') \<Rightarrow> (None, bpp'))"

definition pull8 :: "chain \<Rightarrow> byte option \<times> chain" where
  "pull8 bpp =
     (case pullup bpp 1 of
        ([a], bpp') \<Rightarrow> (Some a, bpp')
      | (_, bpp') \<Rightarrow> (None, bpp'))"

fun PULLCHAR :: "chain \<Rightarrow> byte option \<times> chain" where
  "PULLCHAR ((a # b # s) # bp) = (Some a, (b # s) # bp)"
| "PULLCHAR bpp = pull8 bpp"

definition mbuf_crunch :: "bool \<Rightarrow> bool \<Rightarrow> bool \<Rightarrow> chain \<Rightarrow> chain" where
  "mbuf_crunch shared full mem bp =
     (if shared then bp
      else if length bp = 1 \<and> full then bp
      else let nbp = copy_p mem bp (len_p bp) in if nbp = [] then bp else nbp)"

lemma pull8_content:
  "pull8 bp = (r, bp') \<Longrightarrow>
     (case content bp of [] \<Rightarrow> r = None \<and> content bp' = []
                       | a # s \<Rightarrow> r = Some a \<and> content bp' = s)"
  using pullup_bytes_rest [of bp 1]
  by (auto simp: pull8_def split: prod.splits list.splits)

lemma PULLCHAR_content:
  "PULLCHAR bp = (r, bp') \<Longrightarrow>
     (case content bp of [] \<Rightarrow> r = None \<and> content bp' = []
                       | a # s \<Rightarrow> r = Some a \<and> content bp' = s)"
  by (cases bp rule: PULLCHAR.cases) (auto dest: pull8_content)

lemma mbuf_crunch_content: "content (mbuf_crunch shared full mem bp) = content bp"
  by (cases mem) (auto simp: mbuf_crunch_def Let_def copy_p_content len_p_content copy_p_def copy_loop_content)

section \<open>Queues of packets\<close>

definition enqueue :: "pqueue \<Rightarrow> chain \<Rightarrow> pqueue" where
  "enqueue q bpp = (if bpp = [] then q else if q = [] then [bpp] else q @ [bpp])"

fun dequeue :: "pqueue \<Rightarrow> chain \<times> pqueue" where
  "dequeue [] = ([], [])"
| "dequeue (bp # q) = (bp, q)"

fun free_q :: "pqueue \<Rightarrow> pqueue" where
  "free_q [] = []"
| "free_q (bp # q) = free_q q"

fun len_q :: "pqueue \<Rightarrow> nat" where
  "len_q [] = 0"
| "len_q (bp # q) = Suc (len_q q)"

fun len_qbytes :: "pqueue \<Rightarrow> nat" where
  "len_qbytes [] = 0"
| "len_qbytes (bp # q) = len_p bp + len_qbytes q"

text \<open>The interface of a first-in first-out queue in which the null packet is never stored.\<close>

locale packet_fifo =
  fixes null :: 'p and items :: "'q \<Rightarrow> 'p list"
    and enq :: "'q \<Rightarrow> 'p \<Rightarrow> 'q" and deq :: "'q \<Rightarrow> 'p \<times> 'q"
  assumes enq_items: "p \<noteq> null \<Longrightarrow> items (enq q p) = items q @ [p]"
    and enq_null: "enq q null = q"
    and deq_empty: "items q = [] \<Longrightarrow> fst (deq q) = null \<and> items (snd (deq q)) = []"
    and deq_items: "items q = p # ps \<Longrightarrow> fst (deq q) = p \<and> items (snd (deq q)) = ps"
begin

definition drains :: "'q \<Rightarrow> nat \<Rightarrow> 'q" where
  "drains q n = ((\<lambda>q. snd (deq q)) ^^ n) q"

lemma enq_all: "null \<notin> set ps \<Longrightarrow> items (foldl enq q ps) = items q @ ps"
  by (induction ps arbitrary: q) (auto simp: enq_items)

lemma drains_items: "items (drains q n) = drop n (items q)"
proof (induction n)
  case (Suc n)
  have "items (snd (deq (drains q n))) = tl (items (drains q n))"
    using deq_empty [of "drains q n"] deq_items [of "drains q n"]
    by (cases "items (drains q n)") auto
  then show ?case using Suc by (simp add: drains_def drop_Suc tl_drop)
qed (simp add: drains_def)

lemma fifo_order:
  assumes "null \<notin> set ps" "items q = []" "n < length ps"
  shows "fst (deq (drains (foldl enq q ps) n)) = ps ! n"
proof -
  have "items (drains (foldl enq q ps) n) = ps ! n # drop (Suc n) ps"
    using assms by (simp add: drains_items enq_all Cons_nth_drop_Suc)
  then show ?thesis using deq_items by blast
qed

end

interpretation mq: packet_fifo "[]" "\<lambda>q :: pqueue. q" enqueue dequeue
  by unfold_locales (auto simp: enqueue_def)

lemma free_q_empty [simp]: "free_q q = []"
  by (induction q) auto

lemma len_q_length [content_simps]: "len_q q = length q"
  by (induction q) auto

lemma len_qbytes_sum [content_simps]: "len_qbytes q = sum_list (map (\<lambda>bp. length (content bp)) q)"
  by (induction q) (auto simp: len_p_content)

section \<open>The interface of the header decoders\<close>

text \<open>
  A decoder takes bytes off the front of a packet and never looks at how the bytes are cut
  into mbufs.  What it may rely on is that a pull returns a prefix of the content and leaves
  the rest; two pulls in a row are then one longer pull, whatever the segmentation.
\<close>

locale byte_stream =
  fixes bytes :: "'s \<Rightarrow> byte list" and pull :: "'s \<Rightarrow> nat \<Rightarrow> byte list \<times> 's"
    and push :: "byte list \<Rightarrow> 's \<Rightarrow> 's"
  assumes pull_fst: "fst (pull s n) = take n (bytes s)"
    and pull_snd: "bytes (snd (pull s n)) = drop n (bytes s)"
    and push_bytes: "bytes (push b s) = b @ bytes s"
begin

lemma pull_eq: "pull s n = (b, s') \<Longrightarrow> b = take n (bytes s) \<and> bytes s' = drop n (bytes s)"
  using pull_fst [of s n] pull_snd [of s n] by simp

lemma pull_split: "fst (pull s n) @ fst (pull (snd (pull s n)) m) = fst (pull s (n + m))"
  by (simp add: pull_fst pull_snd take_add)

lemma pull_all: "fst (pull s n) @ bytes (snd (pull s n)) = bytes s"
  by (simp add: pull_fst pull_snd)

lemma pull_push: "fst (pull (push b s) (length b)) = b"
  and rest_push: "bytes (snd (pull (push b s) (length b))) = bytes s"
  by (simp_all add: pull_fst pull_snd push_bytes)

lemma pull_cong: "bytes s = bytes s' \<Longrightarrow> fst (pull s n) = fst (pull s' n)"
  and rest_cong: "bytes s = bytes s' \<Longrightarrow> bytes (snd (pull s n)) = bytes (snd (pull s' n))"
  by (simp_all add: pull_fst pull_snd)

lemma pull_short: "length (fst (pull s n)) = n \<longleftrightarrow> n \<le> length (bytes s)"
  by (auto simp: pull_fst)

end

interpretation mb: byte_stream content pullup "pushdown fits" for fits
  by unfold_locales (simp_all add: content_simps)

lemma list2_exhaust: "length xs = 2 \<Longrightarrow> \<exists>a b. xs = [a, b]"
  by (cases xs; cases "tl xs"; auto)

lemma pull16_content:
  "pull16 bp = (if 2 \<le> length (content bp)
                then (Some (get16 (content bp ! 0) (content bp ! 1)), snd (pullup bp 2))
                else (None, snd (pullup bp 2)))"
  using pullup_fst [of bp 2]
  by (cases "pullup bp 2"; cases "content bp"; cases "tl (content bp)")
     (auto simp: pull16_def numeral_2_eq_2)

lemma pull32_content:
  "pull32 bp = (if 4 \<le> length (content bp)
                then (get32 (content bp ! 0) (content bp ! 1) (content bp ! 2) (content bp ! 3),
                      snd (pullup bp 4))
                else (0, snd (pullup bp 4)))"
  using pullup_fst [of bp 4]
  by (cases "pullup bp 4"; cases "content bp"; cases "tl (content bp)"; cases "tl (tl (content bp))";
      cases "tl (tl (tl (content bp)))")
     (auto simp: pull32_def eval_nat_numeral)

section \<open>What the buffer layer promises\<close>

text \<open>\<^verbatim>\<open>dup_p\<close> never returns other bytes than the asked range: the count it returns is the number
  of bytes of the duplicate, these are a prefix of the bytes from \<open>offset\<close> on, at most \<open>cnt\<close> of
  them, and all of the range when no header allocation fails.\<close>
theorem dup_p_range:
  "fst (dup_p avail bp offset cnt) = length (content (snd (dup_p avail bp offset cnt))) \<and>
   (\<exists>k \<le> cnt. content (snd (dup_p avail bp offset cnt)) = take k (drop offset (content bp))) \<and>
   (length bp \<le> avail \<longrightarrow>
      content (snd (dup_p avail bp offset cnt)) = take cnt (drop offset (content bp)))"
  using dup_p_count dup_p_prefix dup_p_enough by blast

lemma dup_p_range_witness:
  "content (snd (dup_p 3 [[1, 2], [], [3, 4, 5]] 1 3)) = [2, 3, 4]"
  using dup_p_range [of 3 "[[1, 2], [], [3, 4, 5]]" 1 3] by simp

text \<open>The packet primitives act on the bytes of the packet alone, whatever its cut into mbufs:
  \<^verbatim>\<open>pullup\<close> undoes \<^verbatim>\<open>pushdown\<close>, \<^verbatim>\<open>extract\<close> reads what \<^verbatim>\<open>dup_p\<close> would share, \<^verbatim>\<open>trim_mbuf\<close> keeps a
  prefix and \<^verbatim>\<open>append\<close> concatenates.\<close>
theorem mbuf_content_laws:
  "fst (pullup (pushdown fits buf bp) (length buf)) = buf \<and>
   content (snd (pullup (pushdown fits buf bp) (length buf))) = content bp \<and>
   extract_p bp offset cnt = content (snd (dup_p (length bp) bp offset cnt)) \<and>
   content (trim_mbuf bp n) = fst (pullup bp n) \<and>
   fst (pullup bp n) @ content (snd (pullup bp n)) = content bp \<and>
   content (append_p bp bp') = content bp @ content bp' \<and>
   len_p (trim_mbuf bp n) = min n (len_p bp)"
  by (intro conjI) (simp_all add: mb.pull_push mb.rest_push mb.pull_all content_simps)

text \<open>A queue of packets is first in, first out: of the packets put on an empty queue, the
  \<open>n\<close>-th \<^verbatim>\<open>dequeue\<close> returns the \<open>n\<close>-th, and a NULL packet is never stored.\<close>
theorem queue_fifo:
  assumes "[] \<notin> set ps" and "n < length ps"
  shows "fst (dequeue (((\<lambda>q. snd (dequeue q)) ^^ n) (foldl enqueue [] ps))) = ps ! n \<and>
         enqueue (foldl enqueue [] ps) [] = foldl enqueue [] ps"
  using mq.fifo_order [OF assms(1) _ assms(2), of "[]"] mq.enq_null
  by (simp add: mq.drains_def)

lemma queue_fifo_witness:
  "fst (dequeue (((\<lambda>q. snd (dequeue q)) ^^ 1) (foldl enqueue [] [[[1]], [[2], [3]]]))) = [[2], [3]]"
  using queue_fifo [of "[[[1]], [[2], [3]]]" 1] by simp

end
