(* ===== verification/Crc.thy ===== *)
theory Crc
  imports Mbuf
begin

text \<open>
  The frame check sequences of \<^verbatim>\<open>src/src/crc.c\<close> and \<^verbatim>\<open>src/lib/calc_crc.c\<close>: CRC-16 (SMACK),
  the RMNC/FlexNet variant and CRC-CCITT (AXIP).  The C accumulator is an \<^verbatim>\<open>int\<close>; it is a 32-bit
  word here, because the RMNC variant shifts it left and only its low half is compared.

  Shown: the two tables with a generator polynomial are the bit-serial division; each append
  leads the check to its residue (so a frame that was sealed is accepted and gives back its
  bytes, whatever the cut into mbufs); and a change confined to two consecutive bytes is never
  accepted.  The locale \<open>frame_check\<close> states what the three variants share.
\<close>

section \<open>The tables\<close>

definition Crc_16_table :: "u32 list" where
  "Crc_16_table =
  [0x0000, 0xc0c1, 0xc181, 0x0140, 0xc301, 0x03c0, 0x0280, 0xc241,
   0xc601, 0x06c0, 0x0780, 0xc741, 0x0500, 0xc5c1, 0xc481, 0x0440,
   0xcc01, 0x0cc0, 0x0d80, 0xcd41, 0x0f00, 0xcfc1, 0xce81, 0x0e40,
   0x0a00, 0xcac1, 0xcb81, 0x0b40, 0xc901, 0x09c0, 0x0880, 0xc841,
   0xd801, 0x18c0, 0x1980, 0xd941, 0x1b00, 0xdbc1, 0xda81, 0x1a40,
   0x1e00, 0xdec1, 0xdf81, 0x1f40, 0xdd01, 0x1dc0, 0x1c80, 0xdc41,
   0x1400, 0xd4c1, 0xd581, 0x1540, 0xd701, 0x17c0, 0x1680, 0xd641,
   0xd201, 0x12c0, 0x1380, 0xd341, 0x1100, 0xd1c1, 0xd081, 0x1040,
   0xf001, 0x30c0, 0x3180, 0xf141, 0x3300, 0xf3c1, 0xf281, 0x3240,
   0x3600, 0xf6c1, 0xf781, 0x3740, 0xf501, 0x35c0, 0x3480, 0xf441,
   0x3c00, 0xfcc1, 0xfd81, 0x3d40, 0xff01, 0x3fc0, 0x3e80, 0xfe41,
   0xfa01, 0x3ac0, 0x3b80, 0xfb41, 0x3900, 0xf9c1, 0xf881, 0x3840,
   0x2800, 0xe8c1, 0xe981, 0x2940, 0xeb01, 0x2bc0, 0x2a80, 0xea41,
   0xee01, 0x2ec0, 0x2f80, 0xef41, 0x2d00, 0xedc1, 0xec81, 0x2c40,
   0xe401, 0x24c0, 0x2580, 0xe541, 0x2700, 0xe7c1, 0xe681, 0x2640,
   0x2200, 0xe2c1, 0xe381, 0x2340, 0xe101, 0x21c0, 0x2080, 0xe041,
   0xa001, 0x60c0, 0x6180, 0xa141, 0x6300, 0xa3c1, 0xa281, 0x6240,
   0x6600, 0xa6c1, 0xa781, 0x6740, 0xa501, 0x65c0, 0x6480, 0xa441,
   0x6c00, 0xacc1, 0xad81, 0x6d40, 0xaf01, 0x6fc0, 0x6e80, 0xae41,
   0xaa01, 0x6ac0, 0x6b80, 0xab41, 0x6900, 0xa9c1, 0xa881, 0x6840,
   0x7800, 0xb8c1, 0xb981, 0x7940, 0xbb01, 0x7bc0, 0x7a80, 0xba41,
   0xbe01, 0x7ec0, 0x7f80, 0xbf41, 0x7d00, 0xbdc1, 0xbc81, 0x7c40,
   0xb401, 0x74c0, 0x7580, 0xb541, 0x7700, 0xb7c1, 0xb681, 0x7640,
   0x7200, 0xb2c1, 0xb381, 0x7340, 0xb101, 0x71c0, 0x7080, 0xb041,
   0x5000, 0x90c1, 0x9181, 0x5140, 0x9301, 0x53c0, 0x5280, 0x9241,
   0x9601, 0x56c0, 0x5780, 0x9741, 0x5500, 0x95c1, 0x9481, 0x5440,
   0x9c01, 0x5cc0, 0x5d80, 0x9d41, 0x5f00, 0x9fc1, 0x9e81, 0x5e40,
   0x5a00, 0x9ac1, 0x9b81, 0x5b40, 0x9901, 0x59c0, 0x5880, 0x9841,
   0x8801, 0x48c0, 0x4980, 0x8941, 0x4b00, 0x8bc1, 0x8a81, 0x4a40,
   0x4e00, 0x8ec1, 0x8f81, 0x4f40, 0x8d01, 0x4dc0, 0x4c80, 0x8c41,
   0x4400, 0x84c1, 0x8581, 0x4540, 0x8701, 0x47c0, 0x4680, 0x8641,
   0x8201, 0x42c0, 0x4380, 0x8341, 0x4100, 0x81c1, 0x8081, 0x4040]"

definition Crc_rmnc_table :: "u32 list" where
  "Crc_rmnc_table =
  [0x0f87, 0x1e0e, 0x2c95, 0x3d1c, 0x49a3, 0x582a, 0x6ab1, 0x7b38,
   0x83cf, 0x9246, 0xa0dd, 0xb154, 0xc5eb, 0xd462, 0xe6f9, 0xf770,
   0x1f06, 0x0e8f, 0x3c14, 0x2d9d, 0x5922, 0x48ab, 0x7a30, 0x6bb9,
   0x934e, 0x82c7, 0xb05c, 0xa1d5, 0xd56a, 0xc4e3, 0xf678, 0xe7f1,
   0x2e85, 0x3f0c, 0x0d97, 0x1c1e, 0x68a1, 0x7928, 0x4bb3, 0x5a3a,
   0xa2cd, 0xb344, 0x81df, 0x9056, 0xe4e9, 0xf560, 0xc7fb, 0xd672,
   0x3e04, 0x2f8d, 0x1d16, 0x0c9f, 0x7820, 0x69a9, 0x5b32, 0x4abb,
   0xb24c, 0xa3c5, 0x915e, 0x80d7, 0xf468, 0xe5e1, 0xd77a, 0xc6f3,
   0x4d83, 0x5c0a, 0x6e91, 0x7f18, 0x0ba7, 0x1a2e, 0x28b5, 0x393c,
   0xc1cb, 0xd042, 0xe2d9, 0xf350, 0x87ef, 0x9666, 0xa4fd, 0xb574,
   0x5d02, 0x4c8b, 0x7e10, 0x6f99, 0x1b26, 0x0aaf, 0x3834, 0x29bd,
   0xd14a, 0xc0c3, 0xf258, 0xe3d1, 0x976e, 0x86e7, 0xb47c, 0xa5f5,
   0x6c81, 0x7d08, 0x4f93, 0x5e1a, 0x2aa5, 0x3b2c, 0x09b7, 0x183e,
   0xe0c9, 0xf140, 0xc3db, 0xd252, 0xa6ed, 0xb764, 0x85ff, 0x9476,
   0x7c00, 0x6d89, 0x5f12, 0x4e9b, 0x3a24, 0x2bad, 0x1936, 0x08bf,
   0xf048, 0xe1c1, 0xd35a, 0xc2d3, 0xb66c, 0xa7e5, 0x957e, 0x84f7,
   0x8b8f, 0x9a06, 0xa89d, 0xb914, 0xcdab, 0xdc22, 0xeeb9, 0xff30,
   0x07c7, 0x164e, 0x24d5, 0x355c, 0x41e3, 0x506a, 0x62f1, 0x7378,
   0x9b0e, 0x8a87, 0xb81c, 0xa995, 0xdd2a, 0xcca3, 0xfe38, 0xefb1,
   0x1746, 0x06cf, 0x3454, 0x25dd, 0x5162, 0x40eb, 0x7270, 0x63f9,
   0xaa8d, 0xbb04, 0x899f, 0x9816, 0xeca9, 0xfd20, 0xcfbb, 0xde32,
   0x26c5, 0x374c, 0x05d7, 0x145e, 0x60e1, 0x7168, 0x43f3, 0x527a,
   0xba0c, 0xab85, 0x991e, 0x8897, 0xfc28, 0xeda1, 0xdf3a, 0xceb3,
   0x3644, 0x27cd, 0x1556, 0x04df, 0x7060, 0x61e9, 0x5372, 0x42fb,
   0xc98b, 0xd802, 0xea99, 0xfb10, 0x8faf, 0x9e26, 0xacbd, 0xbd34,
   0x45c3, 0x544a, 0x66d1, 0x7758, 0x03e7, 0x126e, 0x20f5, 0x317c,
   0xd90a, 0xc883, 0xfa18, 0xeb91, 0x9f2e, 0x8ea7, 0xbc3c, 0xadb5,
   0x5542, 0x44cb, 0x7650, 0x67d9, 0x1366, 0x02ef, 0x3074, 0x21fd,
   0xe889, 0xf900, 0xcb9b, 0xda12, 0xaead, 0xbf24, 0x8dbf, 0x9c36,
   0x64c1, 0x7548, 0x47d3, 0x565a, 0x22e5, 0x336c, 0x01f7, 0x107e,
   0xf808, 0xe981, 0xdb1a, 0xca93, 0xbe2c, 0xafa5, 0x9d3e, 0x8cb7,
   0x7440, 0x65c9, 0x5752, 0x46db, 0x3264, 0x23ed, 0x1176, 0x00ff]"

definition Crc_ccitt_table :: "u32 list" where
  "Crc_ccitt_table =
  [0x0000, 0x1189, 0x2312, 0x329b, 0x4624, 0x57ad, 0x6536, 0x74bf,
   0x8c48, 0x9dc1, 0xaf5a, 0xbed3, 0xca6c, 0xdbe5, 0xe97e, 0xf8f7,
   0x1081, 0x0108, 0x3393, 0x221a, 0x56a5, 0x472c, 0x75b7, 0x643e,
   0x9cc9, 0x8d40, 0xbfdb, 0xae52, 0xdaed, 0xcb64, 0xf9ff, 0xe876,
   0x2102, 0x308b, 0x0210, 0x1399, 0x6726, 0x76af, 0x4434, 0x55bd,
   0xad4a, 0xbcc3, 0x8e58, 0x9fd1, 0xeb6e, 0xfae7, 0xc87c, 0xd9f5,
   0x3183, 0x200a, 0x1291, 0x0318, 0x77a7, 0x662e, 0x54b5, 0x453c,
   0xbdcb, 0xac42, 0x9ed9, 0x8f50, 0xfbef, 0xea66, 0xd8fd, 0xc974,
   0x4204, 0x538d, 0x6116, 0x709f, 0x0420, 0x15a9, 0x2732, 0x36bb,
   0xce4c, 0xdfc5, 0xed5e, 0xfcd7, 0x8868, 0x99e1, 0xab7a, 0xbaf3,
   0x5285, 0x430c, 0x7197, 0x601e, 0x14a1, 0x0528, 0x37b3, 0x263a,
   0xdecd, 0xcf44, 0xfddf, 0xec56, 0x98e9, 0x8960, 0xbbfb, 0xaa72,
   0x6306, 0x728f, 0x4014, 0x519d, 0x2522, 0x34ab, 0x0630, 0x17b9,
   0xef4e, 0xfec7, 0xcc5c, 0xddd5, 0xa96a, 0xb8e3, 0x8a78, 0x9bf1,
   0x7387, 0x620e, 0x5095, 0x411c, 0x35a3, 0x242a, 0x16b1, 0x0738,
   0xffcf, 0xee46, 0xdcdd, 0xcd54, 0xb9eb, 0xa862, 0x9af9, 0x8b70,
   0x8408, 0x9581, 0xa71a, 0xb693, 0xc22c, 0xd3a5, 0xe13e, 0xf0b7,
   0x0840, 0x19c9, 0x2b52, 0x3adb, 0x4e64, 0x5fed, 0x6d76, 0x7cff,
   0x9489, 0x8500, 0xb79b, 0xa612, 0xd2ad, 0xc324, 0xf1bf, 0xe036,
   0x18c1, 0x0948, 0x3bd3, 0x2a5a, 0x5ee5, 0x4f6c, 0x7df7, 0x6c7e,
   0xa50a, 0xb483, 0x8618, 0x9791, 0xe32e, 0xf2a7, 0xc03c, 0xd1b5,
   0x2942, 0x38cb, 0x0a50, 0x1bd9, 0x6f66, 0x7eef, 0x4c74, 0x5dfd,
   0xb58b, 0xa402, 0x9699, 0x8710, 0xf3af, 0xe226, 0xd0bd, 0xc134,
   0x39c3, 0x284a, 0x1ad1, 0x0b58, 0x7fe7, 0x6e6e, 0x5cf5, 0x4d7c,
   0xc60c, 0xd785, 0xe51e, 0xf497, 0x8028, 0x91a1, 0xa33a, 0xb2b3,
   0x4a44, 0x5bcd, 0x6956, 0x78df, 0x0c60, 0x1de9, 0x2f72, 0x3efb,
   0xd68d, 0xc704, 0xf59f, 0xe416, 0x90a9, 0x8120, 0xb3bb, 0xa232,
   0x5ac5, 0x4b4c, 0x79d7, 0x685e, 0x1ce1, 0x0d68, 0x3ff3, 0x2e7a,
   0xe70e, 0xf687, 0xc41c, 0xd595, 0xa12a, 0xb0a3, 0x8238, 0x93b1,
   0x6b46, 0x7acf, 0x4854, 0x59dd, 0x2d62, 0x3ceb, 0x0e70, 0x1ff9,
   0xf78f, 0xe606, 0xd49d, 0xc514, 0xb1ab, 0xa022, 0x92b9, 0x8330,
   0x7bc7, 0x6a4e, 0x58d5, 0x495c, 0x3de3, 0x2c6a, 0x1ef1, 0x0f78]"

section \<open>The checksums over a packet\<close>

definition crc_16_step :: "u32 \<Rightarrow> byte \<Rightarrow> u32" where
  "crc_16_step crc p = drop_bit 8 crc XOR Crc_16_table ! unat ((crc XOR ucast p) AND 0xff)"

definition crc_rmnc_step :: "u32 \<Rightarrow> byte \<Rightarrow> u32" where
  "crc_rmnc_step crc p =
     push_bit 8 crc XOR Crc_rmnc_table ! unat ((drop_bit 8 crc XOR ucast p) AND 0xff)"

definition crc_ccitt_step :: "u32 \<Rightarrow> byte \<Rightarrow> u32" where
  "crc_ccitt_step crc p = drop_bit 8 crc XOR Crc_ccitt_table ! unat ((crc XOR ucast p) AND 0xff)"

text \<open>The two nested loops over the mbufs of a chain and the bytes of an mbuf.\<close>

fun crc_chain :: "(u32 \<Rightarrow> byte \<Rightarrow> u32) \<Rightarrow> u32 \<Rightarrow> chain \<Rightarrow> u32" where
  "crc_chain step crc [] = crc"
| "crc_chain step crc (s # bp) = crc_chain step (foldl step crc s) bp"

text \<open>The end of the three checks: cut the last two bytes off, wherever they lie.\<close>

fun cut_loop :: "chain \<Rightarrow> nat \<Rightarrow> chain" where
  "cut_loop [] cnt = []"
| "cut_loop (s # bp) cnt =
     (if length s < cnt then s # cut_loop bp (cnt - length s) else [take cnt s])"

text \<open>
  \<^verbatim>\<open>append_crc_16\<close>, \<^verbatim>\<open>append_crc_rmnc\<close>, \<^verbatim>\<open>append_crc_ccitt\<close>: \<open>mem\<close> says whether the mbuf for the two
  bytes could be allocated; without it the frame is left as it is.  The checks return
  \<open>None\<close> for -1 and the shortened packet for 0.
\<close>

definition append_crc_16 :: "bool \<Rightarrow> chain \<Rightarrow> chain" where
  "append_crc_16 mem bp =
     (if bp = [] then []
      else let crc = crc_chain crc_16_step 0 bp
           in if \<not> mem then bp else bp @ [[ucast crc, ucast (drop_bit 8 crc)]])"

definition check_crc_16 :: "chain \<Rightarrow> chain option" where
  "check_crc_16 head =
     (let cnt = len_p head; crc = crc_chain crc_16_step 0 head
      in if crc \<noteq> 0 \<or> cnt < 3 then None else Some (cut_loop head (cnt - 2)))"

definition append_crc_rmnc :: "bool \<Rightarrow> chain \<Rightarrow> chain" where
  "append_crc_rmnc mem bp =
     (if bp = [] then []
      else let crc = crc_chain crc_rmnc_step 0xffff bp
           in if \<not> mem then bp else bp @ [[ucast (drop_bit 8 crc), ucast crc]])"

definition check_crc_rmnc :: "chain \<Rightarrow> chain option" where
  "check_crc_rmnc head =
     (let cnt = len_p head; crc = crc_chain crc_rmnc_step 0xffff head
      in if crc AND 0xffff \<noteq> 0x7070 \<or> cnt < 3 then None else Some (cut_loop head (cnt - 2)))"

definition append_crc_ccitt :: "bool \<Rightarrow> chain \<Rightarrow> chain" where
  "append_crc_ccitt mem bp =
     (if bp = [] then []
      else let crc = crc_chain crc_ccitt_step 0xffff bp XOR 0xffff
           in if \<not> mem then bp else bp @ [[ucast crc, ucast (drop_bit 8 crc)]])"

definition check_crc_ccitt :: "byte list \<Rightarrow> bool" where
  "check_crc_ccitt buf = (foldl crc_ccitt_step 0xffff buf AND 0xffff = 0xf0b8)"

text \<open>\<^verbatim>\<open>calc_crc_16\<close> hashes a null-terminated string; the argument is the string before the null.\<close>

definition calc_crc_16 :: "byte list \<Rightarrow> u32" where
  "calc_crc_16 str =
     foldl (\<lambda>crc c. (drop_bit 8 crc AND 0xff) XOR Crc_16_table ! unat ((crc XOR scast c) AND 0xff)) 0 str"

lemma crc_chain_content: "crc_chain step crc bp = foldl step crc (content bp)"
  by (induction bp arbitrary: crc) auto

lemma cut_loop_content [content_simps]: "content (cut_loop bp cnt) = take cnt (content bp)"
  by (induction bp arbitrary: cnt) auto

section \<open>The tables are the bit-serial division\<close>

text \<open>One bit of a division with the reflected generator polynomial \<open>P\<close>.\<close>

definition rbit :: "u32 \<Rightarrow> u32 \<Rightarrow> u32" where
  "rbit P c = (if bit c 0 then drop_bit 1 c XOR P else drop_bit 1 c)"

definition rbyte :: "u32 \<Rightarrow> u32 \<Rightarrow> u32" where
  "rbyte P c = rbit P (rbit P (rbit P (rbit P (rbit P (rbit P (rbit P (rbit P c)))))))"

lemma rbit_xor: "rbit P (a XOR b) = rbit P a XOR rbit P b"
  by (simp add: rbit_def drop_bit_xor bit_simps ac_simps)

lemma rbyte_xor: "rbyte P (a XOR b) = rbyte P a XOR rbyte P b"
  by (simp add: rbyte_def rbit_xor)

lemma rbit_even: "\<not> bit c 0 \<Longrightarrow> rbit P c = drop_bit 1 c"
  by (simp add: rbit_def)

lemma ff_mask: "(0xff :: u32) = mask 8"
  by (simp add: mask_eq_exp_minus_1)

lemma rbyte_high:
  assumes "c AND 0xff = 0"
  shows "rbyte P c = drop_bit 8 c"
proof -
  have "\<not> bit c k" if "k < 8" for k
  proof -
    have "bit (c AND mask 8) k = bit c k" using that by (simp add: bit_simps)
    then show ?thesis using assms by (simp add: ff_mask)
  qed
  then show ?thesis
    by (simp add: rbyte_def rbit_even bit_drop_bit_eq eval_nat_numeral)
qed

lemma rbyte_split: "rbyte P c = drop_bit 8 c XOR rbyte P (c AND 0xff)"
proof -
  have "c = (c AND NOT 0xff) XOR (c AND 0xff)"
    by (rule bit_word_eqI) (auto simp: bit_simps)
  then have "rbyte P c = rbyte P (c AND NOT 0xff) XOR rbyte P (c AND 0xff)"
    by (metis rbyte_xor)
  also have "rbyte P (c AND NOT 0xff) = drop_bit 8 (c AND NOT 0xff)"
    by (rule rbyte_high) (simp add: ac_simps)
  also have "\<dots> = drop_bit 8 c"
    unfolding ff_mask by (rule bit_word_eqI) (auto simp: bit_simps dest: bit_imp_le_length)
  finally show ?thesis .
qed

text \<open>Doubling: the entries from \<open>2 ^ k\<close> on are the first ones xored with one more entry.\<close>

lemma rbyte_double:
  assumes "k < 8"
  shows "map (\<lambda>i. rbyte P (of_nat i)) [0..<2 ^ Suc k] =
         map (\<lambda>i. rbyte P (of_nat i)) [0..<2 ^ k] @
         map (\<lambda>x. rbyte P (2 ^ k) XOR x) (map (\<lambda>i. rbyte P (of_nat i)) [0..<2 ^ k])"
proof -
  have "(of_nat (2 ^ k + i) :: u32) = 2 ^ k XOR of_nat i" if "i < 2 ^ k" for i
  proof -
    have "take_bit k i = i" using that by (rule take_bit_nat_eq_self)
    then have "\<not> bit i n" if "k \<le> n" for n
      by (metis bit_take_bit_iff that linorder_not_less)
    then have "(2 ^ k :: u32) AND of_nat i = 0"
      by (auto intro!: bit_word_eqI simp: bit_simps)
    then show ?thesis
      by (simp add: disjunctive_add_eq_xor)
  qed
  moreover have "[0..<2 ^ Suc k] = [0..<2 ^ k] @ map (\<lambda>i. 2 ^ k + i) [0..<2 ^ k]"
    using upt_add_eq_append [of 0 "2 ^ k" "2 ^ k"] map_add_upt [of "2 ^ k" "2 ^ k"]
    by (simp add: add.commute mult_2)
  ultimately show ?thesis
    by (simp add: rbyte_xor cong: map_cong)
qed

lemma rbyte_0: "rbyte P 0 = 0"
  by (simp add: rbyte_def rbit_def)

lemma rbyte_doubling:
  "k \<le> 8 \<Longrightarrow> map (\<lambda>i. rbyte P (of_nat i)) [0..<2 ^ k] =
     foldl (\<lambda>t p. t @ map (\<lambda>x. p XOR x) t) [0] (map (\<lambda>j. rbyte P (2 ^ j)) [0..<k])"
proof (induction k)
  case (Suc k)
  then show ?case using rbyte_double [of k P] by (simp del: map_map)
qed (simp add: rbyte_0)

lemma rbyte_table:
  assumes "rbyte P 1 = p0" "rbyte P 2 = p1" "rbyte P 4 = p2" "rbyte P 8 = p3"
    "rbyte P 16 = p4" "rbyte P 32 = p5" "rbyte P 64 = p6" "rbyte P 128 = p7"
  shows "map (\<lambda>i. rbyte P (of_nat i)) [0..<256] =
    foldl (\<lambda>t p. t @ map (\<lambda>x. p XOR x) t) [0] [p0, p1, p2, p3, p4, p5, p6, p7]"
proof -
  have "map (\<lambda>j. rbyte P (2 ^ j)) [0..<8] = [p0, p1, p2, p3, p4, p5, p6, p7]"
    using assms by (simp add: upt_rec [of _ 8])
  then show ?thesis using rbyte_doubling [of 8 P] by simp
qed

lemma Crc_16_table_bits: "Crc_16_table = map (\<lambda>i. rbyte 0xa001 (of_nat i)) [0..<256]"
proof -
  have powers: "rbyte 0xa001 1 = 0xc0c1"
    "rbyte 0xa001 2 = 0xc181"
    "rbyte 0xa001 4 = 0xc301"
    "rbyte 0xa001 8 = 0xc601"
    "rbyte 0xa001 16 = 0xcc01"
    "rbyte 0xa001 32 = 0xd801"
    "rbyte 0xa001 64 = 0xf001"
    "rbyte 0xa001 128 = 0xa001"
    by (simp_all add: rbyte_def rbit_def)
  show ?thesis
    unfolding rbyte_table [OF powers] Crc_16_table_def by simp
qed

lemma Crc_ccitt_table_bits: "Crc_ccitt_table = map (\<lambda>i. rbyte 0x8408 (of_nat i)) [0..<256]"
proof -
  have powers: "rbyte 0x8408 1 = 0x1189"
    "rbyte 0x8408 2 = 0x2312"
    "rbyte 0x8408 4 = 0x4624"
    "rbyte 0x8408 8 = 0x8c48"
    "rbyte 0x8408 16 = 0x1081"
    "rbyte 0x8408 32 = 0x2102"
    "rbyte 0x8408 64 = 0x4204"
    "rbyte 0x8408 128 = 0x8408"
    by (simp_all add: rbyte_def rbit_def)
  show ?thesis
    unfolding rbyte_table [OF powers] Crc_ccitt_table_def by simp
qed

lemma Crc_rmnc_table_ccitt: "Crc_rmnc_table = map (\<lambda>x. x XOR 0x0f87) Crc_ccitt_table"
  unfolding Crc_rmnc_table_def Crc_ccitt_table_def by simp

lemma low_byte_lt: "(c AND 0xff :: u32) < 256"
  unfolding ff_mask using and_mask_less' [of 8 c] by simp

lemma unat_low_byte: "unat (c AND 0xff :: u32) < 256"
  using low_byte_lt [of c] unfolding word_less_nat_alt by simp

lemma table_index:
  assumes "T = map (\<lambda>i. rbyte P (of_nat i)) [0..<256]"
  shows "T ! unat (c AND 0xff :: u32) = rbyte P (c AND 0xff)"
  using unat_low_byte [of c] by (simp add: assms)

lemma ucast_low: "(ucast (p :: byte) :: u32) AND 0xff = ucast p"
  unfolding ff_mask by (rule bit_word_eqI) (auto simp: bit_simps dest: bit_imp_le_length)

lemma ucast_high: "drop_bit 8 (ucast (p :: byte) :: u32) = 0"
  by (rule bit_word_eqI) (auto simp: bit_simps dest: bit_imp_le_length)

lemma reflected_step:
  assumes "T = map (\<lambda>i. rbyte P (of_nat i)) [0..<256]"
  shows "drop_bit 8 c XOR T ! unat ((c XOR ucast (p :: byte)) AND 0xff) = rbyte P (c XOR ucast p)"
  using rbyte_split [of P "c XOR ucast p"]
  by (simp add: table_index [OF assms] drop_bit_xor ucast_high)

lemma crc_16_step_bits: "crc_16_step c p = rbyte 0xa001 (c XOR ucast p)"
  unfolding crc_16_step_def by (rule reflected_step [OF Crc_16_table_bits])

lemma crc_ccitt_step_bits: "crc_ccitt_step c p = rbyte 0x8408 (c XOR ucast p)"
  unfolding crc_ccitt_step_def by (rule reflected_step [OF Crc_ccitt_table_bits])

lemma crc_rmnc_step_bits:
  "crc_rmnc_step c p =
     push_bit 8 c XOR rbyte 0x8408 ((drop_bit 8 c XOR ucast p) AND 0xff) XOR 0x0f87"
  using unat_low_byte [of "drop_bit 8 c XOR ucast p"]
  by (simp add: crc_rmnc_step_def Crc_rmnc_table_ccitt Crc_ccitt_table_bits ac_simps)

section \<open>The contract of a frame check sequence\<close>

text \<open>
  \<open>inv\<close> bounds the accumulator, \<open>key\<close> is the part of it the check compares, \<open>fcs\<close> the two bytes
  appended, \<open>good\<close> the residue of a sealed frame.
\<close>

locale frame_check =
  fixes step :: "u32 \<Rightarrow> byte \<Rightarrow> u32" and inv :: "u32 \<Rightarrow> bool" and key :: "u32 \<Rightarrow> u32"
    and fcs :: "u32 \<Rightarrow> byte list" and good :: u32
  assumes inv_step: "inv c \<Longrightarrow> inv (step c b)"
    and residue: "inv c \<Longrightarrow> key (foldl step c (fcs c)) = good"
    and fcs_length: "length (fcs c) = 2"
begin

lemma inv_foldl: "inv c \<Longrightarrow> inv (foldl step c bs)"
  by (induction bs arbitrary: c) (auto simp: inv_step)

lemma sealed: "inv c \<Longrightarrow> key (foldl step c (bs @ fcs (foldl step c bs))) = good"
  by (simp only: foldl_append residue inv_foldl)

end

text \<open>A variant that keeps apart what a change of two consecutive bytes has set apart.\<close>

locale burst_check = frame_check step inv key fcs good
  for step :: "u32 \<Rightarrow> byte \<Rightarrow> u32" and inv :: "u32 \<Rightarrow> bool" and key :: "u32 \<Rightarrow> u32"
    and fcs :: "u32 \<Rightarrow> byte list" and good :: u32 +
  assumes step_inj: "inv c \<Longrightarrow> inv d \<Longrightarrow> key (step c b) = key (step d b) \<Longrightarrow> key c = key d"
    and pair_inj: "inv c \<Longrightarrow> key (step (step c x) y) = key (step (step c x') y') \<Longrightarrow> x = x' \<and> y = y'"
begin

lemma foldl_inj: "inv c \<Longrightarrow> inv d \<Longrightarrow> key (foldl step c bs) = key (foldl step d bs) \<Longrightarrow> key c = key d"
  proof (induction bs arbitrary: c d)
  case (Cons b bs)
  have "inv (step c b)" "inv (step d b)" using Cons.prems by (simp_all add: inv_step)
  then have "key (step c b) = key (step d b)"
    by (rule Cons.IH) (use Cons.prems(3) in \<open>simp only: foldl.simps\<close>)
  then show ?case by (rule step_inj [OF Cons.prems(1,2)])
qed simp

lemma burst:
  assumes "inv c" "key (foldl step c (p @ [x, y] @ s)) = key (foldl step c (p @ [x', y'] @ s))"
  shows "x = x' \<and> y = y'"
proof -
  let ?d = "foldl step c p"
  have d: "inv ?d" using assms(1) by (rule inv_foldl)
  have eq: "key (foldl step (step (step ?d x) y) s) = key (foldl step (step (step ?d x') y') s)"
    using assms(2) by simp
  have "key (step (step ?d x) y) = key (step (step ?d x') y')"
    by (rule foldl_inj [OF _ _ eq]) (intro inv_step d)+
  with d show ?thesis by (rule pair_inj)
qed

end

section \<open>The three variants keep the contract\<close>

definition hi0 :: "u32 \<Rightarrow> bool" where
  "hi0 c = (drop_bit 16 c = 0)"

lemma xor_zero: "(a :: u32) XOR b = 0 \<longleftrightarrow> a = b"
proof
  assume "a XOR b = 0"
  then have "bit (a XOR b) n = False" for n by simp
  then show "a = b" by (auto intro!: bit_word_eqI simp: bit_simps)
qed simp

lemma xor_cancel_right: "(a :: u32) XOR c = b XOR c \<longleftrightarrow> a = b"
  by (auto simp: bit_eq_iff bit_simps)

lemma xor_cancel_left: "(c :: u32) XOR a = c XOR b \<longleftrightarrow> a = b"
  by (auto simp: bit_eq_iff bit_simps)

lemma hi0_take: "hi0 c \<Longrightarrow> take_bit 16 c = c"
  using bits_ident [of 16 c] by (simp add: hi0_def)

lemma hi0_xor: "hi0 a \<Longrightarrow> hi0 b \<Longrightarrow> hi0 (a XOR b)"
  by (simp add: hi0_def drop_bit_xor)

lemma hi0_drop: "hi0 a \<Longrightarrow> hi0 (drop_bit n a)"
proof -
  assume "hi0 a"
  then have "drop_bit n (drop_bit 16 a) = 0" by (simp add: hi0_def)
  then show ?thesis by (simp add: hi0_def add.commute)
qed

lemma hi0_ucast: "hi0 (ucast (b :: byte))"
  unfolding hi0_def by (rule bit_word_eqI) (auto simp: bit_simps dest: bit_imp_le_length)

lemma hi0_rbit: "hi0 P \<Longrightarrow> hi0 c \<Longrightarrow> hi0 (rbit P c)"
  by (simp add: rbit_def hi0_xor hi0_drop)

lemma hi0_rbyte: "hi0 P \<Longrightarrow> hi0 c \<Longrightarrow> hi0 (rbyte P c)"
  by (simp add: rbyte_def hi0_rbit)

lemma rbit_zero:
  assumes "rbit P e = 0" "hi0 e" "bit P 15"
  shows "e = 0"
proof (cases "bit e 0")
  case True
  then have "drop_bit 1 e = P" using assms(1) by (simp add: rbit_def xor_zero)
  moreover have "bit (drop_bit 1 e) 15 = bit e 16" by (simp add: bit_drop_bit_eq)
  ultimately have "bit e 16" using assms(3) by simp
  moreover have "bit e 16 = bit (drop_bit 16 e) 0" by (simp add: bit_drop_bit_eq)
  ultimately show ?thesis using assms(2) by (simp add: hi0_def)
next
  case False
  then have "drop_bit 1 e = 0" using assms(1) by (simp add: rbit_def)
  then have "push_bit 1 (drop_bit 1 e) = 0" by (simp only: push_bit_of_0)
  moreover have "take_bit 1 e = 0" using False by (simp add: take_bit_Suc bit_0 even_iff_mod_2_eq_zero)
  ultimately show ?thesis using bits_ident [of 1 e] by simp
qed

lemma rbyte_zero: "rbyte P e = 0 \<Longrightarrow> hi0 P \<Longrightarrow> hi0 e \<Longrightarrow> bit P 15 \<Longrightarrow> e = 0"
  unfolding rbyte_def by (elim rbit_zero [THEN rbit_zero [THEN rbit_zero [THEN rbit_zero
    [THEN rbit_zero [THEN rbit_zero [THEN rbit_zero [THEN rbit_zero]]]]]]]) (simp_all add: hi0_rbit)

lemma rbyte_inj: "rbyte P c = rbyte P d \<Longrightarrow> hi0 P \<Longrightarrow> hi0 c \<Longrightarrow> hi0 d \<Longrightarrow> bit P 15 \<Longrightarrow> c = d"
  using rbyte_zero [of P "c XOR d"] by (simp add: rbyte_xor hi0_xor xor_zero)

lemma Crc_16_table_high: "list_all (\<lambda>x. drop_bit 8 x \<noteq> 0) (tl Crc_16_table)"
  unfolding Crc_16_table_def by simp

lemma Crc_ccitt_table_high: "list_all (\<lambda>x. drop_bit 8 x \<noteq> 0) (tl Crc_ccitt_table)"
  unfolding Crc_ccitt_table_def by simp

lemma table_nonzero:
  assumes "list_all Q (tl T)" "T = map (\<lambda>i. rbyte P (of_nat i)) [0..<256]" "(z :: byte) \<noteq> 0"
  shows "Q (rbyte P (ucast z))"
proof -
  have z: "unat z < 256" "unat z \<noteq> 0" using assms(3) unat_byte_less [of z] by (simp_all add: unat_eq_0)
  then have "Q (tl T ! (unat z - 1))"
    using assms(1,2) by (simp add: list_all_length)
  moreover have "tl T ! (unat z - 1) = rbyte P (of_nat (unat z))"
    using z by (simp add: assms(2) nth_tl)
  ultimately show ?thesis by (simp add: of_nat_unat)
qed

lemma ucast_byte_inj: "(ucast (y :: byte) :: u32) = ucast y' \<longleftrightarrow> y = y'"
proof
  assume "(ucast y :: u32) = ucast y'"
  then have "unat (ucast y :: u32) = unat (ucast y' :: u32)" by simp
  moreover have "unat (ucast z :: u32) = unat z" for z :: byte
    using unat_byte_less [of z] by (simp add: unsigned_ucast_eq take_bit_nat_eq_self)
  ultimately show "y = y'" by (simp add: word_unat_eq_iff)
qed simp

lemma rbyte_xor_inj:
  assumes P: "hi0 P" "bit P 15" and h: "hi0 c" "hi0 d"
    and eq: "take_bit 16 (rbyte P (c XOR ucast (y :: byte))) = take_bit 16 (rbyte P (d XOR ucast (y' :: byte)))"
  shows "c XOR ucast y = d XOR ucast y'"
proof (rule rbyte_inj [of P])
  have "hi0 (rbyte P (c XOR ucast y))" "hi0 (rbyte P (d XOR ucast y'))"
    using P h by (simp_all add: hi0_rbyte hi0_xor hi0_ucast)
  with eq show "rbyte P (c XOR ucast y) = rbyte P (d XOR ucast y')"
    by (simp only: hi0_take)
qed (use P h in \<open>simp_all add: hi0_xor hi0_ucast\<close>)

lemma reflected_inj:
  assumes st: "\<And>c p. step c p = rbyte P (c XOR ucast (p :: byte))" and P: "hi0 P" "bit P 15"
    and "take_bit 16 (step c b) = take_bit 16 (step d b)" "hi0 c" "hi0 d"
  shows "c = d"
  using rbyte_xor_inj [OF P assms(5,6), of b b] assms(4) by (simp only: st xor_cancel_right)

lemma reflected_pair:
  assumes st: "\<And>c p. step c p = rbyte P (c XOR ucast (p :: byte))" and P: "hi0 P" "bit P 15"
    and T: "T = map (\<lambda>i. rbyte P (of_nat i)) [0..<256]" "list_all (\<lambda>x. drop_bit 8 x \<noteq> 0) (tl T)"
    and eq: "take_bit 16 (step (step c x) y) = take_bit 16 (step (step c x') y')" and c: "hi0 c"
  shows "x = x' \<and> y = y'"
proof -
  let ?a = "rbyte P (c XOR ucast x)" and ?b = "rbyte P (c XOR ucast x')"
  have h: "hi0 ?a" "hi0 ?b" using P c by (simp_all add: hi0_rbyte hi0_xor hi0_ucast)
  have e: "?a XOR ucast y = ?b XOR ucast y'"
    using rbyte_xor_inj [OF P h, of y y'] eq by (simp only: st)
  have "?a XOR ?b = (?a XOR ucast y) XOR (?b XOR ucast y)"
    by (auto simp: bit_eq_iff bit_simps)
  also have "\<dots> = ucast y XOR ucast y'"
    unfolding e by (auto simp: bit_eq_iff bit_simps)
  finally have "drop_bit 8 (?a XOR ?b) = 0" by (simp only: drop_bit_xor ucast_high xor_self_eq)
  moreover have "?a XOR ?b = rbyte P (ucast (x XOR x'))"
  proof -
    have "(c XOR ucast x) XOR (c XOR ucast x') = ucast (x XOR x')"
      by (auto simp: bit_eq_iff bit_simps)
    then show ?thesis by (metis rbyte_xor)
  qed
  ultimately have "drop_bit 8 (rbyte P (ucast (x XOR x'))) = 0" by simp
  then have "x XOR x' = 0" using table_nonzero [OF T(2,1)] by blast
  then have "(ucast (x XOR x') :: u32) = 0" by simp
  then have "(ucast x :: u32) XOR ucast x' = 0" by (simp add: unsigned_xor_eq)
  then have x: "x = x'" by (simp only: xor_zero ucast_byte_inj)
  with e have "y = y'" by (simp only: xor_cancel_left ucast_byte_inj)
  with x show ?thesis by simp
qed

text \<open>The two bytes a reflected variant appends bring the accumulator to a constant.\<close>

lemma ucast_small: "drop_bit 8 z = 0 \<Longrightarrow> ucast (ucast (z :: u32) :: byte) = z"
proof -
  assume z: "drop_bit 8 z = 0"
  have "ucast (ucast z :: byte) = take_bit 8 z"
    by (rule bit_word_eqI) (auto simp: bit_simps)
  also have "\<dots> = z" using bits_ident [of 8 z] z by simp
  finally show ?thesis .
qed

lemma reflected_residue:
  assumes "hi0 c" "c' = c XOR m" "m AND 0xff = m0" "drop_bit 8 m = m1" "drop_bit 8 m1 = 0"
  shows "rbyte P (rbyte P (c XOR ucast (ucast c' :: byte)) XOR ucast (ucast (drop_bit 8 c') :: byte))
         = rbyte P (rbyte P m0 XOR m1)"
proof -
  have "c XOR ucast (ucast c' :: byte) = push_bit 8 (drop_bit 8 c) XOR m0"
    unfolding assms(2) assms(3) [symmetric] ff_mask
    by (rule bit_word_eqI) (auto simp: bit_simps)
  moreover have "rbyte P (push_bit 8 (drop_bit 8 c)) = drop_bit 8 c"
  proof -
    have "push_bit 8 (drop_bit 8 c) AND 0xff = 0"
      unfolding ff_mask by (rule bit_word_eqI) (auto simp: bit_simps)
    moreover have "drop_bit 8 (push_bit 8 (drop_bit 8 c)) = drop_bit 8 c"
      by (rule bit_word_eqI) (auto simp: bit_simps dest: bit_imp_le_length)
    ultimately show ?thesis by (simp add: rbyte_high)
  qed
  ultimately have 1: "rbyte P (c XOR ucast (ucast c' :: byte)) = drop_bit 8 c XOR rbyte P m0"
    by (simp add: rbyte_xor)
  have d: "drop_bit 8 (drop_bit 8 c') = 0"
    using assms(1,4,5) by (simp add: assms(2) drop_bit_xor hi0_def)
  have "ucast (ucast (drop_bit 8 c') :: byte) = drop_bit 8 c XOR m1"
    unfolding ucast_small [OF d] by (simp add: assms(2,4) drop_bit_xor)
  moreover have "(drop_bit 8 c XOR rbyte P m0) XOR (drop_bit 8 c XOR m1) = rbyte P m0 XOR m1"
    by (auto simp: bit_eq_iff bit_simps)
  ultimately show ?thesis by (simp only: 1)
qed

lemma rmnc_residue:
  "take_bit 16 (crc_rmnc_step (crc_rmnc_step c (ucast (drop_bit 8 c))) (ucast c)) = 0x7070"
proof -
  have "(drop_bit 8 c XOR ucast (ucast (drop_bit 8 c) :: byte)) AND 0xff = 0"
    unfolding ff_mask by (rule bit_word_eqI) (auto simp: bit_simps)
  then have 1: "crc_rmnc_step c (ucast (drop_bit 8 c)) = push_bit 8 c XOR 0x0f87"
    by (simp add: crc_rmnc_step_def Crc_rmnc_table_def)
  have "(drop_bit 8 (push_bit 8 c) XOR ucast (ucast c :: byte)) AND 0xff = 0"
    unfolding ff_mask by (rule bit_word_eqI) (auto simp: bit_simps)
  moreover have "(drop_bit 8 (a XOR 0x0f87) XOR b) AND 0xff = ((drop_bit 8 a XOR b) AND 0xff) XOR 0x0f"
    for a b :: u32
  proof -
    have "(drop_bit 8 (a XOR 0x0f87) XOR b) AND 0xff =
        ((drop_bit 8 a XOR b) AND 0xff) XOR (drop_bit 8 0x0f87 AND 0xff)"
      by (simp only: bit_eq_iff) (auto simp only: bit_simps drop_bit_xor)
    then show ?thesis by simp
  qed
  ultimately have "(drop_bit 8 (push_bit 8 c XOR 0x0f87) XOR ucast (ucast c :: byte)) AND 0xff = 0x0f"
    by simp
  then show ?thesis unfolding 1
    by (simp add: crc_rmnc_step_def Crc_rmnc_table_def take_bit_push_bit)
qed

interpretation crc16: burst_check crc_16_step hi0 "take_bit 16"
  "\<lambda>c. [ucast c, ucast (drop_bit 8 c)]" 0
proof (unfold_locales, goal_cases)
  case (2 c)
  then show ?case
    using reflected_residue [of c c 0 0 0 "0xa001"] by (simp add: crc_16_step_bits rbyte_0)
next
  case (4 c d b)
  then have "c = d"
    by (intro reflected_inj [OF crc_16_step_bits, of c b d]) (simp_all add: hi0_def)
  then show ?case by simp
next
  case (5 c x y x' y')
  then show ?case
    by (intro reflected_pair [OF crc_16_step_bits _ _ Crc_16_table_bits Crc_16_table_high])
       (simp_all add: hi0_def)
qed (simp_all add: crc_16_step_bits hi0_rbyte hi0_xor hi0_ucast hi0_def [of "0xa001"])

interpretation crcccitt: burst_check crc_ccitt_step hi0 "take_bit 16"
  "\<lambda>c. [ucast (c XOR 0xffff), ucast (drop_bit 8 (c XOR 0xffff))]" "0xf0b8"
proof (unfold_locales, goal_cases)
  case (2 c)
  have "rbyte 0x8408 (rbyte 0x8408 0xff XOR 0xff) = 0xf0b8"
    by (simp add: rbyte_def rbit_def)
  with 2 show ?case
    using reflected_residue [of c "c XOR 0xffff" "0xffff" "0xff" "0xff" "0x8408"]
    by (simp add: crc_ccitt_step_bits)
next
  case (4 c d b)
  then have "c = d"
    by (intro reflected_inj [OF crc_ccitt_step_bits, of c b d]) (simp_all add: hi0_def)
  then show ?case by simp
next
  case (5 c x y x' y')
  then show ?case
    by (intro reflected_pair [OF crc_ccitt_step_bits _ _ Crc_ccitt_table_bits Crc_ccitt_table_high])
       (simp_all add: hi0_def)
qed (simp_all add: crc_ccitt_step_bits hi0_rbyte hi0_xor hi0_ucast hi0_def [of "0x8408"])

interpretation crcrmnc: frame_check crc_rmnc_step "\<lambda>_. True" "take_bit 16"
  "\<lambda>c. [ucast (drop_bit 8 c), ucast c]" "0x7070"
  by unfold_locales (simp_all add: rmnc_residue)

section \<open>Sealed frames and damaged frames\<close>

lemma and_ffff: "(c :: u32) AND 0xffff = take_bit 16 c"
  by (simp add: take_bit_eq_mask mask_eq_exp_minus_1)

lemma crc_16_zero: "foldl crc_16_step 0 bs = 0 \<longleftrightarrow> take_bit 16 (foldl crc_16_step 0 bs) = 0"
  using crc16.inv_foldl [of 0 bs] hi0_take by (simp add: hi0_def)

lemma len_p_append: "len_p (bp @ [s]) = len_p bp + length s"
  by (simp add: len_p_content)

lemma crc_sealed_16:
  assumes "content bp \<noteq> []" "content rx = content (append_crc_16 True bp)"
  shows "\<exists>d. check_crc_16 rx = Some d \<and> content d = content bp"
proof -
  have bp: "bp \<noteq> []" "0 < length (content bp)" using assms(1) by auto
  then show ?thesis
    using crc16.sealed [of 0 "content bp"] assms(2)
    by (auto simp: append_crc_16_def check_crc_16_def crc_chain_content content_simps
        crc_16_zero hi0_def Let_def simp del: foldl_append)
qed

lemma crc_sealed_rmnc:
  assumes "content bp \<noteq> []" "content rx = content (append_crc_rmnc True bp)"
  shows "\<exists>d. check_crc_rmnc rx = Some d \<and> content d = content bp"
proof -
  have bp: "bp \<noteq> []" "0 < length (content bp)" using assms(1) by auto
  then show ?thesis
    using crcrmnc.sealed [of "0xffff" "content bp"] assms(2)
    by (auto simp: append_crc_rmnc_def check_crc_rmnc_def crc_chain_content content_simps and_ffff
        Let_def simp del: foldl_append)
qed

text \<open>C40: A frame sealed by \<^verbatim>\<open>append_crc_16\<close> passes \<^verbatim>\<open>check_crc_16\<close>, and one sealed by
  \<^verbatim>\<open>append_crc_rmnc\<close> passes \<^verbatim>\<open>check_crc_rmnc\<close>, which give back exactly its bytes - however the
  frame is cut into mbufs on either side, down to the shortest frame the checks admit, one byte.
  A sealed buffer also passes \<^verbatim>\<open>check_crc_ccitt\<close>.\<close>
theorem crc_sealed:
  assumes "content bp \<noteq> []"
  shows "(content rx = content (append_crc_16 True bp) \<longrightarrow>
            (\<exists>d. check_crc_16 rx = Some d \<and> content d = content bp)) \<and>
         (content rx = content (append_crc_rmnc True bp) \<longrightarrow>
            (\<exists>d. check_crc_rmnc rx = Some d \<and> content d = content bp)) \<and>
         check_crc_ccitt (content (append_crc_ccitt True bp))"
proof -
  have "check_crc_ccitt (content (append_crc_ccitt True bp))"
    using assms crcccitt.sealed [of "0xffff" "content bp"]
    by (auto simp: append_crc_ccitt_def check_crc_ccitt_def crc_chain_content and_ffff hi0_def Let_def
        simp del: foldl_append)
  then show ?thesis using crc_sealed_16 [OF assms] crc_sealed_rmnc [OF assms] by blast
qed

lemma crc_sealed_witness:
  "\<exists>d. check_crc_16 [[1], [2, 3], content (append_crc_16 True [[1, 2, 3]]) ! 3 #
        [content (append_crc_16 True [[1, 2, 3]]) ! 4]] = Some d \<and> content d = [1, 2, 3]"
  using crc_sealed [of "[[1, 2, 3]]" "[[1], [2, 3], content (append_crc_16 True [[1, 2, 3]]) ! 3 #
        [content (append_crc_16 True [[1, 2, 3]]) ! 4]]"]
  by (simp add: append_crc_16_def Let_def)

text \<open>C36: CRC-16 and CRC-CCITT catch every change confined to two consecutive bytes, at any
  position of a frame of any length: of two received frames that differ only there, the checks
  accept at most one.\<close>
theorem crc_burst_detected:
  assumes "content rx = p @ [x, y] @ s" and "content rx' = p @ [x', y'] @ s"
    and "(x, y) \<noteq> (x', y')"
  shows "(check_crc_16 rx \<noteq> None \<longrightarrow> check_crc_16 rx' = None) \<and>
         (check_crc_ccitt (content rx) \<longrightarrow> \<not> check_crc_ccitt (content rx'))"
proof (intro conjI impI)
  assume "check_crc_16 rx \<noteq> None"
  then have "foldl crc_16_step 0 (p @ [x, y] @ s) = 0"
    using assms(1) by (auto simp: check_crc_16_def crc_chain_content Let_def split: if_splits)
  moreover have "foldl crc_16_step 0 (p @ [x', y'] @ s) = 0" if "check_crc_16 rx' \<noteq> None"
    using that assms(2) by (auto simp: check_crc_16_def crc_chain_content Let_def split: if_splits)
  ultimately have "check_crc_16 rx' \<noteq> None \<Longrightarrow> False"
    using crc16.burst [of 0 p x y s x' y'] assms(3) by (auto simp: hi0_def)
  then show "check_crc_16 rx' = None" by blast
next
  assume "check_crc_ccitt (content rx)"
  then show "\<not> check_crc_ccitt (content rx')"
    using crcccitt.burst [of "0xffff" p x y s x' y'] assms
    by (auto simp: check_crc_ccitt_def hi0_def and_ffff)
qed

lemma crc_burst_detected_witness:
  "check_crc_16 [[5, 0xc0], [0x3]] \<noteq> None \<and> check_crc_16 [[4, 0], [0x3]] = None"
proof -
  have "check_crc_16 [[5, 0xc0], [0x3]] \<noteq> None"
    by (simp add: check_crc_16_def crc_16_step_bits rbyte_def rbit_def)
  then show ?thesis
    using crc_burst_detected [of "[[5, 0xc0], [0x3]]" "[]" 5 "0xc0" "[0x3]"
        "[[4, 0], [0x3]]" 4 0] by simp
qed

text \<open>The bytewise update with the 256-entry tables is the bit-serial division by the generator
  polynomials, \<open>0xa001\<close> (\<open>x^16 + x^15 + x^2 + 1\<close>) for CRC-16 and \<open>0x8408\<close> (\<open>x^16 + x^12 + x^5 + 1\<close>)
  for CRC-CCITT, bits taken least significant first.\<close>
theorem crc_tables_bit_serial:
  "crc_16_step crc p = (rbit 0xa001 ^^ 8) (crc XOR ucast p) \<and>
   crc_ccitt_step crc p = (rbit 0x8408 ^^ 8) (crc XOR ucast p)"
  by (simp add: crc_16_step_bits crc_ccitt_step_bits rbyte_def eval_nat_numeral)

text \<open>The RMNC variant is not CRC-CCITT without the final complement: over the string "123456789" the
  two accumulators end in different values; and unlike CRC-CCITT it does not catch every change of
  two consecutive bytes - these two frames differ in their first two octets only and both pass.\<close>
theorem crc_rmnc_differs:
  "foldl crc_rmnc_step 0xffff [0x31, 0x32, 0x33, 0x34, 0x35, 0x36, 0x37, 0x38, 0x39] AND 0xffff = 0x9fb5 \<and>
   foldl crc_ccitt_step 0xffff [0x31, 0x32, 0x33, 0x34, 0x35, 0x36, 0x37, 0x38, 0x39] AND 0xffff = 0x6f91 \<and>
   check_crc_rmnc [[0, 1, 2, 0x54, 0xe5]] = Some [[0, 1, 2]] \<and>
   check_crc_rmnc [[80, 194, 2, 0x54, 0xe5]] = Some [[80, 194, 2]]"
  by (simp add: crc_rmnc_step_def Crc_rmnc_table_def crc_ccitt_step_def Crc_ccitt_table_def check_crc_rmnc_def)

end
