(* ===== verification/Ax25_Addr.thy ===== *)
theory Ax25_Addr
  imports Mbuf
begin

text \<open>
  AX.25 addresses (\<^verbatim>\<open>src/src/ax25subr.c\<close>, \<^verbatim>\<open>src/src/ax25.h\<close>).  An address is seven octets: six
  characters of a callsign shifted left by one bit, padded with shifted spaces, and the SSID
  octet.  Strings are lists of characters without the terminating null; \<^verbatim>\<open>char\<close> arithmetic
  goes through \<open>byte_of_char\<close>.

  Shown: \<^verbatim>\<open>setcall\<close> and \<^verbatim>\<open>pax25\<close> are inverse on ordinary callsigns and \<^verbatim>\<open>addreq\<close> is an equivalence that
  the copying of addresses respects.
\<close>

type_synonym axaddr = "byte list"

definition MAXDIGIS :: nat where "MAXDIGIS = 8"
definition ALEN :: nat where "ALEN = 6"
definition AXALEN :: nat where "AXALEN = 7"

definition SSID :: byte where "SSID = 0x1e"
definition REPEATED :: byte where "REPEATED = 0x80"
definition E_BIT :: byte where "E_BIT = 0x01"
definition C_BIT :: byte where "C_BIT = 0x80"
definition SSID_DAMA :: byte where "SSID_DAMA = 0x20"
definition SSID_EAX25 :: byte where "SSID_EAX25 = 0x40"

lemmas ax25_bits = SSID_def REPEATED_def E_BIT_def C_BIT_def SSID_DAMA_def SSID_EAX25_def

definition is_axaddr :: "axaddr \<Rightarrow> bool" where
  "is_axaddr a \<longleftrightarrow> length a = AXALEN"

section \<open>Comparing and copying addresses\<close>

text \<open>\<^verbatim>\<open>addreq\<close>: the six characters, then the SSID bits of the seventh octet.\<close>

definition addreq :: "axaddr \<Rightarrow> axaddr \<Rightarrow> bool" where
  "addreq a b \<longleftrightarrow>
     a ! 0 = b ! 0 \<and> a ! 1 = b ! 1 \<and> a ! 2 = b ! 2 \<and> a ! 3 = b ! 3 \<and> a ! 4 = b ! 4 \<and> a ! 5 = b ! 5 \<and>
     a ! 6 AND SSID = b ! 6 AND SSID"

definition addrcp :: "axaddr \<Rightarrow> axaddr" where
  "addrcp from =
     [from ! 0, from ! 1, from ! 2, from ! 3, from ! 4, from ! 5, (from ! 6 AND SSID) OR 0x60]"

lemma addreq_refl [simp]: "addreq a a"
  by (simp add: addreq_def)

lemma addreq_sym: "addreq a b \<longleftrightarrow> addreq b a"
  by (auto simp: addreq_def)

lemma addreq_trans: "addreq a b \<Longrightarrow> addreq b c \<Longrightarrow> addreq a c"
  by (simp add: addreq_def)

lemma ssid_or_60: "((x AND SSID) OR 0x60) AND SSID = x AND SSID"
proof -
  have "(0x60 :: byte) AND SSID = 0" by (simp add: SSID_def)
  moreover have "((x AND SSID) OR 0x60) AND SSID = (x AND SSID) OR (0x60 AND SSID)"
    by (rule bit_word_eqI) (auto simp: bit_simps)
  ultimately show ?thesis by simp
qed

lemma addreq_addrcp [simp]: "addreq (addrcp a) a"
  by (simp add: addreq_def addrcp_def ssid_or_60)

lemma addrcp_eq_iff: "addrcp a = addrcp b \<longleftrightarrow> addreq a b"
  by (auto simp: addreq_def addrcp_def) (metis ssid_or_60)+

lemma is_axaddr_addrcp [simp]: "is_axaddr (addrcp a)"
  by (simp add: is_axaddr_def addrcp_def AXALEN_def)

section \<open>Callsigns as text\<close>

definition isdigit :: "char \<Rightarrow> bool" where
  "isdigit c \<longleftrightarrow> CHR ''0'' \<le> c \<and> c \<le> CHR ''9''"

definition isspace :: "char \<Rightarrow> bool" where
  "isspace c \<longleftrightarrow> c = CHR '' '' \<or> CHR 0x09 \<le> c \<and> c \<le> CHR 0x0d"

definition islower :: "char \<Rightarrow> bool" where
  "islower c \<longleftrightarrow> CHR ''a'' \<le> c \<and> c \<le> CHR ''z''"

definition digit_val :: "char \<Rightarrow> int" where
  "digit_val c = of_char c - 48"

definition digits_val :: "string \<Rightarrow> int" where
  "digits_val s = foldl (\<lambda>n c. 10 * n + digit_val c) 0 (takeWhile isdigit s)"

text \<open>\<^verbatim>\<open>atoi\<close> of the C library: white space, an optional sign, then decimal digits.\<close>

definition atoi :: "string \<Rightarrow> int" where
  "atoi s =
     (case dropWhile isspace s of
        c # r \<Rightarrow> if c = CHR ''-'' then - digits_val r
                 else if c = CHR ''+'' then digits_val r else digits_val (c # r)
      | [] \<Rightarrow> 0)"

text \<open>
  \<^verbatim>\<open>setcall\<close>; \<open>None\<close> is -1.  The SSID is an \<^verbatim>\<open>unsigned\<close>, so a negative number of \<^verbatim>\<open>atoi\<close> is a
  large one.
\<close>

definition call_ssid :: "string \<Rightarrow> u32" where
  "call_ssid dp = (if dp = [] then 0 else word_of_int (atoi (tl dp)))"

definition call_octets :: "string \<Rightarrow> byte list" where
  "call_octets base =
     map (\<lambda>c. push_bit 1 (byte_of_char (if islower c then Xtoupper c else c))) base @
     replicate (ALEN - length base) (push_bit 1 0x20)"

definition setcall :: "string \<Rightarrow> axaddr option" where
  "setcall call =
     (if call = [] then None
      else if CHR ''*'' \<in> set call then None
      else let base = takeWhile (\<lambda>c. c \<noteq> CHR ''-'') call;
               dp = dropWhile (\<lambda>c. c \<noteq> CHR ''-'') call
           in if length base > ALEN then None
              else if dp \<noteq> [] \<and> call_ssid dp > 15 then None
              else Some (call_octets base @ [0x60 OR ucast (push_bit 1 (call_ssid dp))]))"

text \<open>\<^verbatim>\<open>sprintf\<close> of \<^verbatim>\<open>%d\<close> for a number that is not negative.\<close>

fun dec_string :: "nat \<Rightarrow> string" where
  "dec_string n =
     (if n < 10 then [char_of (48 + n)] else dec_string (n div 10) @ [char_of (48 + n mod 10)])"

declare dec_string.simps [simp del]

definition pax25 :: "axaddr \<Rightarrow> string" where
  "pax25 addr =
     filter (\<lambda>c. c \<noteq> CHR '' '') (map (\<lambda>b. char_of_byte (drop_bit 1 b AND 0x7f)) (take ALEN addr)) @
     (if addr ! 6 AND SSID \<noteq> 0
      then CHR ''-'' # dec_string (unat (drop_bit 1 (addr ! 6) AND 0xf))
      else [])"

lemma setcall_SomeD:
  assumes "setcall call = Some a"
  defines "base \<equiv> takeWhile (\<lambda>c. c \<noteq> CHR ''-'') call"
    and "dp \<equiv> dropWhile (\<lambda>c. c \<noteq> CHR ''-'') call"
  shows "call \<noteq> [] \<and> CHR ''*'' \<notin> set call \<and> length base \<le> ALEN \<and>
    (dp \<noteq> [] \<longrightarrow> call_ssid dp \<le> 15) \<and>
    a = call_octets base @ [0x60 OR ucast (push_bit 1 (call_ssid dp))]"
  using assms(1) unfolding setcall_def Let_def base_def [symmetric] dp_def [symmetric]
  by (simp only: not_less option.inject option.distinct split: if_splits) auto

lemma call_octets_length: "length base \<le> ALEN \<Longrightarrow> length (call_octets base) = ALEN"
  by (simp add: call_octets_def)

lemma setcall_axaddr: "setcall call = Some a \<Longrightarrow> is_axaddr a"
  using setcall_SomeD [of call a] by (simp add: is_axaddr_def call_octets_length AXALEN_def ALEN_def)

lemma dec_string_atoi_all:
  "list_all (\<lambda>n. atoi (dec_string n) = int n \<and> length (dec_string n) \<le> 2 \<and>
     CHR ''*'' \<notin> set (dec_string n)) [0..<16]"
  by code_simp

lemma dec_string_16:
  assumes "n < 16"
  shows "atoi (dec_string n) = int n" "length (dec_string n) \<le> 2" "CHR ''*'' \<notin> set (dec_string n)"
  using dec_string_atoi_all assms by (auto simp: list_all_iff)

lemma nibble_unat: "unat (drop_bit 1 (b :: byte) AND 0xf) < 16"
proof -
  have "drop_bit 1 b AND 0xf \<le> 0xf" by (rule word_and_le1)
  then show ?thesis unfolding word_le_nat_alt by simp
qed

lemma pax25_length: "length (pax25 a) \<le> 9"
proof -
  let ?f = "filter (\<lambda>c. c \<noteq> CHR '' '') (map (\<lambda>b. char_of_byte (drop_bit 1 b AND 0x7f)) (take ALEN a))"
  have "length ?f \<le> length (take ALEN a)"
    using length_filter_le by (metis length_map)
  then have "length ?f \<le> 6" by (simp add: ALEN_def del: length_filter_map)
  then show ?thesis unfolding pax25_def
    using dec_string_16(2) [OF nibble_unat [of "a ! 6"]] by (simp del: length_filter_map filter_map)
qed

section \<open>Reading back what was printed\<close>

lemma of_char_less_256: "(of_char c :: nat) < 256"
  by (metis of_char_mod_256 mod_less_divisor zero_less_numeral)

lemma of_char_Xtoupper:
  "islower c \<Longrightarrow> (of_char (Xtoupper c) :: nat) = of_char c - 32 \<and> 97 \<le> (of_char c :: nat) \<and> (of_char c :: nat) \<le> 122"
  by (auto simp: islower_def Xtoupper_def less_eq_char_def of_char_of)

definition up :: "char \<Rightarrow> char" where
  "up c = (if islower c then Xtoupper c else c)"

lemma up_not_lower: "\<not> islower (up c)"
  using of_char_Xtoupper [of c] by (auto simp: up_def islower_def less_eq_char_def)

lemma up_up [simp]: "up (up c) = up c"
  using up_not_lower [of c] by (simp add: up_def)

lemma up_eq: "(of_char d :: nat) < 65 \<Longrightarrow> up c = d \<longleftrightarrow> c = d"
  using of_char_Xtoupper [of c] by (auto simp: up_def islower_def less_eq_char_def)

lemma up_image: "(of_char d :: nat) < 65 \<Longrightarrow> d \<in> up ` A \<longleftrightarrow> d \<in> A"
proof -
  assume "(of_char d :: nat) < 65"
  note eq = up_eq [OF this]
  show ?thesis
  proof
    assume "d \<in> up ` A"
    then obtain c where "c \<in> A" "up c = d" by blast
    then show "d \<in> A" by (simp only: eq)
  next
    assume "d \<in> A"
    moreover have "up d = d" by (simp only: eq)
    ultimately show "d \<in> up ` A" by (metis imageI)
  qed
qed

lemma up_ascii: "(of_char c :: nat) < 128 \<Longrightarrow> (of_char (up c) :: nat) < 128"
  using of_char_Xtoupper [of c] by (auto simp: up_def)

lemma unat_byte_of_char: "unat (byte_of_char c) = of_char c"
proof -
  have "unat (of_nat (of_char c) :: byte) = of_char c"
    using of_char_less_256 [of c] by (simp add: unat_of_nat)
  then show ?thesis by (simp add: byte_of_char_def of_nat_of_char)
qed

lemma mask7: "(0x7f :: byte) = mask 7"
  by (simp add: mask_eq_exp_minus_1)

lemma drop_push_mask: "k + n \<le> LENGTH('a) \<Longrightarrow> drop_bit n (push_bit n (b :: 'a::len word)) AND mask k = b AND mask k"
  by (rule bit_word_eqI) (auto simp: bit_simps)

lemma shift_unshift: "drop_bit 1 (push_bit 1 (b :: byte)) AND 0x7f = b AND 0x7f"
  unfolding mask7 by (rule drop_push_mask) simp

lemma unshift_char:
  assumes "(of_char c :: nat) < 128"
  shows "char_of_byte (drop_bit 1 (push_bit 1 (byte_of_char c)) AND 0x7f) = c"
proof -
  have "byte_of_char c < 2 ^ 7"
    using assms unfolding word_less_nat_alt unat_byte_of_char by simp
  then have "byte_of_char c AND 0x7f = byte_of_char c"
    unfolding mask7 by (rule less_mask_eq)
  then show ?thesis by (simp only: shift_unshift char_of_byte_of_char)
qed

lemma ssid_octet:
  assumes "ssid \<le> 15"
  shows "(0x60 OR ucast (push_bit 1 (ssid :: u32)) :: byte) AND SSID = ucast (push_bit 1 ssid)"
    "unat (drop_bit 1 (0x60 OR ucast (push_bit 1 ssid) :: byte) AND 0xf) = unat ssid"
    "(ucast (push_bit 1 ssid) :: byte) = 0 \<longleftrightarrow> ssid = 0"
proof -
  have "unat ssid \<le> 15" using assms unfolding word_le_nat_alt by simp
  then have n: "unat ssid \<in> set [0..<16]" by simp
  have "list_all (\<lambda>n. (0x60 OR ucast (push_bit 1 (of_nat n :: u32)) :: byte) AND SSID = ucast (push_bit 1 (of_nat n :: u32))
     \<and> unat (drop_bit 1 (0x60 OR ucast (push_bit 1 (of_nat n :: u32)) :: byte) AND 0xf) = unat (of_nat n :: u32)
     \<and> ((ucast (push_bit 1 (of_nat n :: u32)) :: byte) = 0 \<longleftrightarrow> (of_nat n :: u32) = 0)) [0..<16]"
    by (simp add: upt_rec [of _ 16] SSID_def)
  then have all: "\<forall>n \<in> set [0..<16].
      (0x60 OR ucast (push_bit 1 (of_nat n :: u32)) :: byte) AND SSID = ucast (push_bit 1 (of_nat n :: u32))
     \<and> unat (drop_bit 1 (0x60 OR ucast (push_bit 1 (of_nat n :: u32)) :: byte) AND 0xf) = unat (of_nat n :: u32)
     \<and> ((ucast (push_bit 1 (of_nat n :: u32)) :: byte) = 0 \<longleftrightarrow> (of_nat n :: u32) = 0)"
    unfolding list_all_iff .
  have id: "of_nat (unat ssid) = ssid" by simp
  from all n show "(0x60 OR ucast (push_bit 1 ssid) :: byte) AND SSID = ucast (push_bit 1 ssid)"
    "unat (drop_bit 1 (0x60 OR ucast (push_bit 1 ssid) :: byte) AND 0xf) = unat ssid"
    "(ucast (push_bit 1 ssid) :: byte) = 0 \<longleftrightarrow> ssid = 0"
    using id by metis+
qed

lemma filter_up_map:
  assumes "\<forall>c \<in> set base. c \<noteq> CHR '' '' \<and> (of_char c :: nat) < 128" "length base \<le> ALEN"
  shows "filter (\<lambda>c. c \<noteq> CHR '' '') (map (\<lambda>b. char_of_byte (drop_bit 1 b AND 0x7f)) (call_octets base)) = map up base"
proof -
  have oct: "call_octets base = map (\<lambda>c. push_bit 1 (byte_of_char (up c))) base @
      map (\<lambda>c. push_bit 1 (byte_of_char c)) (replicate (ALEN - length base) (CHR '' ''))"
    by (simp add: call_octets_def up_def byte_of_char_def cong: map_cong)
  have sp: "up c \<noteq> CHR '' ''" if "c \<noteq> CHR '' ''" for c
    using up_eq [of "CHR '' ''" c] that by simp
  have "map (\<lambda>b. char_of_byte (drop_bit 1 b AND 0x7f)) (call_octets base) =
      map up base @ replicate (ALEN - length base) (CHR '' '')"
    unfolding oct map_append map_map comp_def
    using assms(1) up_ascii by (auto simp: unshift_char simp del: One_nat_def)
  then show ?thesis using assms(1) sp by (simp add: filter_id_conv)
qed

lemma setcall_ssid_small:
  assumes "setcall call = Some a"
  shows "call_ssid (dropWhile (\<lambda>c. c \<noteq> CHR ''-'') call) \<le> 15"
proof (cases "dropWhile (\<lambda>c. c \<noteq> CHR ''-'') call = []")
  case True
  then show ?thesis by (simp add: call_ssid_def)
next
  case False
  then show ?thesis using setcall_SomeD [OF assms] by blast
qed

lemma setcall_Some:
  assumes "call \<noteq> []" "CHR ''*'' \<notin> set call" "takeWhile (\<lambda>c. c \<noteq> CHR ''-'') call = base"
    "length base \<le> ALEN" "dropWhile (\<lambda>c. c \<noteq> CHR ''-'') call = dp" "call_ssid dp \<le> 15"
  shows "setcall call = Some (call_octets base @ [0x60 OR ucast (push_bit 1 (call_ssid dp))])"
proof -
  have "\<not> length base > ALEN" "\<not> call_ssid dp > 15" using assms(4,6) by (simp_all only: not_less)
  with assms show ?thesis unfolding setcall_def Let_def by (simp only: if_False simp_thms)
qed

lemma pax25_setcall:
  assumes "setcall call = Some a"
    and plain: "\<forall>c \<in> set (takeWhile (\<lambda>c. c \<noteq> CHR ''-'') call). c \<noteq> CHR '' '' \<and> (of_char c :: nat) < 128"
  shows "pax25 a = map up (takeWhile (\<lambda>c. c \<noteq> CHR ''-'') call) @
     (if call_ssid (dropWhile (\<lambda>c. c \<noteq> CHR ''-'') call) = 0 then []
      else CHR ''-'' # dec_string (unat (call_ssid (dropWhile (\<lambda>c. c \<noteq> CHR ''-'') call))))"
proof -
  define base where "base = takeWhile (\<lambda>c. c \<noteq> CHR ''-'') call"
  define ssid where "ssid = call_ssid (dropWhile (\<lambda>c. c \<noteq> CHR ''-'') call)"
  note d = setcall_SomeD [OF assms(1), folded base_def, folded ssid_def]
  have small: "ssid \<le> 15" unfolding ssid_def by (rule setcall_ssid_small [OF assms(1)])
  have len: "length base \<le> ALEN" using d by blast
  have a: "take ALEN a = call_octets base" "a ! 6 = 0x60 OR ucast (push_bit 1 ssid)"
    using d call_octets_length [OF len] by (simp_all add: nth_append ALEN_def)
  show ?thesis
    unfolding pax25_def a filter_up_map [OF plain [folded base_def] len] ssid_octet(1,2) [OF small]
      base_def [symmetric] ssid_def [symmetric]
    using ssid_octet(3) [OF small] by presburger
qed

lemma word_of_int_int_unat: "word_of_int (int (unat w)) = w"
  by simp

lemma map_up_base:
  assumes "\<forall>c \<in> set base. c \<noteq> CHR ''-''"
  shows "takeWhile (\<lambda>c. c \<noteq> CHR ''-'') (map up base @ dp) = map up base @ takeWhile (\<lambda>c. c \<noteq> CHR ''-'') dp"
    and "dropWhile (\<lambda>c. c \<noteq> CHR ''-'') (map up base @ dp) = dropWhile (\<lambda>c. c \<noteq> CHR ''-'') dp"
  using assms up_eq [of "CHR ''-''"] by (auto simp: takeWhile_append dropWhile_append)

text \<open>A callsign survives being printed and read again: if \<^verbatim>\<open>setcall\<close> accepts a text whose
  callsign part is not empty and has neither spaces nor 8-bit characters, then \<^verbatim>\<open>setcall\<close> applied
  to \<^verbatim>\<open>pax25\<close> of the address gives the same seven octets.\<close>
theorem setcall_pax25_roundtrip:
  assumes "setcall call = Some a" and "takeWhile (\<lambda>c. c \<noteq> CHR ''-'') call \<noteq> []"
    and "\<forall>c \<in> set (takeWhile (\<lambda>c. c \<noteq> CHR ''-'') call). c \<noteq> CHR '' '' \<and> (of_char c :: nat) < 128"
  shows "setcall (pax25 a) = Some a"
proof -
  define base where "base = takeWhile (\<lambda>c. c \<noteq> CHR ''-'') call"
  define ssid where "ssid = call_ssid (dropWhile (\<lambda>c. c \<noteq> CHR ''-'') call)"
  define dp where "dp = (if ssid = 0 then [] else CHR ''-'' # dec_string (unat ssid))"
  note d = setcall_SomeD [OF assms(1), folded base_def, folded ssid_def]
  have small: "ssid \<le> 15" unfolding ssid_def by (rule setcall_ssid_small [OF assms(1)])
  have n: "unat ssid < 16" using small unfolding word_le_nat_alt by simp
  have nodash: "\<forall>c \<in> set base. c \<noteq> CHR ''-''" unfolding base_def by (auto dest: set_takeWhileD)
  have dropdp: "dropWhile (\<lambda>c. c \<noteq> CHR ''-'') dp = dp" "takeWhile (\<lambda>c. c \<noteq> CHR ''-'') dp = []"
    unfolding dp_def by simp_all
  have p: "pax25 a = map up base @ dp"
    using pax25_setcall [OF assms(1,3)] unfolding base_def ssid_def dp_def .
  have "CHR ''*'' \<notin> set base" using d by (auto simp: base_def dest: set_takeWhileD)
  then have "CHR ''*'' \<notin> set (map up base)"
    using up_image [of "CHR ''*''" "set base"] by simp
  moreover have "CHR ''*'' \<notin> set dp"
    unfolding dp_def using dec_string_16(3) [OF n] by (cases "ssid = 0") simp_all
  ultimately have star: "CHR ''*'' \<notin> set (map up base @ dp)" by (simp only: set_append Un_iff simp_thms)
  have ssid': "call_ssid dp = ssid"
    using dec_string_16(1) [OF n]
    by (cases "ssid = 0") (simp_all only: dp_def call_ssid_def if_True if_False list.sel list.distinct
        simp_thms word_of_int_int_unat)
  have oct: "call_octets (map up base) = call_octets base"
    by (simp add: call_octets_def up_def [symmetric] comp_def)
  have base: "base \<noteq> []" unfolding base_def by (rule assms(2))
  have len: "length (map up base) \<le> ALEN" and a: "a = call_octets base @ [0x60 OR ucast (push_bit 1 ssid)]"
    using d by (simp_all only: length_map)
  have "setcall (map up base @ dp) = Some (call_octets (map up base) @ [0x60 OR ucast (push_bit 1 (call_ssid dp))])"
  proof (rule setcall_Some [OF _ star _ len])
    show "map up base @ dp \<noteq> []" using base by simp
    show "call_ssid dp \<le> 15" unfolding ssid' by (rule small)
  qed (simp_all only: map_up_base [OF nodash] dropdp append_Nil2)
  then show ?thesis unfolding p oct ssid' unfolding a .
qed

lemma setcall_pax25_roundtrip_witness:
  "setcall (pax25 [0x88, 0x96, 0x6a, 0xa6, 0x8e, 0x40, 0x78]) = Some [0x88, 0x96, 0x6a, 0xa6, 0x8e, 0x40, 0x78]"
proof -
  have "setcall ''dk5sg-12'' = Some [0x88, 0x96, 0x6a, 0xa6, 0x8e, 0x40, 0x78]" by code_simp
  from setcall_pax25_roundtrip [OF this] show ?thesis by simp
qed

end
