(* ===== verification/Ax25_Hdr.thy ===== *)
theory Ax25_Hdr
  imports Ax25_Addr
begin

text \<open>
  The AX.25 address header: \<^verbatim>\<open>struct ax25\<close> of \<^verbatim>\<open>src/src/ax25.h\<close>, its conversion to and from the wire
  (\<^verbatim>\<open>src/src/ax25hdr.c\<close>), and the building and printing of paths (\<^verbatim>\<open>src/src/ax25subr.c\<close>).
  \<^verbatim>\<open>digis\<close> is the array of eight slots, of which the first \<^verbatim>\<open>ndigis\<close> are in use.

  Shown: \<^verbatim>\<open>ntohax25\<close> reads back what \<^verbatim>\<open>htonax25\<close> wrote, for every path up to eight digipeaters;
  \<^verbatim>\<open>ntohax25\<close> never runs past the array; a path taken from a command line has no loops; a
  printed header fits its buffer.
\<close>

datatype lapb_cmdrsp = LAPB_UNKNOWN | LAPB_COMMAND | LAPB_RESPONSE

record ax25 =
  dest :: axaddr
  source :: axaddr
  digis :: "axaddr list"
  ndigis :: nat
  nextdigi :: nat
  cmdrsp :: lapb_cmdrsp
  qso_num :: int
  ext :: byte

section \<open>Writing a header\<close>

definition set_bits :: "byte \<Rightarrow> bool \<Rightarrow> byte \<Rightarrow> byte" where
  "set_bits m b x = (if b then x OR m else x AND NOT m)"

definition put_dest :: "ax25 \<Rightarrow> byte list" where
  "put_dest hdr =
     (dest hdr)[ALEN := set_bits E_BIT False (set_bits C_BIT (cmdrsp hdr = LAPB_COMMAND) (dest hdr ! ALEN))]"

definition put_source :: "ax25 \<Rightarrow> byte list" where
  "put_source hdr =
     (source hdr)[ALEN :=
        set_bits E_BIT (ndigis hdr = 0)
          (set_bits SSID_DAMA (ext hdr AND SSID_DAMA = 0)
            (set_bits SSID_EAX25 (ext hdr AND SSID_EAX25 = 0)
              (set_bits C_BIT (cmdrsp hdr = LAPB_RESPONSE) (source hdr ! ALEN))))]"

definition put_digi :: "ax25 \<Rightarrow> nat \<Rightarrow> byte list" where
  "put_digi hdr i =
     (digis hdr ! i)[ALEN :=
        set_bits REPEATED (i < nextdigi hdr)
          (set_bits E_BIT (\<not> i < ndigis hdr - 1) (digis hdr ! i ! ALEN))]"

definition htonax25 :: "bool \<Rightarrow> ax25 \<Rightarrow> chain \<Rightarrow> chain" where
  "htonax25 fits hdr bpp =
     (if ndigis hdr > MAXDIGIS then bpp
      else pushdown fits
             (put_dest hdr @ put_source hdr @ concat (map (put_digi hdr) [0..<ndigis hdr])) bpp)"

section \<open>Reading a header\<close>

text \<open>The FlexNet compressed header: seven octets with bit 0 of the second one set.\<close>

definition flex_decompress :: "ax25 \<Rightarrow> byte list \<Rightarrow> ax25" where
  "flex_decompress hdr d =
     hdr\<lparr>ndigis := 0, nextdigi := 0,
         cmdrsp := (if d ! 1 AND 2 \<noteq> 0 then LAPB_COMMAND else LAPB_RESPONSE),
         qso_num := uint ((push_bit 6 (ucast (d ! 0)) AND 0x3fc0) OR (ucast (drop_bit 2 (d ! 1)) AND 0x3f) :: u32),
         dest :=
           [(drop_bit 1 (d ! 2) AND 0x7e) + 0x40,
            ((push_bit 5 (d ! 2) AND 0x60) OR (drop_bit 3 (d ! 3) AND 0x1e)) + 0x40,
            ((push_bit 3 (d ! 3) AND 0x78) OR (drop_bit 5 (d ! 4) AND 0x06)) + 0x40,
            (push_bit 1 (d ! 4) AND 0x7e) + 0x40,
            (drop_bit 1 (d ! 5) AND 0x7e) + 0x40,
            ((push_bit 5 (d ! 5) AND 0x60) OR (drop_bit 3 (d ! 6) AND 0x1e)) + 0x40,
            (push_bit 1 (d ! 6) AND SSID) OR 0x60],
         source := [0x7e, 0x40, 0x40, 0x40, 0x40, 0x40, 0x60]\<rparr>"

text \<open>
  The loop over the digipeaters.  \<open>fuel\<close> counts the free slots of the array, so
  \<^verbatim>\<open>ndigis < MAXDIGIS\<close> is \<open>fuel \<noteq> 0\<close>; \<open>None\<close> is the return of -1.
\<close>

definition digi_store :: "byte list \<Rightarrow> ax25 \<Rightarrow> ax25" where
  "digi_store axp hdr =
     (let hdr = hdr\<lparr>digis := (digis hdr)[ndigis hdr := axp], ndigis := ndigis hdr + 1\<rparr>
      in if axp ! ALEN AND REPEATED \<noteq> 0 then hdr\<lparr>nextdigi := ndigis hdr\<rparr> else hdr)"

fun digi_loop :: "nat \<Rightarrow> ax25 \<Rightarrow> chain \<Rightarrow> (nat \<times> ax25 \<times> chain) option" where
  "digi_loop 0 hdr bpp = None"
| "digi_loop (Suc fuel) hdr bpp =
     (let (axp, bpp) = pullup bpp AXALEN
      in if length axp \<noteq> AXALEN then None
         else let hdr = digi_store axp hdr
              in if axp ! ALEN AND E_BIT \<noteq> 0 then Some (ndigis hdr + 2, hdr, bpp)
                 else digi_loop fuel hdr bpp)"

definition read_cmdrsp :: "byte \<Rightarrow> byte \<Rightarrow> lapb_cmdrsp" where
  "read_cmdrsp s d =
     (if s AND C_BIT = d AND C_BIT then LAPB_UNKNOWN
      else if s AND C_BIT \<noteq> 0 then LAPB_RESPONSE else LAPB_COMMAND)"

definition read_ext :: "byte \<Rightarrow> byte" where
  "read_ext s =
     (if s AND SSID_EAX25 = 0 then SSID_EAX25 else 0) OR (if s AND SSID_DAMA = 0 then SSID_DAMA else 0)"

text \<open>\<^verbatim>\<open>ntohax25\<close>: the number of addresses, the filled structure and the rest of the packet; \<open>None\<close> for -1.\<close>

definition ntohax25 :: "ax25 \<Rightarrow> chain \<Rightarrow> (nat \<times> ax25 \<times> chain) option" where
  "ntohax25 hdr bpp =
     (let (d, bpp) = pullup bpp AXALEN
      in if length d < AXALEN then None
         else if d ! 1 AND 1 \<noteq> 0 then Some (2, flex_decompress hdr d, bpp)
         else let (s, bpp) = pullup bpp AXALEN
              in if length s < AXALEN then None
                 else let hdr = hdr\<lparr>dest := d, source := s, qso_num := -1,
                                    cmdrsp := read_cmdrsp (s ! ALEN) (d ! ALEN),
                                    ndigis := 0, nextdigi := 0, ext := read_ext (s ! ALEN)\<rparr>
                      in if s ! ALEN AND E_BIT \<noteq> 0 then Some (2, hdr, bpp)
                         else digi_loop MAXDIGIS hdr bpp)"

section \<open>Paths from a command line and printed headers\<close>

text \<open>
  \<^verbatim>\<open>ax25args_to_hdr\<close>.  \<open>Inl\<close> is the printed error.  A word that is a prefix of \<open>via\<close> (the
  test is \<^verbatim>\<open>strncmp\<close> over the length of the word) is skipped.
\<close>

datatype path_error =
  MissingCall | InvalidCall string | TooManyDigis | DigiIsDest string | DigiIsMycall string | DigiTwice string

definition noise_word :: "string \<Rightarrow> bool" where
  "noise_word w \<longleftrightarrow> take (length w) ''via'' = w"

fun path_args :: "axaddr \<Rightarrow> string list \<Rightarrow> ax25 \<Rightarrow> path_error + ax25" where
  "path_args Mycall [] hdr = Inr hdr"
| "path_args Mycall (w # argv) hdr =
     (if noise_word w then path_args Mycall argv hdr
      else if ndigis hdr \<ge> MAXDIGIS then Inl TooManyDigis
      else case setcall w of
             None \<Rightarrow> Inl (InvalidCall w)
           | Some a \<Rightarrow>
               (if addreq a (dest hdr) then Inl (DigiIsDest w)
                else if addreq a Mycall then Inl (DigiIsMycall w)
                else if list_ex (\<lambda>i. addreq a (digis hdr ! i)) [0..<ndigis hdr] then Inl (DigiTwice w)
                else path_args Mycall argv
                       (hdr\<lparr>digis := (digis hdr)[ndigis hdr := a], ndigis := ndigis hdr + 1\<rparr>)))"

definition ax25args_to_hdr :: "axaddr \<Rightarrow> string list \<Rightarrow> ax25 \<Rightarrow> path_error + ax25" where
  "ax25args_to_hdr Mycall argv hdr =
     (let hdr = hdr\<lparr>ndigis := 0, nextdigi := 0, ext := 0\<rparr>
      in case argv of
           [] \<Rightarrow> Inl MissingCall
         | w # argv \<Rightarrow>
             (let hdr = hdr\<lparr>source := addrcp Mycall\<rparr>
              in case setcall w of
                   None \<Rightarrow> Inl (InvalidCall w)
                 | Some a \<Rightarrow> path_args Mycall argv (hdr\<lparr>dest := a\<rparr>)))"

definition ax25hdr_to_string :: "ax25 \<Rightarrow> string" where
  "ax25hdr_to_string hdr =
     (if dest hdr ! 0 = 0 then ''*''
      else (if source hdr ! 0 \<noteq> 0 then pax25 (source hdr) @ ''->'' else []) @
           pax25 (dest hdr) @
           concat (map (\<lambda>i. (if i = 0 then '' via '' else '','') @ pax25 (digis hdr ! i) @
                            (if i < nextdigi hdr then ''*'' else []))
                       [0..<ndigis hdr]))"

section \<open>The bits of the last octet\<close>

lemma mask_bits:
  "E_BIT = push_bit 0 1" "C_BIT = push_bit 7 1" "REPEATED = push_bit 7 1"
  "SSID_DAMA = push_bit 5 1" "SSID_EAX25 = push_bit 6 1" "SSID = push_bit 1 (mask 4)"
  by (simp_all add: ax25_bits mask_eq_exp_minus_1)

lemma mask_tests [wire_simps]:
  "x AND E_BIT = 0 \<longleftrightarrow> \<not> bit x 0" "x AND C_BIT = 0 \<longleftrightarrow> \<not> bit x 7" "x AND REPEATED = 0 \<longleftrightarrow> \<not> bit x 7"
  "x AND SSID_DAMA = 0 \<longleftrightarrow> \<not> bit x 5" "x AND SSID_EAX25 = 0 \<longleftrightarrow> \<not> bit x 6"
  unfolding mask_bits bit_iff_and_push_bit_not_eq_0 by simp_all

lemma set_bits_bit:
  "bit (set_bits m b x) k \<longleftrightarrow> k < 8 \<and> (if bit m k then b else bit x k)"
  by (auto simp: set_bits_def bit_simps dest: bit_imp_le_length)

lemma single_bit: "bit (push_bit n 1 :: byte) k \<longleftrightarrow> k = n \<and> n < 8"
  by (auto simp: bit_simps)

lemma mask_bit:
  "bit E_BIT k \<longleftrightarrow> k = 0" "bit C_BIT k \<longleftrightarrow> k = 7" "bit REPEATED k \<longleftrightarrow> k = 7"
  "bit SSID_DAMA k \<longleftrightarrow> k = 5" "bit SSID_EAX25 k \<longleftrightarrow> k = 6"
  unfolding mask_bits single_bit by simp_all

lemma set_bits_tests [wire_simps]:
  "bit (set_bits E_BIT b x) k \<longleftrightarrow> k < 8 \<and> (if k = 0 then b else bit x k)"
  "bit (set_bits C_BIT b x) k \<longleftrightarrow> k < 8 \<and> (if k = 7 then b else bit x k)"
  "bit (set_bits REPEATED b x) k \<longleftrightarrow> k < 8 \<and> (if k = 7 then b else bit x k)"
  "bit (set_bits SSID_DAMA b x) k \<longleftrightarrow> k < 8 \<and> (if k = 5 then b else bit x k)"
  "bit (set_bits SSID_EAX25 b x) k \<longleftrightarrow> k < 8 \<and> (if k = 6 then b else bit x k)"
  unfolding set_bits_bit mask_bits single_bit by auto

lemma ssid_bit: "bit SSID k \<longleftrightarrow> 1 \<le> k \<and> k < 5"
  unfolding mask_bits by (auto simp only: bit_push_bit_iff bit_mask_iff) auto

lemma ssid_eqI: "(\<And>k. 1 \<le> k \<Longrightarrow> k < 5 \<Longrightarrow> bit x k = bit y k) \<Longrightarrow> x AND SSID = y AND SSID"
  by (rule bit_word_eqI) (auto simp: bit_and_iff ssid_bit)

lemma put_lengths [simp]:
  "length (put_dest hdr) = length (dest hdr)" "length (put_source hdr) = length (source hdr)"
  "length (put_digi hdr i) = length (digis hdr ! i)"
  by (simp_all add: put_dest_def put_source_def put_digi_def)

lemma addreq_update:
  "length a = 7 \<Longrightarrow> x AND SSID = a ! 6 AND SSID \<Longrightarrow> addreq (a[ALEN := x]) a"
  by (simp add: addreq_def ALEN_def)

lemma put_addreq:
  "length (dest hdr) = 7 \<Longrightarrow> addreq (put_dest hdr) (dest hdr)"
  "length (source hdr) = 7 \<Longrightarrow> addreq (put_source hdr) (source hdr)"
  "length (digis hdr ! i) = 7 \<Longrightarrow> addreq (put_digi hdr i) (digis hdr ! i)"
  unfolding put_dest_def put_source_def put_digi_def
  by (rule addreq_update, assumption, rule ssid_eqI, simp add: wire_simps ALEN_def)+

lemma put_last:
  "length (dest hdr) = 7 \<Longrightarrow> put_dest hdr ! 6 =
     set_bits E_BIT False (set_bits C_BIT (cmdrsp hdr = LAPB_COMMAND) (dest hdr ! ALEN))"
  "length (source hdr) = 7 \<Longrightarrow> put_source hdr ! 6 =
        set_bits E_BIT (ndigis hdr = 0)
          (set_bits SSID_DAMA (ext hdr AND SSID_DAMA = 0)
            (set_bits SSID_EAX25 (ext hdr AND SSID_EAX25 = 0)
              (set_bits C_BIT (cmdrsp hdr = LAPB_RESPONSE) (source hdr ! ALEN))))"
  "length (digis hdr ! i) = 7 \<Longrightarrow> put_digi hdr i ! 6 =
        set_bits REPEATED (i < nextdigi hdr)
          (set_bits E_BIT (\<not> i < ndigis hdr - 1) (digis hdr ! i ! ALEN))"
  by (simp_all add: put_dest_def put_source_def put_digi_def ALEN_def)

lemma c_bit_eq: "x AND C_BIT = y AND C_BIT \<longleftrightarrow> bit x 7 = bit y 7"
proof
  assume "x AND C_BIT = y AND C_BIT"
  then have "bit (x AND C_BIT) 7 = bit (y AND C_BIT) 7" by simp
  then show "bit x 7 = bit y 7" by (simp add: bit_and_iff mask_bit)
next
  assume "bit x 7 = bit y 7"
  then show "x AND C_BIT = y AND C_BIT"
    by (intro bit_word_eqI) (auto simp: bit_and_iff mask_bit)
qed

lemma read_ext_bits:
  "read_ext s = (if bit s 6 then 0 else SSID_EAX25) OR (if bit s 5 then 0 else SSID_DAMA)"
  by (simp add: read_ext_def wire_simps)

lemma ext_bits:
  "(if bit e 6 then SSID_EAX25 else 0) OR (if bit e 5 then SSID_DAMA else 0) = e AND (SSID_EAX25 OR SSID_DAMA)"
  by (rule bit_word_eqI) (auto simp: bit_and_iff bit_or_iff mask_bit)

section \<open>Reading back a header\<close>

definition wf_hdr :: "ax25 \<Rightarrow> bool" where
  "wf_hdr h \<longleftrightarrow> length (dest h) = AXALEN \<and> length (source h) = AXALEN \<and> \<not> bit (dest h ! 1) 0 \<and>
     length (digis h) = MAXDIGIS \<and> (\<forall>a \<in> set (digis h). length a = AXALEN) \<and>
     ndigis h \<le> MAXDIGIS \<and> nextdigi h \<le> ndigis h"

lemma digi_loop_reads:
  assumes wf: "wf_hdr hdr"
  shows "n < ndigis hdr \<Longrightarrow> ndigis h = n \<Longrightarrow> length (digis h) = MAXDIGIS \<Longrightarrow>
    nextdigi h = min n (nextdigi hdr) \<Longrightarrow> ndigis hdr \<le> n + fuel \<Longrightarrow>
    content bpp = concat (map (put_digi hdr) [n..<ndigis hdr]) @ rest \<Longrightarrow>
    \<exists>h' bpp'. digi_loop fuel h bpp = Some (ndigis hdr + 2, h', bpp') \<and> content bpp' = rest \<and>
      h' = h\<lparr>digis := digis h', ndigis := ndigis hdr, nextdigi := nextdigi hdr\<rparr> \<and>
      (\<forall>i < ndigis hdr. digis h' ! i = (if i < n then digis h ! i else put_digi hdr i))"
proof (induction fuel arbitrary: n h bpp)
  case 0
  then show ?case by simp
next
  case (Suc fuel)
  have n: "n < MAXDIGIS" "length (digis hdr ! n) = 7"
    using wf Suc.prems(1) by (auto simp: wf_hdr_def AXALEN_def)
  obtain bpp1 where p: "pullup bpp AXALEN = (put_digi hdr n, bpp1)"
      and rest: "content bpp1 = concat (map (put_digi hdr) [Suc n..<ndigis hdr]) @ rest"
    using pullup_bytes_rest [of bpp AXALEN] Suc.prems(1,6) n
    by (cases "pullup bpp AXALEN") (simp add: upt_conv_Cons AXALEN_def)
  have bits: "put_digi hdr n ! ALEN AND REPEATED \<noteq> 0 \<longleftrightarrow> n < nextdigi hdr"
     "put_digi hdr n ! ALEN AND E_BIT \<noteq> 0 \<longleftrightarrow> \<not> n < ndigis hdr - 1"
    using put_last(3) [OF n(2)] by (simp_all add: ALEN_def wire_simps)
  have nx: "nextdigi hdr \<le> ndigis hdr" using wf by (simp add: wf_hdr_def)
  define h1 where "h1 = h\<lparr>digis := (digis h)[n := put_digi hdr n], ndigis := Suc n,
      nextdigi := (if n < nextdigi hdr then Suc n else nextdigi h)\<rparr>"
  have step: "digi_loop (Suc fuel) h bpp =
      (if \<not> n < ndigis hdr - 1 then Some (Suc n + 2, h1, bpp1) else digi_loop fuel h1 bpp1)"
    using p bits n Suc.prems(2) by (simp add: Let_def digi_store_def h1_def AXALEN_def)
  show ?case
  proof (cases "n < ndigis hdr - 1")
    case False
    then have "Suc n = ndigis hdr" using Suc.prems(1) by simp
    then show ?thesis
      using step False rest nx Suc.prems n unfolding \<open>Suc n = ndigis hdr\<close> [symmetric]
      by (auto simp: h1_def nth_list_update less_Suc_eq simp del: digi_loop.simps)
  next
    case True
    have "\<exists>h' bpp'. digi_loop fuel h1 bpp1 = Some (ndigis hdr + 2, h', bpp') \<and> content bpp' = rest \<and>
      h' = h1\<lparr>digis := digis h', ndigis := ndigis hdr, nextdigi := nextdigi hdr\<rparr> \<and>
      (\<forall>i < ndigis hdr. digis h' ! i = (if i < Suc n then digis h1 ! i else put_digi hdr i))"
      by (rule Suc.IH) (use True Suc.prems rest in \<open>auto simp: h1_def\<close>)
    then obtain h' bpp' where r: "digi_loop fuel h1 bpp1 = Some (ndigis hdr + 2, h', bpp')" "content bpp' = rest"
      "h' = h1\<lparr>digis := digis h', ndigis := ndigis hdr, nextdigi := nextdigi hdr\<rparr>"
      "\<forall>i < ndigis hdr. digis h' ! i = (if i < Suc n then digis h1 ! i else put_digi hdr i)"
      by blast
    have "h' = h\<lparr>digis := digis h', ndigis := ndigis hdr, nextdigi := nextdigi hdr\<rparr>"
      by (subst r(3)) (simp add: h1_def)
    moreover have "digis h' ! i = (if i < n then digis h ! i else put_digi hdr i)" if "i < ndigis hdr" for i
      using r(4) that n Suc.prems(3) by (auto simp: h1_def nth_list_update less_Suc_eq)
    ultimately show ?thesis
      using step True r(1,2) by (auto simp del: digi_loop.simps)
  qed
qed

lemma ntohax25_put:
  assumes wf: "wf_hdr hdr" and h0: "length (digis h0) = MAXDIGIS"
    and c: "content bp = put_dest hdr @ put_source hdr @ concat (map (put_digi hdr) [0..<ndigis hdr]) @ rest"
  obtains h' bp' where "ntohax25 h0 bp = Some (ndigis hdr + 2, h', bp')" "content bp' = rest"
    "dest h' = put_dest hdr" "source h' = put_source hdr" "ndigis h' = ndigis hdr"
    "nextdigi h' = nextdigi hdr" "cmdrsp h' = cmdrsp hdr" "qso_num h' = -1"
    "ext h' = ext hdr AND (SSID_EAX25 OR SSID_DAMA)"
    "\<forall>i < ndigis hdr. digis h' ! i = put_digi hdr i"
proof -
  have len: "length (dest hdr) = 7" "length (source hdr) = 7" using wf by (simp_all add: wf_hdr_def AXALEN_def)
  obtain bp1 where p1: "pullup bp AXALEN = (put_dest hdr, bp1)"
      and c1: "content bp1 = put_source hdr @ concat (map (put_digi hdr) [0..<ndigis hdr]) @ rest"
    using pullup_bytes_rest [of bp AXALEN] c len by (cases "pullup bp AXALEN") (simp add: AXALEN_def)
  obtain bp2 where p2: "pullup bp1 AXALEN = (put_source hdr, bp2)"
      and c2: "content bp2 = concat (map (put_digi hdr) [0..<ndigis hdr]) @ rest"
    using pullup_bytes_rest [of bp1 AXALEN] c1 len by (cases "pullup bp1 AXALEN") (simp add: AXALEN_def)
  have flex: "put_dest hdr ! 1 AND 1 = 0"
    using wf len by (simp add: put_dest_def ALEN_def wf_hdr_def and_one_eq bit_0 odd_iff_mod_2_eq_one)
  have cr: "read_cmdrsp (put_source hdr ! 6) (put_dest hdr ! 6) = cmdrsp hdr"
    using put_last(1) [OF len(1)] put_last(2) [OF len(2)]
    by (cases "cmdrsp hdr") (simp_all add: read_cmdrsp_def c_bit_eq wire_simps)
  have ex: "read_ext (put_source hdr ! 6) = ext hdr AND (SSID_EAX25 OR SSID_DAMA)"
    using put_last(2) [OF len(2)] by (simp add: read_ext_bits wire_simps ext_bits [symmetric])
  have eb: "put_source hdr ! 6 AND E_BIT \<noteq> 0 \<longleftrightarrow> ndigis hdr = 0"
    using put_last(2) [OF len(2)] by (simp add: wire_simps)
  define H where "H = h0\<lparr>dest := put_dest hdr, source := put_source hdr, qso_num := -1,
      cmdrsp := cmdrsp hdr, ndigis := 0, nextdigi := 0, ext := ext hdr AND (SSID_EAX25 OR SSID_DAMA)\<rparr>"
  have run: "ntohax25 h0 bp = (if ndigis hdr = 0 then Some (2, H, bp2) else digi_loop MAXDIGIS H bp2)"
    using p1 p2 flex cr ex eb len by (simp add: ntohax25_def Let_def H_def ALEN_def AXALEN_def)
  show thesis
  proof (cases "ndigis hdr = 0")
    case True
    then show thesis using run c2 wf that [of H bp2] by (simp add: H_def wf_hdr_def)
  next
    case False
    obtain h' bp' where r: "digi_loop MAXDIGIS H bp2 = Some (ndigis hdr + 2, h', bp')" "content bp' = rest"
      "h' = H\<lparr>digis := digis h', ndigis := ndigis hdr, nextdigi := nextdigi hdr\<rparr>"
      "\<forall>i < ndigis hdr. digis h' ! i = (if i < 0 then digis H ! i else put_digi hdr i)"
      using digi_loop_reads [OF wf, of 0 H MAXDIGIS bp2 rest] False wf h0 c2
      by (auto simp: H_def wf_hdr_def)
    have "dest h' = dest H" "source h' = source H" "ndigis h' = ndigis hdr" "nextdigi h' = nextdigi hdr"
      "cmdrsp h' = cmdrsp H" "qso_num h' = qso_num H" "ext h' = ext H"
      by (subst r(3), simp)+
    then show thesis using that [of h' bp'] run False r(1,2,4) by (simp add: H_def)
  qed
qed

text \<open>C19: \<^verbatim>\<open>ntohax25\<close> reads back what \<^verbatim>\<open>htonax25\<close> wrote in front of any packet: the number of addresses,
  the same stations (in the sense of \<^verbatim>\<open>addreq\<close>), the same path and position in it, the same
  command/response sense, the two extension flags, and the packet that follows.  It holds for
  every well-formed header with up to eight digipeaters, wherever the bytes come to lie in the
  chain of mbufs.\<close>
theorem ax25_header_roundtrip:
  assumes "wf_hdr hdr" and "length (digis h0) = MAXDIGIS"
    and "content bp = content (htonax25 fits hdr pkt)"
  shows "\<exists>h' bp'. ntohax25 h0 bp = Some (ndigis hdr + 2, h', bp') \<and> content bp' = content pkt \<and>
     addreq (dest h') (dest hdr) \<and> addreq (source h') (source hdr) \<and>
     ndigis h' = ndigis hdr \<and> nextdigi h' = nextdigi hdr \<and> cmdrsp h' = cmdrsp hdr \<and>
     qso_num h' = -1 \<and> ext h' = ext hdr AND (SSID_EAX25 OR SSID_DAMA) \<and>
     (\<forall>i < ndigis hdr. addreq (digis h' ! i) (digis hdr ! i))"
proof -
  have "content bp = put_dest hdr @ put_source hdr @ concat (map (put_digi hdr) [0..<ndigis hdr]) @ content pkt"
    using assms by (simp add: htonax25_def wf_hdr_def pushdown_content)
  from ntohax25_put [OF assms(1,2) this] obtain h' bp' where
    r: "ntohax25 h0 bp = Some (ndigis hdr + 2, h', bp')" "content bp' = content pkt"
    "dest h' = put_dest hdr" "source h' = put_source hdr" "ndigis h' = ndigis hdr"
    "nextdigi h' = nextdigi hdr" "cmdrsp h' = cmdrsp hdr" "qso_num h' = -1"
    "ext h' = ext hdr AND (SSID_EAX25 OR SSID_DAMA)" "\<forall>i < ndigis hdr. digis h' ! i = put_digi hdr i"
    by blast
  moreover have "length (dest hdr) = 7" "length (source hdr) = 7"
     "\<forall>i < ndigis hdr. length (digis hdr ! i) = 7"
    using assms(1) by (auto simp: wf_hdr_def AXALEN_def)
  ultimately show ?thesis using put_addreq by auto
qed

text \<open>A header with two digipeaters, the first of which has repeated the frame.\<close>

definition sample_hdr :: ax25 where
  "sample_hdr =
     \<lparr>dest = [0x88, 0x96, 0x6a, 0xa6, 0x8e, 0x40, 0x60], source = [0x88, 0x96, 0x6a, 0xaa, 0x92, 0x40, 0x62],
      digis = replicate 7 [0x88, 0x84, 0x60, 0x82, 0x82, 0x82, 0x64] @ [[0, 0, 0, 0, 0, 0, 0]],
      ndigis = 2, nextdigi = 1, cmdrsp = LAPB_COMMAND, qso_num = -1, ext = 0x40\<rparr>"

lemma ax25_header_roundtrip_witness:
  "\<exists>h' bp'. ntohax25 sample_hdr (htonax25 False sample_hdr [[1, 2, 3]]) = Some (4, h', bp') \<and>
     content bp' = [1, 2, 3] \<and> nextdigi h' = 1 \<and> cmdrsp h' = LAPB_COMMAND"
proof -
  have "wf_hdr sample_hdr"
    by (simp add: wf_hdr_def sample_hdr_def AXALEN_def MAXDIGIS_def bit_0)
  moreover have "length (digis sample_hdr) = MAXDIGIS"
    by (simp add: sample_hdr_def MAXDIGIS_def)
  ultimately show ?thesis
    using ax25_header_roundtrip [of sample_hdr sample_hdr "htonax25 False sample_hdr [[1, 2, 3]]" False "[[1, 2, 3]]"]
    by (fastforce simp: sample_hdr_def)
qed

section \<open>Bounds of the decoder\<close>

lemma digi_loop_bounds:
  "digi_loop fuel h bpp = Some (n, h', bpp') \<Longrightarrow> nextdigi h \<le> ndigis h \<Longrightarrow>
     n = ndigis h' + 2 \<and> ndigis h < ndigis h' \<and> ndigis h' \<le> ndigis h + fuel \<and> nextdigi h' \<le> ndigis h' \<and>
     dest h' = dest h \<and> source h' = source h \<and>
     length (content bpp) = length (content bpp') + (ndigis h' - ndigis h) * AXALEN"
proof (induction fuel arbitrary: h bpp)
  case (Suc fuel)
  obtain axp bpp1 where p: "pullup bpp AXALEN = (axp, bpp1)" by fastforce
  have len: "length axp = AXALEN" using Suc.prems(1) p by (simp split: if_splits)
  have "axp = take AXALEN (content bpp)" "content bpp1 = drop AXALEN (content bpp)"
    using pullup_prod [OF p] by simp_all
  then have c: "length (content bpp) = length (content bpp1) + AXALEN" using len by simp
  let ?h1 = "digi_store axp h"
  have nd: "nextdigi ?h1 \<le> ndigis ?h1" "ndigis ?h1 = Suc (ndigis h)" "dest ?h1 = dest h" "source ?h1 = source h"
    using Suc.prems(2) by (auto simp: digi_store_def Let_def)
  show ?case
  proof (cases "axp ! ALEN AND E_BIT \<noteq> 0")
    case True
    then have "n = ndigis ?h1 + 2" "h' = ?h1" "bpp' = bpp1" using Suc.prems(1) p len by (auto simp: Let_def)
    then show ?thesis using nd c by simp
  next
    case False
    then have "digi_loop fuel ?h1 bpp1 = Some (n, h', bpp')" using Suc.prems(1) p len by (simp add: Let_def)
    from Suc.IH [OF this nd(1)] show ?thesis unfolding nd using c
      by (auto dest!: less_imp_Suc_add simp: algebra_simps)
  qed
qed simp

lemma digi_loop_qso: "digi_loop fuel h bpp = Some (n, h', bpp') \<Longrightarrow> qso_num h' = qso_num h"
  by (induction fuel arbitrary: h bpp) (auto simp: Let_def digi_store_def split: prod.splits if_splits)

text \<open>C29: Whatever bytes arrive, a header that \<^verbatim>\<open>ntohax25\<close> accepts uses at most the eight slots of the
  digipeater array, points inside the path, reports \<^verbatim>\<open>ndigis + 2\<close> addresses, and has eaten exactly
  these addresses (or the seven octets of a compressed FlexNet header).\<close>
theorem ntohax25_bounds:
  assumes "ntohax25 hdr bpp = Some (n, h', bpp')"
  shows "ndigis h' \<le> MAXDIGIS \<and> nextdigi h' \<le> ndigis h' \<and> n = ndigis h' + 2 \<and>
    length (dest h') = AXALEN \<and> length (source h') = AXALEN \<and>
    length (content bpp) = length (content bpp') + (if qso_num h' = -1 then n * AXALEN else AXALEN)"
proof -
  obtain d bp1 where p1: "pullup bpp AXALEN = (d, bp1)" by fastforce
  obtain s bp2 where p2: "pullup bp1 AXALEN = (s, bp2)" by fastforce
  have d: "length d = AXALEN"
    using assms pullup_prod [OF p1] p1 by (auto simp: ntohax25_def split: if_splits)
  then have c1: "length (content bpp) = length (content bp1) + AXALEN"
    using pullup_prod [OF p1] by simp
  show ?thesis
  proof (cases "d ! 1 AND 1 = 0")
    case False
    then have "n = 2" "h' = flex_decompress hdr d" "bpp' = bp1"
      using assms p1 d by (simp_all add: ntohax25_def)
    moreover have "uint q \<noteq> -1" for q :: u32 using uint_ge_0 [of q] by linarith
    ultimately show ?thesis using c1 by (simp add: flex_decompress_def AXALEN_def)
  next
    case True
    have s: "length s = AXALEN"
      using assms pullup_prod [OF p2] p1 p2 d True by (auto simp: ntohax25_def split: if_splits)
    then have c2: "length (content bp1) = length (content bp2) + AXALEN"
      using pullup_prod [OF p2] by simp
    define H where "H = hdr\<lparr>dest := d, source := s, qso_num := -1,
      cmdrsp := read_cmdrsp (s ! ALEN) (d ! ALEN), ndigis := 0, nextdigi := 0, ext := read_ext (s ! ALEN)\<rparr>"
    have run: "(if s ! ALEN AND E_BIT \<noteq> 0 then Some (2, H, bp2) else digi_loop MAXDIGIS H bp2) = Some (n, h', bpp')"
      using assms p1 p2 d s True
      by (cases "s ! ALEN AND E_BIT = 0") (simp_all add: ntohax25_def Let_def H_def)
    have q: "qso_num h' = -1" 
      using run digi_loop_qso [of MAXDIGIS H bp2 n h' bpp'] by (auto simp: H_def split: if_splits)
    show ?thesis
    proof (cases "s ! ALEN AND E_BIT = 0")
      case False
      then show ?thesis using run c1 c2 d s by (auto simp: H_def)
    next
      case T: True
      then have "digi_loop MAXDIGIS H bp2 = Some (n, h', bpp')" using run by simp
      from digi_loop_bounds [OF this] show ?thesis
        using c1 c2 d s q by (simp add: H_def algebra_simps)
    qed
  qed
qed

lemma ntohax25_bounds_witness:
  "\<exists>n h' bpp'. ntohax25 sample_hdr [[2, 3, 4, 5], [6, 7, 8, 9]] = Some (n, h', bpp') \<and> n = 2 \<and> bpp' = [[9]]"
proof -
  obtain h' where r: "ntohax25 sample_hdr [[2, 3, 4, 5], [6, 7, 8, 9]] = Some (2, h', [[9]])"
    by (simp add: ntohax25_def AXALEN_def pullup.simps(2))
  from ntohax25_bounds [OF this] r show ?thesis by simp
qed

section \<open>Paths have no loops\<close>

definition path_ok :: "axaddr \<Rightarrow> ax25 \<Rightarrow> bool" where
  "path_ok Mycall h \<longleftrightarrow> ndigis h \<le> MAXDIGIS \<and> length (digis h) = MAXDIGIS \<and>
     (\<forall>i < ndigis h. is_axaddr (digis h ! i) \<and> \<not> addreq (digis h ! i) (dest h) \<and>
        \<not> addreq (digis h ! i) Mycall \<and> (\<forall>j < i. \<not> addreq (digis h ! i) (digis h ! j)))"

lemma path_args_ok:
  "path_args Mycall argv h = Inr h' \<Longrightarrow> path_ok Mycall h \<Longrightarrow> path_ok Mycall h' \<and> dest h' = dest h \<and> source h' = source h"
proof (induction argv arbitrary: h)
  case (Cons w argv)
  show ?case
  proof (cases "noise_word w")
    case True
    then show ?thesis using Cons by simp
  next
    case False
    then obtain a where a: "setcall w = Some a" "ndigis h < MAXDIGIS" "\<not> addreq a (dest h)"
        "\<not> addreq a Mycall" "\<not> list_ex (\<lambda>i. addreq a (digis h ! i)) [0..<ndigis h]"
      and r: "path_args Mycall argv (h\<lparr>digis := (digis h)[ndigis h := a], ndigis := ndigis h + 1\<rparr>) = Inr h'"
      using Cons.prems(1) by (auto split: if_splits option.splits)
    have "path_ok Mycall (h\<lparr>digis := (digis h)[ndigis h := a], ndigis := ndigis h + 1\<rparr>)"
      using Cons.prems(2) a setcall_axaddr [OF a(1)]
      by (auto simp: path_ok_def list_ex_iff less_Suc_eq nth_list_update)
    from Cons.IH [OF r this] show ?thesis by simp
  qed
qed simp

text \<open>A path that \<^verbatim>\<open>ax25args_to_hdr\<close> accepts has at most eight digipeaters, each a proper address,
  none of them the destination, the node itself or an earlier member of the path; the source is
  the node's own call.\<close>
theorem path_without_loops:
  assumes "ax25args_to_hdr Mycall argv hdr = Inr h'" and "length (digis hdr) = MAXDIGIS"
  shows "path_ok Mycall h' \<and> is_axaddr (dest h') \<and> source h' = addrcp Mycall"
proof -
  obtain w rest a where w: "argv = w # rest" "setcall w = Some a"
    and r: "path_args Mycall rest (hdr\<lparr>ndigis := 0, nextdigi := 0, ext := 0, source := addrcp Mycall, dest := a\<rparr>) = Inr h'"
    using assms(1) by (auto simp: ax25args_to_hdr_def Let_def split: list.splits option.splits)
  from path_args_ok [OF r] w(2) assms(2) show ?thesis
    by (auto simp: path_ok_def setcall_axaddr)
qed

lemma path_without_loops_witness:
  "\<exists>h'. ax25args_to_hdr (dest sample_hdr) [''dk5uj'', ''via'', ''db0aaa-2''] sample_hdr = Inr h' \<and> ndigis h' = 1 \<and>
     path_ok (dest sample_hdr) h'"
proof -
  have "case ax25args_to_hdr (dest sample_hdr) [''dk5uj'', ''via'', ''db0aaa-2''] sample_hdr of
      Inl e \<Rightarrow> False | Inr h \<Rightarrow> ndigis h = 1"
    by code_simp
  then obtain h' where "ax25args_to_hdr (dest sample_hdr) [''dk5uj'', ''via'', ''db0aaa-2''] sample_hdr = Inr h'"
    "ndigis h' = 1" by (auto split: sum.splits)
  moreover from path_without_loops [OF this(1)] have "path_ok (dest sample_hdr) h'"
    by (simp add: sample_hdr_def MAXDIGIS_def)
  ultimately show ?thesis by blast
qed

text \<open>\<^verbatim>\<open>ax25hdr_to_string\<close> never overruns its 128-byte buffer, terminating null included, for any
  header with at most eight digipeaters.\<close>
theorem ax25hdr_to_string_fits:
  assumes "ndigis hdr \<le> MAXDIGIS"
  shows "length (ax25hdr_to_string hdr) < 128"
proof -
  let ?d = "\<lambda>i. (if i = 0 then '' via '' else '','') @ pax25 (digis hdr ! i) @ (if i < nextdigi hdr then ''*'' else [])"
  have "length (?d i) \<le> (if i = 0 then 15 else 11)" for i
    using pax25_length [of "digis hdr ! i"] by (cases "i = 0") auto
  then have "length (concat (map ?d [0..<n])) \<le> 11 * n + 4" for n
  proof (induction n)
    case (Suc n)
    then show ?case using Suc.prems [of n] by (cases "n = 0") auto
  qed simp
  from this [of "ndigis hdr"] show ?thesis
    using assms pax25_length [of "dest hdr"] pax25_length [of "source hdr"]
    unfolding ax25hdr_to_string_def MAXDIGIS_def by simp
qed

lemma ax25hdr_to_string_fits_witness: "length (ax25hdr_to_string sample_hdr) < 128"
  by (rule ax25hdr_to_string_fits) (simp add: sample_hdr_def MAXDIGIS_def)

end
