(* ===== verification/Inet_Cksum.thy ===== *)
theory Inet_Cksum
  imports Mbuf
begin

text \<open>
  The Internet checksum: \<^verbatim>\<open>eac\<close> and \<^verbatim>\<open>cksum\<close> of \<^verbatim>\<open>src/src/iphdr.c\<close>, \<^verbatim>\<open>lcsum\<close> of \<^verbatim>\<open>src/src/lcsum.c\<close>.
  The code takes short cuts that depend on where the bytes lie: an mbuf may start at an odd
  address, a 16-bit word of the stream may straddle two mbufs, and the inner loop reads words
  in the byte order of the machine.  The parameter \<open>le\<close> is the outcome of the byte order test,
  \<open>al n\<close> says whether the data of an mbuf that is the last but \<open>n\<close> of its chain starts at an
  odd address.  Sums are natural numbers: the \<^verbatim>\<open>int32\<close> accumulators cannot overflow for a
  chain of up to 10000 mbufs (\<open>cksum_acc_bound\<close>).

  Shown: the result is the ones' complement sum of the big-endian 16-bit words of the content,
  whatever the byte order, the alignment and the cut into mbufs; and a packet that carries its
  own checksum sums to zero.
\<close>

text \<open>\<^verbatim>\<open>eac\<close>: fold the carries in until none is left.\<close>

function eac :: "nat \<Rightarrow> nat" where
  "eac s = (if s div 65536 \<noteq> 0 then eac (s div 65536 + s mod 65536) else s mod 65536)"
  by pat_completeness auto
termination
proof (relation "measure id")
  fix s :: nat
  assume "s div 65536 \<noteq> 0"
  then have "0 < s div 65536" by simp
  moreover have "s = 65536 * (s div 65536) + s mod 65536" by simp
  ultimately show "(s div 65536 + s mod 65536, s) \<in> measure id" unfolding in_measure id_def by linarith
qed simp

declare eac.simps [simp del]

fun sum_words :: "bool \<Rightarrow> byte list \<Rightarrow> nat" where
  "sum_words le (a # b # wp) =
     (if le then unat a + 256 * unat b else 256 * unat a + unat b) + sum_words le wp"
| "sum_words le wp = 0"

definition swap16 :: "nat \<Rightarrow> nat" where
  "swap16 x = (x * 256 + x div 256) mod 65536"

text \<open>\<^verbatim>\<open>lcsum\<close> of \<open>len\<close> words at \<open>wp\<close>.\<close>

definition lcsum :: "bool \<Rightarrow> byte list \<Rightarrow> nat \<Rightarrow> nat" where
  "lcsum le wp len =
     (let result = eac (sum_words le (take (2 * len) wp))
      in if le then swap16 result else result)"

record pseudo_header =
  ph_source :: u32
  ph_dest :: u32
  ph_protocol :: byte
  ph_length :: u32

definition hiword :: "u32 \<Rightarrow> nat" where "hiword x = unat x div 65536"
definition loword :: "u32 \<Rightarrow> nat" where "loword x = unat x mod 65536"

definition ph_sum :: "pseudo_header option \<Rightarrow> nat" where
  "ph_sum ph =
     (case ph of
        None \<Rightarrow> 0
      | Some p \<Rightarrow> hiword (ph_source p) + loword (ph_source p) + hiword (ph_dest p) + loword (ph_dest p) +
                 unat (ph_protocol p) + unat (ph_length p))"

text \<open>One mbuf of \<open>cksum\<close>: the odd leading byte, the words, the odd trailing byte.\<close>

definition cksum_mbuf :: "bool \<Rightarrow> bool \<Rightarrow> bool \<Rightarrow> byte list \<Rightarrow> nat \<times> bool" where
  "cksum_mbuf le oddp swap up =
     (let (csum, up, swap) =
            (if oddp then (if swap then unat (hd up) else 256 * unat (hd up), tl up, \<not> swap)
             else (0, up, swap));
          cnt = length up;
          csum = (if cnt > 1
                  then csum + (let csum1 = lcsum le up (cnt div 2) in if swap then swap16 csum1 else csum1)
                  else csum)
      in if cnt mod 2 = 1
         then (csum + (if swap then unat (last up) else 256 * unat (last up)), \<not> swap)
         else (csum, swap))"

fun cksum_loop :: "bool \<Rightarrow> (nat \<Rightarrow> bool) \<Rightarrow> nat \<Rightarrow> nat \<Rightarrow> bool \<Rightarrow> chain \<Rightarrow> nat \<Rightarrow> nat" where
  "cksum_loop le al len tot swap [] acc = acc"
| "cksum_loop le al len tot swap (s # m) acc =
     (if tot < len
      then let cnt = min (length s) (len - tot)
           in if cnt = 0 then cksum_loop le al len tot swap m acc
              else let (csum, swap) = cksum_mbuf le (al (length m)) swap (take cnt s)
                   in cksum_loop le al len (tot + cnt) swap m (acc + csum)
      else acc)"

definition cksum :: "bool \<Rightarrow> (nat \<Rightarrow> bool) \<Rightarrow> pseudo_header option \<Rightarrow> chain \<Rightarrow> nat \<Rightarrow> nat" where
  "cksum le al ph m len = 65535 - eac (cksum_loop le al len 0 False m (ph_sum ph))"

section \<open>End-around carry\<close>

lemma eac_mod: "eac s mod 65535 = s mod 65535"
proof (induction s rule: eac.induct)
  case (1 s)
  show ?case
  proof (cases "s div 65536 = 0")
    case True
    then show ?thesis by (simp add: eac.simps [of s])
  next
    case False
    have "s = 65535 * (s div 65536) + (s div 65536 + s mod 65536)"
      using div_mult_mod_eq [of s 65536] by linarith
    then have "s mod 65535 = (65535 * (s div 65536) + (s div 65536 + s mod 65536)) mod 65535" by simp
    also have "\<dots> = (s div 65536 + s mod 65536) mod 65535" by (simp only: mod_mult_self4)
    finally show ?thesis using 1 False by (simp add: eac.simps [of s])
  qed
qed

lemma eac_zero: "eac s = 0 \<longleftrightarrow> s = 0"
proof (induction s rule: eac.induct)
  case (1 s)
  then show ?case by (cases "s div 65536 = 0") (auto simp: eac.simps [of s])
qed

lemma eac_bound: "eac s \<le> 65535"
proof (induction s rule: eac.induct)
  case (1 s)
  have "s mod 65536 \<le> 65535" using mod_less_divisor [of 65536 s] by simp
  with 1 show ?case by (cases "s div 65536 = 0") (simp_all add: eac.simps [of s])
qed

lemma eac_closed: "eac s = (if s = 0 then 0 else if s mod 65535 = 0 then 65535 else s mod 65535)"
proof -
  have "eac s mod 65535 = s mod 65535" "eac s \<le> 65535" "eac s = 0 \<longleftrightarrow> s = 0"
    by (rule eac_mod eac_bound eac_zero)+
  moreover have "eac s = 65535 \<or> eac s mod 65535 = eac s" using eac_bound [of s] by (auto simp: le_less)
  ultimately show ?thesis by auto
qed

text \<open>Two sums are interchangeable under \<open>eac\<close> when they agree modulo 65535 and in being zero.\<close>

definition ocong :: "nat \<Rightarrow> nat \<Rightarrow> bool" where
  "ocong s t \<longleftrightarrow> s mod 65535 = t mod 65535 \<and> (s = 0 \<longleftrightarrow> t = 0)"

lemma ocong_refl [simp]: "ocong s s"
  and ocong_sym: "ocong s t \<Longrightarrow> ocong t s"
  and ocong_trans: "ocong s t \<Longrightarrow> ocong t u \<Longrightarrow> ocong s u"
  by (auto simp: ocong_def)

lemma ocong_add: "ocong s t \<Longrightarrow> ocong s' t' \<Longrightarrow> ocong (s + s') (t + t')"
  unfolding ocong_def using mod_add_cong by blast

lemma ocong_eac: "ocong s t \<longleftrightarrow> eac s = eac t"
  using eac_mod eac_zero by (auto simp: ocong_def eac_closed)

lemma ocong_eac_self: "ocong (eac s) s"
  by (simp add: ocong_def eac_mod eac_zero)

lemma ocong_swap16:
  assumes "x < 65536"
  shows "ocong (swap16 x) (256 * x)"
proof -
  define h l where "h = x div 256" and "l = x mod 256"
  have x: "x = 256 * h + l" "h < 256" "l < 256" using assms by (auto simp: h_def l_def)
  have "swap16 x = (65536 * h + (256 * l + h)) mod 65536"
    unfolding swap16_def h_def [symmetric] by (simp add: x(1) algebra_simps)
  also have "\<dots> = (256 * l + h) mod 65536" by (simp only: mod_mult_self4)
  also have "\<dots> = 256 * l + h" using x(2,3) by simp
  finally have "swap16 x = 256 * l + h" .
  moreover have "256 * x = 65535 * h + (256 * l + h)" using x by simp
  then have "256 * x mod 65535 = (256 * l + h) mod 65535" by (simp only: mod_mult_self4)
  ultimately show ?thesis by (auto simp: ocong_def x)
qed

section \<open>The sum of a byte stream\<close>

text \<open>\<open>wsum sw bs\<close>: the bytes weighted 256, 1, 256, 1 ... from the first one, or from the second when \<open>sw\<close>.\<close>

fun wsum :: "bool \<Rightarrow> byte list \<Rightarrow> nat" where
  "wsum sw [] = 0"
| "wsum sw (b # bs) = (if sw then unat b else 256 * unat b) + wsum (\<not> sw) bs"

lemma wsum_append: "wsum sw (xs @ ys) = wsum sw xs + wsum (sw \<noteq> odd (length xs)) ys"
proof (induction xs arbitrary: sw)
  case (Cons x xs)
  have "((\<not> sw) \<noteq> odd (length xs)) = (sw \<noteq> odd (length (x # xs)))" by auto
  then show ?case using Cons [of "\<not> sw"] by (simp only: append_Cons wsum.simps add.assoc)
qed simp

lemma wsum_zero: "wsum sw bs = 0 \<longleftrightarrow> wsum sw' bs = 0"
  by (induction bs arbitrary: sw sw') auto

lemma ocong_wsum: "ocong (256 * wsum sw bs) (wsum (\<not> sw) bs)"
proof -
  have "(256 * wsum sw bs) mod 65535 = wsum (\<not> sw) bs mod 65535"
  proof (induction bs arbitrary: sw)
    case (Cons b bs)
    have IH: "(256 * wsum (\<not> sw) bs) mod 65535 = wsum sw bs mod 65535" using Cons [of "\<not> sw"] by simp
    have "(256 * (if sw then unat b else 256 * unat b) + 256 * wsum (\<not> sw) bs) mod 65535 =
        ((if sw then 256 * unat b else unat b) + wsum sw bs) mod 65535"
    proof (rule mod_add_cong)
      have "65536 * unat b = 65535 * unat b + unat b" by simp
      then have "65536 * unat b mod 65535 = unat b mod 65535" by (simp only: mod_mult_self4)
      then show "256 * (if sw then unat b else 256 * unat b) mod 65535 = (if sw then 256 * unat b else unat b) mod 65535"
        by simp
    qed (rule IH)
    then show ?case by (simp add: distrib_left)
  qed simp
  moreover have "wsum sw bs = 0 \<longleftrightarrow> wsum (\<not> sw) bs = 0" by (rule wsum_zero)
  ultimately show ?thesis by (simp add: ocong_def)
qed

lemma sum_words_wsum: "even (length wp) \<Longrightarrow> sum_words le wp = wsum le wp"
  by (induction le wp rule: sum_words.induct) auto

lemma lcsum_wsum:
  assumes "2 * len \<le> length wp"
  shows "ocong (lcsum le wp len) (wsum False (take (2 * len) wp))" "lcsum le wp len < 65536"
proof -
  let ?w = "take (2 * len) wp"
  have "length ?w = 2 * len" using assms by simp
  then have s: "sum_words le ?w = wsum le ?w" by (intro sum_words_wsum) simp
  have b: "eac n < 65536" for n using eac_bound [of n] by simp
  have "ocong (swap16 (eac (wsum True ?w))) (wsum False ?w)"
  proof -
    have "ocong (swap16 (eac (wsum True ?w))) (256 * eac (wsum True ?w))" by (rule ocong_swap16 [OF b])
    moreover have "ocong (256 * eac (wsum True ?w)) (256 * wsum True ?w)"
      using eac_mod [of "wsum True ?w"] eac_zero [of "wsum True ?w"]
      by (auto simp: ocong_def intro: mod_mult_cong)
    ultimately show ?thesis using ocong_wsum [of True ?w] by (auto intro: ocong_trans)
  qed
  then show "ocong (lcsum le wp len) (wsum False ?w)"
    using ocong_eac_self s by (cases le) (simp_all add: lcsum_def)
  show "lcsum le wp len < 65536" using b by (auto simp: lcsum_def swap16_def Let_def)
qed

lemma ocong_swapped:
  assumes "ocong x (wsum False w)" "x < 65536"
  shows "ocong (if sw then swap16 x else x) (wsum sw w)"
proof (cases sw)
  case True
  have "ocong (256 * x) (256 * wsum False w)"
    using assms(1) by (auto simp: ocong_def intro: mod_mult_cong)
  then show ?thesis
    using True ocong_swap16 [OF assms(2)] ocong_wsum [of False w] by (auto intro: ocong_trans)
qed (use assms in simp)

text \<open>The words and the odd trailing byte of an mbuf.\<close>

lemma even_part:
  "ocong (if length up > 1 then (let csum1 = lcsum le up (length up div 2) in if sw then swap16 csum1 else csum1) else 0)
     (wsum sw (take (2 * (length up div 2)) up))"
proof (cases "length up > 1")
  case True
  have "2 * (length up div 2) \<le> length up" by simp
  with True show ?thesis by (simp add: Let_def ocong_swapped [OF lcsum_wsum])
next
  case False
  then have "length up div 2 = 0" by simp
  with False show ?thesis by simp
qed

lemma cksum_mbuf_wsum:
  assumes "up \<noteq> []" "cksum_mbuf le oddp sw up = (csum, sw')"
  shows "ocong csum (wsum sw up) \<and> sw' = (sw \<noteq> odd (length up))"
proof -
  define c0 where "c0 = (if oddp then (if sw then unat (hd up) else 256 * unat (hd up)) else 0)"
  define up1 where "up1 = (if oddp then tl up else up)"
  define sw1 where "sw1 = (if oddp then \<not> sw else sw)"
  obtain b bs where up: "up = b # bs" using assms(1) by (cases up) auto
  have first: "wsum sw up = c0 + wsum sw1 up1" "(sw1 \<noteq> odd (length up1)) = (sw \<noteq> odd (length up))"
    unfolding c0_def up1_def sw1_def up by (cases oddp; auto)+
  define c1 where "c1 = (if length up1 > 1 then (let csum1 = lcsum le up1 (length up1 div 2) in
      if sw1 then swap16 csum1 else csum1) else 0)"
  have c1: "ocong c1 (wsum sw1 (take (2 * (length up1 div 2)) up1))" unfolding c1_def by (rule even_part)
  have r: "(csum, sw') = (if length up1 mod 2 = 1
      then (c0 + c1 + (if sw1 then unat (last up1) else 256 * unat (last up1)), \<not> sw1) else (c0 + c1, sw1))"
    using assms unfolding cksum_mbuf_def c0_def c1_def up1_def sw1_def Let_def
    by (cases oddp) (simp_all split: if_splits)
  show ?thesis
  proof (cases "odd (length up1)")
    case False
    then have "2 * (length up1 div 2) = length up1" by simp
    then show ?thesis using r c1 first False by (auto simp: even_iff_mod_2_eq_zero intro: ocong_add)
  next
    case True
    then have len: "length up1 = Suc (2 * (length up1 div 2))" by simp
    then have up1: "up1 = take (2 * (length up1 div 2)) up1 @ [last up1]"
      by (metis append_butlast_last_id butlast_conv_take diff_Suc_1 list.size(3) nat.distinct(1))
    have "wsum sw1 up1 = wsum sw1 (take (2 * (length up1 div 2)) up1) + (if sw1 then unat (last up1) else 256 * unat (last up1))"
      using len by (subst up1, subst wsum_append) simp
    moreover have "length up1 mod 2 = 1" using True by (simp add: odd_iff_mod_2_eq_one)
    ultimately show ?thesis using r c1 first True
      by (auto simp: add.assoc intro!: ocong_add)
  qed
qed

lemma cksum_loop_wsum:
  "tot \<le> len \<Longrightarrow> ocong (cksum_loop le al len tot sw m acc) (acc + wsum sw (take (len - tot) (content m)))"
proof (induction m arbitrary: tot sw acc)
  case (Cons s m)
  define cnt where "cnt = min (length s) (len - tot)"
  have tk: "take (len - tot) (content (s # m)) = take cnt s @ take (len - (tot + cnt)) (content m)"
    by (cases "length s \<le> len - tot") (auto simp: cnt_def min_def)
  consider "tot = len" | "tot < len" "cnt = 0" | "tot < len" "cnt \<noteq> 0"
    using Cons.prems by fastforce
  then show ?case
  proof cases
    case 1
    then show ?thesis by simp
  next
    case 2
    then have "cksum_loop le al len tot sw (s # m) acc = cksum_loop le al len tot sw m acc"
      by (simp add: cnt_def Let_def)
    then show ?thesis using Cons.IH [OF Cons.prems, of sw acc] 2 tk by simp
  next
    case 3
    obtain c sw' where r: "cksum_mbuf le (al (length m)) sw (take cnt s) = (c, sw')" by fastforce
    have len: "length (take cnt s) = cnt" by (simp add: cnt_def)
    have "take cnt s \<noteq> []" using 3(2) len by auto
    from cksum_mbuf_wsum [OF this r] have c: "ocong c (wsum sw (take cnt s))" "sw' = (sw \<noteq> odd (length (take cnt s)))"
      by simp_all
    have eq: "cksum_loop le al len tot sw (s # m) acc = cksum_loop le al len (tot + cnt) sw' m (acc + c)"
      using 3 r by (simp add: cnt_def [symmetric] Let_def)
    have a: "ocong (cksum_loop le al len (tot + cnt) sw' m (acc + c))
        (acc + c + wsum sw' (take (len - (tot + cnt)) (content m)))"
      using Cons.prems by (intro Cons.IH) (simp add: cnt_def)
    have b: "ocong (acc + c + wsum sw' (take (len - (tot + cnt)) (content m)))
        (acc + wsum sw (take (len - tot) (content (s # m))))"
      unfolding tk wsum_append c(2) add.assoc using c(1) by (intro ocong_add ocong_refl)
    show ?thesis unfolding eq by (rule ocong_trans [OF a b])
  qed
qed simp

text \<open>No accumulator overflows an \<^verbatim>\<open>int32\<close>: an mbuf adds less than three times \<open>0xffff\<close>.\<close>

lemma cksum_mbuf_bound: "fst (cksum_mbuf le oddp sw up) \<le> 196605"
proof -
  have b: "unat b \<le> 255" for b :: byte using unat_byte_less [of b] by simp
  have l: "lcsum le x (length x div 2) \<le> 65535" "swap16 y \<le> 65535" for x y
    using lcsum_wsum(2) [of "length x div 2" x le] by (auto simp: swap16_def)
  show ?thesis
    using l(1) [of up] l(1) [of "tl up"] l(2) [of "lcsum le up (length up div 2)"]
      l(2) [of "lcsum le (tl up) (length (tl up) div 2)"] b [of "hd up"] b [of "last up"] b [of "last (tl up)"]
    by (auto simp: cksum_mbuf_def Let_def)
qed

lemma cksum_acc_bound: "cksum_loop le al len tot sw m acc \<le> acc + 196605 * length m"
proof (induction m arbitrary: tot sw acc)
  case (Cons s m)
  obtain c sw' where r: "cksum_mbuf le (al (length m)) sw (take (min (length s) (len - tot)) s) = (c, sw')" by fastforce
  then have "c \<le> 196605" using cksum_mbuf_bound by (metis fst_conv)
  then have "acc + c + 196605 * length m \<le> acc + 196605 * length (s # m)" by simp
  then have "cksum_loop le al len t sw'' m (acc + c) \<le> acc + 196605 * length (s # m)"
    "cksum_loop le al len t sw'' m acc \<le> acc + 196605 * length (s # m)" for t sw''
    using Cons [of t sw'' "acc + c"] Cons [of t sw'' acc] by simp_all
  with r show ?case by (simp add: Let_def)
qed simp

section \<open>What the checksum is\<close>

lemma cksum_eac: "cksum le al ph m len = 65535 - eac (ph_sum ph + wsum False (take len (content m)))"
  using cksum_loop_wsum [of 0 len le al False m "ph_sum ph"] by (simp add: cksum_def ocong_eac)


text \<open>A checksum stored at an even offset makes the whole sum vanish.\<close>

lemma wsum_put16: "x < 65536 \<Longrightarrow> wsum False (put16 (of_nat x)) = x"
proof -
  assume x: "x < 65536"
  then have "unat (of_nat x :: u32) = x" by (simp add: unat_of_nat)
  then have "(of_nat x :: u32) < 0x10000" unfolding word_less_nat_alt using x by simp
  then have "unat (get16 (ucast (drop_bit 8 (of_nat x :: u32))) (ucast (of_nat x :: u32))) = x"
    by (simp add: get16_put16_small \<open>unat (of_nat x :: u32) = x\<close>)
  then show ?thesis by (simp add: put16_def unat_get16)
qed

lemma wsum_zeros: "wsum sw [0, 0] = 0"
  by simp

lemma eac_self_check:
  assumes "c = 65535 - eac s \<or> c = 65535 \<and> eac s = 65535"
  shows "eac (s + c) = 65535"
proof -
  have le: "eac s \<le> 65535" by (rule eac_bound)
  have "(s + c) mod 65535 = (eac s + c) mod 65535"
    by (intro mod_add_cong) (simp_all add: eac_mod)
  also have "\<dots> = 0" using assms le by auto
  finally have "(s + c) mod 65535 = 0" .
  moreover have "s + c \<noteq> 0" using assms le eac_zero [of s] by auto
  ultimately show ?thesis by (simp add: eac_closed)
qed

lemma cksum_self_check:
  assumes "even (length xs)" "P + wsum False (xs @ [0, 0] @ ys) = s"
    and "c = 65535 - eac s \<or> c = 65535 \<and> eac s = 65535"
  shows "eac (P + wsum False (xs @ put16 (of_nat c) @ ys)) = 65535"
proof -
  have "c < 65536" using assms(3) by auto
  then have "wsum False (xs @ put16 (of_nat c) @ ys) = wsum False (xs @ [0, 0] @ ys) + c"
    using assms(1) wsum_put16 [of c] by (simp only: wsum_append length_put16) simp
  then have "P + wsum False (xs @ put16 (of_nat c) @ ys) = s + c" using assms(2) by simp
  then show ?thesis using eac_self_check [OF assms(3)] by simp
qed

end
