(* ===== verification/Inet_Hdr.thy ===== *)
theory Inet_Hdr
  imports Inet_Cksum
begin

text \<open>
  The headers of IP, UDP, ICMP and ARP: \<^verbatim>\<open>src/src/iphdr.c\<close>, \<^verbatim>\<open>udphdr.c\<close>, \<^verbatim>\<open>icmphdr.c\<close>, \<^verbatim>\<open>arphdr.c\<close>
  and their structures in \<^verbatim>\<open>ip.h\<close>, \<^verbatim>\<open>udp.h\<close>, \<^verbatim>\<open>icmp.h\<close>, \<^verbatim>\<open>arp.h\<close>.  Members keep their C widths:
  an \<^verbatim>\<open>uint\<close> has 32 bits, so an encoder cuts it to the 16 bits of the wire.

  Shown: each decoder reads back what the encoder wrote in front of any packet, however the
  packet is cut; the checksums that are written verify; and \<^verbatim>\<open>ntoharp\<close>, which copies the
  hardware addresses before anyone has looked at their length, stays inside its arrays exactly
  when the length octet is at most 20 or the packet ends early.  The locale \<open>header_codec\<close> is
  the interface of the codecs.
\<close>

section \<open>The interface of a header codec\<close>

text \<open>
  \<open>wf\<close> says which headers can be written, \<open>seen h\<close> what a reader gets of them.  A decoder takes
  the header off and leaves the content that followed it.
\<close>

locale header_codec =
  fixes wf :: "'h \<Rightarrow> byte list \<Rightarrow> bool" and seen :: "'h \<Rightarrow> byte list \<Rightarrow> 'r"
    and encode :: "'h \<Rightarrow> chain \<Rightarrow> chain" and decode :: "chain \<Rightarrow> ('r \<times> chain) option"
  assumes decode_encode: "wf h (content pkt) \<Longrightarrow> content bp = content (encode h pkt) \<Longrightarrow>
      \<exists>rest. decode bp = Some (seen h (content pkt), rest) \<and> content rest = content pkt"
begin

lemma cut_independent:
  assumes "wf h (content pkt)" "content bp = content (encode h pkt)" "content bp' = content bp"
  shows "\<exists>r r'. decode bp = Some (seen h (content pkt), r) \<and> decode bp' = Some (seen h (content pkt), r') \<and>
     content r = content r'"
  using assms decode_encode [of h pkt bp] decode_encode [of h pkt bp'] by auto

lemma encode_inj:
  assumes "wf h (content pkt)" "wf h' (content pkt')" "content (encode h pkt) = content (encode h' pkt')"
  shows "seen h (content pkt) = seen h' (content pkt') \<and> content pkt = content pkt'"
  using decode_encode [OF assms(1) refl] decode_encode [OF assms(2), of "encode h pkt"] assms(3) by auto

end

section \<open>IP\<close>

record ip =
  ip_source :: u32
  ip_dest :: u32
  ip_len :: u32
  ip_id :: u32
  ip_offset :: u32
  ip_cksum :: u32
  ip_congest :: bool
  ip_df :: bool
  ip_mf :: bool
  ip_version :: byte
  ip_tos :: byte
  ip_ttl :: byte
  ip_protocol :: byte
  ip_optlen :: byte
  ip_options :: "byte list"

definition IPLEN :: nat where "IPLEN = 20"
definition IP_MAXOPT :: nat where "IP_MAXOPT = 40"

definition ip_hdr_len :: "ip \<Rightarrow> nat" where
  "ip_hdr_len ip =
     (let hdr_len = IPLEN + unat (ip_optlen ip)
      in if hdr_len > IPLEN + IP_MAXOPT then IPLEN + IP_MAXOPT else hdr_len)"

definition ip_fl_offs :: "ip \<Rightarrow> u32" where
  "ip_fl_offs ip =
     (let fl_offs = drop_bit 3 (ip_offset ip);
          fl_offs = (if ip_congest ip then fl_offs OR 0x8000 else fl_offs);
          fl_offs = (if ip_df ip then fl_offs OR 0x4000 else fl_offs)
      in if ip_mf ip then fl_offs OR 0x2000 else fl_offs)"

text \<open>The bytes of the header with \<open>c\<close> in the checksum field.\<close>

definition ip_bytes :: "ip \<Rightarrow> u32 \<Rightarrow> byte list" where
  "ip_bytes ip c =
     [push_bit 4 (ip_version ip) OR of_nat (ip_hdr_len ip div 4), ip_tos ip] @
     put16 (ip_len ip) @ put16 (ip_id ip) @ put16 (ip_fl_offs ip) @
     [ip_ttl ip, ip_protocol ip] @ put16 c @ put32 (ip_source ip) @ put32 (ip_dest ip) @
     (if ip_optlen ip \<noteq> 0 then take (min (unat (ip_optlen ip)) IP_MAXOPT) (ip_options ip) else [])"

definition htonip :: "bool \<Rightarrow> (nat \<Rightarrow> bool) \<Rightarrow> bool \<Rightarrow> ip \<Rightarrow> chain \<Rightarrow> bool \<Rightarrow> chain" where
  "htonip le al fits ip bpp cflag =
     (let bpp' = pushdown fits (ip_bytes ip (if cflag then ip_cksum ip else 0)) bpp
      in if cflag then bpp'
         else pushdown fits (ip_bytes ip (of_nat (cksum le al None bpp' (ip_hdr_len ip)))) bpp)"

definition ntohip_fixed :: "ip \<Rightarrow> byte list \<Rightarrow> ip" where
  "ntohip_fixed ip ipbuf =
     (let fl_offs = get16 (ipbuf ! 6) (ipbuf ! 7)
      in ip\<lparr>ip_version := drop_bit 4 (ipbuf ! 0) AND 0xf,
            ip_tos := ipbuf ! 1,
            ip_len := get16 (ipbuf ! 2) (ipbuf ! 3),
            ip_id := get16 (ipbuf ! 4) (ipbuf ! 5),
            ip_offset := push_bit 3 (fl_offs AND 0x1fff),
            ip_mf := (fl_offs AND 0x2000 \<noteq> 0),
            ip_df := (fl_offs AND 0x4000 \<noteq> 0),
            ip_congest := (fl_offs AND 0x8000 \<noteq> 0),
            ip_ttl := ipbuf ! 8,
            ip_protocol := ipbuf ! 9,
            ip_cksum := get16 (ipbuf ! 10) (ipbuf ! 11),
            ip_source := get32 (ipbuf ! 12) (ipbuf ! 13) (ipbuf ! 14) (ipbuf ! 15),
            ip_dest := get32 (ipbuf ! 16) (ipbuf ! 17) (ipbuf ! 18) (ipbuf ! 19)\<rparr>)"

text \<open>\<^verbatim>\<open>ntohip\<close>: \<open>None\<close> for -1; the options are copied to the front of the old array.\<close>

definition ntohip :: "ip \<Rightarrow> chain \<Rightarrow> (nat \<times> ip \<times> chain) option" where
  "ntohip ip bpp =
     (let (ipbuf, bpp) = pullup bpp IPLEN
      in if length ipbuf \<noteq> IPLEN then None
         else let ip = ntohip_fixed ip ipbuf;
                  ihl = unat (ipbuf ! 0 AND 0xf) * 4
              in if ihl < IPLEN then None
                 else if ihl - IPLEN \<noteq> 0
                 then let (opts, bpp) = pullup bpp (ihl - IPLEN);
                          ip = ip\<lparr>ip_optlen := of_nat (ihl - IPLEN),
                                  ip_options := opts @ drop (length opts) (ip_options ip)\<rparr>
                      in if length opts < ihl - IPLEN then None else Some (ihl, ip, bpp)
                 else Some (ihl, ip\<lparr>ip_optlen := 0\<rparr>, bpp))"

definition wf_ip :: "ip \<Rightarrow> bool" where
  "wf_ip h \<longleftrightarrow> ip_version h < 16 \<and> ip_len h < 0x10000 \<and> ip_id h < 0x10000 \<and>
     ip_offset h < 0x10000 \<and> ip_offset h AND 7 = 0 \<and> ip_cksum h < 0x10000 \<and>
     unat (ip_optlen h) \<le> IP_MAXOPT \<and> 4 dvd unat (ip_optlen h) \<and> length (ip_options h) = IP_MAXOPT"

lemma list20: "length xs = 20 \<Longrightarrow> xs = map ((!) xs) [0..<20]"
  by (metis map_nth)

lemma ip_hdr_len_wf: "wf_ip h \<Longrightarrow> ip_hdr_len h = 20 + unat (ip_optlen h)"
  by (simp add: wf_ip_def ip_hdr_len_def IPLEN_def IP_MAXOPT_def)

lemma ip_bytes_split:
  assumes "wf_ip h"
  shows "length (ip_bytes h c) = ip_hdr_len h" "length (take 20 (ip_bytes h c)) = 20"
    "drop 20 (ip_bytes h c) = take (unat (ip_optlen h)) (ip_options h)"
  using assms ip_hdr_len_wf [OF assms]
  by (auto simp: ip_bytes_def put16_def put32_def wf_ip_def min_def unat_eq_0)

lemma u32_masks:
  "(0x8000 :: u32) = push_bit 15 1" "(0x4000 :: u32) = push_bit 14 1" "(0x2000 :: u32) = push_bit 13 1"
  "(0x1fff :: u32) = mask 13" "(7 :: u32) = mask 3"
  by (simp_all add: mask_eq_exp_minus_1)

lemma u32_single: "bit (push_bit n 1 :: u32) k \<longleftrightarrow> k = n \<and> n < 32"
  by (auto simp: bit_simps)

lemma fl_bit:
  "bit (ip_fl_offs h) n \<longleftrightarrow> bit (ip_offset h) (3 + n) \<or> n = 15 \<and> ip_congest h \<or> n = 14 \<and> ip_df h \<or> n = 13 \<and> ip_mf h"
  unfolding ip_fl_offs_def Let_def u32_masks
  by (auto simp only: bit_or_iff u32_single bit_drop_bit_eq comp_apply split: if_splits)

lemma small_bits: "(x :: u32) < 0x10000 \<Longrightarrow> bit x n \<Longrightarrow> n < 16"
proof -
  assume x: "x < 0x10000" and b: "bit x n"
  have "take_bit 16 x = x" using take_bit_word_small [of x 16] x by simp
  then have "bit (take_bit 16 x) n" using b by simp
  then show "n < 16" by (simp add: bit_take_bit_iff)
qed

lemma fl_offs_bits:
  assumes "ip_offset h < 0x10000" "ip_offset h AND 7 = 0"
  shows "push_bit 3 (ip_fl_offs h AND 0x1fff) = ip_offset h" "ip_fl_offs h < 0x10000"
    "ip_fl_offs h AND 0x2000 \<noteq> 0 \<longleftrightarrow> ip_mf h" "ip_fl_offs h AND 0x4000 \<noteq> 0 \<longleftrightarrow> ip_df h"
    "ip_fl_offs h AND 0x8000 \<noteq> 0 \<longleftrightarrow> ip_congest h"
proof -
  have hi: "bit (ip_offset h) n \<Longrightarrow> n < 16" for n by (rule small_bits [OF assms(1)])
  have lo: "bit (ip_offset h) n \<Longrightarrow> 3 \<le> n" for n
  proof -
    assume b: "bit (ip_offset h) n"
    have "\<not> bit (ip_offset h AND mask 3) n" using assms(2) by (simp add: u32_masks(5))
    with b show "3 \<le> n" by (auto simp: bit_and_iff bit_mask_iff dest: bit_imp_le_length)
  qed
  have lo': "bit (ip_offset h) n \<Longrightarrow> 3 + (n - 3) = n" for n using lo [of n] by simp
  show "push_bit 3 (ip_fl_offs h AND 0x1fff) = ip_offset h"
    unfolding u32_masks(4)
    by (rule bit_word_eqI) (auto simp: bit_push_bit_iff bit_and_iff fl_bit bit_mask_iff lo' dest: hi lo)
  have "take_bit 16 (ip_fl_offs h) = ip_fl_offs h"
    by (rule bit_word_eqI) (auto simp: bit_take_bit_iff fl_bit dest: hi)
  then show "ip_fl_offs h < 0x10000"
    using and_mask_less' [of 16 "ip_fl_offs h"] by (simp add: take_bit_eq_mask)
  show "ip_fl_offs h AND 0x2000 \<noteq> 0 \<longleftrightarrow> ip_mf h" "ip_fl_offs h AND 0x4000 \<noteq> 0 \<longleftrightarrow> ip_df h"
    "ip_fl_offs h AND 0x8000 \<noteq> 0 \<longleftrightarrow> ip_congest h"
    unfolding u32_masks bit_iff_and_push_bit_not_eq_0 [symmetric] fl_bit by (auto dest: hi)
qed

lemma small_byte_bits: "(x :: byte) < 16 \<Longrightarrow> bit x n \<Longrightarrow> n < 4"
proof -
  assume x: "x < 16" and b: "bit x n"
  have "take_bit 4 x = x" using take_bit_word_small [of x 4] x by simp
  then have "bit (take_bit 4 x) n" using b by simp
  then show "n < 4" by (simp add: bit_take_bit_iff)
qed

lemma nibbles:
  assumes "(v :: byte) < 16" "(k :: byte) < 16"
  shows "drop_bit 4 (push_bit 4 v OR k) AND 0xf = v" "(push_bit 4 v OR k) AND 0xf = k"
proof -
  have m: "(0xf :: byte) = mask 4" by (simp add: mask_eq_exp_minus_1)
  show "drop_bit 4 (push_bit 4 v OR k) AND 0xf = v" unfolding m
    by (rule bit_word_eqI)
       (auto simp: bit_and_iff bit_drop_bit_eq bit_or_iff bit_push_bit_iff bit_mask_iff
          dest: small_byte_bits [OF assms(1)] small_byte_bits [OF assms(2)])
  show "(push_bit 4 v OR k) AND 0xf = k" unfolding m
    by (rule bit_word_eqI)
       (auto simp: bit_and_iff bit_or_iff bit_push_bit_iff bit_mask_iff
          dest: small_byte_bits [OF assms(1)] small_byte_bits [OF assms(2)])
qed

lemma ip_first_octet:
  assumes "wf_ip h"
  shows "drop_bit 4 (push_bit 4 (ip_version h) OR of_nat (ip_hdr_len h div 4)) AND 0xf = ip_version h"
    "unat ((push_bit 4 (ip_version h) OR of_nat (ip_hdr_len h div 4)) AND 0xf) * 4 = ip_hdr_len h"
proof -
  have len: "ip_hdr_len h div 4 < 16" "4 dvd ip_hdr_len h"
    using assms ip_hdr_len_wf [OF assms] by (auto simp: wf_ip_def IP_MAXOPT_def)
  have u: "unat (of_nat (ip_hdr_len h div 4) :: byte) = ip_hdr_len h div 4"
    using len(1) by (simp add: unat_of_nat)
  then have k: "(of_nat (ip_hdr_len h div 4) :: byte) < 16"
    unfolding word_less_nat_alt using len(1) by simp
  have v: "ip_version h < 16" using assms by (simp add: wf_ip_def)
  show "drop_bit 4 (push_bit 4 (ip_version h) OR of_nat (ip_hdr_len h div 4)) AND 0xf = ip_version h"
    by (rule nibbles(1) [OF v k])
  show "unat ((push_bit 4 (ip_version h) OR of_nat (ip_hdr_len h div 4)) AND 0xf) * 4 = ip_hdr_len h"
    unfolding nibbles(2) [OF v k] u using len(2) by simp
qed

definition ip_seen :: "ip \<Rightarrow> ip \<Rightarrow> u32 \<Rightarrow> ip" where
  "ip_seen ip0 h c =
     h\<lparr>ip_cksum := c,
       ip_options := take (unat (ip_optlen h)) (ip_options h) @ drop (unat (ip_optlen h)) (ip_options ip0)\<rparr>"

lemma ntohip_fixed_reads:
  assumes "wf_ip h" "c < 0x10000"
  shows "ntohip_fixed ip0 (take 20 (ip_bytes h c)) =
     h\<lparr>ip_cksum := c, ip_optlen := ip_optlen ip0, ip_options := ip_options ip0\<rparr>"
  using assms fl_offs_bits [of h] ip_first_octet(1) [OF assms(1)]
  by (simp add: ntohip_fixed_def ip_bytes_def put16_def put32_def wf_ip_def wire_simps Let_def)

lemma ntohip_reads:
  assumes wf: "wf_ip h" and c: "c < 0x10000" and bp: "content bp = ip_bytes h c @ rest"
  shows "\<exists>bp'. ntohip ip0 bp = Some (ip_hdr_len h, ip_seen ip0 h c, bp') \<and> content bp' = rest"
proof -
  let ?n = "unat (ip_optlen h)"
  note sp = ip_bytes_split [OF wf, of c]
  have split: "ip_bytes h c = take 20 (ip_bytes h c) @ take ?n (ip_options h)"
    by (metis append_take_drop_id sp(3))
  obtain bp1 where p1: "pullup bp IPLEN = (take 20 (ip_bytes h c), bp1)"
      and c1: "content bp1 = take ?n (ip_options h) @ rest"
    using pullup_bytes_rest [of bp 20] bp sp by (cases "pullup bp 20") (auto simp: IPLEN_def)
  have opt: "length (take ?n (ip_options h)) = ?n" using wf by (simp add: wf_ip_def)
  obtain bp2 where p2: "pullup bp1 ?n = (take ?n (ip_options h), bp2)" and c2: "content bp2 = rest"
    using pullup_bytes_rest [of bp1 ?n] c1 opt by (cases "pullup bp1 ?n") auto
  have first: "take 20 (ip_bytes h c) ! 0 = push_bit 4 (ip_version h) OR of_nat (ip_hdr_len h div 4)"
    by (simp add: ip_bytes_def)
  have ihl: "unat (take 20 (ip_bytes h c) ! 0 AND 0xf) * 4 = 20 + ?n"
    unfolding first using ip_first_octet(2) [OF wf] ip_hdr_len_wf [OF wf] by simp
  have hl: "ip_hdr_len h = 20 + ?n" by (rule ip_hdr_len_wf [OF wf])
  have "ntohip ip0 bp =
     (if ?n \<noteq> 0 then Some (20 + ?n, ip_seen ip0 h c, bp2) else Some (20, ip_seen ip0 h c, bp1))"
    unfolding ntohip_def p1 Let_def prod.case ihl ntohip_fixed_reads [OF wf c]
    using sp(2) p2 opt by (auto simp: IPLEN_def ip_seen_def unat_eq_0)
  then show ?thesis using c1 c2 hl by (cases "?n = 0") auto
qed

text \<open>The checksum \<^verbatim>\<open>htonip\<close> writes depends on the header only.\<close>

definition ip_sum :: "ip \<Rightarrow> u32" where
  "ip_sum h = of_nat (65535 - eac (wsum False (ip_bytes h 0)))"

lemma ip_sum_small: "ip_sum h < 0x10000"
proof -
  have "unat (ip_sum h) < 65536" by (simp add: ip_sum_def unat_of_nat)
  then show ?thesis unfolding word_less_nat_alt by simp
qed

lemma htonip_content:
  assumes "wf_ip h"
  shows "content (htonip le al fits h pkt cflag) = ip_bytes h (if cflag then ip_cksum h else ip_sum h) @ content pkt"
  using ip_bytes_split(1) [OF assms, of 0]
  by (simp add: htonip_def Let_def pushdown_content cksum_eac ip_sum_def ph_sum_def)

interpretation ipc: header_codec "\<lambda>h _. wf_ip h"
  "\<lambda>h _. (ip_hdr_len h, ip_seen ip0 h (if cflag then ip_cksum h else ip_sum h))"
  "\<lambda>h pkt. htonip le al fits h pkt cflag"
  "\<lambda>bp. map_option (\<lambda>(n, ip, rest). ((n, ip), rest)) (ntohip ip0 bp)" for le al fits cflag ip0
proof
  fix h pkt bp
  assume wf: "wf_ip h" and bp: "content bp = content (htonip le al fits h pkt cflag)"
  have c: "(if cflag then ip_cksum h else ip_sum h) < 0x10000"
    using wf ip_sum_small by (simp add: wf_ip_def)
  show "\<exists>rest. map_option (\<lambda>(n, ip, rest). ((n, ip), rest)) (ntohip ip0 bp) =
      Some ((ip_hdr_len h, ip_seen ip0 h (if cflag then ip_cksum h else ip_sum h)), rest) \<and> content rest = content pkt"
    using ntohip_reads [OF wf c bp [unfolded htonip_content [OF wf]], of ip0] by force
qed

lemma ip_bytes_parts:
  "\<exists>front rear. (\<forall>x. ip_bytes h x = front @ put16 x @ rear) \<and> even (length front)"
proof -
  let ?front = "[push_bit 4 (ip_version h) OR of_nat (ip_hdr_len h div 4), ip_tos h] @ put16 (ip_len h) @
      put16 (ip_id h) @ put16 (ip_fl_offs h) @ [ip_ttl h, ip_protocol h]"
  let ?rear = "put32 (ip_source h) @ put32 (ip_dest h) @
     (if ip_optlen h \<noteq> 0 then take (min (unat (ip_optlen h)) IP_MAXOPT) (ip_options h) else [])"
  have "ip_bytes h x = ?front @ put16 x @ ?rear" for x by (simp add: ip_bytes_def)
  moreover have "even (length ?front)" by simp
  ultimately show ?thesis by blast
qed

lemma ip_sum_valid:
  assumes "wf_ip h" "content bp = ip_bytes h (ip_sum h) @ rest"
  shows "cksum le al None bp (ip_hdr_len h) = 0"
proof -
  obtain front rear where b: "\<And>x. ip_bytes h x = front @ put16 x @ rear" "even (length front)"
    using ip_bytes_parts [of h] by blast
  have "put16 0 = [0, 0]" by (simp add: put16_def)
  then have "eac (0 + wsum False (front @ put16 (ip_sum h) @ rear)) = 65535"
    unfolding ip_sum_def b(1) by (intro cksum_self_check [OF b(2) refl]) simp
  moreover have "take (ip_hdr_len h) (content bp) = ip_bytes h (ip_sum h)"
    using assms ip_bytes_split(1) [OF assms(1), of "ip_sum h"] by simp
  ultimately show ?thesis
    unfolding cksum_eac b(1) by (simp add: ph_sum_def)
qed

text \<open>C22: \<^verbatim>\<open>ntohip\<close> reads back the header \<^verbatim>\<open>htonip\<close> wrote in front of any packet, options and fragment
  fields included, and leaves the packet; and when \<^verbatim>\<open>htonip\<close> was asked to compute the checksum,
  the header as it arrives sums to zero - the test of \<^verbatim>\<open>ip_recv\<close> - on a machine of any byte
  order and with any alignment of the receiver's buffers.\<close>
theorem ip_header_roundtrip:
  assumes "wf_ip h" and "content bp = content (htonip le al fits h pkt cflag)"
  shows "\<exists>c rest. ntohip ip0 bp = Some (ip_hdr_len h, ip_seen ip0 h c, rest) \<and> content rest = content pkt \<and>
     (if cflag then c = ip_cksum h else cksum le' al' None bp (ip_hdr_len h) = 0)"
proof -
  let ?c = "if cflag then ip_cksum h else ip_sum h"
  from ipc.decode_encode [OF assms, of ip0] obtain rest
    where r: "ntohip ip0 bp = Some (ip_hdr_len h, ip_seen ip0 h ?c, rest)" "content rest = content pkt"
    by auto
  have "cksum le' al' None bp (ip_hdr_len h) = 0" if "\<not> cflag"
    using ip_sum_valid [OF assms(1)] assms that by (simp add: htonip_content)
  with r show ?thesis by auto
qed

definition sample_ip :: ip where
  "sample_ip = \<lparr>ip_source = 0x2c8a0001, ip_dest = 0x2c8a0002, ip_len = 1500, ip_id = 77, ip_offset = 1480,
     ip_cksum = 0, ip_congest = False, ip_df = False, ip_mf = True, ip_version = 4, ip_tos = 0, ip_ttl = 15,
     ip_protocol = 17, ip_optlen = 4, ip_options = [7, 4, 4, 0] @ replicate 36 0\<rparr>"

lemma ip_header_roundtrip_witness:
  "\<exists>c rest. ntohip sample_ip (htonip True (\<lambda>_. True) False sample_ip [[1], [2]] False) =
      Some (24, ip_seen sample_ip sample_ip c, rest) \<and> content rest = [1, 2]"
proof -
  have "wf_ip sample_ip" "ip_hdr_len sample_ip = 24"
    by (simp_all add: wf_ip_def sample_ip_def ip_hdr_len_def IP_MAXOPT_def IPLEN_def)
  then show ?thesis
    using ip_header_roundtrip [of sample_ip "htonip True (\<lambda>_. True) False sample_ip [[1], [2]] False" True
        "\<lambda>_. True" False "[[1], [2]]" False sample_ip True "\<lambda>_. False"]
    by auto
qed

section \<open>UDP\<close>

record udp =
  udp_source :: u32
  udp_dest :: u32
  udp_length :: u32
  udp_checksum :: u32

definition UDPHDR :: nat where "UDPHDR = 8"

definition udp_bytes :: "udp \<Rightarrow> u32 \<Rightarrow> byte list" where
  "udp_bytes udp c = put16 (udp_source udp) @ put16 (udp_dest udp) @ put16 (udp_length udp) @ put16 c"

definition htonudp :: "bool \<Rightarrow> (nat \<Rightarrow> bool) \<Rightarrow> bool \<Rightarrow> udp \<Rightarrow> chain \<Rightarrow> pseudo_header \<Rightarrow> chain" where
  "htonudp le al fits udp bpp ph =
     (let checksum = cksum le al (Some ph) (pushdown fits (udp_bytes udp 0) bpp) (unat (ph_length ph));
          checksum = (if checksum = 0 then 0xffff else checksum)
      in pushdown fits (udp_bytes udp (of_nat checksum)) bpp)"

definition ntohudp :: "chain \<Rightarrow> (udp \<times> chain) option" where
  "ntohudp bpp =
     (let (udpbuf, bpp) = pullup bpp UDPHDR
      in if length udpbuf \<noteq> UDPHDR then None
         else Some (\<lparr>udp_source = get16 (udpbuf ! 0) (udpbuf ! 1), udp_dest = get16 (udpbuf ! 2) (udpbuf ! 3),
                     udp_length = get16 (udpbuf ! 4) (udpbuf ! 5), udp_checksum = get16 (udpbuf ! 6) (udpbuf ! 7)\<rparr>,
                    bpp))"

text \<open>\<^verbatim>\<open>udpcksum\<close> looks at the checksum field without disturbing the packet.\<close>

definition udpcksum :: "nat \<Rightarrow> chain \<Rightarrow> u32" where
  "udpcksum avail bp =
     (case dup_p avail bp 6 2 of
        (n, dup) \<Rightarrow> if n \<noteq> 2 then 0
                    else case pull16 dup of (Some x, _) \<Rightarrow> x | (None, _) \<Rightarrow> -1)"

definition wf_udp :: "udp \<Rightarrow> bool" where
  "wf_udp u \<longleftrightarrow> udp_source u < 0x10000 \<and> udp_dest u < 0x10000 \<and> udp_length u < 0x10000"

definition udp_sum :: "pseudo_header \<Rightarrow> udp \<Rightarrow> byte list \<Rightarrow> nat" where
  "udp_sum ph u data =
     (let c = 65535 - eac (ph_sum (Some ph) + wsum False (take (unat (ph_length ph)) (udp_bytes u 0 @ data)))
      in if c = 0 then 65535 else c)"

lemma udp_sum_small: "udp_sum ph u d < 65536" "udp_sum ph u d \<noteq> 0" "(of_nat (udp_sum ph u d) :: u32) < 0x10000"
proof -
  show s: "udp_sum ph u d < 65536" "udp_sum ph u d \<noteq> 0" by (auto simp: udp_sum_def Let_def)
  then have "unat (of_nat (udp_sum ph u d) :: u32) < 65536" by (simp add: unat_of_nat)
  then show "(of_nat (udp_sum ph u d) :: u32) < 0x10000" unfolding word_less_nat_alt by simp
qed

lemma htonudp_content:
  "content (htonudp le al fits u pkt ph) = udp_bytes u (of_nat (udp_sum ph u (content pkt))) @ content pkt"
  by (simp add: htonudp_def Let_def pushdown_content cksum_eac udp_sum_def)

lemma udp_bytes_length [simp]: "length (udp_bytes u c) = 8"
  by (simp add: udp_bytes_def)

interpretation udpc: header_codec "\<lambda>u _. wf_udp u"
  "\<lambda>u data. u\<lparr>udp_checksum := of_nat (udp_sum ph u data)\<rparr>"
  "\<lambda>u pkt. htonudp le al fits u pkt ph" ntohudp for le al fits ph
proof
  fix u pkt bp
  assume wf: "wf_udp u" and bp: "content bp = content (htonudp le al fits u pkt ph)"
  let ?c = "of_nat (udp_sum ph u (content pkt)) :: u32"
  obtain rest where p: "pullup bp UDPHDR = (udp_bytes u ?c, rest)" "content rest = content pkt"
    using pullup_bytes_rest [of bp UDPHDR] bp
    by (cases "pullup bp UDPHDR") (simp add: htonudp_content UDPHDR_def)
  have "u = \<lparr>udp_source = udp_source u, udp_dest = udp_dest u, udp_length = udp_length u, udp_checksum = udp_checksum u\<rparr>"
    by simp
  then show "\<exists>rest. ntohudp bp = Some (u\<lparr>udp_checksum := ?c\<rparr>, rest) \<and> content rest = content pkt"
    using p wf udp_sum_small(3) [of ph u "content pkt"]
    by (simp add: ntohudp_def UDPHDR_def udp_bytes_def put16_def wire_simps wf_udp_def)
qed

text \<open>A UDP header read by \<^verbatim>\<open>ntohudp\<close> is the one \<^verbatim>\<open>htonudp\<close> wrote; its checksum field is never zero
  (zero means "no checksum"), \<^verbatim>\<open>udpcksum\<close> sees the same field without disturbing the packet, and a
  receiver that sums pseudo-header and datagram gets zero, whatever its machine and buffers.\<close>
theorem udp_roundtrip:
  assumes "wf_udp u" and "content bp = content (htonudp le al fits u pkt ph)"
    and "unat (ph_length ph) = 8 + length (content pkt)"
  shows "\<exists>c rest. ntohudp bp = Some (u\<lparr>udp_checksum := c\<rparr>, rest) \<and> content rest = content pkt \<and>
     c \<noteq> 0 \<and> udpcksum (length bp) bp = c \<and> cksum le' al' (Some ph) bp (unat (ph_length ph)) = 0"
proof -
  let ?s = "udp_sum ph u (content pkt)"
  let ?c = "of_nat ?s :: u32"
  have bp: "content bp = udp_bytes u ?c @ content pkt" using assms(2) by (simp add: htonudp_content)
  from udpc.decode_encode [OF assms(1,2)] obtain rest
    where r: "ntohudp bp = Some (u\<lparr>udp_checksum := ?c\<rparr>, rest)" "content rest = content pkt" by blast
  have "unat ?c = ?s" using udp_sum_small(1) [of ph u "content pkt"] by (simp add: unat_of_nat)
  then have c: "?c \<noteq> 0" using udp_sum_small(2) [of ph u "content pkt"] by (metis unat_0)
  obtain n dup where d: "dup_p (length bp) bp 6 2 = (n, dup)" by fastforce
  have "content dup = put16 ?c" "n = 2"
    using dup_p_enough [of bp "length bp" 6 2] dup_p_count [of "length bp" bp 6 2] d bp
    by (simp_all add: udp_bytes_def put16_def)
  then have u: "udpcksum (length bp) bp = ?c"
    using d udp_sum_small(3) [of ph u "content pkt"]
    by (simp add: udpcksum_def pull16_content put16_def get16_put16_small)
  define front where "front = put16 (udp_source u) @ put16 (udp_dest u) @ put16 (udp_length u)"
  have b: "udp_bytes u x = front @ put16 x" "even (length front)" for x by (simp_all add: udp_bytes_def front_def)
  have z: "put16 0 = [0, 0]" by (simp add: put16_def)
  have s: "?s = 65535 - eac (ph_sum (Some ph) + wsum False (front @ [0, 0] @ content pkt)) \<or>
      ?s = 65535 \<and> eac (ph_sum (Some ph) + wsum False (front @ [0, 0] @ content pkt)) = 65535"
    using assms(3) eac_bound [of "ph_sum (Some ph) + wsum False (front @ [0, 0] @ content pkt)"]
      b(2) by (auto simp: udp_sum_def b(1) z Let_def front_def)
  have "eac (ph_sum (Some ph) + wsum False (front @ put16 ?c @ content pkt)) = 65535"
    by (rule cksum_self_check [OF b(2) refl s])
  then have "cksum le' al' (Some ph) bp (unat (ph_length ph)) = 0"
    unfolding cksum_eac bp b(1) using assms(3) by (simp add: front_def)
  with r c u show ?thesis by blast
qed

definition sample_ph :: pseudo_header where
  "sample_ph = \<lparr>ph_source = 0x2c8a0001, ph_dest = 0x2c8a0002, ph_protocol = 17, ph_length = 10\<rparr>"

lemma udp_roundtrip_witness:
  "\<exists>c rest. ntohudp (htonudp True (\<lambda>_. False) True \<lparr>udp_source = 53, udp_dest = 1024, udp_length = 10, udp_checksum = 0\<rparr>
        [[1, 2]] sample_ph) =
      Some (\<lparr>udp_source = 53, udp_dest = 1024, udp_length = 10, udp_checksum = c\<rparr>, rest) \<and> c \<noteq> 0"
proof -
  let ?u = "\<lparr>udp_source = 53, udp_dest = 1024, udp_length = 10, udp_checksum = 0\<rparr> :: udp"
  have "wf_udp ?u" "unat (ph_length sample_ph) = 8 + length (content [[1, 2]])"
    by (simp_all add: wf_udp_def sample_ph_def)
  from udp_roundtrip [OF this(1) refl this(2), of True "\<lambda>_. False" True True "\<lambda>_. False"]
  show ?thesis by auto
qed

section \<open>ICMP\<close>

text \<open>The union of the arguments is a datatype: a header carries the member its type uses.\<close>

datatype icmp_args = Unused | Mtu u32 | Pointer byte | Address u32 | Echo u32 u32

record icmp =
  ic_type :: byte
  ic_code :: byte
  ic_args :: icmp_args

definition ICMPLEN :: nat where "ICMPLEN = 8"
definition ICMP_DEST_UNREACH :: byte where "ICMP_DEST_UNREACH = 3"
definition ICMP_FRAG_NEEDED :: byte where "ICMP_FRAG_NEEDED = 4"
definition ICMP_REDIRECT :: byte where "ICMP_REDIRECT = 5"
definition ICMP_PARAM_PROB :: byte where "ICMP_PARAM_PROB = 12"

definition icmp_echo_type :: "byte \<Rightarrow> bool" where
  "icmp_echo_type t \<longleftrightarrow> t \<in> {8, 0, 13, 14, 15, 16}"

lemmas icmp_types = ICMP_DEST_UNREACH_def ICMP_FRAG_NEEDED_def ICMP_REDIRECT_def ICMP_PARAM_PROB_def
  icmp_echo_type_def

fun arg_mtu :: "icmp_args \<Rightarrow> u32" where
  "arg_mtu (Mtu m) = m" | "arg_mtu a = 0"

fun arg_pointer :: "icmp_args \<Rightarrow> byte" where
  "arg_pointer (Pointer p) = p" | "arg_pointer a = 0"

fun arg_address :: "icmp_args \<Rightarrow> u32" where
  "arg_address (Address a) = a" | "arg_address a = 0"

fun arg_echo :: "icmp_args \<Rightarrow> u32 \<times> u32" where
  "arg_echo (Echo i q) = (i, q)" | "arg_echo a = (0, 0)"

definition icmp_arg_bytes :: "icmp \<Rightarrow> byte list" where
  "icmp_arg_bytes icmp =
     (if ic_type icmp = ICMP_DEST_UNREACH
      then if ic_code icmp = ICMP_FRAG_NEEDED then put16 0 @ put16 (arg_mtu (ic_args icmp)) else put32 0
      else if ic_type icmp = ICMP_PARAM_PROB then [arg_pointer (ic_args icmp), 0] @ put16 0
      else if ic_type icmp = ICMP_REDIRECT then put32 (arg_address (ic_args icmp))
      else if icmp_echo_type (ic_type icmp)
      then put16 (fst (arg_echo (ic_args icmp))) @ put16 (snd (arg_echo (ic_args icmp)))
      else put32 0)"

definition htonicmp :: "bool \<Rightarrow> (nat \<Rightarrow> bool) \<Rightarrow> bool \<Rightarrow> icmp \<Rightarrow> chain \<Rightarrow> chain" where
  "htonicmp le al fits icmp bpp =
     (let hdr = (\<lambda>c. [ic_type icmp, ic_code icmp] @ put16 c @ icmp_arg_bytes icmp);
          m = pushdown fits (hdr 0) bpp
      in pushdown fits (hdr (of_nat (cksum le al None m (len_p m)))) bpp)"

definition ntohicmp :: "icmp_args \<Rightarrow> chain \<Rightarrow> (icmp \<times> chain) option" where
  "ntohicmp args0 bpp =
     (let (b, bpp) = pullup bpp 8
      in if length b \<noteq> 8 then None
         else let t = b ! 0; c = b ! 1
              in Some (\<lparr>ic_type = t, ic_code = c,
                       ic_args =
                         (if t = ICMP_DEST_UNREACH
                          then if c = ICMP_FRAG_NEEDED then Mtu (get16 (b ! 6) (b ! 7)) else args0
                          else if t = ICMP_PARAM_PROB then Pointer (b ! 4)
                          else if t = ICMP_REDIRECT then Address (get32 (b ! 4) (b ! 5) (b ! 6) (b ! 7))
                          else if icmp_echo_type t
                          then Echo (get16 (b ! 4) (b ! 5)) (get16 (b ! 6) (b ! 7))
                          else args0)\<rparr>, bpp))"

definition wf_icmp :: "icmp \<Rightarrow> bool" where
  "wf_icmp h \<longleftrightarrow>
     (case ic_args h of
        Mtu m \<Rightarrow> m < 0x10000 \<and> ic_type h = ICMP_DEST_UNREACH \<and> ic_code h = ICMP_FRAG_NEEDED
      | Pointer p \<Rightarrow> ic_type h = ICMP_PARAM_PROB
      | Address a \<Rightarrow> ic_type h = ICMP_REDIRECT
      | Echo i q \<Rightarrow> i < 0x10000 \<and> q < 0x10000 \<and> icmp_echo_type (ic_type h)
      | Unused \<Rightarrow> \<not> icmp_echo_type (ic_type h) \<and> ic_type h \<noteq> ICMP_REDIRECT \<and> ic_type h \<noteq> ICMP_PARAM_PROB \<and>
          \<not> (ic_type h = ICMP_DEST_UNREACH \<and> ic_code h = ICMP_FRAG_NEEDED))"

lemma icmp_arg_length [simp]: "length (icmp_arg_bytes h) = 4"
  by (simp add: icmp_arg_bytes_def)

definition icmp_sum :: "icmp \<Rightarrow> byte list \<Rightarrow> u32" where
  "icmp_sum h data =
     of_nat (65535 - eac (wsum False ([ic_type h, ic_code h] @ [0, 0] @ icmp_arg_bytes h @ data)))"

lemma htonicmp_content:
  "content (htonicmp le al fits h pkt) =
     [ic_type h, ic_code h] @ put16 (icmp_sum h (content pkt)) @ icmp_arg_bytes h @ content pkt"
proof -
  have z: "put16 0 = [0, 0]" by (simp add: put16_def)
  show ?thesis
    by (simp add: htonicmp_def Let_def pushdown_content cksum_eac len_p_content ph_sum_def
        icmp_sum_def z)
qed

interpretation icmpc: header_codec "\<lambda>h _. wf_icmp h" "\<lambda>h _. h"
  "htonicmp le al fits" "ntohicmp Unused" for le al fits
proof
  fix h pkt bp
  assume wf: "wf_icmp h" and bp: "content bp = content (htonicmp le al fits h pkt)"
  let ?b = "[ic_type h, ic_code h] @ put16 (icmp_sum h (content pkt)) @ icmp_arg_bytes h"
  obtain rest where p: "pullup bp 8 = (?b, rest)" "content rest = content pkt"
    using pullup_bytes_rest [of bp 8] bp by (cases "pullup bp 8") (simp add: htonicmp_content)
  have "ntohicmp Unused bp = Some (h, rest)"
    using p wf by (cases h; cases "ic_args h")
      (auto simp: ntohicmp_def icmp_arg_bytes_def wf_icmp_def put16_def put32_def wire_simps Let_def icmp_types)
  with p show "\<exists>rest. ntohicmp Unused bp = Some (h, rest) \<and> content rest = content pkt" by blast
qed

text \<open>An ICMP message read by \<^verbatim>\<open>ntohicmp\<close> is the one \<^verbatim>\<open>htonicmp\<close> wrote, with the argument its type
  carries, and the whole message sums to zero at the receiver.\<close>
theorem icmp_roundtrip:
  assumes "wf_icmp h" and "content bp = content (htonicmp le al fits h pkt)"
  shows "\<exists>rest. ntohicmp Unused bp = Some (h, rest) \<and> content rest = content pkt \<and>
     cksum le' al' None bp (len_p bp) = 0"
proof -
  have "eac (0 + wsum False ([ic_type h, ic_code h] @ put16 (icmp_sum h (content pkt)) @ icmp_arg_bytes h @ content pkt)) = 65535"
    unfolding icmp_sum_def by (rule cksum_self_check [OF _ refl]) simp_all
  then have "cksum le' al' None bp (len_p bp) = 0"
    unfolding cksum_eac len_p_content assms(2) htonicmp_content by (simp add: ph_sum_def)
  with icmpc.decode_encode [OF assms] show ?thesis by blast
qed

lemma icmp_roundtrip_witness:
  "\<exists>rest. ntohicmp Unused (htonicmp False (\<lambda>_. True) True \<lparr>ic_type = 8, ic_code = 0, ic_args = Echo 1 2\<rparr> [[7], [9]]) =
      Some (\<lparr>ic_type = 8, ic_code = 0, ic_args = Echo 1 2\<rparr>, rest) \<and> content rest = [7, 9]"
proof -
  have "wf_icmp \<lparr>ic_type = 8, ic_code = 0, ic_args = Echo 1 2\<rparr>" by (simp add: wf_icmp_def icmp_types)
  from icmp_roundtrip [OF this refl, of False "\<lambda>_. True" True "[[7], [9]]" True "\<lambda>_. False"] show ?thesis by auto
qed

section \<open>ARP\<close>

text \<open>
  The hardware addresses live in arrays of 20 octets.  \<^verbatim>\<open>ntoharp\<close> pulls as many octets into
  them as the length octet of the packet says; \<open>Arp_overrun\<close> is a copy past the end of one.
\<close>

record arp =
  ar_hardware :: u32
  ar_protocol :: u32
  ar_hwalen :: byte
  ar_pralen :: byte
  ar_opcode :: u32
  ar_shwaddr :: "byte list"
  ar_sprotaddr :: u32
  ar_thwaddr :: "byte list"
  ar_tprotaddr :: u32

definition MAXHWALEN :: nat where "MAXHWALEN = 20"

datatype arp_result = Arp_overrun | Arp_ok arp

definition htonarp :: "arp \<Rightarrow> chain" where
  "htonarp arp =
     [put16 (ar_hardware arp) @ put16 (ar_protocol arp) @ [ar_hwalen arp, ar_pralen arp] @ put16 (ar_opcode arp) @
      take (unat (ar_hwalen arp)) (ar_shwaddr arp) @ put32 (ar_sprotaddr arp) @
      take (unat (ar_hwalen arp)) (ar_thwaddr arp) @ put32 (ar_tprotaddr arp)]"

definition or_minus1 :: "'a::len word option \<Rightarrow> 'a word" where
  "or_minus1 x = (case x of None \<Rightarrow> -1 | Some v \<Rightarrow> v)"

definition ntoharp :: "arp \<Rightarrow> chain \<Rightarrow> arp_result" where
  "ntoharp arp bpp =
     (let (hardware, bpp) = pull16 bpp;
          (protocol, bpp) = pull16 bpp;
          (hwalen, bpp) = PULLCHAR bpp;
          (pralen, bpp) = PULLCHAR bpp;
          (opcode, bpp) = pull16 bpp;
          n = unat (or_minus1 hwalen);
          (s, bpp) = pullup bpp n
      in if length s > MAXHWALEN then Arp_overrun
         else let (sprotaddr, bpp) = pull32 bpp;
                  (t, bpp) = pullup bpp n
              in if length t > MAXHWALEN then Arp_overrun
                 else let (tprotaddr, bpp) = pull32 bpp
                      in Arp_ok (arp\<lparr>ar_hardware := or_minus1 hardware, ar_protocol := or_minus1 protocol,
                           ar_hwalen := or_minus1 hwalen, ar_pralen := or_minus1 pralen,
                           ar_opcode := or_minus1 opcode,
                           ar_shwaddr := s @ drop (length s) (ar_shwaddr arp), ar_sprotaddr := sprotaddr,
                           ar_thwaddr := t @ drop (length t) (ar_thwaddr arp), ar_tprotaddr := tprotaddr\<rparr>))"

lemma pull16_D:
  "pull16 bp = (r, bp') \<Longrightarrow> content bp' = drop 2 (content bp) \<and>
     r = (if 2 \<le> length (content bp) then Some (get16 (content bp ! 0) (content bp ! 1)) else None)"
  by (auto simp: pull16_content pullup_snd split: if_splits)

lemma pull32_D:
  "pull32 bp = (r, bp') \<Longrightarrow> content bp' = drop 4 (content bp) \<and>
     r = (if 4 \<le> length (content bp)
          then get32 (content bp ! 0) (content bp ! 1) (content bp ! 2) (content bp ! 3) else 0)"
  by (auto simp: pull32_content pullup_snd split: if_splits)

lemma PULLCHAR_D:
  "PULLCHAR bp = (r, bp') \<Longrightarrow> content bp' = drop 1 (content bp) \<and>
     r = (if content bp \<noteq> [] then Some (content bp ! 0) else None)"
  using PULLCHAR_content [of bp r bp'] by (auto split: list.splits)

text \<open>The reads of \<^verbatim>\<open>ntoharp\<close>, all in terms of the bytes of the packet.\<close>

lemma ntoharp_content:
  assumes "8 \<le> length (content bp)"
  defines "c \<equiv> content bp" and "n \<equiv> unat (content bp ! 4)"
  shows "ntoharp arp bp =
    (let s = take n (drop 8 c); t = take n (drop (12 + n) c)
     in if length s > MAXHWALEN then Arp_overrun
        else if length t > MAXHWALEN then Arp_overrun
        else Arp_ok (arp\<lparr>ar_hardware := get16 (c ! 0) (c ! 1), ar_protocol := get16 (c ! 2) (c ! 3),
               ar_hwalen := c ! 4, ar_pralen := c ! 5, ar_opcode := get16 (c ! 6) (c ! 7),
               ar_shwaddr := s @ drop (length s) (ar_shwaddr arp),
               ar_sprotaddr := (if 12 + n \<le> length c
                  then get32 (c ! (8 + n)) (c ! (9 + n)) (c ! (10 + n)) (c ! (11 + n)) else 0),
               ar_thwaddr := t @ drop (length t) (ar_thwaddr arp),
               ar_tprotaddr := (if 16 + 2 * n \<le> length c
                  then get32 (c ! (12 + 2 * n)) (c ! (13 + 2 * n)) (c ! (14 + 2 * n)) (c ! (15 + 2 * n)) else 0)\<rparr>))"
proof -
  obtain r1 b1 where 1: "pull16 bp = (r1, b1)" by fastforce
  obtain r2 b2 where 2: "pull16 b1 = (r2, b2)" by fastforce
  obtain r3 b3 where 3: "PULLCHAR b2 = (r3, b3)" by fastforce
  obtain r4 b4 where 4: "PULLCHAR b3 = (r4, b4)" by fastforce
  obtain r5 b5 where 5: "pull16 b4 = (r5, b5)" by fastforce
  have r: "r1 = Some (get16 (c ! 0) (c ! 1))" "r2 = Some (get16 (c ! 2) (c ! 3))" "r3 = Some (c ! 4)"
     "r4 = Some (c ! 5)" "r5 = Some (get16 (c ! 6) (c ! 7))" "content b5 = drop 8 c"
    using pull16_D [OF 1] pull16_D [OF 2] PULLCHAR_D [OF 3] PULLCHAR_D [OF 4] pull16_D [OF 5] assms(1)
    by (simp_all add: c_def)
  obtain s b6 where 6: "pullup b5 n = (s, b6)" by fastforce
  obtain r7 b7 where 7: "pull32 b6 = (r7, b7)" by fastforce
  obtain t b8 where 8: "pullup b7 n = (t, b8)" by fastforce
  obtain r9 b9 where 9: "pull32 b8 = (r9, b9)" by fastforce
  have s: "s = take n (drop 8 c)" "content b6 = drop (8 + n) c"
    using pullup_prod [OF 6] r(6) by (simp_all add: add.commute)
  have 77: "content b7 = drop (12 + n) c" "r7 = (if 12 + n \<le> length c
      then get32 (c ! (8 + n)) (c ! (9 + n)) (c ! (10 + n)) (c ! (11 + n)) else 0)"
    using pull32_D [OF 7] s(2) assms(1) unfolding c_def [symmetric] by (auto simp: algebra_simps)
  have t: "t = take n (drop (12 + n) c)" "content b8 = drop (12 + 2 * n) c"
    using pullup_prod [OF 8] 77(1) by (simp_all add: algebra_simps)
  have 99: "r9 = (if 16 + 2 * n \<le> length c
      then get32 (c ! (12 + 2 * n)) (c ! (13 + 2 * n)) (c ! (14 + 2 * n)) (c ! (15 + 2 * n)) else 0)"
    using pull32_D [OF 9] t(2) by (auto simp: algebra_simps)
  have n: "unat (or_minus1 r3) = n" using r(3) by (simp add: or_minus1_def n_def c_def)
  show ?thesis
    unfolding ntoharp_def 1 2 3 4 5 Let_def prod.case n 6 7 8 9
    using r s(1) t(1) 77(2) 99 by (simp add: or_minus1_def) linarith
qed

lemma ntoharp_short:
  assumes "length (content bp) \<le> 28"
  shows "ntoharp arp bp \<noteq> Arp_overrun"
proof -
  obtain r1 b1 where 1: "pull16 bp = (r1, b1)" by fastforce
  obtain r2 b2 where 2: "pull16 b1 = (r2, b2)" by fastforce
  obtain r3 b3 where 3: "PULLCHAR b2 = (r3, b3)" by fastforce
  obtain r4 b4 where 4: "PULLCHAR b3 = (r4, b4)" by fastforce
  obtain r5 b5 where 5: "pull16 b4 = (r5, b5)" by fastforce
  have b5: "length (content b5) \<le> 20"
    using pull16_D [OF 1] pull16_D [OF 2] PULLCHAR_D [OF 3] PULLCHAR_D [OF 4] pull16_D [OF 5] assms by simp
  let ?n = "unat (or_minus1 r3)"
  obtain s b6 where 6: "pullup b5 ?n = (s, b6)" by fastforce
  obtain r7 b7 where 7: "pull32 b6 = (r7, b7)" by fastforce
  obtain t b8 where 8: "pullup b7 ?n = (t, b8)" by fastforce
  have "length s \<le> 20" "length t \<le> 20"
    using b5 pullup_prod [OF 6] pull32_D [OF 7] pullup_prod [OF 8] by simp_all
  then show ?thesis
    unfolding ntoharp_def 1 2 3 4 5 Let_def prod.case 6 7 8 by (simp add: MAXHWALEN_def split: prod.splits)
qed

text \<open>C25: \<^verbatim>\<open>ntoharp\<close> copies past the end of a 20-octet hardware address array for exactly these packets:
  the length octet of the hardware addresses says more than 20 and more than 20 octets follow
  the fixed part.  The test of the length octet in \<^verbatim>\<open>arp_input\<close> comes after the copy.\<close>
theorem arp_overrun_iff:
  "ntoharp arp bp = Arp_overrun \<longleftrightarrow> 28 < length (content bp) \<and> MAXHWALEN < unat (content bp ! 4)"
proof (cases "28 < length (content bp)")
  case True
  then show ?thesis
    by (auto simp: ntoharp_content Let_def MAXHWALEN_def)
next
  case False
  then show ?thesis using ntoharp_short [of bp arp] by simp
qed

definition wf_arp :: "arp \<Rightarrow> bool" where
  "wf_arp a \<longleftrightarrow> ar_hardware a < 0x10000 \<and> ar_protocol a < 0x10000 \<and> ar_opcode a < 0x10000 \<and>
     unat (ar_hwalen a) \<le> MAXHWALEN \<and> length (ar_shwaddr a) = MAXHWALEN \<and> length (ar_thwaddr a) = MAXHWALEN"

text \<open>\<^verbatim>\<open>ntoharp\<close> reads back what \<^verbatim>\<open>htonarp\<close> wrote, for any length of the hardware addresses that
  fits the arrays: all fields and the addresses up to that length.\<close>
theorem arp_roundtrip:
  assumes "wf_arp a" and "content bp = content (htonarp a)"
    and "length (ar_shwaddr old) = MAXHWALEN" and "length (ar_thwaddr old) = MAXHWALEN"
  shows "ntoharp old bp =
    Arp_ok (a\<lparr>ar_shwaddr := take (unat (ar_hwalen a)) (ar_shwaddr a) @ drop (unat (ar_hwalen a)) (ar_shwaddr old),
              ar_thwaddr := take (unat (ar_hwalen a)) (ar_thwaddr a) @ drop (unat (ar_hwalen a)) (ar_thwaddr old)\<rparr>)"
proof -
  let ?n = "unat (ar_hwalen a)"
  let ?s = "take ?n (ar_shwaddr a)" and ?t = "take ?n (ar_thwaddr a)"
  have len: "length ?s = ?n" "length ?t = ?n" "?n \<le> 20" using assms(1) by (auto simp: wf_arp_def MAXHWALEN_def)
  define hd8 where "hd8 = put16 (ar_hardware a) @ put16 (ar_protocol a) @ [ar_hwalen a, ar_pralen a] @ put16 (ar_opcode a)"
  have c: "content bp = hd8 @ ?s @ put32 (ar_sprotaddr a) @ ?t @ put32 (ar_tprotaddr a)" "length hd8 = 8"
    using assms(2) by (simp_all add: htonarp_def hd8_def)
  have h: "get16 (hd8 ! 0) (hd8 ! 1) = ar_hardware a" "get16 (hd8 ! 2) (hd8 ! 3) = ar_protocol a"
     "hd8 ! 4 = ar_hwalen a" "hd8 ! 5 = ar_pralen a" "get16 (hd8 ! 6) (hd8 ! 7) = ar_opcode a"
    using assms(1) by (simp_all add: hd8_def put16_def wf_arp_def get16_put16_small)
  have f: "content bp ! k = hd8 ! k" if "k < 8" for k using that c by (simp add: nth_append)
  have n: "unat (content bp ! 4) = ?n" by (simp add: f h)
  have parts: "take ?n (drop 8 (content bp)) = ?s" "take ?n (drop (12 + ?n) (content bp)) = ?t"
    using c len by simp_all
  have p32: "get32 (put32 x ! 0) (put32 x ! 1) (put32 x ! 2) (put32 x ! 3) = x" for x
    by (simp add: put32_def get32_put32)
  have sp: "content bp ! (8 + ?n + k) = put32 (ar_sprotaddr a) ! k" if "k < 4" for k
    using that c len by (simp add: nth_append)
  have tp: "content bp ! (12 + 2 * ?n + k) = put32 (ar_tprotaddr a) ! k" if "k < 4" for k
    using that c len by (simp add: nth_append)
  have s4: "get32 (content bp ! (8 + ?n)) (content bp ! (9 + ?n)) (content bp ! (10 + ?n)) (content bp ! (11 + ?n)) = ar_sprotaddr a"
    using sp [of 0] sp [of 1] sp [of 2] sp [of 3] p32 [of "ar_sprotaddr a"] by (simp add: algebra_simps)
  have t4: "get32 (content bp ! (12 + 2 * ?n)) (content bp ! (13 + 2 * ?n)) (content bp ! (14 + 2 * ?n)) (content bp ! (15 + 2 * ?n)) = ar_tprotaddr a"
    using tp [of 0] tp [of 1] tp [of 2] tp [of 3] p32 [of "ar_tprotaddr a"] by (simp add: algebra_simps)
  have L: "length (content bp) = 16 + 2 * ?n" using c len by simp
  show ?thesis
    unfolding ntoharp_content [of bp old, unfolded n parts, simplified L, simplified]
    using f h s4 t4 len L by (simp add: Let_def MAXHWALEN_def)
qed

definition sample_arp :: arp where
  "sample_arp = \<lparr>ar_hardware = 3, ar_protocol = 0xcc, ar_hwalen = 7, ar_pralen = 4, ar_opcode = 1,
     ar_shwaddr = replicate 20 1, ar_sprotaddr = 0x2c8a0001, ar_thwaddr = replicate 20 2, ar_tprotaddr = 0x2c8a0002\<rparr>"

lemma arp_roundtrip_witness: "ntoharp sample_arp (htonarp sample_arp) = Arp_ok sample_arp"
proof -
  have "wf_arp sample_arp" "length (ar_shwaddr sample_arp) = MAXHWALEN" "length (ar_thwaddr sample_arp) = MAXHWALEN"
    by (simp_all add: wf_arp_def sample_arp_def MAXHWALEN_def)
  from arp_roundtrip [OF this(1) refl this(2,3)] show ?thesis by simp
qed

end
