(* ===== verification/Slip.thy ===== *)
theory Slip
  imports Crc
begin

text \<open>
  The SLIP framing of \<^verbatim>\<open>src/src/slip.c\<close> and the KISS layer above it (\<^verbatim>\<open>src/src/kiss.c\<close>).  A
  receiver keeps the mbufs of the frame under assembly (\<open>rbp\<close>, from \<^verbatim>\<open>rbp_head\<close> to \<^verbatim>\<open>rbp_tail\<close>),
  its byte count and the two flags of \<^verbatim>\<open>escaped\<close>.  Parameters: whether an mbuf could be
  allocated (\<open>mem\<close>) and the interface's MTU.

  Shown: the encoder stays inside its buffer; from any state of the receiver, garbage and overrun
  included, an encoded frame comes out whole; the buffered frame is bounded whatever the line
  sends, also when allocations fail; and a frame sent by one KISS station is received by the other
  under each of the checksum modes.
\<close>

section \<open>Encoding\<close>

definition FR_END :: byte where "FR_END = 0xc0"
definition FR_ESC :: byte where "FR_ESC = 0xdb"
definition T_FR_END :: byte where "T_FR_END = 0xdc"
definition T_FR_ESC :: byte where "T_FR_ESC = 0xdd"

lemmas slip_chars = FR_END_def FR_ESC_def T_FR_END_def T_FR_ESC_def

definition slip_escape :: "byte \<Rightarrow> byte list" where
  "slip_escape c =
     (if c = FR_ESC then [FR_ESC, T_FR_ESC]
      else if c = FR_END then [FR_ESC, T_FR_END]
      else [c])"

text \<open>\<^verbatim>\<open>slip_encode\<close>: \<open>None\<close> when the output mbuf could not be allocated.\<close>

definition slip_encode :: "bool \<Rightarrow> chain \<Rightarrow> chain option" where
  "slip_encode mem bp =
     (if \<not> mem then None
      else Some [[FR_END] @ concat (map slip_escape (content bp)) @ [FR_END]])"

section \<open>Decoding\<close>

definition SLIP_ALLOC :: nat where "SLIP_ALLOC = 220"
definition AX25_MAXRXFRAME :: nat where "AX25_MAXRXFRAME = 1 + 7 * (2 + 8) + 1 + 1 + 256 + 2"

definition slip_maxframe :: "int \<Rightarrow> nat" where
  "slip_maxframe mtu =
     (let lim = (if mtu > 0 then nat mtu else 256) + 256
      in if lim > AX25_MAXRXFRAME then lim else AX25_MAXRXFRAME)"

record slip =
  sl_flag :: bool
  sl_overrun :: bool
  sl_rbp :: chain
  sl_rcnt :: nat
  sl_errors :: u32

text \<open>Storing a character: a first mbuf, a further one when the last is full, or room in the last.\<close>

definition slip_store :: "bool \<Rightarrow> slip \<Rightarrow> byte \<Rightarrow> slip" where
  "slip_store mem sp c =
     (if sl_rbp sp = []
      then if \<not> mem then sp
           else sp\<lparr>sl_rbp := [[c]], sl_rcnt := sl_rcnt sp + 1\<rparr>
      else if length (last (sl_rbp sp)) = SLIP_ALLOC
      then if \<not> mem then sp\<lparr>sl_rbp := []\<rparr>
           else sp\<lparr>sl_rbp := sl_rbp sp @ [[c]], sl_rcnt := sl_rcnt sp + 1\<rparr>
      else sp\<lparr>sl_rbp := butlast (sl_rbp sp) @ [last (sl_rbp sp) @ [c]], sl_rcnt := sl_rcnt sp + 1\<rparr>)"

definition slip_untranslate :: "slip \<Rightarrow> byte \<Rightarrow> slip \<times> byte" where
  "slip_untranslate sp c =
     (if sl_flag sp
      then let sp = sp\<lparr>sl_flag := False\<rparr>
           in if c = T_FR_ESC then (sp, FR_ESC)
              else if c = T_FR_END then (sp, FR_END)
              else (sp\<lparr>sl_errors := sl_errors sp + 1\<rparr>, c)
      else (sp, c))"

text \<open>\<^verbatim>\<open>slip_decode\<close>: the returned chain is NULL unless a frame is complete.\<close>

definition slip_decode :: "bool \<Rightarrow> int \<Rightarrow> slip \<Rightarrow> byte \<Rightarrow> slip \<times> chain" where
  "slip_decode mem mtu sp c =
     (if c = FR_END
      then (sp\<lparr>sl_rbp := [], sl_rcnt := 0, sl_flag := False, sl_overrun := False\<rparr>,
            if sl_flag sp \<or> sl_overrun sp then [] else sl_rbp sp)
      else if c = FR_ESC then (sp\<lparr>sl_flag := True\<rparr>, [])
      else let (sp, c) = slip_untranslate sp c
           in if sl_overrun sp then (sp, [])
              else if sl_rcnt sp \<ge> slip_maxframe mtu
              then (sp\<lparr>sl_rbp := [], sl_rcnt := 0, sl_errors := sl_errors sp + 1, sl_overrun := True\<rparr>, [])
              else (slip_store mem sp c, []))"

text \<open>The loop of \<^verbatim>\<open>slip_rx\<close> over the characters read from the line, for a port without header
  compression: the frames handed to \<^verbatim>\<open>net_route\<close>.\<close>

fun slip_feed :: "bool \<Rightarrow> int \<Rightarrow> slip \<Rightarrow> byte list \<Rightarrow> slip \<times> chain list" where
  "slip_feed mem mtu sp [] = (sp, [])"
| "slip_feed mem mtu sp (c # cp) =
     (let (sp, bp) = slip_decode mem mtu sp c;
          (sp, fs) = slip_feed mem mtu sp cp
      in (sp, if bp = [] then fs else bp # fs))"

text \<open>While a TNC is being initialised its answers go to a buffer of 512 bytes, one kept free.\<close>

fun slip_initrx :: "byte list \<Rightarrow> byte list \<Rightarrow> byte list" where
  "slip_initrx initrx [] = initrx"
| "slip_initrx initrx (c # cp) =
     slip_initrx (if length initrx < 512 - 1 then initrx @ [c] else initrx) cp"

definition slip_rx :: "bool \<Rightarrow> int \<Rightarrow> bool \<Rightarrow> slip \<times> byte list \<Rightarrow> byte list \<Rightarrow> (slip \<times> byte list) \<times> chain list" where
  "slip_rx mem mtu initialising st buf =
     (if initialising then ((fst st, slip_initrx (snd st) buf), [])
      else let (sp, fs) = slip_feed mem mtu (fst st) buf in ((sp, snd st), fs))"

section \<open>The encoder stays inside its buffer\<close>

lemma slip_escape_length: "length (concat (map slip_escape bs)) \<le> 2 * length bs"
  by (induction bs) (auto simp: slip_escape_def)

section \<open>Invariants of the receiver\<close>

definition slip_inv :: "int \<Rightarrow> slip \<Rightarrow> bool" where
  "slip_inv mtu sp \<longleftrightarrow> length (content (sl_rbp sp)) \<le> sl_rcnt sp \<and> sl_rcnt sp \<le> slip_maxframe mtu \<and>
     (\<forall>s \<in> set (sl_rbp sp). s \<noteq> [] \<and> length s \<le> SLIP_ALLOC)"

lemma slip_store_inv:
  assumes "slip_inv mtu sp" "sl_rcnt sp < slip_maxframe mtu"
  shows "slip_inv mtu (slip_store mem sp c)"
proof (cases "sl_rbp sp" rule: rev_cases)
  case (snoc b l)
  then show ?thesis using assms by (auto simp: slip_store_def slip_inv_def SLIP_ALLOC_def)
qed (use assms in \<open>auto simp: slip_store_def slip_inv_def SLIP_ALLOC_def\<close>)

lemma slip_decode_inv: "slip_inv mtu sp \<Longrightarrow> slip_inv mtu (fst (slip_decode mem mtu sp c))"
proof -
  assume i: "slip_inv mtu sp"
  obtain sp1 c1 where u: "slip_untranslate sp c = (sp1, c1)" by fastforce
  then have i1: "slip_inv mtu sp1" using i by (auto simp: slip_untranslate_def slip_inv_def Let_def split: if_splits)
  show ?thesis
    using i i1 slip_store_inv [OF i1, of mem c1] u
    by (auto simp: slip_decode_def slip_inv_def)
qed

lemma slip_feed_inv: "slip_inv mtu sp \<Longrightarrow> slip_inv mtu (fst (slip_feed mem mtu sp cs))"
proof (induction cs arbitrary: sp)
  case (Cons c cs)
  obtain sp1 bp where d: "slip_decode mem mtu sp c = (sp1, bp)" by fastforce
  then have "slip_inv mtu sp1" using slip_decode_inv [OF Cons.prems] by (metis fst_conv)
  then show ?case using d Cons.IH [of sp1] by (auto simp: Let_def split: prod.splits)
qed simp

text \<open>C32: Whatever arrives on the line and whichever allocations fail, the frame under assembly holds at
  most \<^verbatim>\<open>slip_maxframe\<close> bytes, in mbufs that are never empty and never fuller than \<^verbatim>\<open>SLIP_ALLOC\<close>; and
  the answers of a TNC under initialisation never fill their 512-byte buffer.\<close>
theorem slip_bounded:
  assumes "slip_inv mtu sp" and "length initrx < 512"
  shows "slip_inv mtu (fst (fst (slip_rx mem mtu ini (sp, initrx) buf))) \<and>
         length (snd (fst (slip_rx mem mtu ini (sp, initrx) buf))) < 512"
proof -
  have "length xs < 512 \<Longrightarrow> length (slip_initrx xs cp) < 512" for xs cp
    by (induction xs cp rule: slip_initrx.induct) auto
  then show ?thesis
    using assms slip_feed_inv [OF assms(1), of mem buf] by (auto simp: slip_rx_def split: prod.splits)
qed

definition slip_idle :: slip where
  "slip_idle = \<lparr>sl_flag = False, sl_overrun = False, sl_rbp = [], sl_rcnt = 0, sl_errors = 0\<rparr>"

lemma slip_bounded_witness:
  "slip_inv 68 (fst (fst (slip_rx True 68 False (slip_idle, []) (replicate 5000 7))))"
  using slip_bounded [of 68 slip_idle "[]" True False "replicate 5000 7"]
  by (simp add: slip_inv_def slip_idle_def)

section \<open>A frame comes out as it went in\<close>

definition slip_ready :: "slip \<Rightarrow> bool" where
  "slip_ready sp \<longleftrightarrow> \<not> sl_flag sp \<and> \<not> sl_overrun sp \<and> sl_rcnt sp = length (content (sl_rbp sp)) \<and>
     (\<forall>s \<in> set (sl_rbp sp). s \<noteq> [])"

lemma slip_store_ready:
  assumes "slip_ready sp"
  shows "slip_ready (slip_store True sp c) \<and> content (sl_rbp (slip_store True sp c)) = content (sl_rbp sp) @ [c] \<and>
     sl_rbp (slip_store True sp c) \<noteq> []"
proof (cases "sl_rbp sp" rule: rev_cases)
  case (snoc b l)
  then show ?thesis using assms by (auto simp: slip_store_def slip_ready_def)
qed (use assms in \<open>auto simp: slip_store_def slip_ready_def\<close>)

lemma slip_feed_append:
  "slip_feed mem mtu sp (xs @ ys) =
     (let (sp1, f1) = slip_feed mem mtu sp xs; (sp2, f2) = slip_feed mem mtu sp1 ys in (sp2, f1 @ f2))"
  by (induction xs arbitrary: sp) (auto simp: Let_def split: prod.splits)

lemma slip_feed_escape:
  assumes "slip_ready sp" "sl_rcnt sp < slip_maxframe mtu"
  shows "slip_feed True mtu sp (slip_escape c) = (slip_store True sp c, [])"
proof -
  have eq: "sp\<lparr>sl_flag := False\<rparr> = sp" using assms(1) by (cases sp) (simp add: slip_ready_def)
  then show ?thesis
    using assms unfolding slip_escape_def slip_ready_def
    by (auto simp: slip_decode_def slip_untranslate_def slip_chars Let_def eq)
qed

lemma slip_feed_data:
  "slip_ready sp \<Longrightarrow> sl_rcnt sp + length bs \<le> slip_maxframe mtu \<Longrightarrow>
     \<exists>sp'. slip_feed True mtu sp (concat (map slip_escape bs)) = (sp', []) \<and> slip_ready sp' \<and>
       content (sl_rbp sp') = content (sl_rbp sp) @ bs"
proof (induction bs arbitrary: sp)
  case (Cons b bs)
  let ?sp = "slip_store True sp b"
  have r: "slip_ready ?sp" "content (sl_rbp ?sp) = content (sl_rbp sp) @ [b]"
    using slip_store_ready [OF Cons.prems(1)] by auto
  then have "sl_rcnt ?sp + length bs \<le> slip_maxframe mtu"
    using Cons.prems by (simp add: slip_ready_def)
  from Cons.IH [OF r(1) this] r(2) show ?case
    using slip_feed_escape [OF Cons.prems(1), of mtu b] Cons.prems(2)
    by (auto simp: slip_feed_append)
qed simp

lemma slip_feed_frame:
  assumes "pkt \<noteq> []" "length pkt \<le> slip_maxframe mtu"
  shows "\<exists>sp' g f. slip_feed True mtu sp ([FR_END] @ concat (map slip_escape pkt) @ [FR_END]) = (sp', g @ [f]) \<and>
     content f = pkt \<and> (\<forall>s \<in> set f. s \<noteq> []) \<and> length g \<le> 1 \<and> slip_ready sp' \<and> sl_rbp sp' = [] \<and>
     g = (if sl_flag sp \<or> sl_overrun sp \<or> sl_rbp sp = [] then [] else [sl_rbp sp])"
proof -
  define sp1 where "sp1 = sp\<lparr>sl_rbp := [], sl_rcnt := 0, sl_flag := False, sl_overrun := False\<rparr>"
  define g where "g = (if sl_flag sp \<or> sl_overrun sp \<or> sl_rbp sp = [] then [] else [sl_rbp sp])"
  have first: "slip_feed True mtu sp [FR_END] = (sp1, g)"
    by (auto simp: slip_decode_def sp1_def g_def)
  have "slip_ready sp1" "sl_rcnt sp1 + length pkt \<le> slip_maxframe mtu" "content (sl_rbp sp1) = []"
    using assms(2) by (simp_all add: sp1_def slip_ready_def)
  with slip_feed_data [OF this(1,2)] obtain sp2
    where 2: "slip_feed True mtu sp1 (concat (map slip_escape pkt)) = (sp2, [])" "slip_ready sp2"
      "content (sl_rbp sp2) = pkt" by auto
  then have ne: "sl_rbp sp2 \<noteq> []" using assms(1) by auto
  define sp3 where "sp3 = sp2\<lparr>sl_rbp := [], sl_rcnt := 0, sl_flag := False, sl_overrun := False\<rparr>"
  have last: "slip_feed True mtu sp2 [FR_END] = (sp3, [sl_rbp sp2])"
    using 2(2) ne by (simp add: slip_decode_def sp3_def slip_ready_def)
  have "slip_feed True mtu sp ([FR_END] @ concat (map slip_escape pkt) @ [FR_END]) = (sp3, g @ [sl_rbp sp2])"
    unfolding slip_feed_append first 2(1) last Let_def prod.case by simp
  moreover have "slip_ready sp3" "sl_rbp sp3 = []" "length g \<le> 1"
    by (simp_all add: sp3_def slip_ready_def g_def)
  moreover have "\<forall>s \<in> set (sl_rbp sp2). s \<noteq> []" using 2(2) by (simp add: slip_ready_def)
  ultimately show ?thesis using 2(3) unfolding g_def by blast
qed

text \<open>C17: Framing is transparent and self-synchronising: whatever state the receiver is in - in the middle
  of garbage, after an escape, skipping an overlong frame - the characters \<^verbatim>\<open>slip_encode\<close> produces for a
  non-empty packet that fits \<^verbatim>\<open>slip_maxframe\<close> deliver exactly that packet as their last frame and
  leave the receiver idle; at most what was half assembled before comes out in front of it.  And
  the encoder never writes more than the \<open>2 * len + 2\<close> bytes it allocated.\<close>
theorem slip_transparent:
  assumes "content pkt \<noteq> []" and "length (content pkt) \<le> slip_maxframe mtu"
    and "slip_encode True pkt = Some e"
  shows "\<exists>sp' g f. slip_feed True mtu sp (content e) = (sp', g @ [f]) \<and> content f = content pkt \<and>
     length g \<le> 1 \<and> slip_ready sp' \<and> sl_rbp sp' = [] \<and> length (content e) \<le> 2 * len_p pkt + 2"
proof -
  have e: "content e = [FR_END] @ concat (map slip_escape (content pkt)) @ [FR_END]"
    using assms(3) by (auto simp: slip_encode_def)
  have "length (content e) \<le> 2 * len_p pkt + 2"
    using slip_escape_length [of "content pkt"] unfolding e len_p_content by simp
  with slip_feed_frame [OF assms(1,2), of sp] show ?thesis unfolding e by blast
qed

lemma slip_transparent_witness:
  "\<exists>sp' g f. slip_feed True 68 (slip_idle\<lparr>sl_overrun := True\<rparr>) [0xc0, 0xdb, 0xdc, 1, 0xdb, 0xdd, 0xc0] = (sp', g @ [f]) \<and>
     content f = [0xc0, 1, 0xdb]"
proof -
  have "slip_encode True [[0xc0, 1], [0xdb]] = Some [[0xc0, 0xdb, 0xdc, 1, 0xdb, 0xdd, 0xc0]]"
    by (simp add: slip_encode_def slip_escape_def slip_chars)
  from slip_transparent [OF _ _ this, of 68 "slip_idle\<lparr>sl_overrun := True\<rparr>"] show ?thesis
    by (auto simp: slip_maxframe_def AX25_MAXRXFRAME_def)
qed

section \<open>KISS\<close>

datatype crc_mode = CRC_OFF | CRC_TEST_16 | CRC_TEST_RMNC | CRC_16 | CRC_RMNC

text \<open>\<^verbatim>\<open>kiss_raw\<close>: the type byte in front, the flag and the checksum of the mode, and the next mode.
  \<open>mem\<close>: the mbuf of the checksum could be allocated.\<close>

definition kiss_raw :: "bool \<Rightarrow> bool \<Rightarrow> crc_mode \<Rightarrow> chain \<Rightarrow> crc_mode \<times> chain" where
  "kiss_raw fits mem crccontrol bpp =
     (case crccontrol of
        CRC_TEST_16 \<Rightarrow> (CRC_TEST_RMNC, append_crc_16 mem (pushdown fits [0x80] bpp))
      | CRC_16 \<Rightarrow> (CRC_16, append_crc_16 mem (pushdown fits [0x80] bpp))
      | CRC_TEST_RMNC \<Rightarrow> (CRC_OFF, append_crc_rmnc mem (pushdown fits [0x20] bpp))
      | CRC_RMNC \<Rightarrow> (CRC_RMNC, append_crc_rmnc mem (pushdown fits [0x20] bpp))
      | CRC_OFF \<Rightarrow> (CRC_OFF, pushdown fits [0] bpp))"

text \<open>\<^verbatim>\<open>kiss_recv\<close>: the new send mode, the new count of checksum errors, and the frame given to
  \<^verbatim>\<open>ax_recv\<close>, if any.\<close>

definition kiss_type :: "chain \<Rightarrow> chain option" where
  "kiss_type bp =
     (case PULLCHAR bp of
        (Some t, bp) \<Rightarrow> if t AND 0xf = 0 then Some bp else None
      | (None, bp) \<Rightarrow> None)"

definition kiss_recv :: "bool \<Rightarrow> crc_mode \<Rightarrow> u32 \<Rightarrow> chain \<Rightarrow> crc_mode \<times> u32 \<times> chain option" where
  "kiss_recv crcfixed crccontrol crcerrors bp =
     (if bp = [] \<or> hd bp = [] then (crccontrol, crcerrors, None)
      else if hd (hd bp) AND 0x80 \<noteq> 0
      then (case check_crc_16 bp of
              None \<Rightarrow> (crccontrol, crcerrors + 1, None)
            | Some bp \<Rightarrow> (if crcfixed then crccontrol else CRC_16, crcerrors, kiss_type bp))
      else if hd (hd bp) AND 0x20 \<noteq> 0
      then (case check_crc_rmnc bp of
              None \<Rightarrow> (crccontrol, crcerrors + 1, None)
            | Some bp \<Rightarrow> (if crcfixed then crccontrol else CRC_RMNC, crcerrors, kiss_type bp))
      else (crccontrol, crcerrors, kiss_type bp))"

lemma kiss_type_data: "content bp = t # d \<Longrightarrow> t AND 0xf = 0 \<Longrightarrow> \<exists>bp'. kiss_type bp = Some bp' \<and> content bp' = d"
  using PULLCHAR_content [of bp] by (cases "PULLCHAR bp") (fastforce simp: kiss_type_def split: option.splits)

text \<open>The send mode a station takes up when it hears a good frame sent in \<open>mode\<close>.\<close>

definition answer_mode :: "crc_mode \<Rightarrow> crc_mode \<Rightarrow> crc_mode" where
  "answer_mode mode rmode =
     (case mode of CRC_OFF \<Rightarrow> rmode | CRC_TEST_16 \<Rightarrow> CRC_16 | CRC_16 \<Rightarrow> CRC_16
                 | CRC_TEST_RMNC \<Rightarrow> CRC_RMNC | CRC_RMNC \<Rightarrow> CRC_RMNC)"

lemma append_crc_length:
  assumes "content bp \<noteq> []"
  shows "length (content (append_crc_16 True bp)) = length (content bp) + 2"
    "length (content (append_crc_rmnc True bp)) = length (content bp) + 2"
    "content (append_crc_16 True bp) \<noteq> []" "content (append_crc_rmnc True bp) \<noteq> []"
  using assms by (auto simp: append_crc_16_def append_crc_rmnc_def Let_def)

lemma kiss_recv_sent:
  assumes "content f = content (snd (kiss_raw fits True mode pkt))" "f \<noteq> []" "hd f \<noteq> []"
  shows "\<exists>d. kiss_recv fixed rmode errs f = (if fixed then rmode else answer_mode mode rmode, errs, Some d) \<and>
      content d = content pkt"
proof -
  obtain t s r where f: "f = (t # s) # r" using assms(2,3) by (cases f; cases "hd f") auto
  have c: "content f = t # (s @ content r)" using f by simp
  let ?p = "\<lambda>x. pushdown fits [x] pkt"
  have p: "content (?p x) = x # content pkt" for x by (simp add: pushdown_content)
  have ne: "content (?p x) \<noteq> []" for x by (simp add: p)
  have app: "\<exists>q. content (append_crc_16 True (?p x)) = x # q" "\<exists>q. content (append_crc_rmnc True (?p x)) = x # q" for x
    using p [of x] by (auto simp: append_crc_16_def append_crc_rmnc_def Let_def)
  have h: "hd (hd f) = t" using f by simp
  show ?thesis
  proof (cases mode)
    case CRC_OFF
    then have "content f = 0 # content pkt" using assms(1) p by (simp add: kiss_raw_def)
    moreover from this have "t = 0" using c by simp
    ultimately show ?thesis using kiss_type_data [of f 0] CRC_OFF f h
      by (auto simp: kiss_recv_def kiss_raw_def answer_mode_def)
  next
    case CRC_TEST_16
    then have e: "content f = content (append_crc_16 True (?p 0x80))" using assms(1) by (simp add: kiss_raw_def)
    then have t: "t = 0x80" using app(1) [of "0x80"] c by auto
    obtain d where d: "check_crc_16 f = Some d" "content d = 0x80 # content pkt"
      using crc_sealed_16 [OF ne e] p by auto
    then show ?thesis using kiss_type_data [OF d(2)] t CRC_TEST_16 f h
      by (auto simp: kiss_recv_def kiss_raw_def answer_mode_def)
  next
    case CRC_16
    then have e: "content f = content (append_crc_16 True (?p 0x80))" using assms(1) by (simp add: kiss_raw_def)
    then have t: "t = 0x80" using app(1) [of "0x80"] c by auto
    obtain d where d: "check_crc_16 f = Some d" "content d = 0x80 # content pkt"
      using crc_sealed_16 [OF ne e] p by auto
    then show ?thesis using kiss_type_data [OF d(2)] t CRC_16 f h
      by (auto simp: kiss_recv_def kiss_raw_def answer_mode_def)
  next
    case CRC_TEST_RMNC
    then have e: "content f = content (append_crc_rmnc True (?p 0x20))" using assms(1) by (simp add: kiss_raw_def)
    then have t: "t = 0x20" using app(2) [of "0x20"] c by auto
    obtain d where d: "check_crc_rmnc f = Some d" "content d = 0x20 # content pkt"
      using crc_sealed_rmnc [OF ne e] p by auto
    then show ?thesis using kiss_type_data [OF d(2)] t CRC_TEST_RMNC f h
      by (auto simp: kiss_recv_def kiss_raw_def answer_mode_def)
  next
    case CRC_RMNC
    then have e: "content f = content (append_crc_rmnc True (?p 0x20))" using assms(1) by (simp add: kiss_raw_def)
    then have t: "t = 0x20" using app(2) [of "0x20"] c by auto
    obtain d where d: "check_crc_rmnc f = Some d" "content d = 0x20 # content pkt"
      using crc_sealed_rmnc [OF ne e] p by auto
    then show ?thesis using kiss_type_data [OF d(2)] t CRC_RMNC f h
      by (auto simp: kiss_recv_def kiss_raw_def answer_mode_def)
  qed
qed

text \<open>C24: A KISS link carries frames unchanged under every checksum mode: what one station sends with
  \<^verbatim>\<open>kiss_raw\<close> and \<^verbatim>\<open>slip_encode\<close>, the other, whatever its receiver was doing, hands to \<^verbatim>\<open>ax_recv\<close> byte for
  byte, without counting an error; unless its mode is fixed, it answers in the checksum it heard.
  A probing sender goes on to the next mode.\<close>
theorem kiss_link:
  assumes "kiss_raw fits True mode pkt = (mode', out)" and "slip_encode True out = Some e"
    and "length (content pkt) + 3 \<le> slip_maxframe mtu"
  shows "\<exists>sp' g f d. slip_feed True mtu sp (content e) = (sp', g @ [f]) \<and> slip_ready sp' \<and>
     kiss_recv fixed rmode errs f = (if fixed then rmode else answer_mode mode rmode, errs, Some d) \<and>
     content d = content pkt \<and>
     mode' = (case mode of CRC_TEST_16 \<Rightarrow> CRC_TEST_RMNC | CRC_TEST_RMNC \<Rightarrow> CRC_OFF | m \<Rightarrow> m)"
proof -
  have out: "content out \<noteq> [] \<and> length (content out) \<le> length (content pkt) + 3"
    using assms(1) append_crc_length [of "pushdown fits [0x80] pkt"] append_crc_length [of "pushdown fits [0x20] pkt"]
    by (auto simp: kiss_raw_def pushdown_content split: crc_mode.splits)
  have e: "content e = [FR_END] @ concat (map slip_escape (content out)) @ [FR_END]"
    using assms(2) by (auto simp: slip_encode_def)
  from slip_feed_frame [of "content out" mtu sp] out assms(3) obtain sp' g f
    where f: "slip_feed True mtu sp (content e) = (sp', g @ [f])" "content f = content out"
      "\<forall>s \<in> set f. s \<noteq> []" "slip_ready sp'"
    unfolding e by fastforce
  have ne: "f \<noteq> []" "hd f \<noteq> []" using f(2,3) out by (cases f; auto)+
  have "content f = content (snd (kiss_raw fits True mode pkt))" using f(2) assms(1) by simp
  from kiss_recv_sent [OF this ne, of fixed rmode errs] obtain d where
    d: "kiss_recv fixed rmode errs f = (if fixed then rmode else answer_mode mode rmode, errs, Some d)"
      "content d = content pkt" by blast
  have "mode' = (case mode of CRC_TEST_16 \<Rightarrow> CRC_TEST_RMNC | CRC_TEST_RMNC \<Rightarrow> CRC_OFF | m \<Rightarrow> m)"
    using assms(1) by (cases mode) (simp_all add: kiss_raw_def)
  with d f(1,4) show ?thesis by blast
qed

lemma kiss_link_witness:
  "\<exists>sp' g f d. slip_feed True 256 slip_idle [0xc0, 0x20, 7, 0xb9, 0xcb, 0xc0] = (sp', g @ [f]) \<and>
     kiss_recv False CRC_OFF 0 f = (CRC_RMNC, 0, Some d) \<and> content d = [7]"
proof -
  have k: "kiss_raw False True CRC_RMNC [[7]] = (CRC_RMNC, [[0x20], [7], [0xb9, 0xcb]])"
    by (simp add: kiss_raw_def pushdown_def append_crc_rmnc_def crc_rmnc_step_def Crc_rmnc_table_def)
  have e: "slip_encode True [[0x20], [7], [0xb9, 0xcb]] = Some [[0xc0, 0x20, 7, 0xb9, 0xcb, 0xc0]]"
    by (simp add: slip_encode_def slip_escape_def slip_chars)
  from kiss_link [OF k e, of 256 slip_idle False CRC_OFF 0] show ?thesis
    by (auto simp: slip_maxframe_def AX25_MAXRXFRAME_def answer_mode_def)
qed

end
