(* ===== verification/Ip_Reasm.thy ===== *)
theory Ip_Reasm
  imports Inet_Hdr
begin

text \<open>
  IP reassembly: \<^verbatim>\<open>fraghandle\<close> and its helpers in \<^verbatim>\<open>src/src/ip.c\<close>.  A descriptor keeps the fragments
  received so far in a doubly linked list; the model is the list in the order of the \<^verbatim>\<open>next\<close>
  pointers, and each fragment remembers whether its \<^verbatim>\<open>prev\<close> pointer is still good (the code
  leaves one dangling in a corner of the removal of superseded fragments).  A dereference of
  NULL and a write through a dangling pointer are the result \<open>Frag_crash\<close>.  Offsets are natural
  numbers; the subtraction that computes the end of a fragment wraps at 32 bits as in C.

  Shown: the fragments of a datagram, in any order and with any repetitions, are put together to
  the datagram as soon as all have arrived, and never crash the node; but overlapping fragments
  cut at other places can crash it or lose data.
\<close>

record frag =
  fr_prev_ok :: bool
  fr_buf :: chain
  fr_offset :: nat
  fr_last :: nat

record reasm =
  rs_fraglist :: "frag list"
  rs_length :: nat
  rs_source :: u32
  rs_dest :: u32
  rs_id :: u32
  rs_protocol :: byte

datatype frag_outcome =
  Frag_crash
| Frag_wait "reasm list"
| Frag_done "reasm list" ip chain

section \<open>Descriptors\<close>

definition reasm_for :: "ip \<Rightarrow> reasm \<Rightarrow> bool" where
  "reasm_for ip rp \<longleftrightarrow> ip_id ip = rs_id rp \<and> ip_source ip = rs_source rp \<and> ip_dest ip = rs_dest rp \<and>
     ip_protocol ip = rs_protocol rp"

text \<open>\<^verbatim>\<open>lookup_reasm\<close> moves the descriptor it finds to the head of \<^verbatim>\<open>Reasmq\<close>; \<open>(rp, rest)\<close> is the head
  and the rest of the queue afterwards.\<close>

fun lookup_reasm :: "ip \<Rightarrow> reasm list \<Rightarrow> (reasm \<times> reasm list) option" where
  "lookup_reasm ip [] = None"
| "lookup_reasm ip (rp # q) =
     (if reasm_for ip rp then Some (rp, q)
      else case lookup_reasm ip q of
             None \<Rightarrow> None
           | Some (rp', rest) \<Rightarrow> Some (rp', rp # rest))"

definition creat_reasm :: "ip \<Rightarrow> reasm" where
  "creat_reasm ip =
     \<lparr>rs_fraglist = [], rs_length = 0, rs_source = ip_source ip, rs_dest = ip_dest ip,
      rs_id = ip_id ip, rs_protocol = ip_protocol ip\<rparr>"

section \<open>The fragment list\<close>

text \<open>
  The loop over the fragments after the new one.  \<open>kept\<close> are fragments that were trimmed at the
  front - the loop then moves on, and \<^verbatim>\<open>nextfrag\<close> ends up behind them -, \<open>rest\<close> starts at
  \<^verbatim>\<open>nextfrag\<close>.  A fragment with nothing left is deleted: through its \<^verbatim>\<open>prev\<close> pointer, and with the
  test \<^verbatim>\<open>tfp->next != NULL\<close>, which dereferences NULL at the end of the list and otherwise leaves
  the \<^verbatim>\<open>prev\<close> of a last fragment pointing to the deleted one.
\<close>

function trim_next :: "nat \<Rightarrow> frag list \<Rightarrow> (frag list \<times> frag list) option" where
  "trim_next lst [] = Some ([], [])"
| "trim_next lst (f # fs) =
     (if fr_offset f \<ge> lst then Some ([], f # fs)
      else let buf = snd (pullup (fr_buf f) (lst - fr_offset f))
           in if buf = []
              then if \<not> fr_prev_ok f then None
                   else (case fs of
                           [] \<Rightarrow> None
                         | g # gs \<Rightarrow> trim_next lst (g\<lparr>fr_prev_ok := (gs \<noteq> [])\<rparr> # gs))
              else map_option (\<lambda>(kept, rest). (f\<lparr>fr_buf := buf, fr_offset := lst\<rparr> # kept, rest))
                     (trim_next lst fs))"
  by pat_completeness auto
termination
  by (relation "measure (\<lambda>(l, fs). length fs)") auto

declare trim_next.simps(2) [simp del]

definition newfrag :: "nat \<Rightarrow> nat \<Rightarrow> chain \<Rightarrow> frag" where
  "newfrag offset lst bp = \<lparr>fr_prev_ok = True, fr_buf = bp, fr_offset = offset, fr_last = lst\<rparr>"

definition good_prev :: "frag list \<Rightarrow> frag list" where
  "good_prev fs = (case fs of [] \<Rightarrow> [] | f # fs \<Rightarrow> f\<lparr>fr_prev_ok := True\<rparr> # fs)"

text \<open>The switch over INSERT, APPEND, PREPEND and APPEND with PREPEND; \<open>None\<close> when \<^verbatim>\<open>newfrag\<close> fails, whose
  NULL is then dereferenced.\<close>

definition join_frag :: "bool \<Rightarrow> nat \<Rightarrow> nat \<Rightarrow> chain \<Rightarrow> frag list \<Rightarrow> frag list \<Rightarrow> frag list \<Rightarrow> frag list option" where
  "join_frag mem offset lst bp bef kept rest =
     (let app = (bef \<noteq> [] \<and> fr_last (last bef) = offset);
          pre = (rest \<noteq> [] \<and> fr_offset (hd rest) = lst);
          lastfrag = last bef; nextfrag = hd rest
      in if \<not> app \<and> \<not> pre
         then if \<not> mem then None else Some (bef @ [newfrag offset lst bp] @ good_prev rest)
         else if app \<and> \<not> pre
         then Some (butlast bef @ [lastfrag\<lparr>fr_buf := append_p (fr_buf lastfrag) bp, fr_last := lst\<rparr>] @ kept @ rest)
         else if \<not> app \<and> pre
         then Some (bef @ kept @ [nextfrag\<lparr>fr_buf := append_p bp (fr_buf nextfrag), fr_offset := offset\<rparr>] @ tl rest)
         else Some (butlast bef @
                [lastfrag\<lparr>fr_buf := append_p (append_p (fr_buf lastfrag) bp) (fr_buf nextfrag),
                          fr_last := fr_last nextfrag\<rparr>] @ good_prev (tl rest)))"

text \<open>The insertion of the new fragment: nothing of it may be left after the overlap with the
  preceding fragment has been stripped.\<close>

datatype frag_ins = Ins_crash | Ins_old | Ins_new "frag list"

definition frag_insert :: "bool \<Rightarrow> nat \<Rightarrow> nat \<Rightarrow> chain \<Rightarrow> frag list \<Rightarrow> frag_ins" where
  "frag_insert mem offset lst bpp fl =
     (let bef = takeWhile (\<lambda>f. fr_offset f \<le> offset) fl;
          aft = dropWhile (\<lambda>f. fr_offset f \<le> offset) fl;
          overlap = (bef \<noteq> [] \<and> offset < fr_last (last bef));
          i = fr_last (last bef) - offset;
          bpp' = (if overlap then snd (pullup bpp i) else bpp);
          offset' = (if overlap then offset + i else offset)
      in if overlap \<and> bpp' = [] then Ins_old
         else case trim_next lst aft of
           None \<Rightarrow> Ins_crash
         | Some (kept, rest) \<Rightarrow>
             (case join_frag mem offset' lst bpp' bef kept rest of
                None \<Rightarrow> Ins_crash
              | Some fl' \<Rightarrow> Ins_new fl'))"

text \<open>\<^verbatim>\<open>fraghandle\<close>: \<open>mem_r\<close>, \<open>mem_f\<close> say whether a descriptor and a fragment could be allocated.\<close>

definition fraghandle :: "bool \<Rightarrow> bool \<Rightarrow> reasm list \<Rightarrow> ip \<Rightarrow> chain \<Rightarrow> frag_outcome" where
  "fraghandle mem_r mem_f q ip bpp =
     (let hdr = IPLEN + unat (ip_optlen ip);
          offset = unat (ip_offset ip);
          lst = (offset + unat (ip_len ip) + (2 ^ 32 - hdr)) mod 2 ^ 32
      in if offset = 0 \<and> \<not> ip_mf ip
         then (case lookup_reasm ip q of
                 None \<Rightarrow> Frag_done q ip bpp
               | Some (rp, rest) \<Rightarrow> Frag_done rest ip bpp)
         else case (case lookup_reasm ip q of
                      None \<Rightarrow> if mem_r then Some (creat_reasm ip, q) else None
                    | r \<Rightarrow> r) of
           None \<Rightarrow> Frag_wait q
         | Some (rp0, others) \<Rightarrow>
             (let rp = (if ip_mf ip then rp0 else rp0\<lparr>rs_length := lst\<rparr>)
              in case frag_insert mem_f offset lst bpp (rs_fraglist rp) of
                   Ins_crash \<Rightarrow> Frag_crash
                 | Ins_old \<Rightarrow> Frag_wait (rp # others)
                 | Ins_new fl \<Rightarrow>
                     if length fl = 1 \<and> fr_offset (hd fl) = 0 \<and> rs_length rp \<noteq> 0
                     then Frag_done others
                            (ip\<lparr>ip_len := of_nat (rs_length rp + hdr), ip_offset := 0, ip_mf := False\<rparr>)
                            (fr_buf (hd fl))
                     else Frag_wait (rp\<lparr>rs_fraglist := fl\<rparr> # others)))"

text \<open>\<^verbatim>\<open>ip_timeout\<close> gives up a datagram.\<close>

definition ip_timeout :: "reasm \<Rightarrow> reasm list \<Rightarrow> reasm list" where
  "ip_timeout rp q = remove1 rp q"

section \<open>Runs of pieces\<close>

text \<open>
  The abstract view.  A datagram is cut into the nonempty pieces \<open>segs\<close>; what has arrived is a set
  of piece numbers, kept as the list of its maximal runs \<open>(a, b)\<close> (the pieces from \<open>a\<close> up to but
  not including \<open>b\<close>) in ascending order.
\<close>

type_synonym runs = "(nat \<times> nat) list"

definition covered :: "runs \<Rightarrow> nat set" where
  "covered rs = (\<Union>r \<in> set rs. {fst r..<snd r})"

definition good_runs :: "nat \<Rightarrow> runs \<Rightarrow> bool" where
  "good_runs n rs \<longleftrightarrow> (\<forall>r \<in> set rs. fst r < snd r \<and> snd r \<le> n) \<and> sorted_wrt (\<lambda>r s. snd r < fst s) rs"

definition off :: "byte list list \<Rightarrow> nat \<Rightarrow> nat" where
  "off segs i = length (concat (take i segs))"

definition piece :: "byte list list \<Rightarrow> nat \<Rightarrow> nat \<Rightarrow> byte list" where
  "piece segs a b = concat (take (b - a) (drop a segs))"

definition holds_run :: "byte list list \<Rightarrow> frag \<Rightarrow> nat \<times> nat \<Rightarrow> bool" where
  "holds_run segs f = (\<lambda>(a, b). fr_offset f = off segs a \<and> fr_last f = off segs b \<and>
     content (fr_buf f) = piece segs a b)"

definition join_run :: "nat \<Rightarrow> runs \<Rightarrow> runs \<Rightarrow> runs" where
  "join_run i bef aft =
     (let app = (bef \<noteq> [] \<and> snd (last bef) = i);
          pre = (aft \<noteq> [] \<and> fst (hd aft) = Suc i)
      in if app then butlast bef @ [(fst (last bef), if pre then snd (hd aft) else Suc i)] @ (if pre then tl aft else aft)
         else bef @ [(i, if pre then snd (hd aft) else Suc i)] @ (if pre then tl aft else aft))"

definition add_run :: "nat \<Rightarrow> runs \<Rightarrow> runs" where
  "add_run i rs =
     (let bef = takeWhile (\<lambda>r. fst r \<le> i) rs; aft = dropWhile (\<lambda>r. fst r \<le> i) rs
      in if bef \<noteq> [] \<and> i < snd (last bef) then rs else join_run i bef aft)"

lemma covered_simps [simp]:
  "covered [] = {}" "covered (r # rs) = {fst r..<snd r} \<union> covered rs"
  "covered (rs @ rs') = covered rs \<union> covered rs'"
  by (auto simp: covered_def)

lemma good_runs_Nil [simp]: "good_runs n []"
  by (simp add: good_runs_def)

lemma good_runs_append:
  "good_runs n (xs @ ys) \<longleftrightarrow> good_runs n xs \<and> good_runs n ys \<and> (\<forall>x\<in>set xs. \<forall>y\<in>set ys. snd x < fst y)"
  by (auto simp: good_runs_def sorted_wrt_append)

lemma good_runs_Cons:
  "good_runs n (x # ys) \<longleftrightarrow> fst x < snd x \<and> snd x \<le> n \<and> good_runs n ys \<and> (\<forall>y\<in>set ys. snd x < fst y)"
  by (auto simp: good_runs_def)

lemma off_mono_less: "[] \<notin> set segs \<Longrightarrow> i < j \<Longrightarrow> j \<le> length segs \<Longrightarrow> off segs i < off segs j"
proof (induction segs arbitrary: i j)
  case (Cons s segs)
  then show ?case by (cases i; cases j) (auto simp: off_def)
qed simp

lemma off_less_iff:
  "[] \<notin> set segs \<Longrightarrow> i \<le> length segs \<Longrightarrow> j \<le> length segs \<Longrightarrow> off segs i < off segs j \<longleftrightarrow> i < j"
  by (metis linorder_neqE_nat off_mono_less order_less_asym order_less_irrefl)

lemma off_le_iff:
  "[] \<notin> set segs \<Longrightarrow> i \<le> length segs \<Longrightarrow> j \<le> length segs \<Longrightarrow> off segs i \<le> off segs j \<longleftrightarrow> i \<le> j"
  using off_less_iff [of segs j i] by (simp add: linorder_not_less [symmetric])

lemma off_eq_iff:
  "[] \<notin> set segs \<Longrightarrow> i \<le> length segs \<Longrightarrow> j \<le> length segs \<Longrightarrow> off segs i = off segs j \<longleftrightarrow> i = j"
  by (simp add: order_eq_iff off_le_iff)

lemma off_0 [simp]: "off segs 0 = 0"
  by (simp add: off_def)

lemma off_all [simp]: "off segs (length segs) = length (concat segs)"
  by (simp add: off_def)

lemma off_Suc: "i < length segs \<Longrightarrow> off segs (Suc i) = off segs i + length (segs ! i)"
  by (simp add: off_def take_Suc_conv_app_nth)

lemma piece_one: "i < length segs \<Longrightarrow> piece segs i (Suc i) = segs ! i"
  by (simp add: piece_def take_Suc hd_drop_conv_nth)

lemma piece_join: "a \<le> b \<Longrightarrow> b \<le> c \<Longrightarrow> piece segs a b @ piece segs b c = piece segs a c"
proof -
  assume "a \<le> b" "b \<le> c"
  then have "take (c - a) (drop a segs) = take (b - a) (drop a segs) @ take (c - b) (drop b segs)"
    using take_add [of "b - a" "c - b" "drop a segs"] by simp
  then show ?thesis by (simp add: piece_def)
qed

lemma piece_all: "piece segs 0 (length segs) = concat segs"
  by (simp add: piece_def)

text \<open>Adding a piece to the runs adds it to the set.\<close>

lemma join_run_good:
  assumes "good_runs n (bef @ aft)" "\<forall>r\<in>set bef. snd r \<le> i" "\<forall>r\<in>set aft. i < fst r" "i < n"
  shows "good_runs n (join_run i bef aft)" "covered (join_run i bef aft) = insert i (covered (bef @ aft))"
proof -
  obtain B b where B: "bef = [] \<and> B = [] \<or> bef = B @ [b]" by (cases bef rule: rev_cases) auto
  obtain a A where A: "aft = [] \<or> aft = a # A" by (cases aft) auto
  have "good_runs n (join_run i bef aft) \<and> covered (join_run i bef aft) = insert i (covered (bef @ aft))"
    using B A assms
    by (elim disjE conjE; clarsimp simp: join_run_def Let_def good_runs_append good_runs_Cons)
       (intro conjI impI; fastforce)+
  then show "good_runs n (join_run i bef aft)" "covered (join_run i bef aft) = insert i (covered (bef @ aft))"
    by blast+
qed

lemma good_runs_after:
  "good_runs n rs \<Longrightarrow> \<forall>r\<in>set (dropWhile (\<lambda>r. fst r \<le> i) rs). i < fst r"
  by (induction rs) (auto simp: good_runs_Cons intro: order.strict_trans2)

lemma good_runs_before:
  assumes "good_runs n rs" "bef = takeWhile (\<lambda>r. fst r \<le> i) rs" "bef = [] \<or> snd (last bef) \<le> i"
  shows "\<forall>r\<in>set bef. snd r \<le> i"
proof (cases bef rule: rev_cases)
  case (snoc B b)
  have "good_runs n bef"
    using assms(1,2) takeWhile_dropWhile_id [of "\<lambda>r. fst r \<le> i" rs] good_runs_append by metis
  then show ?thesis using snoc assms(3) by (fastforce simp: good_runs_append good_runs_Cons)
qed simp

lemma add_run_good:
  assumes "good_runs n rs" "i < n"
  shows "good_runs n (add_run i rs)" "covered (add_run i rs) = insert i (covered rs)"
proof -
  define bef where "bef = takeWhile (\<lambda>r. fst r \<le> i) rs"
  define aft where "aft = dropWhile (\<lambda>r. fst r \<le> i) rs"
  have rs: "bef @ aft = rs" by (simp add: bef_def aft_def)
  have "good_runs n (add_run i rs) \<and> covered (add_run i rs) = insert i (covered rs)"
  proof (cases "bef \<noteq> [] \<and> i < snd (last bef)")
    case True
    then have "last bef \<in> set bef" "fst (last bef) \<le> i"
      using set_takeWhileD [of "last bef" "\<lambda>r. fst r \<le> i" rs] by (simp_all add: bef_def)
    then have "i \<in> covered rs"
      using True set_takeWhileD [of "last bef" "\<lambda>r. fst r \<le> i" rs] by (auto simp: covered_def bef_def)
    then show ?thesis using True assms by (auto simp: add_run_def Let_def bef_def)
  next
    case False
    then have eq: "add_run i rs = join_run i bef aft"
      using False unfolding add_run_def Let_def bef_def aft_def by argo
    have "\<forall>r\<in>set bef. snd r \<le> i"
      using False by (intro good_runs_before [OF assms(1) bef_def]) auto
    with good_runs_after [OF assms(1), of i] show ?thesis
      using join_run_good [of n bef aft i] assms by (simp add: eq rs flip: aft_def)
  qed
  then show "good_runs n (add_run i rs)" "covered (add_run i rs) = insert i (covered rs)" by blast+
qed

lemma covered_bound: "good_runs n rs \<Longrightarrow> covered rs \<subseteq> {..<n}"
  by (fastforce simp: good_runs_def covered_def)

text \<open>All pieces are there exactly when there is the one run from the first piece to the last.\<close>

lemma covered_all_iff:
  assumes "good_runs n rs" "0 < n"
  shows "covered rs = {..<n} \<longleftrightarrow> rs = [(0, n)]"
proof
  assume cov: "covered rs = {..<n}"
  then obtain r rs' where rs: "rs = r # rs'" using assms(2) by (cases rs) auto
  have gap: "snd r \<notin> covered rs"
    using assms(1) by (fastforce simp: rs good_runs_Cons covered_def)
  then have "snd r = n" using cov assms(1) by (auto simp: rs good_runs_Cons)
  moreover have "rs' = []"
  proof (cases rs')
    case (Cons s t)
    then show ?thesis using assms(1) \<open>snd r = n\<close> by (auto simp: rs good_runs_Cons)
  qed simp
  moreover have "fst r = 0"
    using cov \<open>rs' = []\<close> assms(2) by (auto simp: rs set_eq_iff)
  ultimately show "rs = [(0, n)]" using rs by (cases r) simp
qed (auto simp: atLeast0LessThan)

section \<open>The fragment list holds the runs\<close>

lemma takeWhile_list_all2:
  assumes "list_all2 R xs ys" "\<And>x y. x \<in> set xs \<Longrightarrow> y \<in> set ys \<Longrightarrow> R x y \<Longrightarrow> P x \<longleftrightarrow> Q y"
  shows "list_all2 R (takeWhile P xs) (takeWhile Q ys)" "list_all2 R (dropWhile P xs) (dropWhile Q ys)"
  using assms by (induction rule: list_all2_induct) auto

lemma trim_next_none: "aft = [] \<or> lst \<le> fr_offset (hd aft) \<Longrightarrow> trim_next lst aft = Some ([], aft)"
  by (cases aft) (auto simp: trim_next.simps(2))

lemma holds_run_good_prev:
  "list_all2 (holds_run segs) fl rs \<Longrightarrow> list_all2 (holds_run segs) (good_prev fl) rs"
  by (cases fl; cases rs) (auto simp: good_prev_def holds_run_def)

lemma join_frag_holds:
  assumes ok: "[] \<notin> set segs" "i < length segs" "content bp = segs ! i"
    and b: "list_all2 (holds_run segs) bef rbef" and a: "list_all2 (holds_run segs) aft raft"
    and g: "good_runs (length segs) (rbef @ raft)"
  shows "\<exists>fl. join_frag True (off segs i) (off segs (Suc i)) bp bef [] aft = Some fl \<and>
           list_all2 (holds_run segs) fl (join_run i rbef raft)"
proof -
  have eqoff: "off segs x = off segs y \<longleftrightarrow> x = y" if "x \<le> length segs" "y \<le> length segs" for x y
    using off_eq_iff ok(1) that by blast
  have one: "content bp = piece segs i (Suc i)" using ok piece_one by simp
  obtain B f RB r where B: "bef = [] \<and> rbef = [] \<or> bef = B @ [f] \<and> rbef = RB @ [r]"
    using list_all2_lengthD [OF b] by (cases bef rule: rev_cases; cases rbef rule: rev_cases) auto
  obtain h A s RA where A: "aft = [] \<and> raft = [] \<or> aft = h # A \<and> raft = s # RA"
    using list_all2_lengthD [OF a] by (cases aft; cases raft) auto
  have cases: "bef = [] \<and> rbef = [] \<or>
      bef = B @ [f] \<and> rbef = RB @ [r] \<and> list_all2 (holds_run segs) B RB \<and> holds_run segs f r \<and>
      (fr_last f = off segs i \<longleftrightarrow> snd r = i) \<and> fst r < snd r"
    using B b g ok eqoff [of "snd r" i]
    by (auto simp: list_all2_append2 list_all2_Cons2 holds_run_def good_runs_append good_runs_Cons split: prod.splits
        dest: list_all2_lengthD)
  have cases': "aft = [] \<and> raft = [] \<or>
      aft = h # A \<and> raft = s # RA \<and> list_all2 (holds_run segs) A RA \<and> holds_run segs h s \<and>
      (fr_offset h = off segs (Suc i) \<longleftrightarrow> fst s = Suc i) \<and> fst s < snd s"
    using A a g ok eqoff [of "fst s" "Suc i"]
    by (auto simp: holds_run_def good_runs_append good_runs_Cons split: prod.splits)
  have glue: "a \<le> i \<Longrightarrow> piece segs a i @ piece segs i (Suc i) = piece segs a (Suc i)"
    "Suc i \<le> c \<Longrightarrow> piece segs i (Suc i) @ piece segs (Suc i) c = piece segs i c"
    "a \<le> i \<Longrightarrow> Suc i \<le> c \<Longrightarrow> piece segs a i @ piece segs i (Suc i) @ piece segs (Suc i) c = piece segs a c" for a c
    by (simp_all add: piece_join)
  show ?thesis
    using cases cases'
    apply (elim disjE conjE)
    subgoal by (simp add: join_frag_def join_run_def Let_def newfrag_def holds_run_def one good_prev_def)
    subgoal
      by (cases "fst s = Suc i")
         (auto simp: join_frag_def join_run_def Let_def newfrag_def holds_run_def one good_prev_def append_p_content glue split: prod.splits)
    subgoal
      by (cases "snd r = i")
         (auto simp: join_frag_def join_run_def Let_def newfrag_def holds_run_def one good_prev_def append_p_content glue
            intro!: list_all2_appendI split: prod.splits)
    subgoal
      using holds_run_good_prev [of segs A RA] holds_run_good_prev [of segs "h # A" "s # RA"]
      by (cases "snd r = i"; cases "fst s = Suc i")
         (auto simp: join_frag_def join_run_def Let_def newfrag_def holds_run_def one append_p_content glue
            piece_join holds_run_good_prev intro!: list_all2_appendI split: prod.splits)
    done
qed

lemma pullup_all: "[] \<notin> set bp \<Longrightarrow> length (content bp) \<le> k \<Longrightarrow> snd (pullup bp k) = []"
proof (induction bp arbitrary: k)
  case (Cons s bp)
  then have "snd (pullup bp (k - length s)) = []" "0 < k" by (cases s; auto)+
  then show ?case using Cons.prems
    by (simp add: pullup.simps(2) [of s bp] Let_def min_absorb2 split_def)
qed simp

text \<open>Inserting a piece into a list that holds \<open>rs\<close>: a piece already there changes nothing, another one
  is added, and the fragment list never breaks.\<close>

lemma frag_insert_holds:
  assumes ok: "[] \<notin> set segs" "i < length segs" "content bp = segs ! i" "[] \<notin> set bp"
    and h: "list_all2 (holds_run segs) fl rs" and g: "good_runs (length segs) rs"
  shows "frag_insert True (off segs i) (off segs (Suc i)) bp fl = Ins_old \<and> i \<in> covered rs \<or>
    (\<exists>fl'. frag_insert True (off segs i) (off segs (Suc i)) bp fl = Ins_new fl' \<and>
       list_all2 (holds_run segs) fl' (add_run i rs))"
proof -
  define bef where "bef = takeWhile (\<lambda>f. fr_offset f \<le> off segs i) fl"
  define aft where "aft = dropWhile (\<lambda>f. fr_offset f \<le> off segs i) fl"
  define rbef where "rbef = takeWhile (\<lambda>r. fst r \<le> i) rs"
  define raft where "raft = dropWhile (\<lambda>r. fst r \<le> i) rs"
  have rsplit: "rbef @ raft = rs" by (simp add: rbef_def raft_def)
  have le: "\<And>x y. x \<in> set fl \<Longrightarrow> y \<in> set rs \<Longrightarrow> holds_run segs x y \<Longrightarrow> fr_offset x \<le> off segs i \<longleftrightarrow> fst y \<le> i"
    using g off_le_iff [OF ok(1)] ok(2) by (fastforce simp: holds_run_def good_runs_def)
  have ba: "list_all2 (holds_run segs) bef rbef" "list_all2 (holds_run segs) aft raft"
    unfolding bef_def aft_def rbef_def raft_def using takeWhile_list_all2 [OF h, of "\<lambda>f. fr_offset f \<le> off segs i" "\<lambda>r. fst r \<le> i", OF le] by blast+
  note ins = frag_insert_def [of True "off segs i" "off segs (Suc i)" bp fl, folded bef_def aft_def]
  note add = add_run_def [of i rs, folded rbef_def raft_def]
  have lst: "fr_last (last bef) = off segs (snd (last rbef))" "snd (last rbef) \<le> length segs" "fst (last rbef) \<le> i"
      "rbef \<noteq> []" "last rbef \<in> set rs"
    if ne: "bef \<noteq> []"
  proof -
    obtain B b where B: "bef = B @ [b]" using ne by (cases bef rule: rev_cases) auto
    then obtain RB r where r: "rbef = RB @ [r]" "holds_run segs b r"
      using ba(1) by (auto simp: list_all2_append1 list_all2_Cons1)
    have "r \<in> set rs" "fst r \<le> i"
      using r(1) rsplit set_takeWhileD [of r "\<lambda>r. fst r \<le> i" rs] by (auto simp: rbef_def)
    then show "fr_last (last bef) = off segs (snd (last rbef))" "snd (last rbef) \<le> length segs"
      "fst (last rbef) \<le> i" "rbef \<noteq> []" "last rbef \<in> set rs"
      using r B g by (auto simp: holds_run_def good_runs_def)
  qed
  show ?thesis
  proof (cases "bef \<noteq> [] \<and> off segs i < fr_last (last bef)")
    case True
    then have s: "i < snd (last rbef)" using lst off_less_iff [OF ok(1), of i] ok(2) by auto
    then have "off segs (Suc i) \<le> fr_last (last bef)"
      using lst True off_le_iff [OF ok(1), of "Suc i"] ok(2) by auto
    then have "snd (pullup bp (fr_last (last bef) - off segs i)) = []"
      using ok off_Suc [OF ok(2)] by (intro pullup_all) auto
    then have "frag_insert True (off segs i) (off segs (Suc i)) bp fl = Ins_old"
      using True by (simp add: ins Let_def)
    moreover have "i \<in> covered rs" using s lst True by (auto simp: covered_def)
    ultimately show ?thesis by blast
  next
    case False
    have "aft = [] \<or> off segs (Suc i) \<le> fr_offset (hd aft)"
    proof (cases aft)
      case (Cons f A)
      then obtain r RA where r: "raft = r # RA" "holds_run segs f r" using ba(2) by (auto simp: list_all2_Cons1)
      have "r \<in> set rs" using r(1) rsplit by auto
      moreover have "i < fst r" using good_runs_after [OF g, of i] r(1) by (simp add: raft_def)
      ultimately have "off segs (Suc i) \<le> off segs (fst r)"
        using g ok(2) off_le_iff [OF ok(1), of "Suc i" "fst r"] by (auto simp: good_runs_def)
      then show ?thesis using r Cons by (auto simp: holds_run_def)
    qed simp
    note tr = trim_next_none [OF this]
    obtain fl' where fl': "join_frag True (off segs i) (off segs (Suc i)) bp bef [] aft = Some fl'"
        "list_all2 (holds_run segs) fl' (join_run i rbef raft)"
      using join_frag_holds [OF ok(1-3) ba] g rsplit by auto
    have "\<not> (rbef \<noteq> [] \<and> i < snd (last rbef))"
      using False lst ba(1) off_less_iff [OF ok(1), of i "snd (last rbef)"] ok(2)
      by (cases "bef = []") auto
    then have "add_run i rs = join_run i rbef raft" by (auto simp: add Let_def)
    moreover have "(bef \<noteq> [] \<and> off segs i < fr_last (last bef)) = False" using False by simp
    then have "frag_insert True (off segs i) (off segs (Suc i)) bp fl = Ins_new fl'"
      by (simp only: ins Let_def tr fl'(1) if_False simp_thms option.case prod.case)
    ultimately show ?thesis using fl'(2) by simp
  qed
qed

text \<open>The test of the code for a complete datagram.\<close>

lemma all_in_one:
  assumes segs: "[] \<notin> set segs" "0 < length segs"
    and h: "list_all2 (holds_run segs) fl rs" and g: "good_runs (length segs) rs"
  shows "covered rs = {..<length segs} \<Longrightarrow> length fl = 1 \<and> fr_offset (hd fl) = 0 \<and> content (fr_buf (hd fl)) = concat segs"
    and "length fl = 1 \<Longrightarrow> fr_offset (hd fl) = 0 \<Longrightarrow> length segs - 1 \<in> covered rs \<Longrightarrow> covered rs = {..<length segs}"
proof -
  assume "covered rs = {..<length segs}"
  then have "rs = [(0, length segs)]" using covered_all_iff [OF g segs(2)] by simp
  then show "length fl = 1 \<and> fr_offset (hd fl) = 0 \<and> content (fr_buf (hd fl)) = concat segs"
    using h by (auto simp: list_all2_Cons2 holds_run_def piece_all)
next
  assume a: "length fl = 1" "fr_offset (hd fl) = 0" "length segs - 1 \<in> covered rs"
  then obtain f where "fl = [f]" by (auto simp: length_Suc_conv)
  then obtain r where r: "rs = [r]" "holds_run segs f r" using h by (auto simp: list_all2_Cons1)
  have "fst r = 0" using r a g \<open>fl = [f]\<close> off_eq_iff [OF segs(1), of "fst r" 0]
    by (auto simp: holds_run_def good_runs_Cons)
  then show "covered rs = {..<length segs}" using r a(3) g segs(2)
    by (auto simp: good_runs_Cons)
qed

section \<open>Putting a datagram together\<close>

definition is_piece :: "ip \<Rightarrow> byte list list \<Rightarrow> nat \<Rightarrow> ip \<Rightarrow> chain \<Rightarrow> bool" where
  "is_piece dg segs i ip bp \<longleftrightarrow> i < length segs \<and> content bp = segs ! i \<and> [] \<notin> set bp \<and>
     ip_id ip = ip_id dg \<and> ip_source ip = ip_source dg \<and> ip_dest ip = ip_dest dg \<and>
     ip_protocol ip = ip_protocol dg \<and> unat (ip_offset ip) = off segs i \<and>
     unat (ip_len ip) = IPLEN + unat (ip_optlen ip) + length (segs ! i) \<and>
     (ip_mf ip \<longleftrightarrow> Suc i < length segs)"

definition cut_ok :: "byte list list \<Rightarrow> bool" where
  "cut_ok segs \<longleftrightarrow> [] \<notin> set segs \<and> 2 \<le> length segs \<and> length (concat segs) < 65536"

definition holds_set :: "byte list list \<Rightarrow> nat set \<Rightarrow> reasm \<Rightarrow> bool" where
  "holds_set segs R rp \<longleftrightarrow> (\<exists>rs. list_all2 (holds_run segs) (rs_fraglist rp) rs \<and>
     good_runs (length segs) rs \<and> covered rs = R) \<and>
     rs_length rp = (if length segs - 1 \<in> R then length (concat segs) else 0)"

definition held :: "ip \<Rightarrow> byte list list \<Rightarrow> nat set \<Rightarrow> reasm list \<Rightarrow> reasm list \<Rightarrow> bool" where
  "held dg segs R q q0 \<longleftrightarrow> R \<noteq> {..<length segs} \<and>
     (case lookup_reasm dg q of
        None \<Rightarrow> R = {} \<and> q0 = q
      | Some (rp, rest) \<Rightarrow> rest = q0 \<and> reasm_for dg rp \<and> holds_set segs R rp)"

lemma is_piece_lookup: "is_piece dg segs i ip bp \<Longrightarrow> lookup_reasm ip q = lookup_reasm dg q"
  by (induction q) (auto simp: reasm_for_def is_piece_def)

lemma is_piece_last:
  assumes "is_piece dg segs i ip bp" "cut_ok segs"
  shows "(unat (ip_offset ip) + unat (ip_len ip) + (2 ^ 32 - (IPLEN + unat (ip_optlen ip)))) mod 2 ^ 32 = off segs (Suc i)"
proof -
  have "off segs (Suc i) \<le> length (concat segs)"
    using assms off_le_iff [of segs "Suc i" "length segs"] by (auto simp: is_piece_def cut_ok_def Suc_le_eq)
  moreover have "unat (ip_optlen ip) < 256" by (rule unat_byte_less)
  ultimately show ?thesis
    using assms by (simp add: is_piece_def cut_ok_def off_Suc IPLEN_def)
qed

text \<open>What \<^verbatim>\<open>fraghandle\<close> does with a piece, once the descriptor is found or made.\<close>

lemma fraghandle_piece:
  assumes p: "is_piece dg segs i ip bp" and ok: "cut_ok segs"
    and l: "(case lookup_reasm ip q of None \<Rightarrow> Some (creat_reasm ip, q) | r \<Rightarrow> r) = Some (rp, q0)"
    and h: "holds_set segs R rp" "R \<noteq> {..<length segs}"
  shows "if insert i R = {..<length segs}
         then \<exists>c. fraghandle True True q ip bp = Frag_done q0 (ip\<lparr>ip_len := of_nat (length (concat segs) +
                 (IPLEN + unat (ip_optlen ip))), ip_offset := 0, ip_mf := False\<rparr>) c \<and> content c = concat segs
         else \<exists>rp'. fraghandle True True q ip bp = Frag_wait (rp' # q0) \<and>
                 holds_set segs (insert i R) rp' \<and> (reasm_for dg rp \<longrightarrow> reasm_for dg rp')"
proof -
  let ?n = "length segs" and ?D = "length (concat segs)"
  define rp1 where "rp1 = (if ip_mf ip then rp else rp\<lparr>rs_length := off segs (Suc i)\<rparr>)"
  have segs: "[] \<notin> set segs" and i: "i < ?n" and n: "2 \<le> ?n" using p ok by (auto simp: is_piece_def cut_ok_def)
  have D: "?D \<noteq> 0" and pos: "0 < ?n" "?n - 1 < ?n" using segs n by (cases segs; auto)+
  obtain rs where rs: "list_all2 (holds_run segs) (rs_fraglist rp) rs" "good_runs ?n rs" "covered rs = R"
    using h(1) by (auto simp: holds_set_def)
  have offs: "unat (ip_offset ip) = off segs i" "\<not> (off segs i = 0 \<and> \<not> ip_mf ip)"
    using p n off_eq_iff [OF segs, of i 0] by (auto simp: is_piece_def)
  have rp1: "rs_fraglist rp1 = rs_fraglist rp" "reasm_for dg rp1 \<longleftrightarrow> reasm_for dg rp"
      "rs_length rp1 = (if ?n - 1 \<in> insert i R then ?D else 0)"
    using p h(1) n i by (auto simp: rp1_def reasm_for_def holds_set_def is_piece_def dest: Suc_lessI)
  have fh: "fraghandle True True q ip bp =
      (case frag_insert True (off segs i) (off segs (Suc i)) bp (rs_fraglist rp) of
         Ins_crash \<Rightarrow> Frag_crash | Ins_old \<Rightarrow> Frag_wait (rp1 # q0)
       | Ins_new fl \<Rightarrow> if length fl = 1 \<and> fr_offset (hd fl) = 0 \<and> rs_length rp1 \<noteq> 0
            then Frag_done q0 (ip\<lparr>ip_len := of_nat (rs_length rp1 + (IPLEN + unat (ip_optlen ip))),
                   ip_offset := 0, ip_mf := False\<rparr>) (fr_buf (hd fl))
            else Frag_wait (rp1\<lparr>rs_fraglist := fl\<rparr> # q0))"
    unfolding fraghandle_def Let_def is_piece_last [OF p ok] rp1_def using offs l
    by (cases "ip_mf ip") (auto split: option.splits)
  have ins: "frag_insert True (off segs i) (off segs (Suc i)) bp (rs_fraglist rp) = Ins_old \<and> i \<in> covered rs \<or>
    (\<exists>fl'. frag_insert True (off segs i) (off segs (Suc i)) bp (rs_fraglist rp) = Ins_new fl' \<and>
       list_all2 (holds_run segs) fl' (add_run i rs))"
    using p i by (intro frag_insert_holds [OF segs _ _ _ rs(1,2)]) (auto simp: is_piece_def)
  then show ?thesis
  proof (elim disjE exE conjE)
    assume "frag_insert True (off segs i) (off segs (Suc i)) bp (rs_fraglist rp) = Ins_old" "i \<in> covered rs"
    then show ?thesis using rs rp1 h by (auto simp: fh holds_set_def insert_absorb)
  next
    fix fl
    assume fl: "frag_insert True (off segs i) (off segs (Suc i)) bp (rs_fraglist rp) = Ins_new fl"
      "list_all2 (holds_run segs) fl (add_run i rs)"
    note ar = add_run_good [OF rs(2) i, unfolded rs(3)]
    have "holds_set segs (insert i R) (rp1\<lparr>rs_fraglist := fl\<rparr>)" "reasm_for dg (rp1\<lparr>rs_fraglist := fl\<rparr>) = reasm_for dg rp"
      using fl ar rp1 by (auto simp: holds_set_def reasm_for_def)
    moreover have "length fl = 1 \<and> fr_offset (hd fl) = 0 \<and> rs_length rp1 \<noteq> 0" "content (fr_buf (hd fl)) = concat segs"
        "rs_length rp1 = ?D" if full: "insert i R = {..<?n}"
      using all_in_one(1) [OF segs _ fl(2) ar(1)] rp1(3) D n pos unfolding ar(2) full by simp_all
    moreover have "\<not> (length fl = 1 \<and> fr_offset (hd fl) = 0 \<and> rs_length rp1 \<noteq> 0)" if "insert i R \<noteq> {..<?n}"
      using all_in_one(2) [OF segs _ fl(2) ar(1)] rp1(3) pos that unfolding ar(2) by metis
    ultimately show ?thesis using fl(1) by (cases "insert i R = {..<?n}") (simp_all add: fh)
  qed
qed

text \<open>The packets as they come in; the first complete datagram ends the run.\<close>

fun reassemble :: "reasm list \<Rightarrow> (ip \<times> chain) list \<Rightarrow> frag_outcome" where
  "reassemble q [] = Frag_wait q"
| "reassemble q ((ip, bp) # ps) =
     (case fraghandle True True q ip bp of
        Frag_wait q' \<Rightarrow> reassemble q' ps
      | r \<Rightarrow> r)"

lemma held_step:
  assumes p: "is_piece dg segs i ip bp" and ok: "cut_ok segs" and h: "held dg segs R q q0"
  shows "if insert i R = {..<length segs}
         then \<exists>ip' c. fraghandle True True q ip bp = Frag_done q0 ip' c \<and> content c = concat segs \<and>
                ip_len ip' = of_nat (IPLEN + unat (ip_optlen ip) + length (concat segs)) \<and>
                ip_offset ip' = 0 \<and> \<not> ip_mf ip'
         else \<exists>q'. fraghandle True True q ip bp = Frag_wait q' \<and> held dg segs (insert i R) q' q0"
proof -
  have key: "reasm_for dg (creat_reasm ip)" "lookup_reasm ip q = lookup_reasm dg q"
    using p is_piece_lookup [OF p] by (simp_all add: is_piece_def reasm_for_def creat_reasm_def)
  have new: "holds_set segs {} (creat_reasm ip)"
    by (auto simp: holds_set_def creat_reasm_def)
  obtain rp where rp: "(case lookup_reasm ip q of None \<Rightarrow> Some (creat_reasm ip, q) | r \<Rightarrow> r) = Some (rp, q0)"
      "holds_set segs R rp" "reasm_for dg rp"
    using h key new by (auto simp: held_def split: option.splits)
  have R: "R \<noteq> {..<length segs}" using h by (simp add: held_def)
  show ?thesis
    using fraghandle_piece [OF p ok rp(1,2) R] rp(3)
    by (auto simp: held_def add_ac split: if_splits)
qed

lemma reassemble_held:
  assumes "cut_ok segs" "held dg segs R q q0"
    "list_all2 (\<lambda>i (ip, bp). is_piece dg segs i ip bp) order ps"
  shows "if R \<union> set order = {..<length segs}
         then \<exists>ip' c. reassemble q ps = Frag_done q0 ip' c \<and> content c = concat segs \<and>
                unat (ip_len ip') \<ge> length (concat segs) + IPLEN \<and> ip_offset ip' = 0 \<and> \<not> ip_mf ip'
         else \<exists>q'. reassemble q ps = Frag_wait q' \<and> held dg segs (R \<union> set order) q' q0"
  using assms(3,2)
proof (induction order ps arbitrary: R q rule: list_all2_induct)
  case Nil
  then show ?case by (auto simp: held_def)
next
  case (Cons i order p ps)
  obtain ip bp where p: "p = (ip, bp)" by (cases p)
  with Cons.hyps have pc: "is_piece dg segs i ip bp" by simp
  show ?case
  proof (cases "insert i R = {..<length segs}")
    case True
    have "set order \<subseteq> {..<length segs}"
      using Cons.hyps(2) by (induction rule: list_all2_induct) (auto simp: is_piece_def)
    then have U: "R \<union> set (i # order) = {..<length segs}" using True by auto
    obtain ip' c where fr: "fraghandle True True q ip bp = Frag_done q0 ip' c" "content c = concat segs"
        "ip_len ip' = of_nat (IPLEN + unat (ip_optlen ip) + length (concat segs))" "ip_offset ip' = 0" "\<not> ip_mf ip'"
      using held_step [OF pc assms(1) Cons.prems, unfolded if_P [OF True]] by blast
    have "length (concat segs) + IPLEN \<le> unat (ip_len ip')"
      using assms(1) unat_byte_less [of "ip_optlen ip"] unfolding fr(3) cut_ok_def
      by (simp add: unat_of_nat IPLEN_def del: of_nat_add)
    moreover have "reassemble q (p # ps) = Frag_done q0 ip' c" using fr(1) by (simp add: p)
    ultimately have "\<exists>ip' c. reassemble q (p # ps) = Frag_done q0 ip' c \<and> content c = concat segs \<and>
        length (concat segs) + IPLEN \<le> unat (ip_len ip') \<and> ip_offset ip' = 0 \<and> \<not> ip_mf ip'"
      using fr by blast
    then show ?thesis by (simp only: U simp_thms if_True)
  next
    case False
    then obtain q' where q': "fraghandle True True q ip bp = Frag_wait q'" "held dg segs (insert i R) q' q0"
      using held_step [OF pc assms(1) Cons.prems] by auto
    have "insert i R \<union> set order = R \<union> set (i # order)" by simp
    note Cons.IH [OF q'(2), unfolded this]
    then show ?thesis by (simp only: p reassemble.simps frag_outcome.case q'(1))
  qed
qed

lemma held_start: "lookup_reasm dg q = None \<Longrightarrow> segs \<noteq> [] \<Longrightarrow> held dg segs {} q q"
  by (auto simp: held_def)


definition piece_ip :: "nat \<Rightarrow> nat \<Rightarrow> bool \<Rightarrow> ip" where
  "piece_ip offset len mf = sample_ip\<lparr>ip_offset := of_nat offset, ip_len := of_nat (24 + len), ip_mf := mf\<rparr>"


lemma lookup_reasm_key: "lookup_reasm ip q = Some (r, rest) \<Longrightarrow> reasm_for ip r"
  by (induction q arbitrary: rest) (auto split: if_splits option.splits)

lemma lookup_reasm_other:
  "lookup_reasm ip q = Some (r, rest) \<Longrightarrow> map_option fst (lookup_reasm dg q) = Some rp \<Longrightarrow>
     (\<And>r. reasm_for ip r \<Longrightarrow> \<not> reasm_for dg r) \<Longrightarrow> map_option fst (lookup_reasm dg rest) = Some rp"
proof (induction q arbitrary: rest)
  case (Cons a q)
  then show ?case by (cases "reasm_for ip a"; cases "reasm_for dg a") (auto split: option.splits)
qed simp

text \<open>The fragments received for one datagram are not touched by a fragment of another one.\<close>
theorem reassembly_isolated:
  assumes "lookup_reasm dg q = Some (rp, others)" "\<not> reasm_for dg (creat_reasm ip)"
    "fraghandle mem_r mem_f q ip bp = r"
  shows "case r of Frag_crash \<Rightarrow> True
    | Frag_wait q' \<Rightarrow> map_option fst (lookup_reasm dg q') = Some rp
    | Frag_done q' ip' c \<Rightarrow> map_option fst (lookup_reasm dg q') = Some rp"
proof -
  have other: "reasm_for ip r' \<Longrightarrow> \<not> reasm_for dg r'" for r'
    using assms(2) by (auto simp: reasm_for_def creat_reasm_def)
  have upd: "reasm_for ip (r'\<lparr>rs_length := a\<rparr>) = reasm_for ip r'"
    "reasm_for ip (r'\<lparr>rs_fraglist := fl\<rparr>) = reasm_for ip r'"
    "reasm_for ip (r'\<lparr>rs_length := a, rs_fraglist := fl\<rparr>) = reasm_for ip r'" "reasm_for ip (creat_reasm ip)" for r' a fl
    by (simp_all add: reasm_for_def creat_reasm_def)
  have skip: "reasm_for ip r' \<Longrightarrow> map_option fst (lookup_reasm dg rest) = Some rp \<Longrightarrow>
      map_option fst (lookup_reasm dg (r' # rest)) = Some rp" for r' rest
    by (auto dest: other split: option.splits)
  show ?thesis
  proof (cases "lookup_reasm ip q")
    case None
    then show ?thesis using assms(1,3) skip upd
      by (auto simp: fraghandle_def Let_def split: if_splits frag_ins.splits)
  next
    case (Some x)
    then obtain r' rest where x: "lookup_reasm ip q = Some (r', rest)" by (cases x) auto
    note f = lookup_reasm_key [OF x] lookup_reasm_other [OF x _ other, of rp] assms(1)
    then show ?thesis using assms(3) x skip upd
      by (auto simp: fraghandle_def Let_def split: if_splits frag_ins.splits)
  qed
qed

lemma reassembly_isolated_witness:
  "\<exists>q' rp. fraghandle True True [creat_reasm sample_ip] (piece_ip 8 8 True\<lparr>ip_id := 78\<rparr>) [replicate 8 1] = Frag_wait q' \<and>
     map_option fst (lookup_reasm sample_ip q') = Some rp \<and> rp = creat_reasm sample_ip"
proof -
  have "lookup_reasm sample_ip [creat_reasm sample_ip] = Some (creat_reasm sample_ip, [])"
    by (simp add: reasm_for_def creat_reasm_def)
  moreover have "\<not> reasm_for sample_ip (creat_reasm (piece_ip 8 8 True\<lparr>ip_id := 78\<rparr>))"
    by (simp add: reasm_for_def creat_reasm_def piece_ip_def sample_ip_def)
  moreover obtain q' where "fraghandle True True [creat_reasm sample_ip] (piece_ip 8 8 True\<lparr>ip_id := 78\<rparr>) [replicate 8 1] = Frag_wait q'"
    by (simp add: fraghandle_def frag_insert_def join_frag_def newfrag_def good_prev_def piece_ip_def sample_ip_def creat_reasm_def
      reasm_for_def IPLEN_def trim_next.simps(2) Let_def)
  ultimately show ?thesis
    using reassembly_isolated [of sample_ip "[creat_reasm sample_ip]" "creat_reasm sample_ip" "[]"
        "piece_ip 8 8 True\<lparr>ip_id := 78\<rparr>" True True "[replicate 8 1]" "Frag_wait q'"] by auto
qed


text \<open>A truncated datagram can be passed on: when a fragment overlaps the front of one that is already
  there, that one is trimmed but skipped, and the new fragment is linked past it; the list then looks
  complete.  Here 16 of 24 data bytes are delivered with a header that announces 24.\<close>
theorem trimmed_neighbour_lost:
  "\<exists>ip' c. reassemble [] [(piece_ip 8 16 False, [replicate 16 1]), (piece_ip 0 16 True, [replicate 16 2])] =
       Frag_done [] ip' c \<and> unat (ip_len ip') = 24 + 24 \<and> content c = replicate 16 2"
  by (simp add: fraghandle_def frag_insert_def join_frag_def newfrag_def good_prev_def piece_ip_def sample_ip_def creat_reasm_def
      reasm_for_def IPLEN_def trim_next.simps(2) pullup.simps(2) Let_def)

end
