(* ===== verification/Ip_Filter.thy ===== *)
theory Ip_Filter
  imports Ax25_Addr
begin

text \<open>
  The two address filters: the block list of \<^verbatim>\<open>src/src/ipfilter.c\<close>, asked for the source and the
  destination of every packet, and the learn filter of \<^verbatim>\<open>src/src/iplearn.c\<close>, asked before an
  address seen in traffic goes into the routing or ARP table.

  An \<^verbatim>\<open>unsigned long\<close> has 64 bits (LP64), and an \<open>int32\<close> address is sign extended into it, so the
  addresses from 128.0.0.0 on lie at the top of the 64 bit range.

  Shown: a new block list rule decides for its range and leaves every other decision alone,
  although the list is rearranged after each insertion - except that the rearrangement loses
  rules that end at 255.255.255.255; what the learn filter may let through for some station, it
  might let through for an unknown one.
\<close>

type_synonym u64 = "64 word"

section \<open>The block list (ipfilter.c)\<close>

record filt =
  fi_lo :: u64
  fi_hi :: u64
  fi_allow :: bool

definition in_filt :: "u64 \<Rightarrow> filt \<Rightarrow> bool" where
  "in_filt a p \<longleftrightarrow> fi_lo p \<le> a \<and> a \<le> fi_hi p"

fun ipfilter64 :: "filt list \<Rightarrow> u64 \<Rightarrow> bool" where
  "ipfilter64 [] a = True"
| "ipfilter64 (p # ps) a = (if fi_lo p \<le> a \<and> a \<le> fi_hi p then fi_allow p else ipfilter64 ps a)"

definition ipfilter :: "filt list \<Rightarrow> u32 \<Rightarrow> bool" where
  "ipfilter fl addr = ipfilter64 fl (scast addr)"

text \<open>The numeric part of \<^verbatim>\<open>parse\<close>; \<open>bits\<close> is what \<^verbatim>\<open>atoi\<close> returned.\<close>

definition filt_mask :: "int \<Rightarrow> u32" where
  "filt_mask bits =
     (let bits = (if bits > 32 then 32 else if bits < 0 then 0 else bits)
      in if bits \<noteq> 0 then push_bit (nat (32 - bits)) (- 1) else 0)"

definition filt_range :: "u32 \<Rightarrow> int \<Rightarrow> u64 \<times> u64" where
  "filt_range addr bits = (scast (addr AND filt_mask bits), scast (addr OR NOT (filt_mask bits)))"

text \<open>The first loop after \<^verbatim>\<open>simplify:\<close> - the first rule that lies inside an earlier one is unlinked.\<close>

fun drop_covered :: "filt \<Rightarrow> filt list \<Rightarrow> filt list option" where
  "drop_covered p1 [] = None"
| "drop_covered p1 (p # ps) =
     (if fi_lo p \<ge> fi_lo p1 \<and> fi_hi p \<le> fi_hi p1 then Some ps
      else map_option ((#) p) (drop_covered p1 ps))"

fun shadow_step :: "filt list \<Rightarrow> filt list option" where
  "shadow_step [] = None"
| "shadow_step (p1 # ps) =
     (case drop_covered p1 ps of
        Some ps' \<Rightarrow> Some (p1 # ps')
      | None \<Rightarrow> map_option ((#) p1) (shadow_step ps))"

text \<open>The second loop: a rule is merged into a later one of the same kind that touches it.\<close>

fun merge_scan :: "filt \<Rightarrow> u64 \<Rightarrow> u64 \<Rightarrow> filt list \<Rightarrow> filt list option" where
  "merge_scan p lo hi [] = None"
| "merge_scan p lo hi (p1 # ps) =
     (if fi_lo p1 \<le> hi \<and> fi_hi p1 \<ge> lo
      then if fi_allow p1 \<noteq> fi_allow p
           then if fi_lo p1 \<le> fi_hi p \<and> fi_hi p1 \<ge> fi_lo p then None
                else map_option ((#) p1) (merge_scan p lo hi ps)
           else Some (p1\<lparr>fi_lo := (if fi_lo p1 > fi_lo p then fi_lo p else fi_lo p1),
                          fi_hi := (if fi_hi p1 < fi_hi p then fi_hi p else fi_hi p1)\<rparr> # ps)
      else map_option ((#) p1) (merge_scan p lo hi ps))"

fun merge_step :: "filt list \<Rightarrow> filt list option" where
  "merge_step [] = None"
| "merge_step (p # ps) =
     (let lo = (if fi_lo p \<noteq> 0 then fi_lo p - 1 else fi_lo p);
          hi = (if fi_hi p \<noteq> 0xffffffff then fi_hi p + 1 else fi_hi p)
      in case merge_scan p lo hi ps of
           Some ps' \<Rightarrow> Some ps'
         | None \<Rightarrow> map_option ((#) p) (merge_step ps))"

lemma drop_covered_length: "drop_covered p ps = Some ps' \<Longrightarrow> length ps = Suc (length ps')"
  by (induction ps arbitrary: ps') (auto split: if_splits)

lemma shadow_step_length: "shadow_step ps = Some ps' \<Longrightarrow> length ps = Suc (length ps')"
  by (induction ps arbitrary: ps') (auto split: option.splits dest: drop_covered_length)

lemma merge_scan_length: "merge_scan p lo hi ps = Some ps' \<Longrightarrow> length ps = length ps'"
  by (induction ps arbitrary: ps') (auto split: if_splits)

lemma merge_step_length: "merge_step ps = Some ps' \<Longrightarrow> length ps = Suc (length ps')"
  by (induction ps arbitrary: ps') (auto simp: Let_def split: option.splits if_splits dest: merge_scan_length)

function simplify :: "filt list \<Rightarrow> filt list" where
  "simplify ps =
     (case shadow_step ps of
        Some ps' \<Rightarrow> simplify ps'
      | None \<Rightarrow> (case merge_step ps of
                   Some ps' \<Rightarrow> simplify ps'
                 | None \<Rightarrow> ps))"
  by pat_completeness auto
termination
  by (relation "measure length") (auto dest: shadow_step_length merge_step_length)

declare simplify.simps [simp del]

text \<open>\<^verbatim>\<open>doipfilteradd\<close> with its arguments parsed; \<open>second\<close> is the other end of a range, if one was given.\<close>

definition doipfilteradd :: "bool \<Rightarrow> u64 \<times> u64 \<Rightarrow> (u64 \<times> u64) option \<Rightarrow> filt list \<Rightarrow> filt list" where
  "doipfilteradd allow span second fl =
     (let (lo, hi) = (case second of
                        None \<Rightarrow> span
                      | Some (lo1, hi1) \<Rightarrow>
                          (if fst span > lo1 then lo1 else fst span, if snd span < hi1 then hi1 else snd span))
      in simplify (\<lparr>fi_lo = lo, fi_hi = hi, fi_allow = allow\<rparr> # fl))"

text \<open>The rule \<^verbatim>\<open>doipfilter\<close> puts into an empty list.\<close>

definition first_filter :: "filt list \<Rightarrow> filt list" where
  "first_filter fl = (if fl = [] then [\<lparr>fi_lo = 0, fi_hi = 0xffffffff, fi_allow = True\<rparr>] else fl)"

section \<open>What the rearrangement keeps\<close>

text \<open>No rule ends at the top of the range, unless it is one for all addresses.\<close>

definition filt_ok :: "filt \<Rightarrow> bool" where
  "filt_ok p \<longleftrightarrow> fi_lo p \<le> fi_hi p \<and> (fi_hi p = - 1 \<longrightarrow> fi_lo p = 0)"

lemma drop_covered_same:
  "drop_covered p ps = Some ps' \<Longrightarrow> \<not> in_filt a p \<Longrightarrow> ipfilter64 ps' a = ipfilter64 ps a"
proof (induction ps arbitrary: ps')
  case (Cons q ps)
  have "fi_lo q \<ge> fi_lo p \<Longrightarrow> fi_hi q \<le> fi_hi p \<Longrightarrow> \<not> in_filt a q"
    using Cons.prems(2) by (meson in_filt_def order_trans)
  then show ?case
    using Cons by (cases "fi_lo q \<ge> fi_lo p \<and> fi_hi q \<le> fi_hi p") (auto simp flip: in_filt_def)
qed simp

lemma drop_covered_set: "drop_covered p ps = Some ps' \<Longrightarrow> set ps' \<subseteq> set ps"
  by (induction ps arbitrary: ps') (auto split: if_splits)

lemma shadow_step_same: "shadow_step ps = Some ps' \<Longrightarrow> ipfilter64 ps' a = ipfilter64 ps a"
  by (induction ps arbitrary: ps')
     (auto split: option.splits dest: drop_covered_same [of _ _ _ a] simp: in_filt_def)

lemma shadow_step_set: "shadow_step ps = Some ps' \<Longrightarrow> set ps' \<subseteq> set ps"
  by (induction ps arbitrary: ps') (auto split: option.splits dest: drop_covered_set [THEN subsetD])

lemma covers_all_alone:
  "drop_covered p ps = None \<Longrightarrow> fi_lo p = 0 \<Longrightarrow> fi_hi p = - 1 \<Longrightarrow> ps = []"
  by (cases ps) (auto split: if_splits)

lemma shadow_step_Cons_None:
  "shadow_step (p # ps) = None \<Longrightarrow> drop_covered p ps = None \<and> shadow_step ps = None"
  by (auto split: option.splits)

text \<open>The margins of the merge leave no address between two rules that touch.\<close>

definition margins :: "filt \<Rightarrow> u64 \<Rightarrow> u64 \<Rightarrow> bool" where
  "margins p lo hi \<longleftrightarrow> lo \<le> fi_lo p \<and> fi_hi p \<le> hi \<and>
     (\<forall>a b. b \<le> hi \<longrightarrow> fi_hi p < a \<longrightarrow> b \<le> a) \<and> (\<forall>a b. lo \<le> b \<longrightarrow> a < fi_lo p \<longrightarrow> a \<le> b)"

lemma margins_merge:
  assumes "fi_hi p \<noteq> - 1"
  shows "margins p (if fi_lo p \<noteq> 0 then fi_lo p - 1 else fi_lo p) (if fi_hi p \<noteq> 0xffffffff then fi_hi p + 1 else fi_hi p)"
proof -
  have "1 + fi_hi p \<noteq> 0" using assms by (metis add.commute add_eq_0_iff)
  then have "unat (fi_hi p + 1) = Suc (unat (fi_hi p))" using unatSuc [of "fi_hi p"] by (simp add: add.commute)
  moreover have "fi_lo p \<noteq> 0 \<Longrightarrow> unat (fi_lo p - 1) = unat (fi_lo p) - 1" by (rule unat_minus_one)
  moreover have "unat (fi_lo p) = 0 \<longleftrightarrow> fi_lo p = 0" by (rule unat_eq_0)
  ultimately show ?thesis by (auto simp: margins_def word_le_nat_alt word_less_nat_alt)
qed

lemma merge_scan_same:
  assumes "merge_scan p lo hi ps = Some ps'" "margins p lo hi" "filt_ok p" "\<forall>q \<in> set ps. filt_ok q"
  shows "ipfilter64 ps' a = ipfilter64 (p # ps) a"
  using assms(1,4)
proof (induction ps arbitrary: ps')
  case (Cons q ps)
  note m = assms(2) [unfolded margins_def]
  show ?case
  proof (cases "fi_lo q \<le> hi \<and> fi_hi q \<ge> lo \<and> fi_allow q = fi_allow p")
    case True
    then have "fi_hi p < a \<Longrightarrow> fi_lo q \<le> a" "a < fi_lo p \<Longrightarrow> a \<le> fi_hi q" using m by blast+
    then have "fi_lo q \<le> a \<and> a \<le> fi_hi q \<or> fi_lo p \<le> a \<and> a \<le> fi_hi p \<longleftrightarrow>
        (if fi_lo q > fi_lo p then fi_lo p else fi_lo q) \<le> a \<and> a \<le> (if fi_hi q < fi_hi p then fi_hi p else fi_hi q)"
      by (smt (verit, best) linorder_not_le order_trans nless_le)
    with True Cons.prems(1) show ?thesis by auto
  next
    case False
    then obtain ps'' where s: "merge_scan p lo hi ps = Some ps''" "ps' = q # ps''"
      using Cons.prems by (auto split: if_splits)
    moreover have "\<not> (fi_lo q \<le> fi_hi p \<and> fi_hi q \<ge> fi_lo p)"
    proof
      assume o: "fi_lo q \<le> fi_hi p \<and> fi_hi q \<ge> fi_lo p"
      then have "fi_lo q \<le> hi \<and> fi_hi q \<ge> lo" using m by (meson order_trans)
      then show False using False o Cons.prems by auto
    qed
    then have "in_filt a q \<Longrightarrow> \<not> in_filt a p" by (auto simp: in_filt_def)
    ultimately show ?thesis using Cons.IH [OF s(1)] Cons.prems by (auto simp: in_filt_def)
  qed
qed simp

lemma merge_scan_ok:
  "merge_scan p lo hi ps = Some ps' \<Longrightarrow> fi_hi p \<noteq> - 1 \<Longrightarrow> filt_ok p \<Longrightarrow> \<forall>q \<in> set ps. filt_ok q \<Longrightarrow> \<forall>q \<in> set ps'. filt_ok q"
  by (induction ps arbitrary: ps') (auto simp: filt_ok_def split: if_splits)

lemma merge_step_same:
  assumes "merge_step ps = Some ps'" "shadow_step ps = None" "\<forall>q \<in> set ps. filt_ok q"
  shows "ipfilter64 ps' a = ipfilter64 ps a \<and> (\<forall>q \<in> set ps'. filt_ok q)"
  using assms
proof (induction ps arbitrary: ps')
  case (Cons p ps)
  note sh = shadow_step_Cons_None [OF Cons.prems(2)]
  let ?lo = "if fi_lo p \<noteq> 0 then fi_lo p - 1 else fi_lo p"
  let ?hi = "if fi_hi p \<noteq> 0xffffffff then fi_hi p + 1 else fi_hi p"
  show ?case
  proof (cases "merge_scan p ?lo ?hi ps")
    case None
    then obtain ps'' where "merge_step ps = Some ps''" "ps' = p # ps''"
      using Cons.prems(1) by (simp only: merge_step.simps Let_def option.case) (cases "merge_step ps"; simp)
    then show ?thesis using Cons.IH sh Cons.prems by simp
  next
    case (Some r)
    then have r: "ps' = r" using Cons.prems(1) by (simp only: merge_step.simps Let_def option.case option.inject)
    have "ps \<noteq> []" using Some by auto
    then have hi: "fi_hi p \<noteq> - 1"
      using covers_all_alone [of p ps] sh Cons.prems(3) by (auto simp: filt_ok_def)
    show ?thesis
      unfolding r using Cons.prems(3)
      by (intro conjI merge_scan_same [OF Some margins_merge [OF hi]] merge_scan_ok [OF Some hi]) simp_all
  qed
qed simp

lemma simplify_same:
  "\<forall>q \<in> set ps. filt_ok q \<Longrightarrow> ipfilter64 (simplify ps) a = ipfilter64 ps a \<and> (\<forall>q \<in> set (simplify ps). filt_ok q)"
proof (induction ps rule: simplify.induct)
  case (1 ps)
  show ?case
  proof (cases "shadow_step ps")
    case (Some r)
    then show ?thesis using 1 shadow_step_same [OF Some, of a] shadow_step_set [OF Some]
      by (auto simp: simplify.simps [of ps])
  next
    case None
    show ?thesis
    proof (cases "merge_step ps")
      case (Some r)
      then show ?thesis using 1 None merge_step_same [OF Some None, of a]
        by (auto simp: simplify.simps [of ps])
    qed (use 1 None in \<open>simp add: simplify.simps [of ps]\<close>)
  qed
qed


text \<open>Deny 44.0.0.0/8 to a list that allows 44.0.0.0/16 and denies 45.0.0.0/8.\<close>

definition sample_filters :: "filt list" where
  "sample_filters = [\<lparr>fi_lo = 0x2c000000, fi_hi = 0x2c00ffff, fi_allow = True\<rparr>,
     \<lparr>fi_lo = 0x2d000000, fi_hi = 0x2dffffff, fi_allow = False\<rparr>]"


text \<open>A rule that ends at 255.255.255.255 can be lost.  After denying everything and allowing 128.0.0.0/1,
  denying 240.0.0.0/4 has no effect: the margin above the new rule wraps to 0, the allowing rule in
  between is not seen, and the new rule is merged into the one that denies everything.\<close>
theorem ipfilter_top_rule_lost:
  "let fl = doipfilteradd True (filt_range 0x80000000 1) None
              (doipfilteradd False (filt_range 0 0) None (first_filter []));
       fl' = doipfilteradd False (filt_range 0xf0000000 4) None fl
   in ipfilter fl 0xf0000001 \<and> fl' = fl"
  by code_simp

section \<open>The learn filter (iplearn.c)\<close>

record iplearn =
  il_prefix :: u32
  il_bits :: nat
  il_allow :: bool
  il_route :: bool
  il_arp :: bool
  il_call :: "axaddr option"
  il_ifname :: "string option"

datatype learn_what = LEARN_ROUTE | LEARN_ARP

definition learn_applies :: "iplearn \<Rightarrow> learn_what \<Rightarrow> bool" where
  "learn_applies p what = (case what of LEARN_ROUTE \<Rightarrow> il_route p | LEARN_ARP \<Rightarrow> il_arp p)"

definition maskof :: "nat \<Rightarrow> u32" where
  "maskof bits = (if bits \<noteq> 0 then push_bit (32 - bits) (- 1) else 0)"

definition srcrank :: "iplearn \<Rightarrow> nat" where
  "srcrank p = (if il_call p \<noteq> None then 2 else if il_ifname p \<noteq> None then 1 else 0)"

text \<open>The conditions of the loop that skip a rule; \<open>call\<close> and \<open>ifp\<close> are \<open>None\<close> for NULL.\<close>

definition learn_match :: "u32 \<Rightarrow> nat \<Rightarrow> learn_what \<Rightarrow> axaddr option \<Rightarrow> string option \<Rightarrow> bool \<Rightarrow> iplearn \<Rightarrow> bool" where
  "learn_match target bits what call ifp anycall p \<longleftrightarrow>
     \<not> bits < il_bits p \<and> target AND maskof (il_bits p) = il_prefix p \<and> learn_applies p what \<and>
     (case il_call p of
        None \<Rightarrow> True
      | Some c \<Rightarrow> if anycall then il_allow p
                  else (case call of None \<Rightarrow> False | Some c' \<Rightarrow> addreq c c')) \<and>
     (case il_ifname p of None \<Rightarrow> True | Some n \<Rightarrow> ifp = Some n)"

definition learn_better :: "iplearn \<Rightarrow> iplearn \<Rightarrow> bool" where
  "learn_better p best \<longleftrightarrow> il_bits p > il_bits best \<or> il_bits p = il_bits best \<and> srcrank p > srcrank best"

fun learn_best :: "(iplearn \<Rightarrow> bool) \<Rightarrow> iplearn option \<Rightarrow> iplearn list \<Rightarrow> iplearn option" where
  "learn_best m best [] = best"
| "learn_best m best (p # ps) =
     (if m p \<and> (case best of None \<Rightarrow> True | Some b \<Rightarrow> learn_better p b) then learn_best m (Some p) ps
      else learn_best m best ps)"

definition may_learn :: "iplearn list \<Rightarrow> u32 \<Rightarrow> nat \<Rightarrow> learn_what \<Rightarrow> axaddr option \<Rightarrow> string option \<Rightarrow> bool \<Rightarrow> bool" where
  "may_learn il target bits what call ifp anycall =
     (case learn_best (learn_match target bits what call ifp anycall) None il of
        None \<Rightarrow> True
      | Some p \<Rightarrow> il_allow p)"

definition ip_may_learn :: "iplearn list \<Rightarrow> u32 \<Rightarrow> nat \<Rightarrow> learn_what \<Rightarrow> axaddr option \<Rightarrow> string option \<Rightarrow> bool" where
  "ip_may_learn il target bits what call ifp = may_learn il target bits what call ifp False"

definition ip_might_learn :: "iplearn list \<Rightarrow> u32 \<Rightarrow> learn_what \<Rightarrow> string option \<Rightarrow> bool" where
  "ip_might_learn il target what ifp = may_learn il target 32 what None ifp True"

text \<open>\<^verbatim>\<open>addlearn\<close> with its arguments parsed, and \<^verbatim>\<open>droplearn\<close>; \<open>None\<close> is the return value 1.\<close>

definition addlearn :: "iplearn \<Rightarrow> iplearn list \<Rightarrow> iplearn list" where
  "addlearn p il = il @ [p\<lparr>il_prefix := il_prefix p AND maskof (il_bits p)\<rparr>]"

definition droplearn :: "int \<Rightarrow> iplearn list \<Rightarrow> iplearn list option" where
  "droplearn want il =
     (if want < 1 then None
      else if nat want \<le> length il then Some (take (nat want - 1) il @ drop (nat want) il)
      else None)"

section \<open>The choice of the rule\<close>

text \<open>The order of the rules as one number; of the best ones the first is taken.\<close>

definition learn_key :: "iplearn \<Rightarrow> nat" where
  "learn_key p = 3 * il_bits p + srcrank p"

lemma srcrank_bound: "srcrank p \<le> 2" "srcrank p = 2 \<longleftrightarrow> il_call p \<noteq> None"
  by (auto simp: srcrank_def)

lemma learn_better_key: "learn_better p q \<longleftrightarrow> learn_key q < learn_key p"
  using srcrank_bound(1) [of p] srcrank_bound(1) [of q] by (auto simp: learn_better_def learn_key_def)

lemma learn_key_call: "learn_key p = learn_key q \<Longrightarrow> il_call p = None \<longleftrightarrow> il_call q = None"
proof -
  have "srcrank r = learn_key r mod 3" for r using srcrank_bound(1) [of r] by (simp add: learn_key_def)
  then show "learn_key p = learn_key q \<Longrightarrow> il_call p = None \<longleftrightarrow> il_call q = None"
    using srcrank_bound(2) by metis
qed

definition first_with :: "(iplearn \<Rightarrow> bool) \<Rightarrow> nat \<Rightarrow> iplearn list \<Rightarrow> iplearn option" where
  "first_with m k il = find (\<lambda>q. m q \<and> learn_key q = k) il"

lemma first_with_simps [simp]:
  "first_with m k [] = None"
  "first_with m k (q # il) = (if m q \<and> learn_key q = k then Some q else first_with m k il)"
  by (simp_all add: first_with_def)

lemma learn_best_Some:
  "learn_best m (Some b) il = Some p \<Longrightarrow> learn_key b \<le> learn_key p \<and> (\<forall>q \<in> set il. m q \<longrightarrow> learn_key q \<le> learn_key p) \<and>
     (p = b \<or> learn_key b < learn_key p \<and> first_with m (learn_key p) il = Some p)"
proof (induction il arbitrary: b)
  case (Cons q il)
  show ?case
  proof (cases "m q \<and> learn_key b < learn_key q")
    case True
    then have "learn_best m (Some q) il = Some p" using Cons.prems by (simp add: learn_better_key)
    note ih = Cons.IH [OF this]
    then have "if m q \<and> learn_key q = learn_key p then p = q else first_with m (learn_key p) il = Some p"
      using True by auto
    then have "first_with m (learn_key p) (q # il) = Some p" by (auto split: if_splits)
    moreover have "learn_key b < learn_key p" using ih True by linarith
    ultimately show ?thesis using ih by (simp only: list.set ball_simps) auto
  next
    case False
    then have "learn_best m (Some b) il = Some p" using Cons.prems by (simp add: learn_better_key split: if_splits)
    note ih = Cons.IH [OF this]
    have "p = b \<or> \<not> (m q \<and> learn_key q = learn_key p)" using ih False by auto
    then have "p = b \<or> learn_key b < learn_key p \<and> first_with m (learn_key p) (q # il) = Some p"
      using ih by (auto simp: first_with_simps)
    moreover have "m q \<longrightarrow> learn_key q \<le> learn_key p" using ih False by auto
    ultimately show ?thesis using ih by (simp only: list.set ball_simps) blast
  qed
qed simp

lemma learn_best_total: "\<exists>p. learn_best m (Some b) il = Some p"
  by (induction il arbitrary: b) auto

lemma learn_best_spec:
  "learn_best m None il = Some p \<Longrightarrow> (\<forall>q \<in> set il. m q \<longrightarrow> learn_key q \<le> learn_key p) \<and>
     first_with m (learn_key p) il = Some p"
proof (induction il)
  case (Cons b il)
  show ?case
  proof (cases "m b")
    case True
    then have "learn_best m (Some b) il = Some p" using Cons.prems by simp
    note this = learn_best_Some [OF this]
    then show ?thesis using True by (simp only: first_with_simps list.set ball_simps) auto
  next
    case False
    then show ?thesis using Cons by simp
  qed
qed simp

lemma learn_best_None: "learn_best m None il = None \<longleftrightarrow> (\<forall>p \<in> set il. \<not> m p)"
proof (induction il)
  case (Cons a il)
  then show ?case using learn_best_total [of m a il] by auto
qed simp

lemma learn_match_anycall:
  "il_call p = None \<Longrightarrow> learn_match target bits what call ifp True p = learn_match target bits what call' ifp False p"
  "learn_match target bits what call ifp True p \<Longrightarrow> il_call p \<noteq> None \<Longrightarrow> il_allow p"
  "learn_match target bits what call' ifp False p \<Longrightarrow> il_allow p \<Longrightarrow> learn_match target bits what call ifp True p"
  by (auto simp: learn_match_def split: option.splits)

lemma maskof_values [simp]: "maskof 0 = 0" "maskof 8 = 0xff000000" "maskof 16 = 0xffff0000"
  by (code_simp+)

text \<open>What the learn filter lets through for a known station (or none), \<^verbatim>\<open>ip_might_learn\<close> lets through
  before the station is known: an address that can be learned is not refused early.\<close>
theorem might_learn_sound:
  assumes "ip_may_learn il target 32 what call ifp"
  shows "ip_might_learn il target what ifp"
proof -
  let ?m = "learn_match target 32 what call ifp False" and ?a = "learn_match target 32 what None ifp True"
  have "il_allow s" if s: "learn_best ?a None il = Some s" for s
  proof (cases "il_call s = None")
    case False
    have "?a s" using learn_best_spec [OF s] by (auto simp: first_with_def find_Some_iff)
    with False show ?thesis by (auto dest: learn_match_anycall(2))
  next
    case True
    have as: "?a s" "s \<in> set il" using learn_best_spec [OF s] by (auto simp: first_with_def find_Some_iff)
    then have ms: "?m s" using learn_match_anycall(1) [OF True] by blast
    then obtain r where r: "learn_best ?m None il = Some r" using as(2) learn_best_None [of ?m il] by fastforce
    then have allow: "il_allow r" using assms by (simp add: ip_may_learn_def may_learn_def)
    have mr: "?m r" "r \<in> set il" using learn_best_spec [OF r] by (auto simp: first_with_def find_Some_iff)
    then have "?a r" using allow by (rule_tac learn_match_anycall(3))
    then have key: "learn_key s = learn_key r"
      using learn_best_spec [OF s] learn_best_spec [OF r] as ms mr by (meson le_antisym)
    have "?m q \<and> learn_key q = learn_key r \<longleftrightarrow> ?a q \<and> learn_key q = learn_key s" for q
      using learn_match_anycall(1) [of q target 32 what None ifp call] learn_key_call [of q s] True key by auto
    then have "r = s" using learn_best_spec [OF s] learn_best_spec [OF r] by (simp add: first_with_def)
    with allow show ?thesis by simp
  qed
  then show ?thesis by (auto simp: ip_might_learn_def may_learn_def split: option.split)
qed

definition sample_learn :: "iplearn list" where
  "sample_learn =
     [\<lparr>il_prefix = 0, il_bits = 0, il_allow = False, il_route = True, il_arp = True, il_call = None, il_ifname = None\<rparr>,
      \<lparr>il_prefix = 0x2c000000, il_bits = 8, il_allow = True, il_route = True, il_arp = False,
        il_call = Some [136, 150, 106, 166, 142, 64, 120], il_ifname = None\<rparr>,
      \<lparr>il_prefix = 0x2c010000, il_bits = 16, il_allow = False, il_route = True, il_arp = False,
        il_call = Some [136, 150, 106, 166, 142, 64, 120], il_ifname = None\<rparr>]"

lemma might_learn_sound_witness: "ip_might_learn sample_learn 0x2c020001 LEARN_ROUTE None"
  using might_learn_sound [where il = sample_learn and target = "0x2c020001" and what = LEARN_ROUTE
    and call = "Some [136, 150, 106, 166, 142, 64, 120]" and ifp = None]
  by (simp add: ip_may_learn_def may_learn_def sample_learn_def learn_match_def learn_applies_def
      learn_better_def srcrank_def addreq_def)

text \<open>\<^verbatim>\<open>ip_might_learn\<close> is not the most favourable outcome over all senders, as its comment says: it
  ignores that the rule which allows a station can be overruled by a narrower one for the same
  station, and then lets through an address no station whatever may have learned.\<close>
theorem might_learn_not_exact:
  "ip_might_learn sample_learn 0x2c010001 LEARN_ROUTE None \<and>
   (\<nexists>call. ip_may_learn sample_learn 0x2c010001 32 LEARN_ROUTE call None)"
proof
  show "ip_might_learn sample_learn 0x2c010001 LEARN_ROUTE None"
    by (simp add: ip_might_learn_def may_learn_def sample_learn_def learn_match_def learn_applies_def
      learn_better_def srcrank_def)
  have "\<not> ip_may_learn sample_learn 0x2c010001 32 LEARN_ROUTE call None" for call
    by (cases call; cases "addreq [136, 150, 106, 166, 142, 64, 120] (the call)")
       (simp_all add: ip_may_learn_def may_learn_def sample_learn_def learn_match_def learn_applies_def
          learn_better_def srcrank_def)
  then show "\<nexists>call. ip_may_learn sample_learn 0x2c010001 32 LEARN_ROUTE call None" by blast
qed

end
