(* ===== verification/Ip_Table.thy ===== *)
theory Ip_Table
  imports Inet_Hdr Ip_Filter
begin

text \<open>
  The IP routing table of \<^verbatim>\<open>src/src/iproute.c\<close>: 32 hash tables of chains, one for each prefix length,
  a default route, and a cache of the last lookups that holds pointers into the chains.  A route
  in a chain is named by its prefix length and target (\<open>In_table\<close>); following a pointer of the
  cache is looking that name up again, so a pointer to a freed route would show up as a failing
  lookup.

  Shown: with any sequence of additions, removals, expirations, merges and lookups, a lookup
  returns the longest matching prefix of the table as it is now, whatever the cache remembers;
  merging redundant routes does not change where any packet goes; a learned route never replaces
  a permanent one.
\<close>

section \<open>Interfaces\<close>

datatype ifref = Loopback | Encap | Port nat

record iface =
  if_name :: string
  if_addr :: u32
  if_mtu :: u32
  if_forw :: "ifref option"
  if_netrom :: bool
  if_send :: bool

record ifenv =
  Ifaces :: "ifref list"
  if_of :: "ifref \<Rightarrow> iface"

definition ismyaddr :: "ifenv \<Rightarrow> u32 \<Rightarrow> ifref option" where
  "ismyaddr env addr =
     (if addr = 0 then Some Loopback
      else find (\<lambda>i. addr = if_addr (if_of env i)) (Ifaces env))"

definition if_learns_routes :: "ifenv \<Rightarrow> ifref option \<Rightarrow> bool" where
  "if_learns_routes env i = (case i of None \<Rightarrow> False | Some i \<Rightarrow> if_netrom (if_of env i))"

section \<open>The table\<close>

record route =
  rt_target :: u32
  rt_bits :: nat
  rt_gateway :: u32
  rt_metric :: u32
  rt_iface :: "ifref option"
  rt_private :: bool
  rt_trig :: bool
  rt_dur :: u32
  rt_run :: bool
  rt_uses :: nat

datatype rt_ref = R_default_ref | In_table nat u32

record rtab =
  Routes :: "nat \<Rightarrow> nat \<Rightarrow> route list"
  R_default :: route
  Rt_cache :: "nat \<Rightarrow> u32 \<times> rt_ref option"

definition HASHMOD :: nat where "HASHMOD = 7"
definition RIP_INFINITY :: u32 where "RIP_INFINITY = 16"
definition RIP_TTL :: u32 where "RIP_TTL = 240"

definition hash_ip :: "u32 \<Rightarrow> nat" where
  "hash_ip addr = unat ((ucast (drop_bit 16 addr) :: u16) XOR ucast addr) mod HASHMOD"

definition no_route :: route where
  "no_route = \<lparr>rt_target = 0, rt_bits = 0, rt_gateway = 0, rt_metric = 0, rt_iface = None, rt_private = False,
     rt_trig = False, rt_dur = 0, rt_run = False, rt_uses = 0\<rparr>"

definition rt_init :: rtab where
  "rt_init = \<lparr>Routes = (\<lambda>_ _. []), R_default = no_route\<lparr>rt_metric := RIP_INFINITY\<rparr>, Rt_cache = (\<lambda>_. (0, None))\<rparr>"

text \<open>Mask off the don't-care bits (\<^verbatim>\<open>rt_add\<close>, \<^verbatim>\<open>rt_drop\<close>, \<^verbatim>\<open>rt_blookup\<close>, \<^verbatim>\<open>rt_learn\<close>).\<close>

definition mask_target :: "u32 \<Rightarrow> nat \<Rightarrow> u32" where
  "mask_target target bits = (if bits \<noteq> 0 then target AND push_bit (32 - bits) (- 1) else 0)"

definition chain_find :: "rtab \<Rightarrow> nat \<Rightarrow> u32 \<Rightarrow> route option" where
  "chain_find tab bits target = find (\<lambda>rp. rt_target rp = target) (Routes tab (bits - 1) (hash_ip target))"

fun deref :: "rtab \<Rightarrow> rt_ref \<Rightarrow> route option" where
  "deref tab R_default_ref = Some (R_default tab)"
| "deref tab (In_table bits target) = chain_find tab bits target"

definition rt_blookup :: "rtab \<Rightarrow> u32 \<Rightarrow> nat \<Rightarrow> rt_ref option" where
  "rt_blookup tab target bits =
     (if bits = 0
      then (if rt_iface (R_default tab) \<noteq> None then Some R_default_ref else None)
      else let target = mask_target target bits
           in (case chain_find tab bits target of
                 None \<Rightarrow> None
               | Some _ \<Rightarrow> Some (In_table bits target)))"

definition flush_cache :: "rtab \<Rightarrow> rtab" where
  "flush_cache tab = tab\<lparr>Rt_cache := (\<lambda>i. if i < HASHMOD then (fst (Rt_cache tab i), None) else Rt_cache tab i)\<rparr>"

text \<open>Assignment through a pointer to a route.\<close>

fun put_route :: "rt_ref \<Rightarrow> route \<Rightarrow> rtab \<Rightarrow> rtab" where
  "put_route R_default_ref rp tab = tab\<lparr>R_default := rp\<rparr>"
| "put_route (In_table bits target) rp tab =
     tab\<lparr>Routes := (\<lambda>b h. if b = bits - 1 \<and> h = hash_ip target
                          then map (\<lambda>r. if rt_target r = target then rp else r) (Routes tab b h)
                          else Routes tab b h)\<rparr>"

definition push_route :: "nat \<Rightarrow> u32 \<Rightarrow> route \<Rightarrow> rtab \<Rightarrow> rtab" where
  "push_route bits target rp tab =
     tab\<lparr>Routes := (\<lambda>b h. if b = bits - 1 \<and> h = hash_ip target then rp # Routes tab b h else Routes tab b h)\<rparr>"

definition route_msecs :: "u32 \<Rightarrow> u32" where
  "route_msecs ttl =
     (if sint ttl \<le> 0 then 0 else if sint ttl \<ge> 2147483 then 0x7fffffff else ttl * 1000)"

text \<open>The second half of \<^verbatim>\<open>rt_add\<close>: \<open>old\<close> is the entry to be filled in, \<open>found\<close> says whether it was in the
  table (a new one comes zeroed from \<^verbatim>\<open>callocw\<close> and goes to the head of its chain).\<close>

definition rt_store ::
  "rtab \<Rightarrow> bool \<Rightarrow> route \<Rightarrow> u32 \<Rightarrow> nat \<Rightarrow> u32 \<Rightarrow> ifref \<Rightarrow> u32 \<Rightarrow> u32 \<Rightarrow> bool \<Rightarrow> rtab" where
  "rt_store tab found old target bits gateway iface metric ttl priv =
     (let tab = (if rt_target old \<noteq> target \<or> rt_gateway old \<noteq> gateway \<or> rt_iface old \<noteq> Some iface
                 then flush_cache tab else tab);
          new = old\<lparr>rt_target := target, rt_bits := bits, rt_gateway := gateway, rt_metric := metric,
                    rt_iface := Some iface, rt_private := priv, rt_dur := route_msecs ttl,
                    rt_run := (sint (route_msecs ttl) > 0)\<rparr>
      in if bits = 0 then put_route R_default_ref new tab
         else if found then put_route (In_table bits target) new tab
         else push_route bits target new tab)"

definition rt_add ::
  "ifenv \<Rightarrow> rtab \<Rightarrow> u32 \<Rightarrow> nat \<Rightarrow> u32 \<Rightarrow> ifref option \<Rightarrow> u32 \<Rightarrow> u32 \<Rightarrow> bool \<Rightarrow> rtab \<times> rt_ref option" where
  "rt_add env tab target bits gateway iface metric ttl priv =
     (case iface of
        None \<Rightarrow> (tab, None)
      | Some ifp \<Rightarrow>
         (let bits = (if bits > 32 then 32 else bits)
          in if bits = 32 \<and> ismyaddr env target \<noteq> None then (tab, None)
          else let target = mask_target target bits
          in if ifp = Encap \<and> (gateway = 0 \<or> ismyaddr env gateway \<noteq> None) then (tab, None)
          else let rp = (if bits = 0 then Some R_default_ref else rt_blookup tab target bits)
          in case rp of
               None \<Rightarrow> (rt_store tab False no_route target bits gateway ifp metric ttl priv, Some (In_table bits target))
             | Some ref \<Rightarrow>
                 (let old = the (deref tab ref)
                  in if sint ttl > 0 \<and> rt_iface old \<noteq> None \<and> \<not> rt_run old then (tab, None)
                     else (rt_store tab True old target bits gateway ifp metric ttl priv, Some ref))))"

definition rt_drop :: "rtab \<Rightarrow> u32 \<Rightarrow> nat \<Rightarrow> rtab \<times> bool" where
  "rt_drop tab target bits =
     (let tab = flush_cache tab
      in if bits = 0 then (tab\<lparr>R_default := (R_default tab)\<lparr>rt_iface := None, rt_run := False\<rparr>\<rparr>, True)
      else let bits = (if bits > 32 then 32 else bits);
               target = mask_target target bits
      in if chain_find tab bits target = None then (tab, False)
      else (tab\<lparr>Routes := (\<lambda>b h. if b = bits - 1 \<and> h = hash_ip target
                                then filter (\<lambda>r. rt_target r \<noteq> target) (Routes tab b h)
                                else Routes tab b h)\<rparr>, True))"

text \<open>\<^verbatim>\<open>rt_learn\<close>: mask first, then ask the learn filter.\<close>

definition rt_learn ::
  "ifenv \<Rightarrow> iplearn list \<Rightarrow> rtab \<Rightarrow> u32 \<Rightarrow> nat \<Rightarrow> u32 \<Rightarrow> ifref option \<Rightarrow> u32 \<Rightarrow> u32 \<Rightarrow> axaddr option \<Rightarrow>
   rtab \<times> rt_ref option" where
  "rt_learn env il tab target bits gateway iface metric ttl call =
     (let bits = (if bits > 32 then 32 else bits);
          target = mask_target target bits
      in if \<not> ip_may_learn il target bits LEARN_ROUTE call (map_option (\<lambda>i. if_name (if_of env i)) iface)
         then (tab, None)
         else rt_add env tab target bits gateway iface metric ttl False)"

text \<open>\<^verbatim>\<open>rt_timeout\<close> of \<^verbatim>\<open>rip.c\<close>: the first time out makes the route unusable for RIP, the second drops it.
  The product in the new duration wraps (it overflows a signed int), the division rounds to zero.\<close>

definition rt_timeout :: "rtab \<Rightarrow> rt_ref \<Rightarrow> rtab" where
  "rt_timeout tab r =
     (case deref tab r of
        None \<Rightarrow> tab
      | Some rp \<Rightarrow>
          let rp = rp\<lparr>rt_run := False\<rparr>
          in if sint (rt_metric rp) < sint RIP_INFINITY
             then let dur = (if rt_dur rp = 0 then RIP_TTL * 1000 else rt_dur rp);
                      d = sint (dur * 2);
                      dur = word_of_int (if d < 0 then - ((- d) div 3) else d div 3)
                  in put_route r (rp\<lparr>rt_metric := RIP_INFINITY, rt_dur := dur, rt_run := (sint dur > 0), rt_trig := True\<rparr>) tab
             else fst (rt_drop tab (rt_target rp) (rt_bits rp)))"

section \<open>Lookup\<close>

text \<open>The loop over the prefix lengths; \<open>bits\<close> counts those still to be tried.\<close>

fun search_routes :: "rtab \<Rightarrow> u32 \<Rightarrow> u32 \<Rightarrow> u32 \<Rightarrow> nat \<Rightarrow> rt_ref option" where
  "search_routes tab tsave target msk 0 = None"
| "search_routes tab tsave target msk (Suc bits) =
     (let target = target AND msk
      in case find (\<lambda>rp. \<not> (rt_target rp \<noteq> target \<or> rt_iface rp = Some Encap \<and> rt_gateway rp = tsave))
                   (Routes tab bits (hash_ip target)) of
           Some _ \<Rightarrow> Some (In_table (Suc bits) target)
         | None \<Rightarrow> search_routes tab tsave target (push_bit 1 msk) bits)"

definition rt_lookup :: "rtab \<Rightarrow> u32 \<Rightarrow> rt_ref option \<times> rtab" where
  "rt_lookup tab target =
     (let h = hash_ip target;
          rcp = Rt_cache tab h
      in if target = fst rcp \<and> snd rcp \<noteq> None then (snd rcp, tab)
         else let stash = (\<lambda>rp. tab\<lparr>Rt_cache := (Rt_cache tab)(h := (target, Some rp))\<rparr>)
              in case search_routes tab target target (- 1) 32 of
                   Some rp \<Rightarrow> (Some rp, stash rp)
                 | None \<Rightarrow> if rt_iface (R_default tab) \<noteq> None
                           then (Some R_default_ref, stash R_default_ref)
                           else (None, tab))"

section \<open>Merging redundant routes\<close>

fun merge_parent :: "rtab \<Rightarrow> u32 \<Rightarrow> nat \<Rightarrow> rt_ref option" where
  "merge_parent tab target 0 = None"
| "merge_parent tab target (Suc j) =
     (case rt_blookup tab target j of
        Some rp1 \<Rightarrow> Some rp1
      | None \<Rightarrow> merge_parent tab target j)"

definition merge_one :: "rtab \<Rightarrow> route \<Rightarrow> rtab" where
  "merge_one tab rp =
     (if \<not> rt_run rp then tab
      else case merge_parent tab (rt_target rp) (rt_bits rp) of
             None \<Rightarrow> tab
           | Some r1 \<Rightarrow>
               let rp1 = the (deref tab r1)
               in if rt_iface rp1 \<noteq> rt_iface rp \<or> rt_gateway rp1 \<noteq> rt_gateway rp then tab
                  else fst (rt_drop tab (rt_target rp) (rt_bits rp)))"

definition rt_merge :: "rtab \<Rightarrow> rtab" where
  "rt_merge tab =
     foldl (\<lambda>tab bits. foldl (\<lambda>tab i. foldl merge_one tab (Routes tab (bits - 1) i)) tab [0..<HASHMOD])
       tab (rev [1..<33])"

section \<open>Who we are towards an address\<close>

text \<open>\<^verbatim>\<open>locaddr\<close>; the first real interface when there is no route.\<close>

definition locaddr :: "ifenv \<Rightarrow> rtab \<Rightarrow> u32 \<Rightarrow> u32 \<times> rtab" where
  "locaddr env tab addr =
     (if ismyaddr env addr \<noteq> None then (addr, tab)
      else let (r, tab) = rt_lookup tab addr;
               rp = Option.bind r (deref tab);
               ifp = Option.bind rp rt_iface;
               (ifp, tab) =
                 (if ifp = Some Encap
                  then (let (r, tab) = rt_lookup tab (rt_gateway (the rp))
                        in (Option.bind (Option.bind r (deref tab)) rt_iface, tab))
                  else (ifp, tab));
               ifp = (if ifp = None then find (\<lambda>i. i \<noteq> Loopback \<and> i \<noteq> Encap) (Ifaces env) else ifp)
           in (case ifp of
                 None \<Rightarrow> 0
               | Some i \<Rightarrow> if i = Loopback then 0
                           else (case if_forw (if_of env i) of
                                   Some f \<Rightarrow> if_addr (if_of env f)
                                 | None \<Rightarrow> if_addr (if_of env i)), tab))"

text \<open>\<^verbatim>\<open>ip_mtu\<close> recurses through encapsulating routes; \<open>fuel\<close> bounds the depth.\<close>

fun ip_mtu :: "nat \<Rightarrow> ifenv \<Rightarrow> rtab \<Rightarrow> u32 \<Rightarrow> (u32 \<times> rtab) option" where
  "ip_mtu 0 env tab addr = None"
| "ip_mtu (Suc fuel) env tab addr =
     (let (r, tab) = rt_lookup tab addr
      in case Option.bind r (deref tab) of
           None \<Rightarrow> Some (0, tab)
         | Some rp \<Rightarrow>
             (case rt_iface rp of
                None \<Rightarrow> Some (0, tab)
              | Some i \<Rightarrow>
                  if i = Encap then map_option (\<lambda>(mtu, tab). (mtu - of_nat IPLEN, tab)) (ip_mtu fuel env tab (rt_gateway rp))
                  else Some (case if_forw (if_of env i) of
                               Some f \<Rightarrow> if_mtu (if_of env f)
                             | None \<Rightarrow> if_mtu (if_of env i), tab)))"

section \<open>What a lookup should return\<close>

text \<open>The specification: of the prefix lengths at which the table has the masked address (and does not
  lead back into the same encapsulation), the longest; then the default route.\<close>

definition route_fits :: "u32 \<Rightarrow> route \<Rightarrow> bool" where
  "route_fits addr rp \<longleftrightarrow> \<not> (rt_iface rp = Some Encap \<and> rt_gateway rp = addr)"

definition fits_at :: "rtab \<Rightarrow> u32 \<Rightarrow> nat \<Rightarrow> bool" where
  "fits_at tab addr bits =
     (case chain_find tab bits (mask_target addr bits) of None \<Rightarrow> False | Some rp \<Rightarrow> route_fits addr rp)"

definition best_route :: "rtab \<Rightarrow> u32 \<Rightarrow> rt_ref option" where
  "best_route tab addr =
     (case find (fits_at tab addr) (rev [1..<33]) of
        Some bits \<Rightarrow> Some (In_table bits (mask_target addr bits))
      | None \<Rightarrow> if rt_iface (R_default tab) \<noteq> None then Some R_default_ref else None)"

definition chain_ok :: "nat \<Rightarrow> nat \<Rightarrow> route list \<Rightarrow> bool" where
  "chain_ok b h rps \<longleftrightarrow> distinct (map rt_target rps) \<and>
     (\<forall>rp \<in> set rps. rt_bits rp = Suc b \<and> hash_ip (rt_target rp) = h \<and>
        mask_target (rt_target rp) (Suc b) = rt_target rp \<and> rt_iface rp \<noteq> None)"

definition table_ok :: "rtab \<Rightarrow> bool" where
  "table_ok tab \<longleftrightarrow> (\<forall>b < 32. \<forall>h. chain_ok b h (Routes tab b h)) \<and>
     rt_bits (R_default tab) = 0 \<and> rt_target (R_default tab) = 0"

definition cache_ok :: "rtab \<Rightarrow> bool" where
  "cache_ok tab \<longleftrightarrow> (\<forall>h t r. Rt_cache tab h = (t, Some r) \<longrightarrow> h < HASHMOD \<and> best_route tab t = Some r)"

lemma find_target_unique:
  "distinct (map rt_target rps) \<Longrightarrow>
     find (\<lambda>rp. \<not> (rt_target rp \<noteq> t \<or> rt_iface rp = Some Encap \<and> rt_gateway rp = a)) rps =
     (case find (\<lambda>rp. rt_target rp = t) rps of
        None \<Rightarrow> None | Some rp \<Rightarrow> if route_fits a rp then Some rp else None)"
proof (induction rps)
  case (Cons r rps)
  have "rt_target r = t \<Longrightarrow> find (\<lambda>rp. rt_target rp = t) rps = None"
    using Cons.prems unfolding find_None_iff by (metis distinct.simps(2) image_eqI list.map(2) list.set_map)
  then show ?case using Cons by (auto simp: route_fits_def)
qed simp

lemma mask_target_bit: "bits \<le> 32 \<Longrightarrow> bit (mask_target a bits) k \<longleftrightarrow> bit a k \<and> 32 - bits \<le> k"
  by (auto simp: mask_target_def bit_simps dest: bit_imp_le_length)

lemma mask_mask: "j \<le> b \<Longrightarrow> b \<le> 32 \<Longrightarrow> mask_target (mask_target a b) j = mask_target a j"
  by (rule bit_word_eqI) (auto simp: mask_target_bit)

lemma mask_32: "mask_target a 32 = a"
  by (rule bit_word_eqI) (auto simp: mask_target_bit)

lemma push_not_mask: "push_bit m (NOT (mask k) :: u32) = NOT (mask (m + k))"
  by (rule bit_word_eqI) (auto simp: bit_simps)

lemma search_routes_find:
  assumes "table_ok tab" "n \<le> 32"
  shows "search_routes tab tsave (mask_target tsave (min 32 (Suc n))) (NOT (mask (32 - n))) n =
     map_option (\<lambda>b. In_table b (mask_target tsave b)) (find (fits_at tab tsave) (rev [1..<Suc n]))"
  using assms(2)
proof (induction n)
  case (Suc n)
  have mt: "mask_target tsave (min 32 (Suc (Suc n))) AND NOT (mask (32 - Suc n)) = mask_target tsave (Suc n)"
    using Suc.prems
    by (intro bit_word_eqI) (auto simp: bit_and_iff bit_not_iff bit_mask_iff mask_target_bit)
  have d: "distinct (map rt_target (Routes tab n h))" for h
    using assms(1) Suc.prems by (auto simp: table_ok_def chain_ok_def)
  have pb: "push_bit 1 (NOT (mask (32 - Suc n))) = (NOT (mask (32 - n)) :: u32)"
    unfolding push_not_mask using Suc.prems by (simp only: Suc_le_eq) (metis Suc_diff_Suc plus_1_eq_Suc)
  have m: "min 32 (Suc n) = Suc n" using Suc.prems by simp
  have ih: "search_routes tab tsave (mask_target tsave (Suc n)) (NOT (mask (32 - n))) n =
     map_option (\<lambda>b. In_table b (mask_target tsave b)) (find (fits_at tab tsave) (rev [1..<Suc n]))"
    using Suc.IH Suc.prems unfolding m by simp
  have fa: "fits_at tab tsave (Suc n) =
      (case find (\<lambda>rp. rt_target rp = mask_target tsave (Suc n)) (Routes tab n (hash_ip (mask_target tsave (Suc n)))) of
         None \<Rightarrow> False | Some rp \<Rightarrow> route_fits tsave rp)"
    by (simp add: fits_at_def chain_find_def)
  have up: "rev [1..<Suc (Suc n)] = Suc n # rev [1..<Suc n]" by simp
  show ?case
    unfolding search_routes.simps mt Let_def find_target_unique [OF d] pb ih up List.find.simps fa
    by (simp split: option.split)
qed simp

lemma search_routes_best:
  assumes "table_ok tab"
  shows "(case search_routes tab a a (- 1) 32 of
            Some r \<Rightarrow> Some r
          | None \<Rightarrow> if rt_iface (R_default tab) \<noteq> None then Some R_default_ref else None) = best_route tab a"
  using search_routes_find [OF assms, of 32 a]
  by (simp add: mask_32 best_route_def del: upt_rec_numeral split: option.split)

section \<open>The table as a map from prefixes to routes\<close>

lemma find_map_put:
  "rt_target rp = t \<Longrightarrow> find (\<lambda>r. rt_target r = t') (map (\<lambda>r. if rt_target r = t then rp else r) l) =
     (if t' = t then map_option (\<lambda>_. rp) (find (\<lambda>r. rt_target r = t) l) else find (\<lambda>r. rt_target r = t') l)"
  by (induction l) auto

lemma find_filter_drop:
  "find (\<lambda>r. rt_target r = t') (filter (\<lambda>r. rt_target r \<noteq> t) l) =
     (if t' = t then None else find (\<lambda>r. rt_target r = t') l)"
  by (induction l) auto

lemma chain_find_put:
  "rt_target rp = t \<Longrightarrow> 0 < b \<Longrightarrow> 0 < b' \<Longrightarrow> chain_find (put_route (In_table b t) rp tab) b' t' =
     (if b' = b \<and> t' = t then map_option (\<lambda>_. rp) (chain_find tab b t) else chain_find tab b' t')"
  by (auto simp: chain_find_def find_map_put)

lemma chain_find_push:
  "rt_target rp = t \<Longrightarrow> 0 < b \<Longrightarrow> 0 < b' \<Longrightarrow> chain_find (push_route b t rp tab) b' t' =
     (if b' = b \<and> t' = t then Some rp else chain_find tab b' t')"
  by (auto simp: chain_find_def push_route_def)

lemma chain_find_some: "chain_find tab b t = Some rp \<Longrightarrow> rt_target rp = t \<and> rp \<in> set (Routes tab (b - 1) (hash_ip t))"
  by (auto simp: chain_find_def find_Some_iff)

lemma chain_find_ok:
  assumes "table_ok tab" "0 < b" "b \<le> 32" "chain_find tab b t = Some rp"
  shows "rt_target rp = t \<and> rt_bits rp = b \<and> mask_target t b = t \<and> rt_iface rp \<noteq> None"
proof -
  have "chain_ok (b - 1) (hash_ip t) (Routes tab (b - 1) (hash_ip t))"
    using assms(1-3) by (simp add: table_ok_def)
  then show ?thesis using chain_find_some [OF assms(4)] assms(2) by (auto simp: chain_ok_def)
qed

lemma hash_ip_less [simp]: "hash_ip a < HASHMOD"
  by (simp add: hash_ip_def HASHMOD_def)

text \<open>Which routes may stand in the chain of a prefix length.\<close>

definition good_route :: "nat \<Rightarrow> u32 \<Rightarrow> route \<Rightarrow> bool" where
  "good_route b t rp \<longleftrightarrow> 0 < b \<and> b \<le> 32 \<and> rt_target rp = t \<and> rt_bits rp = b \<and> mask_target t b = t \<and> rt_iface rp \<noteq> None"

lemma chain_ok_put:
  assumes "chain_ok (b - 1) (hash_ip t) l" "good_route b t rp"
  shows "chain_ok (b - 1) (hash_ip t) (map (\<lambda>r. if rt_target r = t then rp else r) l)"
proof -
  have "map rt_target (map (\<lambda>r. if rt_target r = t then rp else r) l) = map rt_target l"
    using assms(2) by (induction l) (auto simp: good_route_def)
  then have "distinct (map rt_target (map (\<lambda>r. if rt_target r = t then rp else r) l))"
    using assms(1) by (simp only: chain_ok_def)
  moreover have "\<forall>r \<in> set (map (\<lambda>r. if rt_target r = t then rp else r) l). rt_bits r = Suc (b - 1) \<and>
      hash_ip (rt_target r) = hash_ip t \<and> mask_target (rt_target r) (Suc (b - 1)) = rt_target r \<and> rt_iface r \<noteq> None"
    using assms by (auto simp: chain_ok_def good_route_def)
  ultimately show ?thesis by (simp only: chain_ok_def)
qed

lemma chain_ok_push:
  assumes "chain_ok (b - 1) (hash_ip t) l" "good_route b t rp" "find (\<lambda>r. rt_target r = t) l = None"
  shows "chain_ok (b - 1) (hash_ip t) (rp # l)"
  using assms by (auto simp: chain_ok_def good_route_def find_None_iff)

lemma chain_ok_filter: "chain_ok b h l \<Longrightarrow> chain_ok b h (filter P l)"
  by (auto simp: chain_ok_def distinct_map_filter)

lemma table_ok_upd:
  "table_ok tab \<Longrightarrow> chain_ok b h l \<Longrightarrow>
     table_ok (tab\<lparr>Routes := (\<lambda>b' h'. if b' = b \<and> h' = h then l else Routes tab b' h')\<rparr>)"
  by (simp add: table_ok_def)

lemma table_ok_chain: "table_ok tab \<Longrightarrow> 0 < b \<Longrightarrow> b \<le> 32 \<Longrightarrow> chain_ok (b - 1) h (Routes tab (b - 1) h)"
  by (simp add: table_ok_def)

lemma put_route_upd:
  "put_route (In_table b t) rp tab = tab\<lparr>Routes := (\<lambda>b' h'. if b' = b - 1 \<and> h' = hash_ip t
     then map (\<lambda>r. if rt_target r = t then rp else r) (Routes tab (b - 1) (hash_ip t)) else Routes tab b' h')\<rparr>"
  "push_route b t rp tab = tab\<lparr>Routes := (\<lambda>b' h'. if b' = b - 1 \<and> h' = hash_ip t
     then rp # Routes tab (b - 1) (hash_ip t) else Routes tab b' h')\<rparr>"
  by (auto simp: push_route_def fun_eq_iff)

lemma table_ok_put:
  "table_ok tab \<Longrightarrow> good_route b t rp \<Longrightarrow> table_ok (put_route (In_table b t) rp tab)"
  unfolding put_route_upd
  by (intro table_ok_upd chain_ok_put table_ok_chain) (simp_all add: good_route_def)

lemma table_ok_push:
  "table_ok tab \<Longrightarrow> good_route b t rp \<Longrightarrow> chain_find tab b t = None \<Longrightarrow> table_ok (push_route b t rp tab)"
  unfolding put_route_upd
  by (intro table_ok_upd chain_ok_push table_ok_chain) (simp_all add: good_route_def chain_find_def)

definition same_way :: "route \<Rightarrow> route \<Rightarrow> bool" where
  "same_way rp rp' \<longleftrightarrow> rt_target rp' = rt_target rp \<and> rt_bits rp' = rt_bits rp \<and>
     rt_gateway rp' = rt_gateway rp \<and> rt_iface rp' = rt_iface rp"

text \<open>Changing a route's metric, flags or timer does not change what a lookup finds.\<close>

lemma fits_at_put:
  assumes "chain_find tab b t = Some rp" "same_way rp rp'" "0 < b" "0 < b'"
  shows "fits_at (put_route (In_table b t) rp' tab) a b' = fits_at tab a b'"
proof -
  have "rt_target rp' = t" using assms(1,2) chain_find_some [of tab b t rp] by (simp add: same_way_def)
  then show ?thesis using assms by (auto simp: fits_at_def chain_find_put route_fits_def same_way_def simp del: put_route.simps)
qed

lemma find_same: "(\<And>x. x \<in> set xs \<Longrightarrow> P x = Q x) \<Longrightarrow> find P xs = find Q xs"
  by (induction xs) auto

lemma best_route_same:
  assumes "\<And>b. 0 < b \<Longrightarrow> b \<le> 32 \<Longrightarrow> fits_at tab' a b = fits_at tab a b"
    "rt_iface (R_default tab') = None \<longleftrightarrow> rt_iface (R_default tab) = None"
  shows "best_route tab' a = best_route tab a"
proof -
  have "find (fits_at tab' a) (rev [1..<33]) = find (fits_at tab a) (rev [1..<33])"
    by (rule find_same) (auto simp: assms(1))
  then show ?thesis using assms(2) by (simp only: best_route_def)
qed

lemma put_same_way:
  assumes "table_ok tab" "deref tab r = Some rp" "same_way rp rp'"
    "case r of R_default_ref \<Rightarrow> True | In_table b t \<Rightarrow> 0 < b \<and> b \<le> 32"
  shows "table_ok (put_route r rp' tab)" "best_route (put_route r rp' tab) a = best_route tab a"
proof -
  have "table_ok (put_route r rp' tab) \<and> best_route (put_route r rp' tab) a = best_route tab a"
  proof (cases r)
    case R_default_ref
    then show ?thesis using assms
      by (auto simp: table_ok_def same_way_def fits_at_def chain_find_def intro!: best_route_same)
  next
    case (In_table b t)
    then have f: "chain_find tab b t = Some rp" "0 < b" "b \<le> 32" using assms by auto
    then have "table_ok (put_route r rp' tab)"
      unfolding In_table using chain_find_ok [OF assms(1) f(2,3,1)] assms(1,3)
      by (intro table_ok_put) (auto simp: same_way_def good_route_def f)
    moreover have "best_route (put_route r rp' tab) a = best_route tab a"
      unfolding In_table by (rule best_route_same, rule fits_at_put [OF f(1) assms(3) f(2)]) simp_all
    ultimately show ?thesis by blast
  qed
  then show "table_ok (put_route r rp' tab)" "best_route (put_route r rp' tab) a = best_route tab a" by blast+
qed

section \<open>The invariant\<close>

lemma rt_lookup_best:
  assumes "table_ok tab" "cache_ok tab"
  shows "fst (rt_lookup tab a) = best_route tab a"
proof -
  have "cached = Some r \<Longrightarrow> Rt_cache tab (hash_ip a) = (a, cached) \<Longrightarrow> best_route tab a = Some r" for cached r
    using assms(2) by (simp add: cache_ok_def)
  then show ?thesis
    using search_routes_best [OF assms(1), of a]
    by (cases "Rt_cache tab (hash_ip a)") (auto simp: rt_lookup_def Let_def split: option.splits)
qed

lemma rt_lookup_table:
  "\<exists>c. snd (rt_lookup tab a) = tab\<lparr>Rt_cache := c\<rparr>"
proof -
  have "tab = tab\<lparr>Rt_cache := Rt_cache tab\<rparr>" by simp
  then show ?thesis by (auto simp: rt_lookup_def Let_def split: option.splits intro: exI [of _ "Rt_cache tab"])
qed

lemma chain_find_cache [simp]: "chain_find (tab\<lparr>Rt_cache := c\<rparr>) bits t = chain_find tab bits t"
  by (simp add: chain_find_def)

lemma fits_at_cache [simp]: "fits_at (tab\<lparr>Rt_cache := c\<rparr>) = fits_at tab"
  by (simp add: fits_at_def fun_eq_iff)

lemma cache_irrelevant [simp]:
  "best_route (tab\<lparr>Rt_cache := c\<rparr>) a = best_route tab a"
  "table_ok (tab\<lparr>Rt_cache := c\<rparr>) = table_ok tab" "rt_blookup (tab\<lparr>Rt_cache := c\<rparr>) t bits = rt_blookup tab t bits"
  by (auto simp: best_route_def table_ok_def rt_blookup_def)

lemma flush_cache_is: "\<exists>c. flush_cache tab = tab\<lparr>Rt_cache := c\<rparr>"
  unfolding flush_cache_def by blast

lemma flush_cache_table [simp]:
  "chain_find (flush_cache tab) bits t = chain_find tab bits t"
  "best_route (flush_cache tab) a = best_route tab a" "table_ok (flush_cache tab) = table_ok tab"
  "rt_blookup (flush_cache tab) t bits = rt_blookup tab t bits"
  "Routes (flush_cache tab) = Routes tab" "R_default (flush_cache tab) = R_default tab"
  unfolding flush_cache_def by (simp_all only: cache_irrelevant) simp_all


definition rtab_ok :: "rtab \<Rightarrow> bool" where
  "rtab_ok tab \<longleftrightarrow> table_ok tab \<and> cache_ok tab"

lemma cache_ok_flush:
  "(\<And>h. Rt_cache tab' h = Rt_cache (flush_cache tab) h) \<Longrightarrow> cache_ok tab \<Longrightarrow> cache_ok tab'"
  by (auto simp: cache_ok_def flush_cache_def split: if_splits)

lemma cache_ok_best:
  "cache_ok tab \<Longrightarrow> Rt_cache tab' = Rt_cache tab \<Longrightarrow> (\<And>a. best_route tab' a = best_route tab a) \<Longrightarrow> cache_ok tab'"
  by (simp add: cache_ok_def)

lemma rt_init_ok: "rtab_ok rt_init"
  by (simp add: rtab_ok_def table_ok_def chain_ok_def cache_ok_def rt_init_def no_route_def)

lemma rt_lookup_ok:
  assumes "rtab_ok tab"
  shows "rtab_ok (snd (rt_lookup tab a))"
proof -
  have ok: "table_ok tab" "cache_ok tab" using assms by (auto simp: rtab_ok_def)
  have "rtab_ok (tab\<lparr>Rt_cache := (Rt_cache tab)(hash_ip a := (a, Some r))\<rparr>)" if "best_route tab a = Some r" for r
    using ok that by (auto simp: rtab_ok_def cache_ok_def)
  then show ?thesis
    using search_routes_best [OF ok(1), of a, symmetric] assms
    by (auto simp: rt_lookup_def Let_def split: option.splits)
qed

lemma put_cache [simp]: "Rt_cache (put_route r rp tab) = Rt_cache tab" "Rt_cache (push_route b t rp tab) = Rt_cache tab"
  by (cases r; simp) (simp add: push_route_def)

lemma rt_drop_ok:
  assumes "rtab_ok tab"
  shows "rtab_ok (fst (rt_drop tab target bits))"
proof -
  have ok: "table_ok tab" "cache_ok tab" using assms by (auto simp: rtab_ok_def)
  have "cache_ok (fst (rt_drop tab target bits))"
    by (rule cache_ok_flush [OF _ ok(2)]) (simp add: rt_drop_def Let_def)
  moreover have "table_ok (fst (rt_drop tab target bits))"
  proof (cases "bits = 0")
    case True
    then show ?thesis using ok by (simp add: rt_drop_def Let_def table_ok_def)
  next
    case False
    then show ?thesis using ok chain_ok_filter by (auto simp: rt_drop_def Let_def table_ok_def)
  qed
  ultimately show ?thesis by (simp add: rtab_ok_def)
qed

lemma mask_idem: "bits \<le> 32 \<Longrightarrow> mask_target (mask_target a bits) bits = mask_target a bits"
  by (rule mask_mask) simp_all

text \<open>\<open>holds_old\<close>: what \<^verbatim>\<open>rt_add\<close> knows of the entry when it stores.\<close>

definition holds_old :: "rtab \<Rightarrow> bool \<Rightarrow> route \<Rightarrow> u32 \<Rightarrow> nat \<Rightarrow> bool" where
  "holds_old tab found old target bits \<longleftrightarrow> bits \<le> 32 \<and> mask_target target bits = target \<and>
     (if bits = 0 then found \<and> old = R_default tab \<and> target = 0
      else if found then chain_find tab bits target = Some old
      else chain_find tab bits target = None \<and> old = no_route)"

abbreviation stored_route :: "route \<Rightarrow> u32 \<Rightarrow> nat \<Rightarrow> u32 \<Rightarrow> ifref \<Rightarrow> u32 \<Rightarrow> u32 \<Rightarrow> bool \<Rightarrow> route" where
  "stored_route old target bits gateway ifp metric ttl priv \<equiv>
     old\<lparr>rt_target := target, rt_bits := bits, rt_gateway := gateway, rt_metric := metric,
         rt_iface := Some ifp, rt_private := priv, rt_dur := route_msecs ttl, rt_run := (sint (route_msecs ttl) > 0)\<rparr>"

lemma rt_store_table:
  assumes "table_ok tab" "holds_old tab found old target bits"
  shows "table_ok (rt_store tab found old target bits gateway ifp metric ttl priv)"
proof -
  let ?new = "stored_route old target bits gateway ifp metric ttl priv"
  define tab1 where "tab1 = (if rt_target old \<noteq> target \<or> rt_gateway old \<noteq> gateway \<or> rt_iface old \<noteq> Some ifp
      then flush_cache tab else tab)"
  have ok: "table_ok tab1" "\<And>b t. chain_find tab1 b t = chain_find tab b t" using assms(1) by (simp_all add: tab1_def)
  have st: "rt_store tab found old target bits gateway ifp metric ttl priv =
      (if bits = 0 then put_route R_default_ref ?new tab1
       else if found then put_route (In_table bits target) ?new tab1 else push_route bits target ?new tab1)"
    unfolding rt_store_def Let_def tab1_def by (rule refl)
  have good: "bits \<noteq> 0 \<Longrightarrow> good_route bits target ?new" using assms(2) by (simp add: good_route_def holds_old_def)
  show ?thesis
  proof (cases "bits = 0")
    case True
    then show ?thesis using ok(1) assms(2) unfolding st by (simp add: table_ok_def holds_old_def)
  next
    case False
    then show ?thesis
      using assms(2) ok table_ok_put [OF ok(1) good] table_ok_push [OF ok(1) good] unfolding st
      by (cases found) (simp_all add: holds_old_def del: put_route.simps)
  qed
qed

lemma rt_store_cache:
  assumes "rtab_ok tab" "holds_old tab found old target bits"
  shows "cache_ok (rt_store tab found old target bits gateway ifp metric ttl priv)"
proof (cases "rt_target old \<noteq> target \<or> rt_gateway old \<noteq> gateway \<or> rt_iface old \<noteq> Some ifp")
  case True
  have "Rt_cache (rt_store tab found old target bits gateway ifp metric ttl priv) h = Rt_cache (flush_cache tab) h" for h
    unfolding rt_store_def Let_def if_P [OF True] by (simp del: put_route.simps)
  then show ?thesis using assms(1) cache_ok_flush unfolding rtab_ok_def by blast
next
  case False
  define r where "r = (if bits = 0 then R_default_ref else In_table bits target)"
  define new where "new = old\<lparr>rt_target := target, rt_bits := bits, rt_gateway := gateway, rt_metric := metric,
     rt_iface := Some ifp, rt_private := priv, rt_dur := route_msecs ttl, rt_run := (sint (route_msecs ttl) > 0)\<rparr>"
  have ok: "table_ok tab" "cache_ok tab" using assms(1) by (auto simp: rtab_ok_def)
  have found: "found" "bits \<le> 32" using assms(2) False by (auto simp: holds_old_def no_route_def split: if_splits)
  have d: "deref tab r = Some old" using assms(2) found by (auto simp: r_def holds_old_def)
  have "rt_bits old = bits"
    using ok(1) assms(2) found chain_find_ok [OF ok(1), of bits target old] by (auto simp: holds_old_def table_ok_def split: if_splits)
  then have "same_way old new" using False by (simp add: same_way_def new_def)
  moreover have "rt_store tab found old target bits gateway ifp metric ttl priv = put_route r new tab"
    using False found by (auto simp: rt_store_def r_def new_def simp del: put_route.simps)
  ultimately show ?thesis
    using put_same_way(2) [OF ok(1) d] found by (intro cache_ok_best [OF ok(2)]) (auto simp: r_def)
qed

lemma mask_0 [simp]: "mask_target a 0 = 0"
  by (simp add: mask_target_def)

lemma rt_blookup_found:
  "0 < bits \<Longrightarrow> bits \<le> 32 \<Longrightarrow> mask_target target bits = target \<Longrightarrow>
     rt_blookup tab target bits = (if chain_find tab bits target = None then None else Some (In_table bits target))"
  by (auto simp: rt_blookup_def Let_def split: option.split)

text \<open>Every outcome of \<^verbatim>\<open>rt_add\<close>.\<close>

lemma rt_add_cases:
  obtains "rt_add env tab target bits gateway iface metric ttl priv = (tab, None)"
  | found old ifp b where "iface = Some ifp" "b = min bits 32" "holds_old tab found old (mask_target target b) b"
      "\<not> (found \<and> sint ttl > 0 \<and> rt_iface old \<noteq> None \<and> \<not> rt_run old)"
      "rt_add env tab target bits gateway iface metric ttl priv =
         (rt_store tab found old (mask_target target b) b gateway ifp metric ttl priv,
          Some (if b = 0 then R_default_ref else In_table b (mask_target target b)))"
proof -
  define b where "b = min bits 32"
  have b: "(if bits > 32 then 32 else bits) = b" "b \<le> 32" by (auto simp: b_def)
  show thesis
  proof (cases "rt_add env tab target bits gateway iface metric ttl priv = (tab, None)")
    case False
    then obtain ifp where ifp: "iface = Some ifp" by (cases iface) (auto simp: rt_add_def)
    let ?t = "mask_target target b"
    show thesis
    proof (cases "b = 0")
      case True
      then show thesis using False that(2) [of ifp b True "R_default tab"] ifp
        by (auto simp: rt_add_def Let_def b b_def [symmetric] holds_old_def split: if_splits)
    next
      case nz: False
      show thesis
      proof (cases "chain_find tab b ?t")
        case None
        then show thesis using False that(2) [of ifp b False no_route] ifp nz b(2) mask_idem [OF b(2)] b_def
          by (auto simp: rt_add_def Let_def b(1) holds_old_def rt_blookup_found split: if_splits)
      next
        case (Some old)
        then show thesis using False that(2) [of ifp b True old] ifp nz b(2) mask_idem [OF b(2)] b_def
          by (auto simp: rt_add_def Let_def b(1) holds_old_def rt_blookup_found split: if_splits)
      qed
    qed
  qed (rule that(1))
qed

lemma rt_add_ok:
  assumes "rtab_ok tab"
  shows "rtab_ok (fst (rt_add env tab target bits gateway iface metric ttl priv))"
  using assms rt_store_table rt_store_cache
  by (cases rule: rt_add_cases [of env tab target bits gateway iface metric ttl priv]) (auto simp: rtab_ok_def)

lemma rt_timeout_ok:
  assumes "rtab_ok tab" "case r of R_default_ref \<Rightarrow> True | In_table b t \<Rightarrow> 0 < b \<and> b \<le> 32"
  shows "rtab_ok (rt_timeout tab r)"
proof (cases "deref tab r")
  case (Some rp)
  have "rtab_ok (put_route r rp' tab)" if "same_way rp rp'" for rp'
    using put_same_way [OF _ Some that assms(2)] assms(1) cache_ok_best by (auto simp: rtab_ok_def)
  then show ?thesis using rt_drop_ok [OF assms(1)] Some by (simp add: rt_timeout_def Let_def same_way_def)
qed (use assms in \<open>simp add: rt_timeout_def\<close>)

lemma merge_one_ok: "rtab_ok tab \<Longrightarrow> rtab_ok (merge_one tab rp)"
  using rt_drop_ok by (auto simp: merge_one_def Let_def split: option.splits)

lemma foldl_inv: "P s \<Longrightarrow> (\<And>s x. P s \<Longrightarrow> P (f s x)) \<Longrightarrow> P (foldl f s xs)"
  by (induction xs arbitrary: s) auto

lemma rt_merge_ok: "rtab_ok tab \<Longrightarrow> rtab_ok (rt_merge tab)"
  unfolding rt_merge_def by (intro foldl_inv [of rtab_ok]) (auto intro: merge_one_ok)

lemma rt_learn_ok: "rtab_ok tab \<Longrightarrow> rtab_ok (fst (rt_learn env il tab target bits gateway iface metric ttl call))"
  by (simp add: rt_learn_def Let_def rt_add_ok)

text \<open>The life of the table: every operation of the program on it is a step.\<close>

inductive rt_step :: "rtab \<Rightarrow> rtab \<Rightarrow> bool" where
  step_add: "rt_step tab (fst (rt_add env tab target bits gateway iface metric ttl priv))"
| step_learn: "rt_step tab (fst (rt_learn env il tab target bits gateway iface metric ttl call))"
| step_drop: "rt_step tab (fst (rt_drop tab target bits))"
| step_timeout: "0 < bits \<Longrightarrow> bits \<le> 32 \<Longrightarrow> rt_step tab (rt_timeout tab (In_table bits target))"
| step_timeout_default: "rt_step tab (rt_timeout tab R_default_ref)"
| step_lookup: "rt_step tab (snd (rt_lookup tab a))"
| step_merge: "rt_step tab (rt_merge tab)"

inductive rt_reachable :: "rtab \<Rightarrow> bool" where
  start: "rt_reachable rt_init"
| step: "rt_reachable tab \<Longrightarrow> rt_step tab tab' \<Longrightarrow> rt_reachable tab'"

lemma rt_step_ok: "rt_step tab tab' \<Longrightarrow> rtab_ok tab \<Longrightarrow> rtab_ok tab'"
  by (induction rule: rt_step.induct)
     (simp_all add: rt_add_ok rt_learn_ok rt_drop_ok rt_timeout_ok rt_lookup_ok rt_merge_ok)

lemma rt_reachable_ok: "rt_reachable tab \<Longrightarrow> rtab_ok tab"
  by (induction rule: rt_reachable.induct) (auto intro: rt_init_ok rt_step_ok)

lemma best_route_deref: "best_route tab a = Some r \<Longrightarrow> deref tab r \<noteq> None"
  by (auto simp: best_route_def fits_at_def find_Some_iff split: option.splits if_splits)

text \<open>C6: Whatever additions, removals, expirations, merges and lookups went before, a lookup returns the route of the
  longest prefix that matches the address in the table as it is now (the default route when there is
  none, NULL when that is not set either): the lookup cache never shows, and never holds a pointer to
  a route that was freed.\<close>
theorem rt_lookup_longest_prefix:
  assumes "rt_reachable tab"
  shows "fst (rt_lookup tab a) = best_route tab a \<and>
    (\<forall>h t r. Rt_cache tab h = (t, Some r) \<longrightarrow> deref tab r \<noteq> None)"
  using rt_reachable_ok [OF assms] rt_lookup_best best_route_deref by (fastforce simp: rtab_ok_def cache_ok_def)

definition sample_env :: ifenv where
  "sample_env = \<lparr>Ifaces = [Port 0, Port 1, Encap, Loopback],
     if_of = (\<lambda>i. \<lparr>if_name = ''ax0'', if_addr = (case i of Port n \<Rightarrow> 0x2c000001 + of_nat n | _ \<Rightarrow> 0x7f000001),
       if_mtu = 256, if_forw = None, if_netrom = False, if_send = True\<rparr>)\<rparr>"

definition sample_tab :: rtab where
  "sample_tab =
     fst (rt_add sample_env (snd (rt_lookup
       (fst (rt_add sample_env rt_init 0x2c000000 8 0x2c000009 (Some (Port 0)) 1 0 False)) 0x2c010203))
       0x2c010000 16 0 (Some (Port 1)) 1 300 False)"

lemma rt_lookup_longest_prefix_witness:
  "fst (rt_lookup sample_tab 0x2c010203) = best_route sample_tab 0x2c010203"
proof -
  have "rt_reachable sample_tab"
    unfolding sample_tab_def by (intro rt_reachable.step [OF _ step_add] rt_reachable.step [OF _ step_lookup] start)
  then show ?thesis using rt_lookup_longest_prefix by blast
qed

section \<open>Merging changes nothing\<close>

text \<open>Where a packet to an address is sent: the interface and the gateway.\<close>

definition way_to :: "rtab \<Rightarrow> u32 \<Rightarrow> (ifref option \<times> u32) option" where
  "way_to tab a =
     map_option (\<lambda>rp. (rt_iface rp, rt_gateway rp)) (Option.bind (best_route tab a) (deref tab))"

lemma chain_find_drop:
  assumes "0 < b" "b \<le> 32" "0 < b'" "mask_target t b = t"
  shows "chain_find (fst (rt_drop tab t b)) b' t' = (if b' = b \<and> t' = t then None else chain_find tab b' t')"
proof -
  have "b' - 1 = b - 1 \<longleftrightarrow> b' = b" using assms by auto
  then show ?thesis using assms
    by (auto simp: rt_drop_def Let_def chain_find_def find_filter_drop)
qed

lemma drop_default: "0 < b \<Longrightarrow> R_default (fst (rt_drop tab t b)) = R_default tab"
  by (simp add: rt_drop_def Let_def)

lemma find_rev_upt:
  "find P (rev [1..<Suc n]) = Some b \<longleftrightarrow> 1 \<le> b \<and> b \<le> n \<and> P b \<and> (\<forall>b'. b < b' \<and> b' \<le> n \<longrightarrow> \<not> P b')"
proof (induction n)
  case (Suc n)
  have "rev [1..<Suc (Suc n)] = Suc n # rev [1..<Suc n]" by simp
  then show ?case using Suc by (auto simp: le_Suc_eq)
qed simp

lemma best_route_table:
  "1 \<le> b \<Longrightarrow> b \<le> 32 \<Longrightarrow> fits_at tab a b \<Longrightarrow> (\<And>b'. b < b' \<Longrightarrow> b' \<le> 32 \<Longrightarrow> \<not> fits_at tab a b') \<Longrightarrow>
     best_route tab a = Some (In_table b (mask_target a b))"
  using find_rev_upt [of "fits_at tab a" 32 b] by (simp add: best_route_def del: upt_rec_numeral)

lemma best_route_default:
  "(\<And>b'. 1 \<le> b' \<Longrightarrow> b' \<le> 32 \<Longrightarrow> \<not> fits_at tab a b') \<Longrightarrow>
     best_route tab a = (if rt_iface (R_default tab) \<noteq> None then Some R_default_ref else None)"
proof -
  assume "\<And>b'. 1 \<le> b' \<Longrightarrow> b' \<le> 32 \<Longrightarrow> \<not> fits_at tab a b'"
  then have "find (fits_at tab a) (rev [1..<33]) = None" by (auto simp: find_None_iff)
  then show ?thesis by (simp only: best_route_def option.case)
qed

lemma best_route_cases:
  obtains b where "1 \<le> b" "b \<le> 32" "fits_at tab a b" "\<forall>b'. b < b' \<and> b' \<le> 32 \<longrightarrow> \<not> fits_at tab a b'"
  | "\<forall>b'. 1 \<le> b' \<and> b' \<le> 32 \<longrightarrow> \<not> fits_at tab a b'"
proof (cases "find (fits_at tab a) (rev [1..<Suc 32])")
  case None
  then have "\<forall>b' \<in> {1..<Suc 32}. \<not> fits_at tab a b'" by (simp only: find_None_iff set_rev set_upt) blast
  then show ?thesis by (intro that(2)) auto
next
  case (Some b)
  then show ?thesis using that(1) [of b] unfolding find_rev_upt by blast
qed

lemma fits_at_drop:
  assumes "0 < b" "b \<le> 32" "mask_target t b = t" "0 < b'"
  shows "fits_at (fst (rt_drop tab t b)) a b' = (fits_at tab a b' \<and> \<not> (b' = b \<and> mask_target a b = t))"
  using assms by (auto simp: fits_at_def chain_find_drop split: option.split)

lemma way_to_drop_other:
  assumes "0 < b" "b \<le> 32" "mask_target t b = t" "1 \<le> b'" "b' \<le> 32" "fits_at tab a b'"
    "\<forall>c. b' < c \<and> c \<le> 32 \<longrightarrow> \<not> fits_at tab a c" "\<not> (b' = b \<and> mask_target a b = t)"
  shows "way_to (fst (rt_drop tab t b)) a = way_to tab a"
proof -
  let ?d = "fst (rt_drop tab t b)"
  have "best_route tab a = Some (In_table b' (mask_target a b'))" "best_route ?d a = Some (In_table b' (mask_target a b'))"
    using assms fits_at_drop [OF assms(1-3), of _ tab a] by (auto intro!: best_route_table)
  then show ?thesis using assms(1-4,8) by (auto simp: way_to_def chain_find_drop)
qed

lemma merge_parent_Some:
  "merge_parent tab t b = Some r \<Longrightarrow> \<exists>j < b. rt_blookup tab t j = Some r \<and> (\<forall>j'. j < j' \<and> j' < b \<longrightarrow> rt_blookup tab t j' = None)"
proof (induction b)
  case (Suc b)
  then show ?case
    by (cases "rt_blookup tab t b") (auto simp: less_Suc_eq)
qed simp

lemma rt_blookup_Some:
  "0 < j \<Longrightarrow> rt_blookup tab t j = Some r \<longleftrightarrow> chain_find tab j (mask_target t j) \<noteq> None \<and> r = In_table j (mask_target t j)"
  by (auto simp: rt_blookup_def Let_def split: option.split)

text \<open>Dropping a route whose nearest shorter prefix leads the same way.\<close>

lemma way_to_drop_redundant:
  assumes rp: "chain_find tab b t = Some rp" "0 < b" "b \<le> 32" "mask_target t b = t"
    and r1: "merge_parent tab t b = Some r1" "deref tab r1 = Some rp1"
    and same: "rt_iface rp1 = rt_iface rp" "rt_gateway rp1 = rt_gateway rp"
  shows "way_to (fst (rt_drop tab t b)) a = way_to tab a"
proof (cases rule: best_route_cases [of tab a])
  case (1 b')
  show ?thesis
  proof (cases "b' = b \<and> mask_target a b = t")
    case False
    then show ?thesis using way_to_drop_other [OF rp(2-4) 1] by blast
  next
    case True
    let ?d = "fst (rt_drop tab t b)"
    note fd = fits_at_drop [OF rp(2-4), of _ tab a]
    have old: "way_to tab a = Some (rt_iface rp, rt_gateway rp)" and fits: "route_fits a rp"
      using best_route_table [OF 1(1-3)] 1 True rp by (auto simp: way_to_def fits_at_def)
    obtain j where j: "j < b" "rt_blookup tab t j = Some r1" "\<forall>j'. j < j' \<and> j' < b \<longrightarrow> rt_blookup tab t j' = None"
      using merge_parent_Some [OF r1(1)] by blast
    have below: "mask_target t j' = mask_target a j'" if "j' < b" for j'
      using that rp(3) True mask_mask [of j' b a] by auto
    have between: "\<not> fits_at ?d a c" if "j < c" "c \<le> 32" for c
    proof (cases "c < b")
      case True
      then have "chain_find tab c (mask_target a c) = None" using j(3) that below rt_blookup_Some [of c tab t] by fastforce
      then show ?thesis using fd [of c] that by (simp add: fits_at_def)
    next
      case False
      then show ?thesis using fd [of c] that 1(4) True \<open>b' = b \<and> mask_target a b = t\<close> rp(2) by (cases "c = b") auto
    qed
    show ?thesis
    proof (cases "j = 0")
      case True
      then have d: "r1 = R_default_ref" "rt_iface (R_default tab) \<noteq> None"
        using j(2) by (auto simp: rt_blookup_def split: if_splits)
      have "best_route ?d a = Some R_default_ref"
        using best_route_default [of ?d a] between True d(2) drop_default [OF rp(2)] by auto
      then show ?thesis using old r1(2) d same by (auto simp: way_to_def drop_default [OF rp(2)])
    next
      case False
      then have jr: "r1 = In_table j (mask_target a j)" "chain_find tab j (mask_target a j) = Some rp1"
        using rt_blookup_Some [of j tab t r1] j(1,2) below r1(2) by auto
      have "fits_at ?d a j" using fd [of j] False j(1) jr(2) fits same by (auto simp: fits_at_def route_fits_def)
      then have "best_route ?d a = Some r1"
        using best_route_table [of j ?d a] between False j(1) rp(3) jr(1) by auto
      then show ?thesis
        using old same jr j(1) False by (auto simp: way_to_def chain_find_drop [OF rp(2-3) _ rp(4)])
    qed
  qed
next
  case 2
  then have "fits_at (fst (rt_drop tab t b)) a c = fits_at tab a c" if "0 < c" "c \<le> 32" for c
    using fits_at_drop [OF rp(2-4), of c tab a] that by auto
  then have "best_route (fst (rt_drop tab t b)) a = best_route tab a"
    by (intro best_route_same) (auto simp: drop_default [OF rp(2)])
  moreover have "best_route tab a = (if rt_iface (R_default tab) \<noteq> None then Some R_default_ref else None)"
    using 2 best_route_default by auto
  ultimately show ?thesis by (auto simp: way_to_def drop_default [OF rp(2)])
qed

lemma merge_one_way:
  assumes ok: "rtab_ok tab" and b: "0 < b" "b \<le> 32" and rp: "chain_find tab b t = Some rp"
  shows "way_to (merge_one tab rp) a = way_to tab a"
    and "0 < b' \<Longrightarrow> t' \<noteq> t \<Longrightarrow> chain_find (merge_one tab rp) b' t' = chain_find tab b' t'"
proof -
  have rt: "rt_target rp = t" "rt_bits rp = b" "mask_target t b = t"
    using chain_find_ok [OF _ b rp] ok by (auto simp: rtab_ok_def)
  have "way_to (merge_one tab rp) a = way_to tab a \<and>
      (0 < b' \<longrightarrow> t' \<noteq> t \<longrightarrow> chain_find (merge_one tab rp) b' t' = chain_find tab b' t')"
  proof (cases "merge_parent tab t b")
    case (Some r1)
    obtain j where "rt_blookup tab t j = Some r1" using merge_parent_Some [OF Some] by blast
    then have "deref tab r1 \<noteq> None"
      by (cases "j = 0") (auto simp: rt_blookup_Some rt_blookup_def [of _ _ 0] split: if_splits)
    then obtain rp1 where d: "deref tab r1 = Some rp1" by blast
    show ?thesis
      using way_to_drop_redundant [OF rp b rt(3) Some d] Some d chain_find_drop [OF b _ rt(3), of b' tab t']
      by (simp add: merge_one_def rt Let_def)
  qed (simp add: merge_one_def rt)
  then show "way_to (merge_one tab rp) a = way_to tab a"
    "0 < b' \<Longrightarrow> t' \<noteq> t \<Longrightarrow> chain_find (merge_one tab rp) b' t' = chain_find tab b' t'" by blast+
qed

lemma merge_chain_way:
  assumes "0 < b" "b \<le> 32" "rtab_ok tab" "distinct (map rt_target rps)"
    "\<forall>rp \<in> set rps. chain_find tab b (rt_target rp) = Some rp"
  shows "way_to (foldl merge_one tab rps) a = way_to tab a \<and> rtab_ok (foldl merge_one tab rps)"
  using assms(3-5)
proof (induction rps arbitrary: tab)
  case (Cons rp rps)
  then have f: "chain_find tab b (rt_target rp) = Some rp" by simp
  have "rt_target r \<noteq> rt_target rp" if "r \<in> set rps" for r
    using Cons.prems(2) that by (metis distinct.simps(2) image_eqI list.map(2) list.set_map)
  then have "\<forall>r \<in> set rps. chain_find (merge_one tab rp) b (rt_target r) = Some r"
    using Cons.prems(3) merge_one_way(2) [OF Cons.prems(1) assms(1,2) f assms(1)] by simp
  then show ?case
    using Cons.IH [OF merge_one_ok [OF Cons.prems(1)]] Cons.prems merge_one_way(1) [OF Cons.prems(1) assms(1,2) f] by simp
qed simp

lemma chain_all_found:
  "chain_ok b h rps \<Longrightarrow> rp \<in> set rps \<Longrightarrow> find (\<lambda>r. rt_target r = rt_target rp) rps = Some rp"
  by (induction rps) (auto simp: chain_ok_def)

lemma merge_bucket_way:
  assumes "rtab_ok tab" "0 < b" "b \<le> 32"
  shows "way_to (foldl merge_one tab (Routes tab (b - 1) i)) a = way_to tab a \<and>
     rtab_ok (foldl merge_one tab (Routes tab (b - 1) i))"
proof -
  have ok: "chain_ok (b - 1) i (Routes tab (b - 1) i)" using assms by (simp add: rtab_ok_def table_ok_def)
  then have "\<forall>rp \<in> set (Routes tab (b - 1) i). chain_find tab b (rt_target rp) = Some rp"
    using chain_all_found [OF ok] by (auto simp: chain_find_def chain_ok_def)
  then show ?thesis using merge_chain_way [OF assms(2,3,1)] ok by (simp add: chain_ok_def)
qed

text \<open>C21: Merging the routes that a shorter prefix makes redundant changes neither the interface nor the gateway
  of any address, encapsulated and default routes included.\<close>
theorem rt_merge_same_way:
  assumes "rt_reachable tab"
  shows "way_to (rt_merge tab) a = way_to tab a"
proof -
  let ?P = "\<lambda>t. way_to t a = way_to tab a \<and> rtab_ok t"
  have inner: "?P (foldl (\<lambda>tab i. foldl merge_one tab (Routes tab (b - 1) i)) s is)" if "?P s" "0 < b" "b \<le> 32" for s "is" b
    by (rule foldl_inv [of ?P]) (use that merge_bucket_way in \<open>auto\<close>)
  have "?P (foldl (\<lambda>tab b. foldl (\<lambda>tab i. foldl merge_one tab (Routes tab (b - 1) i)) tab [0..<HASHMOD]) s bs)"
    if "?P s" "\<forall>b \<in> set bs. 0 < b \<and> b \<le> 32" for s bs
    using that
  proof (induction bs arbitrary: s)
    case (Cons b bs)
    then have "?P (foldl (\<lambda>tab i. foldl merge_one tab (Routes tab (b - 1) i)) s [0..<HASHMOD])"
      using inner [OF Cons.prems(1)] by simp
    moreover have "\<forall>b \<in> set bs. 0 < b \<and> b \<le> 32" using Cons.prems(2) by simp
    ultimately show ?case using Cons.IH by (simp only: foldl.simps)
  qed simp
  then have "?P (rt_merge tab)"
    unfolding rt_merge_def using rt_reachable_ok [OF assms] by auto
  then show ?thesis by blast
qed

lemma chain_find_store:
  assumes "holds_old tab found old target bits" "0 < b"
  shows "chain_find (rt_store tab found old target bits gateway ifp metric ttl priv) b t =
     (if b = bits \<and> t = target then Some (stored_route old target bits gateway ifp metric ttl priv)
      else chain_find tab b t)"
proof -
  define tab1 where "tab1 = (if rt_target old \<noteq> target \<or> rt_gateway old \<noteq> gateway \<or> rt_iface old \<noteq> Some ifp
      then flush_cache tab else tab)"
  let ?new = "stored_route old target bits gateway ifp metric ttl priv"
  have same: "chain_find tab1 b t = chain_find tab b t" for b t by (simp add: tab1_def)
  have st: "rt_store tab found old target bits gateway ifp metric ttl priv =
      (if bits = 0 then put_route R_default_ref ?new tab1
       else if found then put_route (In_table bits target) ?new tab1 else push_route bits target ?new tab1)"
    unfolding rt_store_def Let_def tab1_def by (rule refl)
  have "chain_find (put_route R_default_ref ?new tab1) b t = chain_find tab1 b t" by (simp add: chain_find_def)
  then show ?thesis
    using assms chain_find_put [of ?new target bits b tab1 t] chain_find_push [of ?new target bits b tab1 t]
    unfolding st same by (cases found; cases "bits = 0") (auto simp: holds_old_def simp del: put_route.simps)
qed

lemma rt_add_fresh:
  assumes "0 < bits" "bits \<le> 32" "bits = 32 \<longrightarrow> ismyaddr env target = None"
    "ifp = Encap \<longrightarrow> gateway \<noteq> 0 \<and> ismyaddr env gateway = None" "chain_find tab bits (mask_target target bits) = None" "0 < b"
  shows "chain_find (fst (rt_add env tab target bits gateway (Some ifp) metric ttl priv)) b t =
     (if b = bits \<and> t = mask_target target bits
      then Some (stored_route no_route (mask_target target bits) bits gateway ifp metric ttl priv)
      else chain_find tab b t)"
proof -
  have "fst (rt_add env tab target bits gateway (Some ifp) metric ttl priv) =
      rt_store tab False no_route (mask_target target bits) bits gateway ifp metric ttl priv"
    using assms by (auto simp: rt_add_def Let_def rt_blookup_found mask_idem)
  then show ?thesis
    using chain_find_store [of tab False no_route "mask_target target bits" bits b] assms by (simp add: holds_old_def mask_idem)
qed

lemma chain_find_init [simp]: "chain_find rt_init b t = None"
  by (simp add: chain_find_def rt_init_def)

lemma chain_find_lookup [simp]: "chain_find (snd (rt_lookup tab a)) b t = chain_find tab b t"
  using rt_lookup_table [of tab a] by auto

lemma permanent_add:
  assumes "rtab_ok tab" "chain_find tab b t = Some rp" "0 < b" "b \<le> 32" "\<not> rt_run rp" "sint ttl > 0"
  shows "chain_find (fst (rt_add env tab target bits gateway iface metric ttl priv)) b t = Some rp"
proof (cases rule: rt_add_cases [of env tab target bits gateway iface metric ttl priv])
  case (2 found old ifp b')
  have "\<not> (b = b' \<and> t = mask_target target b')"
  proof
    assume eq: "b = b' \<and> t = mask_target target b'"
    then have "found \<and> old = rp" using 2(3) assms(2,3) by (auto simp: holds_old_def split: if_splits)
    then show False
      using 2(4) assms(5,6) chain_find_ok [OF _ assms(3,4,2)] assms(1) by (auto simp: rtab_ok_def)
  qed
  then show ?thesis using chain_find_store [OF 2(3) assms(3), of gateway ifp metric ttl priv t] 2(5) assms(2) by auto
qed (use assms(2) in simp)

text \<open>What is learned, one announcement after another.\<close>

fun learn_all :: "ifenv \<Rightarrow> iplearn list \<Rightarrow> rtab \<Rightarrow>
    (u32 \<times> nat \<times> u32 \<times> ifref option \<times> u32 \<times> u32 \<times> axaddr option) list \<Rightarrow> rtab" where
  "learn_all env il tab [] = tab"
| "learn_all env il tab ((target, bits, gateway, iface, metric, ttl, call) # as) =
     learn_all env il (fst (rt_learn env il tab target bits gateway iface metric ttl call)) as"

text \<open>A route that was entered by hand (its timer does not run) stays as it is, whatever is learned: no sequence
  of announcements with a lifetime, for this or any other prefix, changes it.\<close>
theorem permanent_route_stays:
  assumes "rt_reachable tab" "chain_find tab b t = Some rp" "0 < b" "b \<le> 32" "\<not> rt_run rp"
    "\<forall>(target, bits, gateway, iface, metric, ttl, call) \<in> set as. sint ttl > 0"
  shows "chain_find (learn_all env il tab as) b t = Some rp"
  using rt_reachable_ok [OF assms(1)] assms(2,6)
proof (induction env il tab as rule: learn_all.induct)
  case (2 env il tab target bits gateway iface metric ttl call as)
  let ?tab' = "fst (rt_learn env il tab target bits gateway iface metric ttl call)"
  have "chain_find ?tab' b t = Some rp"
    using permanent_add [OF 2(2,3) assms(3-5)] 2(3,4) by (simp add: rt_learn_def Let_def)
  then show ?case using 2 rt_learn_ok [OF 2(2)] by simp
qed simp

definition learned_sample :: "(u32 \<times> nat \<times> u32 \<times> ifref option \<times> u32 \<times> u32 \<times> axaddr option) list" where
  "learned_sample = [(0x2c000000, 8, 0x2c000063, Some (Port 1), 1, 300, None),
     (0x2c050000, 16, 0x2c000064, Some (Port 1), 1, 300, None)]"

lemma permanent_route_stays_witness:
  "\<exists>rp. chain_find (learn_all sample_env [] sample_tab learned_sample) 8 0x2c000000 = Some rp \<and> rt_gateway rp = 0x2c000009"
proof -
  have r: "rt_reachable sample_tab"
    unfolding sample_tab_def by (intro rt_reachable.step [OF _ step_add] rt_reachable.step [OF _ step_lookup] start)
  have "chain_find sample_tab 8 0x2c000000 = Some (stored_route no_route 0x2c000000 8 0x2c000009 (Port 0) 1 0 False)"
    unfolding sample_tab_def by (subst rt_add_fresh; simp add: rt_add_fresh mask_target_def mask_eq_exp_minus_1)
  from permanent_route_stays [OF r this, of learned_sample sample_env "[]"] show ?thesis
    by (auto simp: learned_sample_def route_msecs_def)
qed

lemma rt_merge_same_way_witness: "way_to (rt_merge sample_tab) 0x2c010203 = way_to sample_tab 0x2c010203"
proof -
  have "rt_reachable sample_tab"
    unfolding sample_tab_def by (intro rt_reachable.step [OF _ step_add] rt_reachable.step [OF _ step_lookup] start)
  then show ?thesis using rt_merge_same_way by blast
qed

section \<open>Two tunnels into each other\<close>

definition tunnel_tab :: rtab where
  "tunnel_tab = fst (rt_add sample_env (fst (rt_add sample_env rt_init 0x2d000000 8 0x2e000001 (Some Encap) 1 0 False))
     0x2e000000 8 0x2d000001 (Some Encap) 1 0 False)"

lemma tunnel_find:
  "0 < b \<Longrightarrow> chain_find tunnel_tab b t =
     (if b = 8 \<and> t = 0x2e000000 then Some (stored_route no_route 0x2e000000 8 0x2d000001 Encap 1 0 False)
      else if b = 8 \<and> t = 0x2d000000 then Some (stored_route no_route 0x2d000000 8 0x2e000001 Encap 1 0 False) else None)"
  unfolding tunnel_tab_def
  by (subst rt_add_fresh; simp add: rt_add_fresh mask_target_def mask_eq_exp_minus_1 ismyaddr_def sample_env_def)

lemma tunnel_route:
  assumes "a = 0x2d000001 \<and> g = 0x2e000001 \<or> a = 0x2e000001 \<and> g = 0x2d000001"
  shows "\<exists>t. best_route tunnel_tab a = Some (In_table 8 t) \<and>
     map_option (\<lambda>rp. (rt_iface rp, rt_gateway rp)) (chain_find tunnel_tab 8 t) = Some (Some Encap, g)"
proof -
  have "fits_at tunnel_tab a 8" "\<And>b. 8 < b \<Longrightarrow> \<not> fits_at tunnel_tab a b"
    using assms by (auto simp: fits_at_def tunnel_find route_fits_def mask_target_def mask_eq_exp_minus_1)
  then have "best_route tunnel_tab a = Some (In_table 8 (mask_target a 8))" by (intro best_route_table) auto
  then show ?thesis using assms by (auto simp: tunnel_find mask_target_def mask_eq_exp_minus_1)
qed

lemma tunnel_hop:
  assumes "rtab_ok (tunnel_tab\<lparr>Rt_cache := c\<rparr>)" "a = 0x2d000001 \<and> g = 0x2e000001 \<or> a = 0x2e000001 \<and> g = 0x2d000001"
  obtains r c' where "rt_lookup (tunnel_tab\<lparr>Rt_cache := c\<rparr>) a = (Some r, tunnel_tab\<lparr>Rt_cache := c'\<rparr>)"
    "map_option (\<lambda>rp. (rt_iface rp, rt_gateway rp)) (deref (tunnel_tab\<lparr>Rt_cache := c'\<rparr>) r) = Some (Some Encap, g)"
    "rtab_ok (tunnel_tab\<lparr>Rt_cache := c'\<rparr>)"
proof -
  let ?tab = "tunnel_tab\<lparr>Rt_cache := c\<rparr>"
  obtain t where t: "best_route tunnel_tab a = Some (In_table 8 t)"
      "map_option (\<lambda>rp. (rt_iface rp, rt_gateway rp)) (chain_find tunnel_tab 8 t) = Some (Some Encap, g)"
    using tunnel_route [OF assms(2)] by blast
  obtain c' where c': "snd (rt_lookup ?tab a) = tunnel_tab\<lparr>Rt_cache := c'\<rparr>" using rt_lookup_table [of ?tab a] by auto
  have "fst (rt_lookup ?tab a) = Some (In_table 8 t)" using rt_lookup_best [of ?tab a] assms(1) t(1) by (simp add: rtab_ok_def)
  then have l: "rt_lookup ?tab a = (Some (In_table 8 t), tunnel_tab\<lparr>Rt_cache := c'\<rparr>)" using c' by (simp add: prod_eq_iff)
  have "rtab_ok (tunnel_tab\<lparr>Rt_cache := c'\<rparr>)" using rt_lookup_ok [OF assms(1), of a] c' by simp
  then show thesis using that [OF l] t(2) by simp
qed

lemma tunnel_mtu:
  "rtab_ok (tunnel_tab\<lparr>Rt_cache := c\<rparr>) \<Longrightarrow> a = 0x2d000001 \<or> a = 0x2e000001 \<Longrightarrow>
     ip_mtu fuel env (tunnel_tab\<lparr>Rt_cache := c\<rparr>) a = None"
proof (induction fuel arbitrary: a c)
  case (Suc fuel)
  obtain g where g: "a = 0x2d000001 \<and> g = 0x2e000001 \<or> a = 0x2e000001 \<and> g = (0x2d000001 :: u32)"
    using Suc.prems(2) by blast
  obtain r c' where h: "rt_lookup (tunnel_tab\<lparr>Rt_cache := c\<rparr>) a = (Some r, tunnel_tab\<lparr>Rt_cache := c'\<rparr>)"
    "map_option (\<lambda>rp. (rt_iface rp, rt_gateway rp)) (deref (tunnel_tab\<lparr>Rt_cache := c'\<rparr>) r) = Some (Some Encap, g)"
    "rtab_ok (tunnel_tab\<lparr>Rt_cache := c'\<rparr>)"
    by (rule tunnel_hop [OF Suc.prems(1) g])
  have "ip_mtu fuel env (tunnel_tab\<lparr>Rt_cache := c'\<rparr>) g = None"
    by (rule Suc.IH [OF h(3)]) (use g in \<open>elim disjE; simp\<close>)
  moreover obtain rp where "deref (tunnel_tab\<lparr>Rt_cache := c'\<rparr>) r = Some rp" "rt_iface rp = Some Encap" "rt_gateway rp = g"
    using h(2) by blast
  ultimately show ?case by (simp only: ip_mtu.simps h(1) Let_def prod.case Option.bind.simps option.case option.map) simp
qed simp

text \<open>\<^verbatim>\<open>ip_mtu\<close> does not return when two encapsulated routes lead to each other's gateway (and
  \<^verbatim>\<open>rt_add\<close> accepts such routes): no number of recursive calls is enough (\<^verbatim>\<open>rt_lookup\<close> only skips a route whose gateway
  is the very address looked up).\<close>
theorem ip_mtu_diverges:
  "\<forall>fuel. ip_mtu fuel sample_env tunnel_tab 0x2d000001 = None"
proof -
  have "rt_reachable tunnel_tab"
    unfolding tunnel_tab_def by (intro rt_reachable.step [OF _ step_add] start)
  then have "rtab_ok (tunnel_tab\<lparr>Rt_cache := Rt_cache tunnel_tab\<rparr>)" using rt_reachable_ok by simp
  from tunnel_mtu [OF this] show ?thesis by simp
qed

section \<open>A learned route that gets stuck\<close>

text \<open>A route learned from passing traffic (\<^verbatim>\<open>ip_route\<close> gives it the largest lifetime) that times out is not
  removed and not aged any further: it stays in the table with metric 16 and a timer that does not run,
  so that it counts as entered by hand and the address cannot be learned again.\<close>
theorem learned_route_stuck:
  "let learn = (\<lambda>tab. rt_learn sample_env [] tab 0x2c050607 32 0 (Some (Port 1)) 1 (0x7fffffff div 1000) None);
       tab = rt_timeout (fst (learn rt_init)) (In_table 32 0x2c050607)
   in snd (learn rt_init) \<noteq> None \<and> snd (learn tab) = None \<and>
      map_option (\<lambda>rp. (rt_metric rp, rt_run rp)) (chain_find tab 32 0x2c050607) = Some (16, False)"
proof -
  let ?a = "0x2c050607 :: u32"
  let ?learn = "\<lambda>tab. rt_learn sample_env [] tab ?a 32 0 (Some (Port 1)) 1 (0x7fffffff div 1000) None"
  let ?rp = "stored_route no_route ?a 32 0 (Port 1) 1 (0x7fffffff div 1000) False"
  let ?dead = "?rp\<lparr>rt_run := False, rt_metric := RIP_INFINITY, rt_dur := 0, rt_trig := True\<rparr>"
  have may: "ip_may_learn [] target bits what call ifp" for target bits what call ifp
    by (simp add: ip_may_learn_def may_learn_def)
  have m: "mask_target ?a 32 = ?a" by (rule mask_32)
  have ttl: "(0x7fffffff div 1000 :: u32) = 2147483" by simp
  have me: "ismyaddr sample_env ?a = None" by (simp add: ismyaddr_def sample_env_def)
  have first: "chain_find (fst (?learn rt_init)) 32 ?a = Some ?rp" "snd (?learn rt_init) \<noteq> None"
    using rt_add_fresh [of 32 sample_env ?a "Port 1" 0 rt_init 32 1 "0x7fffffff div 1000" False ?a] me
    by (simp_all add: rt_learn_def Let_def may m) (simp add: rt_add_def Let_def m rt_blookup_def)
  then have dead: "rt_timeout (fst (?learn rt_init)) (In_table 32 ?a) = put_route (In_table 32 ?a) ?dead (fst (?learn rt_init))"
    unfolding ttl by (simp add: rt_timeout_def Let_def RIP_INFINITY_def route_msecs_def no_route_def del: put_route.simps)
  then have f: "chain_find (rt_timeout (fst (?learn rt_init)) (In_table 32 ?a)) 32 ?a = Some ?dead"
    using first(1) chain_find_put [of ?dead ?a 32 32 "fst (?learn rt_init)" ?a] by simp
  then have "snd (?learn (rt_timeout (fst (?learn rt_init)) (In_table 32 ?a))) = None"
    by (simp add: rt_learn_def Let_def may m rt_add_def me rt_blookup_def)
  then show ?thesis using f first(2) by (simp only: Let_def option.map) (simp add: RIP_INFINITY_def)
qed

end
