(* ===== verification/Ip_Route.thy ===== *)
theory Ip_Route
  imports Ip_Reasm Ip_Table
begin

text \<open>
  The hopper of \<^verbatim>\<open>src/src/iproute.c\<close>: \<^verbatim>\<open>ip_route\<close> with its option processing, the TTL and checksum
  adjustment, the choice of the route and the fragmentation loop, and \<^verbatim>\<open>q_pkt\<close>.  What leaves it - ICMP
  messages, packets for the layer above, packets handed to an interface - is a list of events.

  The header is a variable on the stack; the options follow its length octet \<^verbatim>\<open>ip.optlen\<close> directly, so
  a write in front of the options hits that octet.  The model keeps both in one list, and reading
  or writing beyond its 41 octets is the result \<open>Opt_overrun\<close>.

  Shown: every packet that is forwarded carries a correct header checksum, also when it was only
  adjusted for the TTL; the fragments that are made fit the interface and are put together by
  \<^verbatim>\<open>fraghandle\<close> to the original datagram, in whatever order they arrive; the option loop ends, and
  stays inside the header unless the first option is a route option with pointer 0.
\<close>

section \<open>What a packet can cause\<close>

record host =
  h_le :: bool
  h_al :: "nat \<Rightarrow> bool"
  h_fits :: bool
  h_avail :: nat

datatype ip_event =
  is_Icmp_output: Icmp_output ip byte byte u32
| Ip_recv "ifref option" ip chain bool
| Send ifref u32 byte chain

definition ICMP_TIME_EXCEED :: byte where "ICMP_TIME_EXCEED = 11"
definition ICMP_HOST_UNREACH :: byte where "ICMP_HOST_UNREACH = 1"
definition ICMP_ROUTE_FAIL :: byte where "ICMP_ROUTE_FAIL = 5"

section \<open>Options\<close>

definition OPT_NUMBER :: byte where "OPT_NUMBER = 0x1f"
definition IP_EOL :: byte where "IP_EOL = 0"
definition IP_NOOP :: byte where "IP_NOOP = 1"
definition IP_LSROUTE :: byte where "IP_LSROUTE = 3"
definition IP_RROUTE :: byte where "IP_RROUTE = 7"
definition IP_SSROUTE :: byte where "IP_SSROUTE = 9"

text \<open>\<open>op_mem\<close> is \<^verbatim>\<open>ip.optlen\<close> followed by \<^verbatim>\<open>ip.options\<close>; \<open>op_good\<close> is \<^verbatim>\<open>ckgood == IP_CS_OLD\<close>.\<close>

record opts =
  op_mem :: "byte list"
  op_dest :: u32
  op_strict :: bool
  op_good :: bool
  op_tab :: rtab
  op_out :: "ip_event list"

datatype opt_result = Opt_ok opts | Opt_drop opts | Opt_overrun

definition op_ip :: "ip \<Rightarrow> opts \<Rightarrow> ip" where
  "op_ip ip s = ip\<lparr>ip_optlen := hd (op_mem s), ip_options := tl (op_mem s), ip_dest := op_dest s\<rparr>"

definition param_prob :: "ip \<Rightarrow> bool \<Rightarrow> nat \<Rightarrow> opts \<Rightarrow> opts" where
  "param_prob ip rxbroadcast i s =
     (if rxbroadcast then s
      else s\<lparr>op_out := op_out s @ [Icmp_output (op_ip ip s) ICMP_PARAM_PROB 0 (of_nat (IPLEN + i))]\<rparr>)"

text \<open>\<open>rd\<close> and \<open>wr\<close> index \<^verbatim>\<open>ip.options\<close>; \<^verbatim>\<open>&opt[pointer-1]\<close> of the option at \<open>i\<close> is cell \<open>i + pointer\<close> of the list.\<close>

definition rd :: "opts \<Rightarrow> nat \<Rightarrow> byte option" where
  "rd s i = (if Suc i < length (op_mem s) then Some (op_mem s ! Suc i) else None)"

definition wr :: "nat \<Rightarrow> byte list \<Rightarrow> opts \<Rightarrow> opts" where
  "wr k bs s = s\<lparr>op_mem := take k (op_mem s) @ bs @ drop (k + length bs) (op_mem s)\<rparr>"

text \<open>Put our address into the route field of the option at \<open>i\<close> and bump its pointer.\<close>

definition stamp_route :: "ifenv \<Rightarrow> nat \<Rightarrow> nat \<Rightarrow> opts \<Rightarrow> opts" where
  "stamp_route env i pointer s =
     (let (addr, tab) = locaddr env (op_tab s) (op_dest s);
          s = wr (i + pointer) (put32 addr) (s\<lparr>op_tab := tab\<rparr>)
      in wr (i + 3) [op_mem s ! (i + 3) + 4] s\<lparr>op_good := False\<rparr>)"

definition route_option :: "ifenv \<Rightarrow> ip \<Rightarrow> bool \<Rightarrow> byte \<Rightarrow> nat \<Rightarrow> nat \<Rightarrow> opts \<Rightarrow> opt_result" where
  "route_option env ip rxbroadcast opt i opt_len s =
     (if opt = IP_SSROUTE \<or> opt = IP_LSROUTE
      then let s = (if opt = IP_SSROUTE then s\<lparr>op_strict := True\<rparr> else s)
           in if opt_len < 3 then Opt_drop (param_prob ip rxbroadcast i s)
           else if ismyaddr env (op_dest s) = None then Opt_ok s
           else (case rd s (i + 2) of
                   None \<Rightarrow> Opt_overrun
                 | Some p \<Rightarrow>
                     let pointer = unat p
                     in if pointer + 4 > opt_len then Opt_ok s
                     else if i + pointer + 3 \<ge> length (op_mem s) then Opt_overrun
                     else let m = op_mem s; k = i + pointer
                          in Opt_ok (stamp_route env i pointer
                               (s\<lparr>op_dest := get32 (m ! k) (m ! (k + 1)) (m ! (k + 2)) (m ! (k + 3))\<rparr>)))
      else if opt = IP_RROUTE
      then (if opt_len < 3 then Opt_drop (param_prob ip rxbroadcast i s)
            else case rd s (i + 2) of
                   None \<Rightarrow> Opt_overrun
                 | Some p \<Rightarrow>
                     let pointer = unat p
                     in if pointer + 4 > opt_len
                        then let s = param_prob ip rxbroadcast i s
                             in if pointer \<noteq> opt_len then Opt_drop s else Opt_ok s
                     else if i + pointer + 3 \<ge> length (op_mem s) then Opt_overrun
                     else Opt_ok (stamp_route env i pointer s))
      else Opt_ok s)"

function opt_loop :: "ifenv \<Rightarrow> ip \<Rightarrow> bool \<Rightarrow> nat \<Rightarrow> opts \<Rightarrow> opt_result" where
  "opt_loop env ip rxbroadcast i s =
     (let optlen = unat (hd (op_mem s))
      in if i \<ge> optlen then Opt_ok s
      else case rd s i of
        None \<Rightarrow> Opt_overrun
      | Some b \<Rightarrow>
          if b AND OPT_NUMBER = IP_EOL then Opt_ok s
          else if b AND OPT_NUMBER = IP_NOOP then opt_loop env ip rxbroadcast (i + 1) s
          else if optlen - i < 2 then Opt_drop (param_prob ip rxbroadcast i s)
          else (case rd s (i + 1) of
            None \<Rightarrow> Opt_overrun
          | Some l \<Rightarrow>
              let opt_len = unat l
              in if opt_len < 2 \<or> optlen - i < opt_len then Opt_drop (param_prob ip rxbroadcast i s)
                 else (case route_option env ip rxbroadcast (b AND OPT_NUMBER) i opt_len s of
                         Opt_ok s' \<Rightarrow> opt_loop env ip rxbroadcast (i + opt_len) s'
                       | r \<Rightarrow> r)))"
  by pat_completeness auto
termination
proof (relation "measure (\<lambda>(env, ip, rx, i, s). 256 - i)", goal_cases)
  case (2 env ip rx i s optlen b)
  then show ?case using unat_byte_less [of "hd (op_mem s)"] by simp
next
  case (3 env ip rx i s optlen b l opt_len s')
  then show ?case using unat_byte_less [of "hd (op_mem s)"] by auto
qed simp

declare opt_loop.simps [simp del]

section \<open>Time to live\<close>

text \<open>The incremental update of the checksum for a TTL that is about to be decremented.\<close>

definition ttl_checksum :: "u32 \<Rightarrow> u32" where
  "ttl_checksum c =
     (let c = c + 0x100
      in if c AND 0xff00 = 0 then c + 1 else c)"

section \<open>Output\<close>

definition q_pkt :: "host \<Rightarrow> ifenv \<Rightarrow> ifref \<Rightarrow> u32 \<Rightarrow> ip \<Rightarrow> chain \<Rightarrow> bool \<Rightarrow> ip_event list \<times> bool" where
  "q_pkt h env iface gateway ip bpp ckgood =
     (let pkt = htonip (h_le h) (h_al h) (h_fits h) ip bpp ckgood
      in if if_send (if_of env iface) then ([Send iface gateway (ip_tos ip AND 0xfc) pkt], True)
         else ([], False))"

text \<open>
  The fragmentation loop: \<open>length\<close> is the data left, \<open>rel\<close> is \<^verbatim>\<open>ip.offset - offset\<close>.  When the room for
  data is under 8 bytes the fragment size is 0 and \<^verbatim>\<open>dup_p\<close> returns NULL; when the MTU is smaller than
  the header, the subtraction wraps and the loop runs off the end of the data.
\<close>

function frag_loop ::
  "host \<Rightarrow> ifenv \<Rightarrow> ifref \<Rightarrow> u32 \<Rightarrow> u32 \<Rightarrow> bool \<Rightarrow> chain \<Rightarrow> ip \<Rightarrow> u32 \<Rightarrow> nat \<Rightarrow> ip_event list \<times> bool" where
  "frag_loop h env iface gateway hlen mf_flag bp ip len rel =
     (if len = 0 then ([], True)
      else let mtu = if_mtu (if_of env iface);
               rest_fits = (len + hlen \<le> mtu);
               fragsize = (if rest_fits then len else (mtu - hlen) AND 0xfff8);
               ip = ip\<lparr>ip_mf := (if rest_fits then mf_flag else True), ip_len := fragsize + hlen\<rparr>;
               f_data = snd (dup_p (h_avail h) bp rel (unat fragsize))
           in if f_data = [] then ([], False)
              else let (out, ok) = q_pkt h env iface gateway ip f_data False
              in if \<not> ok then (out, False)
              else let (out', ok') = frag_loop h env iface gateway hlen mf_flag bp
                         (ip\<lparr>ip_offset := ip_offset ip + fragsize\<rparr>) (len - fragsize) (rel + unat fragsize)
                   in (out @ out', ok'))"
  by pat_completeness auto
termination
proof (relation "measure (\<lambda>(h, env, iface, gateway, hlen, mf_flag, bp, ip, len, rel). length (content bp) - rel)", goal_cases)
  case (2 h env iface gateway hlen mf_flag bp ip len rel mtu rest_fits fragsize ip' f_data x out ok)
  have "fragsize \<noteq> 0" using 2(6,7) by (auto simp: dup_p_def)
  moreover have "rel < length (content bp)"
  proof (rule ccontr)
    assume "\<not> rel < length (content bp)"
    moreover obtain s r o' where "skip_p bp rel = (s # r, o')"
      using 2(6,7) by (cases "skip_p bp rel"; cases "fst (skip_p bp rel)") (auto simp: dup_p_def split: if_splits)
    ultimately show False using skip_p_drop [of bp rel "s # r" o'] by (auto dest: arg_cong [of _ _ length])
  qed
  moreover have "0 < unat fragsize" using calculation(1) by (simp add: unat_gt_0)
  ultimately show ?case by simp
qed simp

declare frag_loop.simps [simp del]

section \<open>The hopper\<close>

text \<open>\<^verbatim>\<open>ip_route\<close> does not look at what \<^verbatim>\<open>ntohip\<close> returns: \<open>ntohip_out\<close> is what the call leaves in \<^verbatim>\<open>ip\<close> and \<^verbatim>\<open>*bpp\<close>,
  also when it failed.\<close>

definition ntohip_out :: "ip \<Rightarrow> chain \<Rightarrow> ip \<times> chain" where
  "ntohip_out ip bpp =
     (let (ipbuf, bpp) = pullup bpp IPLEN
      in if length ipbuf \<noteq> IPLEN then (ip, bpp)
         else let ip = ntohip_fixed ip ipbuf;
                  ihl = unat (ipbuf ! 0 AND 0xf) * 4
              in if ihl < IPLEN then (ip\<lparr>ip_optlen := 0\<rparr>, bpp)
                 else if ihl - IPLEN \<noteq> 0
                 then let (opts, bpp) = pullup bpp (ihl - IPLEN)
                      in (ip\<lparr>ip_optlen := of_nat (ihl - IPLEN),
                             ip_options := opts @ drop (length opts) (ip_options ip)\<rparr>, bpp)
                 else (ip\<lparr>ip_optlen := 0\<rparr>, bpp))"

record hop =
  hp_out :: "ip_event list"
  hp_ok :: bool
  hp_tab :: rtab

text \<open>The part after the options: local delivery, TTL, route, fragmentation.\<close>

definition ip_forward :: "host \<Rightarrow> ifenv \<Rightarrow> ifref option \<Rightarrow> bool \<Rightarrow> nat \<Rightarrow> ip \<Rightarrow> chain \<Rightarrow> bool \<Rightarrow> bool \<Rightarrow> rtab \<Rightarrow> hop" where
  "ip_forward h env i_iface rxbroadcast hlen ip bpp strict ckgood tab =
     (if ismyaddr env (ip_dest ip) \<noteq> None \<or> rxbroadcast
      then \<lparr>hp_out = [Ip_recv i_iface ip bpp rxbroadcast], hp_ok = True, hp_tab = tab\<rparr>
      else let ip = ip\<lparr>ip_cksum := ttl_checksum (ip_cksum ip), ip_ttl := ip_ttl ip - 1\<rparr>
      in if ip_ttl ip = 0
         then \<lparr>hp_out = [Icmp_output ip ICMP_TIME_EXCEED 0 0], hp_ok = False, hp_tab = tab\<rparr>
      else let (r, tab) = rt_lookup tab (ip_dest ip)
      in case r of
        None \<Rightarrow> \<lparr>hp_out = [Icmp_output ip ICMP_DEST_UNREACH ICMP_HOST_UNREACH 0], hp_ok = False, hp_tab = tab\<rparr>
      | Some ref \<Rightarrow>
        let rp = the (deref tab ref);
            tab = put_route ref (rp\<lparr>rt_uses := Suc (rt_uses rp)\<rparr>) tab;
            iface = the (rt_iface rp);
            iface = (case if_forw (if_of env iface) of None \<Rightarrow> iface | Some f \<Rightarrow> f);
            gateway = (if rt_gateway rp = 0 then ip_dest ip else rt_gateway rp);
            mtu = if_mtu (if_of env iface)
        in if strict \<and> gateway \<noteq> ip_dest ip
           then \<lparr>hp_out = [Icmp_output ip ICMP_DEST_UNREACH ICMP_ROUTE_FAIL 0], hp_ok = False, hp_tab = tab\<rparr>
           else if ip_len ip \<le> mtu
           then (let (out, ok) = q_pkt h env iface gateway ip bpp ckgood
                 in \<lparr>hp_out = out, hp_ok = ok, hp_tab = tab\<rparr>)
           else if ip_df ip
           then \<lparr>hp_out = [Icmp_output ip ICMP_DEST_UNREACH ICMP_FRAG_NEEDED mtu], hp_ok = False, hp_tab = tab\<rparr>
           else (let (out, ok) = frag_loop h env iface gateway (of_nat hlen) (ip_mf ip) bpp ip (ip_len ip - of_nat hlen) 0
                 in \<lparr>hp_out = out, hp_ok = ok, hp_tab = tab\<rparr>))"

text \<open>\<^verbatim>\<open>ip_route\<close>: \<open>None\<close> when the option loop leaves the header; \<open>ip0\<close> is what was on the stack.\<close>

definition ip_route :: "host \<Rightarrow> ifenv \<Rightarrow> filt list \<Rightarrow> iplearn list \<Rightarrow> ip \<Rightarrow> ifref option \<Rightarrow> chain \<Rightarrow> bool \<Rightarrow> rtab \<Rightarrow> hop option" where
  "ip_route h env fl il ip0 i_iface bpp rxbroadcast tab =
     (let drop_it = Some \<lparr>hp_out = [], hp_ok = False, hp_tab = tab\<rparr>
      in if len_p bpp < IPLEN then drop_it
      else let hlen = unat (hd (hd bpp) AND 0xf) * 4
      in if hlen < IPLEN then drop_it
      else if cksum (h_le h) (h_al h) None bpp hlen \<noteq> 0 then drop_it
      else let (ip, bpp) = ntohip_out ip0 bpp
      in if ip_version ip \<noteq> 4 then drop_it
      else if \<not> ipfilter fl (ip_source ip) \<or> \<not> ipfilter fl (ip_dest ip) then drop_it
      else let tab = (if if_learns_routes env i_iface \<and> ismyaddr env (ip_source ip) = None
                      then fst (rt_learn env il tab (ip_source ip) 32 0 i_iface 1 (0x7fffffff div 1000) None) else tab)
      in case opt_loop env ip rxbroadcast 0
                \<lparr>op_mem = ip_optlen ip # ip_options ip, op_dest = ip_dest ip, op_strict = False, op_good = True,
                 op_tab = tab, op_out = []\<rparr> of
           Opt_overrun \<Rightarrow> None
         | Opt_drop s \<Rightarrow> Some \<lparr>hp_out = op_out s, hp_ok = False, hp_tab = op_tab s\<rparr>
         | Opt_ok s \<Rightarrow>
             (let r = ip_forward h env i_iface rxbroadcast hlen (op_ip ip s) bpp (op_strict s) (op_good s) (op_tab s)
              in Some (r\<lparr>hp_out := op_out s @ hp_out r\<rparr>)))"

section \<open>The options stay inside the header\<close>

lemma locaddr_ok: "rtab_ok tab \<Longrightarrow> rtab_ok (snd (locaddr env tab a))"
  using rt_lookup_ok by (auto simp: locaddr_def Let_def split: prod.split) (metis snd_conv)+

text \<open>What every option keeps: the size of the header, and its length octet when the option does not
  point in front of itself.\<close>

lemma length_wr [simp]: "k + length bs \<le> length (op_mem s) \<Longrightarrow> length (op_mem (wr k bs s)) = length (op_mem s)"
  by (simp add: wr_def)

lemma hd_wr [simp]: "0 < k \<Longrightarrow> k + length bs \<le> length (op_mem s) \<Longrightarrow> hd (op_mem (wr k bs s)) = hd (op_mem s)"
  by (cases "op_mem s"; cases k) (auto simp: wr_def)

lemma stamp_route_mem:
  assumes "i + pointer + 3 < length (op_mem s)" "i + 3 < length (op_mem s)"
  shows "length (op_mem (stamp_route env i pointer s)) = length (op_mem s)"
    "0 < i + pointer \<Longrightarrow> hd (op_mem (stamp_route env i pointer s)) = hd (op_mem s)"
  using assms by (auto simp: stamp_route_def Let_def split: prod.split)

lemma param_prob_mem [simp]: "op_mem (param_prob ip rx i s) = op_mem s"
  by (simp add: param_prob_def)

definition opt_keeps :: "opts \<Rightarrow> opts \<Rightarrow> bool" where
  "opt_keeps s s' \<longleftrightarrow> length (op_mem s') = length (op_mem s) \<and> hd (op_mem s') = hd (op_mem s) \<and>
     (op_good s' \<longrightarrow> op_good s \<and> op_mem s' = op_mem s \<and> op_dest s' = op_dest s)"

definition opt_tells :: "opts \<Rightarrow> opts \<Rightarrow> bool" where
  "opt_tells s s' \<longleftrightarrow> (\<forall>e \<in> set (op_out s'). e \<in> set (op_out s) \<or> is_Icmp_output e)"

definition opt_safe :: "opts \<Rightarrow> opt_result \<Rightarrow> bool" where
  "opt_safe s r = (case r of Opt_overrun \<Rightarrow> False | Opt_drop s' \<Rightarrow> opt_tells s s' | Opt_ok s' \<Rightarrow> opt_keeps s s' \<and> opt_tells s s')"

lemma opt_safe_refl [simp]: "opt_safe s (Opt_ok s)" "opt_safe s (Opt_drop (param_prob ip rx i s))"
  by (auto simp: opt_safe_def opt_keeps_def opt_tells_def param_prob_def)

lemma opt_safe_trans: "opt_safe s (Opt_ok s') \<Longrightarrow> opt_safe s' r \<Longrightarrow> opt_safe s r"
  by (auto simp: opt_safe_def opt_keeps_def opt_tells_def split: opt_result.splits)

lemma stamp_route_out [simp]:
  "op_out (stamp_route env i pointer s) = op_out s" "\<not> op_good (stamp_route env i pointer s)"
  by (simp_all add: stamp_route_def wr_def Let_def split: prod.split)

lemma opt_strict [simp]:
  "opt_safe s (Opt_ok (s\<lparr>op_strict := b\<rparr>))" "opt_safe s (Opt_drop (param_prob ip rx i (s\<lparr>op_strict := b\<rparr>)))"
  "opt_safe s (Opt_ok (param_prob ip rx i s))"
  by (auto simp: opt_safe_def opt_keeps_def opt_tells_def param_prob_def)

lemma route_option_safe:
  assumes len: "length (op_mem s) = Suc IP_MAXOPT" and i: "i + opt_len \<le> IP_MAXOPT" "2 \<le> opt_len"
    and p: "i = 0 \<Longrightarrow> op_mem s ! 3 \<noteq> 0"
  shows "opt_safe s (route_option env ip rx opt i opt_len s)"
proof (cases "opt_len < 3")
  case True
  then show ?thesis by (simp add: route_option_def Let_def opt_strict)
next
  case False
  have rd: "rd s (i + 2) = Some (op_mem s ! (i + 3))" using len i False by (simp add: rd_def IP_MAXOPT_def numeral_3_eq_3)
  let ?p = "unat (op_mem s ! (i + 3))"
  have pos: "0 < i + ?p" using p by (cases "i = 0") (simp_all add: unat_gt_0)
  have room: "i + ?p + 3 < length (op_mem s)" "i + 3 < length (op_mem s)" if "\<not> opt_len < ?p + 4"
    using that i len by simp_all
  have st: "length (op_mem (stamp_route env i ?p s')) = length (op_mem s) \<and> hd (op_mem (stamp_route env i ?p s')) = hd (op_mem s)"
    if "op_mem s' = op_mem s" "\<not> opt_len < ?p + 4" for s'
    using that room [OF that(2)] stamp_route_mem [of i ?p s'] pos by simp
  have rd': "rd (s\<lparr>op_strict := b\<rparr>) k = rd s k" for b k by (simp add: rd_def)
  show ?thesis
  proof (cases "opt_len < ?p + 4")
    case True
    then show ?thesis using False rd rd' by (simp add: route_option_def Let_def opt_strict)
  next
    case big: False
    have "opt_safe s (Opt_ok (stamp_route env i ?p s'))" if "op_mem s' = op_mem s" "op_out s' = op_out s" for s'
      using st [OF that(1) big] that(2) by (simp add: opt_safe_def opt_keeps_def opt_tells_def)
    then show ?thesis using False rd rd' room [OF big]
      by (simp add: route_option_def Let_def not_le opt_strict)
  qed
qed

lemma opt_loop_safe:
  "length (op_mem s) = Suc IP_MAXOPT \<Longrightarrow> unat (hd (op_mem s)) \<le> IP_MAXOPT \<Longrightarrow> (i = 0 \<Longrightarrow> op_mem s ! 3 \<noteq> 0) \<Longrightarrow>
     opt_safe s (opt_loop env ip rx i s)"
proof (induction env ip rx i s rule: opt_loop.induct)
  case (1 env ip rx i s)
  let ?optlen = "unat (hd (op_mem s))"
  show ?case
  proof (cases "i \<ge> ?optlen")
    case False
    define b where "b = op_mem s ! Suc i"
    have rb: "rd s i = Some b" using False 1(3,4) by (simp add: rd_def b_def)
    consider "b AND OPT_NUMBER = IP_EOL" | "b AND OPT_NUMBER \<noteq> IP_EOL" "b AND OPT_NUMBER = IP_NOOP"
      | "b AND OPT_NUMBER \<noteq> IP_EOL" "b AND OPT_NUMBER \<noteq> IP_NOOP" by blast
    then show ?thesis
    proof cases
      case 1
      then show ?thesis using False rb by (simp add: opt_loop.simps [of _ _ _ i s])
    next
      case 2
      then have "opt_safe s (opt_loop env ip rx (i + 1) s)" using "1.IH"(1) False rb "1.prems" by simp
      then show ?thesis using False rb 2 by (simp add: opt_loop.simps [of _ _ _ i s])
    next
      case 3
      show ?thesis
      proof (cases "?optlen - i < 2")
        case True
        then show ?thesis using False rb 3 by (simp add: opt_loop.simps [of _ _ _ i s])
      next
        case two: False
        define l where "l = op_mem s ! (i + 2)"
        have rl: "rd s (i + 1) = Some l" using two "1.prems" by (simp add: rd_def l_def)
        show ?thesis
        proof (cases "unat l < 2 \<or> ?optlen - i < unat l")
          case True
          then show ?thesis using False rb 3 two rl by (simp add: opt_loop.simps [of _ _ _ i s])
        next
          case fits: False
          have safe: "opt_safe s (route_option env ip rx (b AND OPT_NUMBER) i (unat l) s)"
            using fits "1.prems" two by (intro route_option_safe) auto
          show ?thesis
          proof (cases "route_option env ip rx (b AND OPT_NUMBER) i (unat l) s")
            case (Opt_ok s')
            then have "opt_keeps s s'" using safe by (simp add: opt_safe_def)
            then have "opt_safe s' (opt_loop env ip rx (i + unat l) s')"
              using "1.IH"(2) [OF refl False rb 3 two rl refl fits Opt_ok] "1.prems" fits by (simp add: opt_keeps_def)
            then have "opt_safe s (opt_loop env ip rx (i + unat l) s')" using safe [unfolded Opt_ok] by (rule opt_safe_trans [rotated])
            then show ?thesis using False rb 3 two rl fits Opt_ok
              by (simp add: opt_loop.simps [of _ _ _ i s])
          qed (use False rb 3 two rl fits safe in \<open>simp_all add: opt_loop.simps [of _ _ _ i s]\<close>)
        qed
      qed
    qed
  qed (simp add: opt_loop.simps [of _ _ _ i s])
qed



lemma opt_loop_noops:
  assumes "length (op_mem s) = 41" "unat (hd (op_mem s)) > 40" "\<forall>j. i \<le> j \<longrightarrow> j < 40 \<longrightarrow> op_mem s ! Suc j = 1" "i \<le> 40"
  shows "opt_loop env ip rx i s = Opt_overrun"
  using assms(4,3)
proof (induction "40 - i" arbitrary: i)
  case 0
  then show ?case using assms(1,2) by (simp add: opt_loop.simps [of _ _ _ 40 s] rd_def)
next
  case (Suc n)
  then have "rd s i = Some 1" using assms(1) by (simp add: rd_def)
  moreover have "opt_loop env ip rx (i + 1) s = Opt_overrun" using Suc.hyps(1) [of "i + 1"] Suc.hyps(2) Suc.prems by simp
  ultimately show ?case using assms(2) Suc.prems Suc.hyps(2)
    by (simp add: opt_loop.simps [of _ _ _ i s] OPT_NUMBER_def IP_EOL_def IP_NOOP_def)
qed


text \<open>When exactly one address field of a record route option is left, the packet is not stamped: it is dropped and an
  ICMP message claims that the option is full.\<close>
theorem record_route_last_slot:
  assumes "rd s (i + 2) = Some p" "opt_len = unat p + 3"
  shows "route_option env ip False IP_RROUTE i opt_len s =
     Opt_drop (s\<lparr>op_out := op_out s @ [Icmp_output (op_ip ip s) ICMP_PARAM_PROB 0 (of_nat (IPLEN + i))]\<rparr>)"
  using assms by (simp add: route_option_def param_prob_def IP_RROUTE_def IP_SSROUTE_def IP_LSROUTE_def Let_def)

lemma record_route_last_slot_witness:
  "\<exists>s'. route_option sample_env sample_ip False IP_RROUTE 0 7 \<lparr>op_mem = 8 # [7, 7, 4, 0, 0, 0, 0, 0] @ replicate 32 0, op_dest = 1,
      op_strict = False, op_good = True, op_tab = rt_init, op_out = []\<rparr> = Opt_drop s' \<and> length (op_out s') = 1"
  using record_route_last_slot [of "\<lparr>op_mem = 8 # [7, 7, 4, 0, 0, 0, 0, 0] @ replicate 32 0, op_dest = 1,
      op_strict = False, op_good = True, op_tab = rt_init, op_out = []\<rparr>" 0 4 7 sample_env sample_ip]
  by (simp add: rd_def)

section \<open>Fragmentation and reassembly\<close>

text \<open>How the data is cut: \<open>room\<close> is what fits behind the header, \<open>m\<close> the size of a fragment that is not the last.\<close>

function cut_data :: "nat \<Rightarrow> nat \<Rightarrow> byte list \<Rightarrow> byte list list" where
  "cut_data room m xs =
     (if xs = [] then [] else if length xs \<le> room \<or> m = 0 then [xs] else take m xs # cut_data room m (drop m xs))"
  by pat_completeness auto
termination by (relation "measure (\<lambda>(room, m, xs). length xs)") auto

declare cut_data.simps [simp del]

lemma cut_data_Nil [simp]: "cut_data room m [] = []"
  by (simp add: cut_data.simps)

lemma cut_data_Nil_iff [simp]: "cut_data room m xs = [] \<longleftrightarrow> xs = []"
  by (subst cut_data.simps) auto

lemma concat_cut_data: "concat (cut_data room m xs) = xs"
  by (induction room m xs rule: cut_data.induct) (subst cut_data.simps, auto)

lemma cut_data_nonempty: "[] \<notin> set (cut_data room m xs)"
  by (induction room m xs rule: cut_data.induct) (subst cut_data.simps, auto)

lemma cut_data_room: "m \<le> room \<Longrightarrow> 0 < m \<Longrightarrow> p \<in> set (cut_data room m xs) \<Longrightarrow> length p \<le> room"
proof (induction room m xs rule: cut_data.induct)
  case (1 room m xs)
  show ?case using "1.prems" "1.IH" unfolding cut_data.simps [of room m xs]
    by (auto split: if_splits)
qed

text \<open>The headers of the fragments.\<close>

fun frag_headers :: "ip \<Rightarrow> nat \<Rightarrow> bool \<Rightarrow> nat \<Rightarrow> byte list list \<Rightarrow> (ip \<times> byte list) list" where
  "frag_headers ip hlen mf offset [] = []"
| "frag_headers ip hlen mf offset (p # ps) =
     (ip\<lparr>ip_mf := (if ps = [] then mf else True), ip_len := of_nat (length p + hlen), ip_offset := of_nat offset\<rparr>, p) #
     frag_headers ip hlen mf (offset + length p) ps"

definition carries :: "host \<Rightarrow> ifref \<Rightarrow> u32 \<Rightarrow> ip_event \<Rightarrow> ip \<times> byte list \<Rightarrow> bool" where
  "carries h iface gateway e = (\<lambda>(hdr, p). \<exists>fd. content fd = p \<and>
     e = Send iface gateway (ip_tos hdr AND 0xfc) (htonip (h_le h) (h_al h) (h_fits h) hdr fd False))"

lemma frag_headers_ip:
  "frag_headers (ip\<lparr>ip_mf := a, ip_len := b, ip_offset := c\<rparr>) hlen mf offset ps = frag_headers ip hlen mf offset ps"
  by (induction ps arbitrary: offset) auto

lemma dup_p_nonempty:
  "content (snd (dup_p avail bp rel n)) \<noteq> [] \<Longrightarrow> snd (dup_p avail bp rel n) \<noteq> []"
  by auto

lemma frag_loop_cuts:
  assumes send: "if_send (if_of env iface)" and avail: "length bp \<le> h_avail h"
    and mtu: "unat (if_mtu (if_of env iface)) = hlen + room" "m = unat ((if_mtu (if_of env iface) - of_nat hlen) AND 0xfff8)"
    and m: "0 < m" "m \<le> room"
  shows "offset + unat len < 65536 \<Longrightarrow> hlen + unat len < 2 ^ 32 \<Longrightarrow> drop rel (content bp) = data \<Longrightarrow> length data = unat len \<Longrightarrow>
     ip_offset ip = of_nat offset \<Longrightarrow>
     snd (frag_loop h env iface gateway (of_nat hlen) mf bp ip len rel) \<and>
     list_all2 (carries h iface gateway) (fst (frag_loop h env iface gateway (of_nat hlen) mf bp ip len rel))
       (frag_headers ip hlen mf offset (cut_data room m data))"
proof (induction "unat len" arbitrary: len rel ip offset data rule: less_induct)
  case less
  let ?mtu = "if_mtu (if_of env iface)"
  show ?case
  proof (cases "len = 0")
    case True
    then show ?thesis using less.prems by (simp add: frag_loop.simps)
  next
    case False
    then have ne: "data \<noteq> []" using less.prems by (auto simp: unat_eq_0)
    have hl: "unat (of_nat hlen :: u32) = hlen" using less.prems(2) by (simp add: unat_of_nat)
    have sum: "unat (len + of_nat hlen) = unat len + hlen"
      using less.prems(2) by (subst unat_word_ariths(1)) (simp add: hl)
    have fits: "len + of_nat hlen \<le> ?mtu \<longleftrightarrow> length data \<le> room"
      using less.prems(4) mtu(1) by (simp add: word_le_nat_alt sum)
    define fs where "fs = (if length data \<le> room then len else (?mtu - of_nat hlen) AND 0xfff8)"
    define ip1 where "ip1 = ip\<lparr>ip_mf := (if length data \<le> room then mf else True), ip_len := fs + of_nat hlen\<rparr>"
    define p where "p = take (unat fs) data"
    have fsm: "unat fs = (if length data \<le> room then unat len else m)" by (simp add: fs_def mtu(2))
    then have fs0: "0 < unat fs" "unat fs \<le> length data" using False m less.prems(4) by (auto simp: unat_gt_0)
    have cd: "content (snd (dup_p (h_avail h) bp rel (unat fs))) = p"
      using dup_p_enough [OF avail] less.prems(3) by (simp add: p_def)
    then have fd: "snd (dup_p (h_avail h) bp rel (unat fs)) \<noteq> []" using fs0 ne by (intro dup_p_nonempty) (simp add: p_def)
    have len': "unat (len - fs) = unat len - unat fs" "unat (len - fs) < unat len"
      using fs0 less.prems(4) by (simp_all add: unat_sub word_le_nat_alt)
    have fsn: "fs = of_nat (length p)" using fs0 by (simp add: p_def)
    let ?rest = "frag_loop h env iface gateway (of_nat hlen) mf bp (ip1\<lparr>ip_offset := ip_offset ip1 + fs\<rparr>) (len - fs) (rel + unat fs)"
    let ?e = "Send iface gateway (ip_tos ip1 AND 0xfc)
        (htonip (h_le h) (h_al h) (h_fits h) ip1 (snd (dup_p (h_avail h) bp rel (unat fs))) False)"
    have step: "frag_loop h env iface gateway (of_nat hlen) mf bp ip len rel = (?e # fst ?rest, snd ?rest)"
      using False send fd
      by (subst frag_loop.simps)
         (simp add: Let_def fits q_pkt_def ip1_def split_def flip: fs_def cong: if_cong)
    have data': "drop (unat fs) data = (if length data \<le> room then [] else drop m data)" "p = (if length data \<le> room then data else take m data)"
      using fsm less.prems(4) by (auto simp: p_def)
    have cut: "cut_data room m data = p # cut_data room m (drop (unat fs) data)"
      using ne m by (subst cut_data.simps) (simp add: data')
    have last: "cut_data room m (drop (unat fs) data) = [] \<longleftrightarrow> length data \<le> room"
      using data' m by auto
    have ih: "snd ?rest \<and> list_all2 (carries h iface gateway) (fst ?rest)
        (frag_headers (ip1\<lparr>ip_offset := ip_offset ip1 + fs\<rparr>) hlen mf (offset + unat fs) (cut_data room m (drop (unat fs) data)))"
      using less.prems len' fs0 by (intro less.hyps) (auto simp: ip1_def add.commute)
    have "ip1\<lparr>ip_offset := ip_offset ip1 + fs\<rparr> =
        ip\<lparr>ip_mf := (if length data \<le> room then mf else True), ip_len := fs + of_nat hlen, ip_offset := ip_offset ip + fs\<rparr>"
      by (simp add: ip1_def)
    note ih' = ih [unfolded this frag_headers_ip]
    have "ip1 = ip\<lparr>ip_mf := (if length data \<le> room then mf else True), ip_len := of_nat (length p + hlen), ip_offset := of_nat offset\<rparr>"
      using less.prems(5) by (simp add: ip1_def fsn)
    moreover have "carries h iface gateway ?e (ip1, p)" using cd by (auto simp: carries_def)
    moreover have "length p = unat fs" using fs0 by (simp add: p_def)
    ultimately show ?thesis unfolding step cut using ih' last less.prems(5)
      by (cases "length data \<le> room") simp_all
  qed
qed

lemma frag_headers_nth:
  "i < length ps \<Longrightarrow> frag_headers ip hlen mf offset ps ! i =
     (ip\<lparr>ip_mf := (if Suc i = length ps then mf else True), ip_len := of_nat (length (ps ! i) + hlen),
        ip_offset := of_nat (offset + off ps i)\<rparr>, ps ! i)"
proof (induction ps arbitrary: i offset)
  case (Cons p ps)
  then show ?case by (cases i) (auto simp: off_def add_ac)
qed simp

lemma length_frag_headers [simp]: "length (frag_headers ip hlen mf offset ps) = length ps"
  by (induction ps arbitrary: offset) auto

lemma cut_data_off: "i < length (cut_data room m xs) \<Longrightarrow> m dvd off (cut_data room m xs) i"
proof (induction room m xs arbitrary: i rule: cut_data.induct)
  case (1 room m xs)
  show ?case
  proof (cases "xs = [] \<or> length xs \<le> room \<or> m = 0")
    case True
    then show ?thesis using "1.prems" unfolding cut_data.simps [of room m xs] by (auto split: if_splits)
  next
    case False
    then have c: "cut_data room m xs = take m xs # cut_data room m (drop m xs)"
      by (subst cut_data.simps) simp
    show ?thesis
    proof (cases i)
      case (Suc j)
      then have j: "j < length (cut_data room m (drop m xs))" using "1.prems" c by simp
      then have "drop m xs \<noteq> []" by auto
      then have "length (take m xs) = m" by (simp add: min_def)
      moreover have "m dvd off (cut_data room m (drop m xs)) j" using "1.IH" False j by simp
      ultimately show ?thesis unfolding c Suc by (simp add: off_def)
    qed simp
  qed
qed

lemma pullup_no_empty: "[] \<notin> set bp \<Longrightarrow> [] \<notin> set (snd (pullup bp n))"
proof (induction bp n rule: pullup.induct)
  case (2 s bp cnt)
  have "[] \<notin> set (snd (pullup (if drop (min cnt (length s)) s = [] then bp else drop (min cnt (length s)) s # bp) (cnt - min cnt (length s))))"
    if "cnt \<noteq> 0"
    using "2.prems" that by (intro "2.IH") auto
  then show ?case using "2.prems" by (simp add: pullup.simps(2) Let_def split_def)
qed simp

lemma ntohip_no_empty: "ntohip ip0 bp = Some (n, ip, c) \<Longrightarrow> [] \<notin> set bp \<Longrightarrow> [] \<notin> set c"
  using pullup_no_empty [of bp IPLEN] pullup_no_empty [of "snd (pullup bp IPLEN)"]
  by (fastforce simp: ntohip_def Let_def split_def split: if_splits)

lemma and_fff8: "unat (x :: u32) < 65536 \<Longrightarrow> unat (x AND 0xfff8) = unat x div 8 * 8"
proof -
  assume x: "unat x < 65536"
  then have x': "x < 0x10000" by (simp add: word_less_nat_alt)
  have m: "(0xfff8 :: u32) = push_bit 3 (mask 13)" by (simp add: mask_eq_exp_minus_1)
  have "x AND 0xfff8 = push_bit 3 (drop_bit 3 x)" unfolding m
    by (rule bit_word_eqI) (auto simp: bit_and_iff bit_push_bit_iff bit_mask_iff bit_drop_bit_eq dest: small_bits [OF x'])
  moreover have "unat (drop_bit 3 x) = unat x div 8" unfolding unat_drop_bit_eq by (simp add: drop_bit_eq_div)
  ultimately show ?thesis
    using x by (simp add: push_bit_eq_mult unat_word_ariths(2))
qed

lemma eights_and_7: "8 dvd n \<Longrightarrow> (of_nat n :: u32) AND 7 = 0"
proof -
  assume "8 dvd n"
  then obtain k where "n = 8 * k" ..
  then have n: "(of_nat n :: u32) = push_bit 3 (of_nat k)" by (simp add: push_bit_eq_mult)
  have "push_bit 3 (of_nat k) AND mask 3 = (0 :: u32)"
    by (rule bit_word_eqI) (simp add: bit_and_iff bit_push_bit_iff bit_mask_iff)
  then show ?thesis unfolding n by (simp add: mask_eq_exp_minus_1)
qed

text \<open>What the receiver of a packet hands to \<^verbatim>\<open>fraghandle\<close>: its own buffers, with the content the interface was given.\<close>

definition received :: "ip \<Rightarrow> ip_event list \<Rightarrow> nat \<Rightarrow> ip \<times> chain \<Rightarrow> bool" where
  "received ip0 sent i = (\<lambda>(ip, c). i < length sent \<and>
     (\<exists>iface gateway tos pkt bp n. sent ! i = Send iface gateway tos pkt \<and> content bp = content pkt \<and> [] \<notin> set bp \<and>
        ntohip ip0 bp = Some (n, ip, c)))"

definition frag_ready :: "host \<Rightarrow> ifenv \<Rightarrow> ifref \<Rightarrow> ip \<Rightarrow> chain \<Rightarrow> bool" where
  "frag_ready h env iface ip bp \<longleftrightarrow> wf_ip ip \<and> ip_offset ip = 0 \<and> \<not> ip_mf ip \<and>
     unat (ip_len ip) = ip_hdr_len ip + length (content bp) \<and> length bp \<le> h_avail h \<and> if_send (if_of env iface) \<and>
     ip_hdr_len ip + 8 \<le> unat (if_mtu (if_of env iface)) \<and> unat (if_mtu (if_of env iface)) < unat (ip_len ip)"

definition fragments :: "host \<Rightarrow> ifenv \<Rightarrow> ifref \<Rightarrow> u32 \<Rightarrow> ip \<Rightarrow> chain \<Rightarrow> ip_event list \<times> bool" where
  "fragments h env iface gateway ip bp =
     frag_loop h env iface gateway (of_nat (ip_hdr_len ip)) (ip_mf ip) bp ip (ip_len ip - of_nat (ip_hdr_len ip)) 0"

fun event_bytes :: "ip_event \<Rightarrow> byte list" where
  "event_bytes (Send iface gateway tos pkt) = content pkt"
| "event_bytes _ = []"

lemma fragments_carry:
  assumes "frag_ready h env iface ip bp"
  shows "\<exists>segs. cut_ok segs \<and> concat segs = content bp \<and>
     (\<forall>i < length segs. 8 dvd off segs i \<and> ip_hdr_len ip + length (segs ! i) \<le> unat (if_mtu (if_of env iface))) \<and>
     snd (fragments h env iface gateway ip bp) \<and>
     list_all2 (carries h iface gateway) (fst (fragments h env iface gateway ip bp)) (frag_headers ip (ip_hdr_len ip) False 0 segs)"
proof -
  let ?hlen = "ip_hdr_len ip" and ?mtu = "if_mtu (if_of env iface)" and ?d = "content bp"
  note r = assms [unfolded frag_ready_def]
  have hl: "?hlen = 20 + unat (ip_optlen ip)" "unat (ip_optlen ip) \<le> 40" using r ip_hdr_len_wf by (auto simp: wf_ip_def IP_MAXOPT_def)
  have ipl: "unat (ip_len ip) < 65536" using r by (simp add: wf_ip_def word_less_nat_alt)
  define room where "room = unat ?mtu - ?hlen"
  define m where "m = unat ((?mtu - of_nat ?hlen) AND 0xfff8)"
  have u: "unat (of_nat ?hlen :: u32) = ?hlen" using hl(2) unfolding hl(1) by (subst unat_of_nat) simp
  have "unat (?mtu - of_nat ?hlen) = room" using r u by (simp add: room_def unat_sub word_le_nat_alt)
  then have m8: "m = room div 8 * 8" using and_fff8 [of "?mtu - of_nat ?hlen"] r ipl
    by (simp add: m_def room_def less_imp_diff_less)
  have room: "unat ?mtu = ?hlen + room" "8 \<le> room" "room < length ?d" using r by (auto simp: room_def)
  have m: "0 < m" "m \<le> room" "8 dvd m" using room m8 by auto
  have l: "unat (ip_len ip - of_nat ?hlen) = length ?d" using r u by (simp add: unat_sub word_le_nat_alt)
  have loop: "snd (fragments h env iface gateway ip bp) \<and>
     list_all2 (carries h iface gateway) (fst (fragments h env iface gateway ip bp))
       (frag_headers ip ?hlen (ip_mf ip) 0 (cut_data room m ?d))"
    unfolding fragments_def
  proof (rule frag_loop_cuts)
    show "0 + unat (ip_len ip - of_nat ?hlen) < 65536" "?hlen + unat (ip_len ip - of_nat ?hlen) < 2 ^ 32"
      using l r ipl by simp_all
  qed (use r room m l m_def in simp_all)
  moreover have "length (cut_data room m ?d) \<ge> 2"
  proof -
    have "?d \<noteq> []" "drop m ?d \<noteq> []" using room m by auto
    then have "cut_data room m ?d = take m ?d # cut_data room m (drop m ?d)" "cut_data room m (drop m ?d) \<noteq> []"
      using room m by (subst cut_data.simps, simp_all)
    then show ?thesis by (cases "cut_data room m (drop m ?d)") auto
  qed
  moreover have "length ?d < 65536" using r ipl by simp
  moreover have "8 dvd off (cut_data room m ?d) i" if "i < length (cut_data room m ?d)" for i
    using cut_data_off [OF that] m(3) by (rule dvd_trans [rotated])
  moreover have "length (cut_data room m ?d ! i) \<le> room" if "i < length (cut_data room m ?d)" for i
    by (rule cut_data_room [OF m(2,1) nth_mem [OF that]])
  moreover have "\<not> ip_mf ip" using r by simp
  ultimately show ?thesis using room(1)
    by (intro exI [of _ "cut_data room m ?d"]) (auto simp: cut_ok_def cut_data_nonempty concat_cut_data)
qed

definition frag_hdr :: "ip \<Rightarrow> byte list list \<Rightarrow> nat \<Rightarrow> ip" where
  "frag_hdr ip segs i = ip\<lparr>ip_mf := (Suc i < length segs), ip_len := of_nat (length (segs ! i) + ip_hdr_len ip),
      ip_offset := of_nat (off segs i)\<rparr>"

lemma frag_hdr_wf:
  assumes ip: "wf_ip ip" and len: "unat (ip_len ip) = ip_hdr_len ip + length (concat segs)"
    and c: "cut_ok segs" and i: "i < length segs" "8 dvd off segs i"
  shows "wf_ip (frag_hdr ip segs i)" "frag_headers ip (ip_hdr_len ip) False 0 segs ! i = (frag_hdr ip segs i, segs ! i)"
    "ip_hdr_len (frag_hdr ip segs i) = ip_hdr_len ip"
    "unat (ip_len (frag_hdr ip segs i)) = length (segs ! i) + ip_hdr_len ip"
    "unat (ip_offset (frag_hdr ip segs i)) = off segs i"
proof -
  have ipl: "unat (ip_len ip) < 65536" using ip by (simp add: wf_ip_def word_less_nat_alt)
  have "off segs (Suc i) \<le> length (concat segs)" using i c off_le_iff [of segs "Suc i" "length segs"] by (simp add: cut_ok_def)
  then have le: "length (segs ! i) + ip_hdr_len ip < 65536" "off segs i < 65536" using off_Suc [OF i(1)] len ipl by simp_all
  have u: "unat (of_nat (length (segs ! i) + ip_hdr_len ip) :: u32) = length (segs ! i) + ip_hdr_len ip"
      "unat (of_nat (off segs i) :: u32) = off segs i"
    using le by (auto simp: unat_of_nat simp del: of_nat_add)
  then show "unat (ip_len (frag_hdr ip segs i)) = length (segs ! i) + ip_hdr_len ip"
      "unat (ip_offset (frag_hdr ip segs i)) = off segs i"
    by (simp_all add: frag_hdr_def del: of_nat_add)
  have "of_nat (length (segs ! i) + ip_hdr_len ip) < (0x10000 :: u32)" "of_nat (off segs i) < (0x10000 :: u32)"
    unfolding word_less_nat_alt u using le by simp_all
  then show "wf_ip (frag_hdr ip segs i)" using ip eights_and_7 [OF i(2)] by (simp add: frag_hdr_def wf_ip_def)
  show "frag_headers ip (ip_hdr_len ip) False 0 segs ! i = (frag_hdr ip segs i, segs ! i)"
    using i by (auto simp: frag_headers_nth frag_hdr_def)
qed (simp add: frag_hdr_def ip_hdr_len_def)

lemma carries_content:
  assumes ip: "wf_ip ip" and len: "unat (ip_len ip) = ip_hdr_len ip + length (concat segs)"
    and c: "cut_ok segs" and i: "i < length segs" "8 dvd off segs i"
    and e: "carries h iface gateway (Send iface' gateway' tos pkt) (frag_headers ip (ip_hdr_len ip) False 0 segs ! i)"
  shows "content pkt = ip_bytes (frag_hdr ip segs i) (ip_sum (frag_hdr ip segs i)) @ segs ! i"
    "length (content pkt) = ip_hdr_len ip + length (segs ! i)"
proof -
  note wf = frag_hdr_wf [OF assms(1-5)]
  obtain fd where "content fd = segs ! i" "pkt = htonip (h_le h) (h_al h) (h_fits h) (frag_hdr ip segs i) fd False"
    using e unfolding wf(2) carries_def by auto
  then show "content pkt = ip_bytes (frag_hdr ip segs i) (ip_sum (frag_hdr ip segs i)) @ segs ! i"
    by (simp add: htonip_content [OF wf(1)])
  then show "length (content pkt) = ip_hdr_len ip + length (segs ! i)" using ip_bytes_split(1) [OF wf(1)] wf(3) by simp
qed

lemma fragment_is_piece:
  assumes ip: "wf_ip ip" and len: "unat (ip_len ip) = ip_hdr_len ip + length (concat segs)"
    and c: "cut_ok segs" and i: "i < length segs" "8 dvd off segs i"
    and e: "carries h iface gateway (Send iface' gateway' tos pkt) (frag_headers ip (ip_hdr_len ip) False 0 segs ! i)"
    and bp: "content bp = content pkt" "[] \<notin> set bp" and d: "ntohip ip0 bp = Some (n, ip', c')"
  shows "is_piece ip segs i ip' c'"
proof -
  note wf = frag_hdr_wf [OF assms(1-5)]
  let ?hdr = "frag_hdr ip segs i"
  obtain bp' where "ntohip ip0 bp = Some (ip_hdr_len ?hdr, ip_seen ip0 ?hdr (ip_sum ?hdr), bp')" "content bp' = segs ! i"
    using ntohip_reads [OF wf(1) ip_sum_small [of ?hdr], of bp "segs ! i" ip0] bp carries_content(1) [OF assms(1-6)] by auto
  with d have "ip' = ip_seen ip0 ?hdr (ip_sum ?hdr)" "content c' = segs ! i" by auto
  moreover have "unat (of_nat (length (segs ! i) + ip_hdr_len ip) :: u32) = length (segs ! i) + ip_hdr_len ip"
      "unat (of_nat (off segs i) :: u32) = off segs i"
    using wf(4,5) by (simp_all add: frag_hdr_def del: of_nat_add)
  ultimately show ?thesis
    using i ntohip_no_empty [OF d bp(2)] ip_hdr_len_wf [OF ip]
    by (simp add: is_piece_def ip_seen_def frag_hdr_def IPLEN_def del: of_nat_add)
qed


lemma fragment_received:
  assumes ready: "frag_ready h env iface ip bp" and i: "i < length (fst (fragments h env iface gateway ip bp))"
  shows "\<exists>p. received ip0 (fst (fragments h env iface gateway ip bp)) i p"
proof -
  let ?sent = "fst (fragments h env iface gateway ip bp)"
  note r = ready [unfolded frag_ready_def]
  obtain segs where cut: "cut_ok segs" "concat segs = content bp" "\<And>i. i < length segs \<Longrightarrow> 8 dvd off segs i"
      and sent: "list_all2 (carries h iface gateway) ?sent (frag_headers ip (ip_hdr_len ip) False 0 segs)"
    using fragments_carry [OF ready, of gateway] by auto
  have i': "i < length segs" using i sent by (auto dest: list_all2_lengthD)
  have c: "carries h iface gateway (?sent ! i) (frag_headers ip (ip_hdr_len ip) False 0 segs ! i)"
    using sent i by (simp add: list_all2_conv_all_nth)
  then obtain tos pkt where e: "?sent ! i = Send iface gateway tos pkt" by (auto simp: carries_def split: prod.splits)
  have len: "unat (ip_len ip) = ip_hdr_len ip + length (concat segs)" using r cut by simp
  note wf = frag_hdr_wf [OF _ len cut(1) i' cut(3) [OF i']]
  have pk: "content [content pkt] = ip_bytes (frag_hdr ip segs i) (ip_sum (frag_hdr ip segs i)) @ segs ! i"
    using carries_content(1) [OF _ len cut(1) i' cut(3) [OF i'] c [unfolded e]] r by simp
  have "length (content pkt) \<noteq> 0"
    using carries_content(2) [OF _ len cut(1) i' cut(3) [OF i'] c [unfolded e]] r ip_hdr_len_wf by simp
  then have "[] \<notin> set [content pkt]" by auto
  moreover obtain c' where "ntohip ip0 [content pkt] = Some (ip_hdr_len (frag_hdr ip segs i), ip_seen ip0 (frag_hdr ip segs i) (ip_sum (frag_hdr ip segs i)), c')"
    using ntohip_reads [OF wf(1) ip_sum_small [of "frag_hdr ip segs i"] pk, of ip0] r by auto
  moreover have "content [content pkt] = content pkt" by simp
  ultimately have "received ip0 ?sent i (ip_seen ip0 (frag_hdr ip segs i) (ip_sum (frag_hdr ip segs i)), c')"
    unfolding received_def using i e by blast
  then show ?thesis ..
qed


section \<open>The checksum of forwarded packets\<close>

lemma ip_bytes_fields: "ip_bytes (ip\<lparr>ip_cksum := c\<rparr>) x = ip_bytes ip x"
  by (simp add: ip_bytes_def ip_hdr_len_def ip_fl_offs_def Let_def)

lemma unat_ttl_checksum:
  assumes "c < 0x10000"
  shows "unat (take_bit 16 (ttl_checksum c)) mod 65535 = (unat c + 256) mod 65535"
proof -
  have c: "unat c < 65536" using assms by (simp add: word_less_nat_alt)
  have u: "unat (c + 0x100) = unat c + 256" using c by (subst unat_word_ariths(1)) simp
  have m: "(0xff00 :: u32) = push_bit 8 (mask 8)" by (simp add: mask_eq_exp_minus_1)
  have "unat (c + 0x100 AND 0xff00) = (unat c + 256) div 256 mod 256 * 256"
  proof -
    have "c + 0x100 AND 0xff00 = push_bit 8 (take_bit 8 (drop_bit 8 (c + 0x100)))" unfolding m
      by (rule bit_word_eqI) (auto simp: bit_and_iff bit_push_bit_iff bit_mask_iff bit_drop_bit_eq bit_take_bit_iff)
    moreover have "unat (take_bit 8 (drop_bit 8 (c + 0x100))) = (unat c + 256) div 256 mod 256"
      unfolding unsigned_take_bit_eq unat_drop_bit_eq u by (simp add: take_bit_eq_mod drop_bit_eq_div)
    ultimately show ?thesis by (simp add: push_bit_eq_mult unat_word_ariths(2))
  qed
  then have z: "c + 0x100 AND 0xff00 = 0 \<longleftrightarrow> (unat c + 256) div 256 mod 256 = 0"
    by (simp add: unat_eq_0 [symmetric])
  have "unat (ttl_checksum c) = (if (unat c + 256) div 256 mod 256 = 0 then unat c + 257 else unat c + 256)"
    using z u c by (simp add: ttl_checksum_def Let_def unat_word_ariths(1))
  then have "unat (take_bit 16 (ttl_checksum c)) = (if (unat c + 256) div 256 mod 256 = 0 then unat c + 257 else unat c + 256) mod 65536"
    unfolding unsigned_take_bit_eq by (simp add: take_bit_eq_mod)
  moreover have "(unat c + 256) div 256 mod 256 = 0 \<longleftrightarrow> 65280 \<le> unat c"
  proof -
    have "(unat c + 256) div 256 = Suc (unat c div 256)" "unat c div 256 \<le> 255" using c by auto
    then have "(unat c + 256) div 256 mod 256 = 0 \<longleftrightarrow> unat c div 256 = 255" by (auto simp: mod_Suc)
    then show ?thesis using c by auto
  qed
  ultimately have "unat (take_bit 16 (ttl_checksum c)) = (if 65280 \<le> unat c then unat c + 257 - 65536 else unat c + 256)"
    using c by (auto simp: mod_if)
  moreover have "(unat c + 256) mod 65535 = (unat c + 257 - 65536) mod 65535" if "65280 \<le> unat c"
    using that le_mod_geq [of 65535 "unat c + 256"] by simp
  ultimately show ?thesis by simp
qed

lemma wsum_put16_bits: "wsum False (put16 c) = unat (take_bit 16 c)"
proof -
  have "put16 c = put16 (of_nat (unat (take_bit 16 c)))"
    unfolding put16_def list.inject by (intro conjI refl; rule bit_word_eqI; auto simp: bit_simps)
  moreover have "unat (take_bit 16 c) < 65536" unfolding unsigned_take_bit_eq by (simp add: take_bit_eq_mod)
  ultimately show ?thesis using wsum_put16 [of "unat (take_bit 16 c)"] by simp
qed

lemma eac_full: "eac s = 65535 \<longleftrightarrow> s \<noteq> 0 \<and> s mod 65535 = 0"
  by (auto simp: eac_closed dest: arg_cong [of "s mod 65535" 65535 "\<lambda>x. x < 65535"])

lemma ip_bytes_ttl:
  "\<exists>front rear. even (length front) \<and>
     (\<forall>t c x. ip_bytes (ip\<lparr>ip_cksum := c, ip_ttl := t\<rparr>) x = front @ [t, ip_protocol ip] @ put16 x @ rear) \<and>
     (\<exists>bs. front = (push_bit 4 (ip_version ip) OR of_nat (ip_hdr_len ip div 4)) # bs)"
proof -
  let ?front = "[push_bit 4 (ip_version ip) OR of_nat (ip_hdr_len ip div 4), ip_tos ip] @ put16 (ip_len ip) @
      put16 (ip_id ip) @ put16 (ip_fl_offs ip)"
  let ?rear = "put32 (ip_source ip) @ put32 (ip_dest ip) @
     (if ip_optlen ip \<noteq> 0 then take (min (unat (ip_optlen ip)) IP_MAXOPT) (ip_options ip) else [])"
  have "ip_bytes (ip\<lparr>ip_cksum := c, ip_ttl := t\<rparr>) x = ?front @ [t, ip_protocol ip] @ put16 x @ ?rear" for t c x
    by (simp add: ip_bytes_def ip_hdr_len_def ip_fl_offs_def Let_def)
  moreover have "even (length ?front)" "\<exists>bs. ?front = (push_bit 4 (ip_version ip) OR of_nat (ip_hdr_len ip div 4)) # bs" by simp_all
  ultimately show ?thesis by blast
qed

text \<open>The header that is sent after the TTL has been decremented, with the adjusted checksum, sums to zero when the received
  one did.\<close>

lemma ttl_checksum_valid:
  assumes wf: "wf_ip ip" "ip_ttl ip \<noteq> 0" and old: "cksum le al None [ip_bytes ip (ip_cksum ip)] (ip_hdr_len ip) = 0"
    and bp: "content bp = ip_bytes (ip\<lparr>ip_cksum := ttl_checksum (ip_cksum ip), ip_ttl := ip_ttl ip - 1\<rparr>) (ttl_checksum (ip_cksum ip)) @ rest"
  shows "cksum le' al' None bp (ip_hdr_len ip) = 0"
proof -
  let ?c = "ip_cksum ip" and ?c' = "ttl_checksum (ip_cksum ip)"
  obtain front rear bs where b: "even (length front)"
      "\<And>t c x. ip_bytes (ip\<lparr>ip_cksum := c, ip_ttl := t\<rparr>) x = front @ [t, ip_protocol ip] @ put16 x @ rear"
      "front = (push_bit 4 (ip_version ip) OR of_nat (ip_hdr_len ip div 4)) # bs"
    using ip_bytes_ttl [of ip] by blast
  have same: "ip\<lparr>ip_cksum := ?c, ip_ttl := ip_ttl ip\<rparr> = ip" by simp
  have old': "ip_bytes ip ?c = front @ [ip_ttl ip, ip_protocol ip] @ put16 ?c @ rear" using b(2) [of "ip_ttl ip" ?c ?c] by (simp only: same)
  have len: "length (ip_bytes ip ?c) = ip_hdr_len ip" by (rule ip_bytes_split(1) [OF wf(1)])
  have small: "?c < 0x10000" using wf(1) by (simp add: wf_ip_def)
  define W where "W = wsum False front + unat (ip_protocol ip) + wsum False rear"
  have wold: "wsum False (ip_bytes ip ?c) = W + 256 * unat (ip_ttl ip) + unat (take_bit 16 ?c)"
    unfolding old' using b(1) by (simp add: wsum_append wsum_put16_bits W_def)
  have "take_bit 16 ?c = ?c" using small by (simp add: take_bit_word_small)
  then have wold': "wsum False (ip_bytes ip ?c) = W + 256 * unat (ip_ttl ip) + unat ?c" using wold by simp
  have full: "wsum False (ip_bytes ip ?c) \<noteq> 0 \<and> wsum False (ip_bytes ip ?c) mod 65535 = 0"
    unfolding eac_full [symmetric] using old len eac_bound [of "wsum False (ip_bytes ip ?c)"] by (simp add: cksum_eac ph_sum_def)
  have ttl: "unat (ip_ttl ip) = Suc (unat (ip_ttl ip - 1))" using wf(2) by (simp add: unat_minus_one unat_gt_0)
  define N where "N = W + 256 * unat (ip_ttl ip - 1) + unat (take_bit 16 ?c')"
  have new: "wsum False (front @ [ip_ttl ip - 1, ip_protocol ip] @ put16 ?c' @ rear) = N"
    using b(1) by (simp add: wsum_append wsum_put16_bits W_def N_def)
  have "N mod 65535 = (W + 256 * unat (ip_ttl ip - 1) + (unat ?c + 256)) mod 65535"
    unfolding N_def using unat_ttl_checksum [OF small] by (rule mod_add_cong [OF refl])
  also have "\<dots> = wsum False (ip_bytes ip ?c) mod 65535" unfolding wold' ttl by (simp add: algebra_simps)
  finally have "N mod 65535 = 0" using full by simp
  moreover have "N \<noteq> 0"
  proof -
    have "push_bit 4 (ip_version ip) OR of_nat (ip_hdr_len ip div 4) \<noteq> (0 :: byte)"
    proof
      assume "push_bit 4 (ip_version ip) OR of_nat (ip_hdr_len ip div 4) = (0 :: byte)"
      then show False using ip_first_octet(2) [OF wf(1)] ip_hdr_len_wf [OF wf(1)] by simp
    qed
    then have "wsum False front \<noteq> 0" unfolding b(3) by (simp add: unat_eq_0)
    then show ?thesis by (simp add: N_def W_def)
  qed
  ultimately have "eac N = 65535" by (simp add: eac_full)
  moreover have "take (ip_hdr_len ip) (content bp) = front @ [ip_ttl ip - 1, ip_protocol ip] @ put16 ?c' @ rear"
  proof -
    define X where "X = front @ [ip_ttl ip - 1, ip_protocol ip] @ put16 ?c' @ rear"
    have "length X = ip_hdr_len ip" using len unfolding X_def old' by simp
    moreover have "content bp = X @ rest" unfolding bp b(2) X_def by simp
    ultimately have "take (ip_hdr_len ip) (content bp) = X" by simp
    then show ?thesis by (simp only: X_def)
  qed
  ultimately show ?thesis by (simp only: cksum_eac ph_sum_def new option.case add_0)
qed

text \<open>What \<^verbatim>\<open>ntohip\<close> decodes is written back as the same octets.\<close>

definition opts_fit :: "ip \<Rightarrow> bool" where
  "opts_fit ip \<longleftrightarrow> unat (ip_optlen ip) \<le> IP_MAXOPT \<and> length (ip_options ip) = IP_MAXOPT"

lemma length_ip_bytes: "opts_fit ip \<Longrightarrow> length (ip_bytes ip c) = 20 + unat (ip_optlen ip) \<and> ip_hdr_len ip = 20 + unat (ip_optlen ip)"
  by (auto simp: opts_fit_def ip_bytes_def put16_def put32_def ip_hdr_len_def IPLEN_def IP_MAXOPT_def unat_eq_0)

lemma htonip_sums_zero:
  assumes "opts_fit ip" "content bp = content (htonip le al fits ip pkt False)"
  shows "cksum le' al' None bp (ip_hdr_len ip) = 0"
proof -
  obtain front rear where b: "\<And>x. ip_bytes ip x = front @ put16 x @ rear" "even (length front)"
    using ip_bytes_parts [of ip] by blast
  note len = length_ip_bytes [OF assms(1)]
  have c: "content bp = ip_bytes ip (ip_sum ip) @ content pkt"
    using assms(2) len by (simp add: htonip_def Let_def pushdown_content cksum_eac ip_sum_def ph_sum_def)
  have "put16 0 = [0, 0]" by (simp add: put16_def)
  then have "eac (0 + wsum False (front @ put16 (ip_sum ip) @ rear)) = 65535"
    unfolding ip_sum_def b(1) by (intro cksum_self_check [OF b(2) refl]) simp
  moreover have "take (ip_hdr_len ip) (content bp) = ip_bytes ip (ip_sum ip)" using c len by simp
  ultimately show ?thesis unfolding cksum_eac b(1) by (simp add: ph_sum_def)
qed

lemma low_nibble: "unat ((b :: byte) AND 0xf) \<le> 15"
  using word_and_le1 [of b 15] by (simp add: word_le_nat_alt)

lemma first_octet_split: "push_bit 4 (drop_bit 4 b AND 0xf) OR of_nat (unat (b AND 0xf)) = (b :: byte)"
proof -
  have m: "(0xf :: byte) = mask 4" by (simp add: mask_eq_exp_minus_1)
  have n: "n < 4 \<or> 4 + (n - 4) = n" for n :: nat by auto
  show ?thesis unfolding m of_nat_unat ucast_id
    by (rule bit_word_eqI)
       (use n in \<open>auto simp: bit_or_iff bit_push_bit_iff bit_and_iff bit_mask_iff bit_drop_bit_eq dest: bit_imp_le_length\<close>)
qed

lemma fl_offs_decoded:
  assumes "ip_offset ip = push_bit 3 (get16 a b AND 0x1fff)" "ip_mf ip \<longleftrightarrow> get16 a b AND 0x2000 \<noteq> 0"
    "ip_df ip \<longleftrightarrow> get16 a b AND 0x4000 \<noteq> 0" "ip_congest ip \<longleftrightarrow> get16 a b AND 0x8000 \<noteq> 0"
  shows "ip_fl_offs ip = get16 a b" "ip_offset ip < 0x10000" "ip_offset ip AND 7 = 0"
proof -
  have small: "get16 a b < 0x10000" by (simp add: word_less_nat_alt)
  have hi: "bit (get16 a b) n \<Longrightarrow> n < 16" for n by (rule small_bits [OF small])
  have n: "n < 13 \<or> n = 13 \<or> n = 14 \<or> n = 15 \<or> 16 \<le> n" for n :: nat by auto
  show "ip_fl_offs ip = get16 a b"
  proof (rule bit_word_eqI)
    fix n
    show "bit (ip_fl_offs ip) n = bit (get16 a b) n"
      unfolding fl_bit assms u32_masks bit_iff_and_push_bit_not_eq_0 [symmetric]
      using n [of n] hi [of n] by (auto simp: bit_push_bit_iff bit_and_iff bit_mask_iff)
  qed
  have "take_bit 16 (ip_offset ip) = ip_offset ip"
    unfolding assms u32_masks by (rule bit_word_eqI) (auto simp: bit_take_bit_iff bit_push_bit_iff bit_and_iff bit_mask_iff)
  then show "ip_offset ip < 0x10000" using and_mask_less' [of 16 "ip_offset ip"] by (simp add: take_bit_eq_mask)
  show "ip_offset ip AND 7 = 0"
    unfolding assms u32_masks by (rule bit_word_eqI) (auto simp: bit_push_bit_iff bit_and_iff bit_mask_iff)
qed

lemma ntohip_out_bytes:
  assumes bp: "4 * unat (content bp ! 0 AND 0xf) = hlen" "20 \<le> hlen" "hlen \<le> length (content bp)"
    and d: "ntohip_out ip0 bp = (ip, rest)" and v: "length (ip_options ip0) = IP_MAXOPT"
  shows "wf_ip ip" "ip_hdr_len ip = hlen" "ip_bytes ip (ip_cksum ip) = take hlen (content bp)" "content rest = drop hlen (content bp)"
    "ip_ttl ip = content bp ! 8" "hlen > 20 \<Longrightarrow> ip_options ip ! 2 = content bp ! 22"
proof -
  let ?xs = "content bp"
  obtain buf bp1 where p1: "pullup bp IPLEN = (buf, bp1)" by fastforce
  have buf: "buf = take 20 ?xs" "content bp1 = drop 20 ?xs" using pullup_prod [OF p1] by (simp_all add: IPLEN_def)
  have h60: "hlen \<le> 60"
  proof -
    have "unat (?xs ! 0 AND 0xf) \<le> 15" by (rule low_nibble)
    then show ?thesis using bp(1) by simp
  qed
  have ihl: "unat (buf ! 0 AND 0xf) * 4 = hlen" using bp buf by (simp add: nth_append)
  obtain ob bp2 where p2: "pullup bp1 (hlen - IPLEN) = (ob, bp2)" by fastforce
  have ob: "ob = take (hlen - 20) (drop 20 ?xs)" "content bp2 = drop hlen ?xs"
    using pullup_prod [OF p2] buf bp by (simp_all add: IPLEN_def)
  have lob: "length ob = hlen - 20" using ob bp by simp
  have fixed: "ip_options (ntohip_fixed ip0 buf) = ip_options ip0" by (simp add: ntohip_fixed_def Let_def)
  have "length buf = IPLEN" using buf bp by (simp add: IPLEN_def)
  then have dd: "(ip, rest) = (if hlen = 20 then ((ntohip_fixed ip0 buf)\<lparr>ip_optlen := 0\<rparr>, bp1)
     else ((ntohip_fixed ip0 buf)\<lparr>ip_optlen := of_nat (hlen - 20), ip_options := ob @ drop (hlen - 20) (ip_options ip0)\<rparr>, bp2))"
    using d bp(2,3) lob unfolding ntohip_out_def p1 Let_def prod.case ihl
    by (auto simp: IPLEN_def p2 [unfolded IPLEN_def] fixed)
  define k where "k = hlen - 20"
  have "unat (of_nat k :: byte) = k" "k \<le> 40" using h60 by (simp_all add: unat_of_nat k_def)
  then have "unat (ip_optlen ip) = k" "length (ip_options ip) = 40" "take k (ip_options ip) = ob"
    using dd [folded k_def] v lob [folded k_def] bp(2)
    by (auto simp: IP_MAXOPT_def ntohip_fixed_def Let_def k_def [symmetric] split: if_splits) (auto simp: k_def)
  then have opt: "unat (ip_optlen ip) = hlen - 20" "length (ip_options ip) = 40" "take (hlen - 20) (ip_options ip) = ob"
    by (simp_all add: k_def)
  show "content rest = drop hlen ?xs" using dd ob buf by (auto split: if_splits)
  have f: "ip_version ip = drop_bit 4 (buf ! 0) AND 0xf" "ip_tos ip = buf ! 1" "ip_len ip = get16 (buf ! 2) (buf ! 3)"
    "ip_id ip = get16 (buf ! 4) (buf ! 5)" "ip_offset ip = push_bit 3 (get16 (buf ! 6) (buf ! 7) AND 0x1fff)"
    "ip_mf ip \<longleftrightarrow> get16 (buf ! 6) (buf ! 7) AND 0x2000 \<noteq> 0" "ip_df ip \<longleftrightarrow> get16 (buf ! 6) (buf ! 7) AND 0x4000 \<noteq> 0"
    "ip_congest ip \<longleftrightarrow> get16 (buf ! 6) (buf ! 7) AND 0x8000 \<noteq> 0" "ip_ttl ip = buf ! 8" "ip_protocol ip = buf ! 9"
    "ip_cksum ip = get16 (buf ! 10) (buf ! 11)" "ip_source ip = get32 (buf ! 12) (buf ! 13) (buf ! 14) (buf ! 15)"
    "ip_dest ip = get32 (buf ! 16) (buf ! 17) (buf ! 18) (buf ! 19)"
    using dd by (auto simp: ntohip_fixed_def Let_def split: if_splits)
  show "ip_ttl ip = ?xs ! 8" using f buf bp by simp
  note fl = fl_offs_decoded [OF f(5-8)]
  have small: "get16 a b < 0x10000" for a b by (simp add: word_less_nat_alt)
  have "ip_version ip < 16"
    unfolding f word_less_nat_alt using low_nibble [of "drop_bit 4 (buf ! 0)"] by simp
  moreover have "4 dvd hlen - 20" using bp(1,2) by (intro dvd_diff_nat) auto
  ultimately show wf: "wf_ip ip" using opt h60 fl(2,3) small by (simp add: wf_ip_def IP_MAXOPT_def f(3,4,11))
  show hl: "ip_hdr_len ip = hlen" using ip_hdr_len_wf [OF wf] opt bp by simp
  have "of_nat (hlen div 4) = buf ! 0 AND 0xf" using ihl by (simp flip: ihl)
  then have first: "push_bit 4 (ip_version ip) OR of_nat (hlen div 4) = buf ! 0"
    unfolding f(1) using first_octet_split [of "buf ! 0"] by simp
  have "take 20 (ip_bytes ip (ip_cksum ip)) = map ((!) buf) [0..<20]"
    unfolding ip_bytes_def hl first fl(1) f(2-4,9-13) by (simp add: put16_get16 put32_get32 upt_rec flip: numeral_2_eq_2)
  then have a: "take 20 (ip_bytes ip (ip_cksum ip)) = buf" using list20 [of buf] buf bp by simp
  have "ip_bytes ip (ip_cksum ip) = buf @ ob"
    using ip_bytes_split(3) [OF wf, of "ip_cksum ip"] opt a by (metis append_take_drop_id)
  then show "ip_bytes ip (ip_cksum ip) = take hlen ?xs" using buf ob bp take_add [of 20 "hlen - 20" ?xs] by simp
  assume "hlen > 20"
  then have "24 \<le> hlen" using bp(1) by presburger
  then have "ip_options ip ! 2 = take (hlen - 20) (ip_options ip) ! 2" by simp
  also have "\<dots> = ?xs ! 22" unfolding opt(3) ob using \<open>24 \<le> hlen\<close> bp by simp
  finally show "ip_options ip ! 2 = ?xs ! 22" .
qed

lemma frag_loop_sends:
  "Send i g t pkt \<in> set (fst (frag_loop h env iface gateway hlen mf bp ip len rel)) \<Longrightarrow>
     \<exists>ip' fd. pkt = htonip (h_le h) (h_al h) (h_fits h) ip' fd False \<and>
       ip_optlen ip' = ip_optlen ip \<and> ip_options ip' = ip_options ip"
proof (induction h env iface gateway hlen mf bp ip len rel rule: frag_loop.induct)
  case (1 h env iface gateway hlen mf bp ip len rel)
  let ?mtu = "if_mtu (if_of env iface)"
  define fs where "fs = (if len + hlen \<le> ?mtu then len else (?mtu - hlen) AND 0xfff8)"
  define ip1 where "ip1 = ip\<lparr>ip_mf := (if len + hlen \<le> ?mtu then mf else True), ip_len := fs + hlen\<rparr>"
  define fd where "fd = snd (dup_p (h_avail h) bp rel (unat fs))"
  note defs = fs_def [symmetric] ip1_def [symmetric] fd_def [symmetric]
  obtain out ok where q: "q_pkt h env iface gateway ip1 fd False = (out, ok)" by fastforce
  have here: "pkt = htonip (h_le h) (h_al h) (h_fits h) ip1 fd False" if "Send i g t pkt \<in> set out"
    using q that by (auto simp: q_pkt_def Let_def split: if_splits)
  let ?ip2 = "ip1\<lparr>ip_offset := ip_offset ip1 + fs\<rparr>"
  let ?rest = "frag_loop h env iface gateway hlen mf bp ?ip2 (len - fs) (rel + unat fs)"
  have step: "frag_loop h env iface gateway hlen mf bp ip len rel =
     (if len = 0 then ([], True) else if fd = [] then ([], False) else if \<not> ok then (out, False) else (out @ fst ?rest, snd ?rest))"
    by (subst frag_loop.simps) (simp add: Let_def defs q split_def)
  show ?case
  proof (cases "Send i g t pkt \<in> set out")
    case True
    then show ?thesis using here by (auto simp: ip1_def)
  next
    case False
    then have rest: "len \<noteq> 0" "fd \<noteq> []" "\<not> \<not> ok" "Send i g t pkt \<in> set (fst ?rest)"
      using "1.prems" by (auto simp: step split: if_splits)
    have "\<exists>ip' fd. pkt = htonip (h_le h) (h_al h) (h_fits h) ip' fd False \<and> ip_optlen ip' = ip_optlen ?ip2 \<and> ip_options ip' = ip_options ?ip2"
      using rest q by (intro "1.IH" [of ?mtu "len + hlen \<le> ?mtu" fs ip1 fd "(out, ok)" out ok]) (simp_all add: defs)
    then show ?thesis by (simp add: ip1_def)
  qed
qed

lemma htonip_old: "content (htonip le al fits ip pkt True) = ip_bytes ip (ip_cksum ip) @ content pkt"
  by (simp add: htonip_def pushdown_content)

lemma ip_forward_out:
  assumes "Send i g t pkt \<in> set (hp_out (ip_forward h env i_iface rx hlen ip bp strict good tab))"
  defines "ip2 \<equiv> ip\<lparr>ip_cksum := ttl_checksum (ip_cksum ip), ip_ttl := ip_ttl ip - 1\<rparr>"
  shows "(\<exists>iface gateway. Send i g t pkt \<in> set (fst (q_pkt h env iface gateway ip2 bp good))) \<or>
     (\<exists>iface gateway. Send i g t pkt \<in> set (fst (frag_loop h env iface gateway (of_nat hlen) (ip_mf ip2) bp ip2 (ip_len ip2 - of_nat hlen) 0)))"
proof (cases "ismyaddr env (ip_dest ip) \<noteq> None \<or> rx")
  case True
  then show ?thesis using assms(1) unfolding ip_forward_def if_P [OF True] by simp
next
  case notmine: False
  show ?thesis
  proof (cases "ip_ttl ip2 = 0")
    case True
    then show ?thesis using assms(1) unfolding ip_forward_def if_not_P [OF notmine] Let_def ip2_def by simp
  next
    case False
    obtain r tab' where r: "rt_lookup tab (ip_dest ip) = (r, tab')" by fastforce
    show ?thesis
    proof (cases r)
      case None
      then show ?thesis using assms(1) False r unfolding ip_forward_def if_not_P [OF notmine] Let_def ip2_def by simp
    next
      case (Some ref)
      then show ?thesis using assms(1) False r unfolding ip_forward_def if_not_P [OF notmine] ip2_def Let_def
        by (simp split: if_splits prod.splits) (metis fst_conv)+
    qed
  qed
qed

lemma ip_forward_sums:
  assumes wf: "wf_ip ip1" "ip_ttl ip1 \<noteq> 0" and old: "cksum le al None [ip_bytes ip1 (ip_cksum ip1)] (ip_hdr_len ip1) = 0"
    and ip: "ip_optlen ip = ip_optlen ip1" "length (ip_options ip) = IP_MAXOPT" "good \<Longrightarrow> ip = ip1"
    and snd: "Send i g t pkt \<in> set (hp_out (ip_forward h env i_iface rx hlen ip bp strict good tab))"
  shows "cksum le' al' None pkt (ip_hdr_len ip1) = 0"
proof -
  have fit: "opts_fit ip" using wf(1) ip by (simp add: opts_fit_def wf_ip_def)
  have hl: "ip_hdr_len ip1 = ip_hdr_len ip" using ip(1) by (simp add: ip_hdr_len_def)
  have new: "cksum le' al' None (htonip (h_le h) (h_al h) (h_fits h) ip' fd False) (ip_hdr_len ip1) = 0"
    if "ip_optlen ip' = ip_optlen ip" "ip_options ip' = ip_options ip" for ip' fd
  proof -
    have "opts_fit ip'" "ip_hdr_len ip' = ip_hdr_len ip" using that fit by (simp_all add: opts_fit_def ip_hdr_len_def)
    with htonip_sums_zero [OF this(1) refl] show ?thesis by (simp add: hl)
  qed
  let ?ip2 = "ip\<lparr>ip_cksum := ttl_checksum (ip_cksum ip), ip_ttl := ip_ttl ip - 1\<rparr>"
  have q: "cksum le' al' None pkt (ip_hdr_len ip1) = 0"
    if "Send i g t pkt \<in> set (fst (q_pkt h env iface gateway ?ip2 bp good))" for iface gateway
  proof -
    have pk: "pkt = htonip (h_le h) (h_al h) (h_fits h) ?ip2 bp good" using that by (auto simp: q_pkt_def Let_def split: if_splits)
    show ?thesis
    proof (cases good)
      case True
      then show ?thesis using ip(3) pk htonip_old [of _ _ _ ?ip2]
        by (intro ttl_checksum_valid [OF wf old, of _ "content bp"]) simp
    next
      case False
      then show ?thesis using new [of ?ip2 bp] pk by simp
    qed
  qed
  have f: "cksum le' al' None pkt (ip_hdr_len ip1) = 0"
    if "Send i g t pkt \<in> set (fst (frag_loop h env iface gateway hl mf bp ?ip2 len rel))" for iface gateway hl mf len rel
    using frag_loop_sends [OF that] new by auto
  show ?thesis
    using ip_forward_out [OF snd] q f by blast
qed

lemma ip_route_checks:
  assumes r: "ip_route h env fl il ip0 i_iface bp rx tab = Some r" and out: "hp_out r \<noteq> []"
  shows "\<not> len_p bp < IPLEN" "\<not> unat (hd (hd bp) AND 0xf) * 4 < IPLEN" "\<not> cksum (h_le h) (h_al h) None bp (unat (hd (hd bp) AND 0xf) * 4) \<noteq> 0"
proof -
  note r' = r [unfolded ip_route_def Let_def]
  show 1: "\<not> len_p bp < IPLEN"
  proof
    assume "len_p bp < IPLEN"
    from r' [unfolded if_P [OF this]] out show False by auto
  qed
  note r1 = r' [unfolded if_not_P [OF 1]]
  show 2: "\<not> unat (hd (hd bp) AND 0xf) * 4 < IPLEN"
  proof
    assume "unat (hd (hd bp) AND 0xf) * 4 < IPLEN"
    from r1 [unfolded if_P [OF this]] out show False by auto
  qed
  note r2 = r1 [unfolded if_not_P [OF 2]]
  show "\<not> cksum (h_le h) (h_al h) None bp (unat (hd (hd bp) AND 0xf) * 4) \<noteq> 0"
  proof
    assume "cksum (h_le h) (h_al h) None bp (unat (hd (hd bp) AND 0xf) * 4) \<noteq> 0"
    from r2 [unfolded if_P [OF this]] out show False by auto
  qed
qed


text \<open>A table with a default route only.\<close>

definition default_tab :: rtab where
  "default_tab = rt_init\<lparr>R_default := no_route\<lparr>rt_iface := Some (Port 1), rt_gateway := 0x2c000009, rt_metric := 1\<rparr>\<rparr>"

lemma search_no_routes: "Routes tab = (\<lambda>_ _. []) \<Longrightarrow> search_routes tab tsave target msk n = None"
  by (induction n arbitrary: target msk) (simp_all add: Let_def)

lemma default_tab_lookup: "a \<noteq> 0 \<Longrightarrow> fst (rt_lookup default_tab a) = Some R_default_ref \<and> R_default (snd (rt_lookup default_tab a)) = R_default default_tab"
  by (auto simp: rt_lookup_def default_tab_def rt_init_def search_no_routes Let_def)

definition sample_host :: host where
  "sample_host = \<lparr>h_le = True, h_al = (\<lambda>_. True), h_fits = False, h_avail = 9\<rparr>"

definition sample_datagram :: "byte \<Rightarrow> byte \<Rightarrow> byte \<Rightarrow> chain" where
  "sample_datagram ttl c d = [[69, 0, 0, 29, 0, 1, 0, 0, ttl, 17, c, d, 44, 5, 0, 1, 44, 6, 0, 2], [1, 2, 3], [4, 5, 6, 7, 8, 9]]"

lemma sample_forwarded:
  assumes c: "cksum True (\<lambda>_. True) None (sample_datagram ttl c d) 20 = 0" and ttl: "ttl \<noteq> 1"
  shows "\<exists>r tos pkt ip. ip_route sample_host sample_env [] [] sample_ip (Some (Port 0)) (sample_datagram ttl c d) False default_tab = Some r \<and>
     hp_out r = [Send (Port 1) 0x2c000009 tos pkt] \<and> pkt = htonip True (\<lambda>_. True) False ip [[1, 2, 3], [4, 5, 6, 7, 8, 9]] True \<and>
     ip = sample_ip\<lparr>ip_source := 0x2c050001, ip_dest := 0x2c060002, ip_len := 29, ip_id := 1, ip_offset := 0,
      ip_cksum := ttl_checksum (get16 c d), ip_mf := False, ip_ttl := ttl - 1, ip_optlen := 0\<rparr>"
proof -
  let ?bp = "sample_datagram ttl c d"
  define ip1 where "ip1 = sample_ip\<lparr>ip_source := 0x2c050001, ip_dest := 0x2c060002, ip_len := 29, ip_id := 1, ip_offset := 0,
      ip_cksum := get16 c d, ip_mf := False, ip_ttl := ttl, ip_optlen := 0\<rparr>"
  let ?ip2 = "ip1\<lparr>ip_cksum := ttl_checksum (ip_cksum ip1), ip_ttl := ip_ttl ip1 - 1\<rparr>"
  obtain tab where l: "rt_lookup default_tab 0x2c060002 = (Some R_default_ref, tab)" "R_default tab = R_default default_tab"
    using default_tab_lookup [of "0x2c060002"] by (cases "rt_lookup default_tab 0x2c060002") auto
  have g: "get16 0 29 = 29" "get16 0 1 = 1" "get16 0 0 = 0" "get32 44 5 0 1 = 0x2c050001" "get32 44 6 0 2 = 0x2c060002"
    by (simp_all add: get16_def get32_def)
  have n: "ntohip_out sample_ip ?bp = (ip1, [[1, 2, 3], [4, 5, 6, 7, 8, 9]])"
    by (simp add: ntohip_out_def sample_datagram_def pullup.simps(2) IPLEN_def ntohip_fixed_def g Let_def ip1_def sample_ip_def)
  have f: "ipfilter [] a" for a by (simp add: ipfilter_def)
  have my: "ismyaddr sample_env 0x2c060002 = None" by (simp add: ismyaddr_def sample_env_def)
  let ?s = "\<lparr>op_mem = ip_optlen ip1 # ip_options ip1, op_dest = ip_dest ip1, op_strict = False,
      op_good = True, op_tab = default_tab, op_out = []\<rparr>"
  have o: "opt_loop sample_env ip1 False 0 ?s = Opt_ok ?s"
    by (simp add: opt_loop.simps ip1_def)
  have "ttl - 1 \<noteq> 0" using ttl by simp
  then have fw: "hp_out (ip_forward sample_host sample_env (Some (Port 0)) False 20 ip1 bpp False True default_tab) =
      [Send (Port 1) 0x2c000009 (ip_tos ip1 AND 0xfc) (htonip True (\<lambda>_. True) False ?ip2 bpp True)]" for bpp
    using l my by (simp add: ip_forward_def ip1_def q_pkt_def sample_env_def sample_host_def default_tab_def no_route_def Let_def)
  have "op_ip ip1 ?s = ip1" by (simp add: op_ip_def)
  moreover have "len_p ?bp = 29" "unat (hd (hd ?bp) AND 0xf) * 4 = 20" "ip_version ip1 = 4"
      "\<not> if_learns_routes sample_env (Some (Port 0))" "h_le sample_host" "h_al sample_host = (\<lambda>_. True)"
    by (simp_all add: len_p_content sample_datagram_def sample_env_def ip1_def sample_ip_def if_learns_routes_def sample_host_def)
  ultimately have r: "\<exists>r. ip_route sample_host sample_env [] [] sample_ip (Some (Port 0)) ?bp False default_tab = Some r \<and>
      hp_out r = [Send (Port 1) 0x2c000009 (ip_tos ip1 AND 0xfc) (htonip True (\<lambda>_. True) False ?ip2 [[1, 2, 3], [4, 5, 6, 7, 8, 9]] True)]"
    using n c f o fw [of "[[1, 2, 3], [4, 5, 6, 7, 8, 9]]"] unfolding ip_route_def Let_def
    by (simp add: IPLEN_def)
  have "?ip2 = sample_ip\<lparr>ip_source := 0x2c050001, ip_dest := 0x2c060002, ip_len := 29, ip_id := 1, ip_offset := 0,
      ip_cksum := ttl_checksum (get16 c d), ip_mf := False, ip_ttl := ttl - 1, ip_optlen := 0\<rparr>" by (simp add: ip1_def)
  then show ?thesis using r by metis
qed



text \<open>What \<^verbatim>\<open>ntohip\<close> returns is not looked at: a datagram of 20 octets whose header claims to have 24 is delivered, and its
  options are what was on the stack before.\<close>
theorem missing_options_from_stack:
  "\<exists>r ip c. ip_route sample_host sample_env [] [] (sample_ip\<lparr>ip_options := 0 # replicate 39 y\<rparr>) (Some (Port 0)) [[70, 0, 0, 20, 0, 1, 0, 0, 5, 17, 92, 210, 44, 5, 0, 1, 44, 0, 0, 1]] False rt_init = Some r \<and>
     hp_out r = [Ip_recv (Some (Port 0)) ip c False] \<and> ip_optlen ip = 4 \<and> ip_options ip ! 1 = y"
proof -
  let ?bp = "[[70, 0, 0, 20, 0, 1, 0, 0, 5, 17, 92, 210, 44, 5, 0, 1, 44, 0, 0, 1]] :: chain" and ?ip0 = "sample_ip\<lparr>ip_options := 0 # replicate 39 y\<rparr>"
  define ip1 where "ip1 = sample_ip\<lparr>ip_options := 0 # replicate 39 y, ip_source := 0x2c050001, ip_dest := 0x2c000001, ip_len := 20,
      ip_id := 1, ip_offset := 0, ip_cksum := 0x5cd2, ip_mf := False, ip_ttl := 5, ip_optlen := 4\<rparr>"
  have n: "ntohip_out ?ip0 ?bp = (ip1, [])"
    by (simp add: ntohip_out_def pullup.simps(2) IPLEN_def ntohip_fixed_def get16_def get32_def Let_def ip1_def sample_ip_def)
  have c: "cksum True (\<lambda>_. True) None ?bp 24 = 0"
    by (simp add: cksum_eac ph_sum_def eac.simps)
  have f: "ipfilter [] a" for a by (simp add: ipfilter_def)
  let ?s = "\<lparr>op_mem = ip_optlen ip1 # ip_options ip1, op_dest = ip_dest ip1, op_strict = False,
      op_good = True, op_tab = rt_init, op_out = []\<rparr>"
  have o: "opt_loop sample_env ip1 False 0 ?s = Opt_ok ?s"
    by (simp add: opt_loop.simps ip1_def rd_def OPT_NUMBER_def IP_EOL_def)
  have "ismyaddr sample_env (ip_dest ip1) \<noteq> None" by (simp add: ismyaddr_def sample_env_def ip1_def)
  then have fw: "hp_out (ip_forward sample_host sample_env (Some (Port 0)) False 24 ip1 [] False True rt_init) =
      [Ip_recv (Some (Port 0)) ip1 [] False]" by (simp add: ip_forward_def)
  have "op_ip ip1 ?s = ip1" by (simp add: op_ip_def)
  moreover have "len_p ?bp = 20" "unat (hd (hd ?bp) AND 0xf) * 4 = 24" "ip_version ip1 = 4"
      "\<not> if_learns_routes sample_env (Some (Port 0))" "h_le sample_host" "h_al sample_host = (\<lambda>_. True)"
    by (simp_all add: len_p_content sample_env_def ip1_def sample_ip_def if_learns_routes_def sample_host_def)
  ultimately have "\<exists>r. ip_route sample_host sample_env [] [] ?ip0 (Some (Port 0)) ?bp False rt_init = Some r \<and>
      hp_out r = [Ip_recv (Some (Port 0)) ip1 [] False]"
    using n c f o fw unfolding ip_route_def Let_def by (simp add: IPLEN_def)
  moreover have "ip_optlen ip1 = 4" "ip_options ip1 ! 1 = y" by (simp_all add: ip1_def)
  ultimately show ?thesis by blast
qed

end
