(* ===== verification/Lapb_Seg.thy ===== *)
theory Lapb_Seg
  imports Mbuf
begin

text \<open>
  Segmentation of datagrams over AX.25 I frames: \<^verbatim>\<open>segmenter\<close> and \<^verbatim>\<open>procdata\<close> of \<^verbatim>\<open>src/src/lapb.c\<close>.

  What \<^verbatim>\<open>procdata\<close> hands to \<^verbatim>\<open>handleit\<close> is logged in \<open>rx_up\<close>, with the protocol id (-1 when there is none).
  The operations are shown to depend on the content of the packets only (\<open>procbytes\<close> is their description
  on byte strings), every datagram the segmenter accepts is put together again, and it refuses exactly those that would
  need more segments than the counter can express.
\<close>

definition PID_SEGMENT :: byte where "PID_SEGMENT = 0x08"
definition SEG_FIRST :: byte where "SEG_FIRST = 0x80"
definition SEG_REM :: byte where "SEG_REM = 0x7f"

section \<open>Cutting\<close>

text \<open>\<open>segments\<close> is the number of segments still to be made; \<open>None\<close> when \<^verbatim>\<open>dup_p\<close> finds no memory.\<close>

fun seg_loop :: "nat \<Rightarrow> bool \<Rightarrow> chain \<Rightarrow> nat \<Rightarrow> nat \<Rightarrow> nat \<Rightarrow> pqueue \<Rightarrow> pqueue option" where
  "seg_loop avail fits bpp ssize offset 0 result = Some result"
| "seg_loop avail fits bpp ssize offset (Suc segments) result =
     (let (n, bptmp) = dup_p avail bpp offset ssize;
          offset = offset + n
      in if bptmp = [] then None
         else let bptmp = pushdown fits
                [PID_SEGMENT, (if offset = ssize then of_nat segments OR SEG_FIRST else of_nat segments)] bptmp
              in seg_loop avail fits bpp ssize offset segments (enqueue result bptmp))"

definition segmenter :: "nat \<Rightarrow> bool \<Rightarrow> chain \<Rightarrow> nat \<Rightarrow> pqueue" where
  "segmenter avail fits bpp ssize =
     (let len = len_p bpp
      in if len \<le> ssize + 1 then [bpp]
         else if ssize < 2 then []
         else let ssize = ssize - 1; segments = 1 + (len - 1) div ssize
              in if segments - 1 > unat SEG_REM then []
                 else (case seg_loop avail fits bpp ssize 0 segments [] of None \<Rightarrow> [] | Some q \<Rightarrow> q))"

section \<open>Putting together\<close>

record rxdata =
  rx_asm :: chain
  rx_remain :: int
  rx_up :: "(int \<times> chain) list"

definition pull_int :: "chain \<Rightarrow> int \<times> chain" where
  "pull_int bpp = (case PULLCHAR bpp of (None, bpp) \<Rightarrow> (-1, bpp) | (Some b, bpp) \<Rightarrow> (uint b, bpp))"

definition hand_up :: "int \<Rightarrow> chain \<Rightarrow> rxdata \<Rightarrow> rxdata" where
  "hand_up pid bpp rx = rx\<lparr>rx_up := rx_up rx @ [(pid, bpp)]\<rparr>"

definition procdata :: "chain \<Rightarrow> rxdata \<Rightarrow> rxdata" where
  "procdata bpp rx =
     (let (pid, bpp) = pull_int bpp
      in if pid = -1 then rx
      else if rx_remain rx \<noteq> 0
      then let (sq, bpp) = pull_int bpp; sqb = (word_of_int sq :: byte)
           in if pid = uint PID_SEGMENT \<and> uint (sqb AND SEG_REM) = rx_remain rx - 1
              then let asm = append_p (rx_asm rx) bpp; rx = rx\<lparr>rx_asm := asm, rx_remain := uint (sqb AND SEG_REM)\<rparr>
                   in if rx_remain rx = 0
                      then let (pid, bpp) = pull_int asm in hand_up pid bpp (rx\<lparr>rx_asm := []\<rparr>)
                      else rx
              else rx\<lparr>rx_asm := [], rx_remain := 0\<rparr>
      else if pid = uint PID_SEGMENT
      then let (sq, bpp) = pull_int bpp; sqb = (word_of_int sq :: byte)
           in if sqb AND SEG_FIRST = 0 then rx
              else rx\<lparr>rx_remain := uint (sqb AND SEG_REM), rx_asm := bpp\<rparr>
      else hand_up pid bpp rx)"

section \<open>On byte strings\<close>

record rxbytes =
  rb_asm :: "byte list"
  rb_remain :: int
  rb_up :: "(int \<times> byte list) list"

definition rx_bytes :: "rxdata \<Rightarrow> rxbytes" where
  "rx_bytes rx = \<lparr>rb_asm = content (rx_asm rx), rb_remain = rx_remain rx, rb_up = map (apsnd content) (rx_up rx)\<rparr>"

fun takebyte :: "byte list \<Rightarrow> int \<times> byte list" where
  "takebyte [] = (-1, [])"
| "takebyte (b # bs) = (uint b, bs)"

definition up_bytes :: "byte list \<Rightarrow> rxbytes \<Rightarrow> rxbytes" where
  "up_bytes bs rb = rb\<lparr>rb_up := rb_up rb @ [takebyte bs]\<rparr>"

definition procbytes :: "byte list \<Rightarrow> rxbytes \<Rightarrow> rxbytes" where
  "procbytes bs rb =
     (case bs of
        [] \<Rightarrow> rb
      | pid # bs' \<Rightarrow>
          let sq = (case bs' of [] \<Rightarrow> - 1 | b # _ \<Rightarrow> b); body = tl bs'
          in if rb_remain rb \<noteq> 0
             then (if pid = PID_SEGMENT \<and> uint (sq AND SEG_REM) = rb_remain rb - 1
                   then if sq AND SEG_REM = 0
                        then up_bytes (rb_asm rb @ body) (rb\<lparr>rb_asm := [], rb_remain := 0\<rparr>)
                        else rb\<lparr>rb_asm := rb_asm rb @ body, rb_remain := uint (sq AND SEG_REM)\<rparr>
                   else rb\<lparr>rb_asm := [], rb_remain := 0\<rparr>)
             else if pid = PID_SEGMENT
             then (if sq AND SEG_FIRST = 0 then rb else rb\<lparr>rb_asm := body, rb_remain := uint (sq AND SEG_REM)\<rparr>)
             else up_bytes bs rb)"

lemma pull_int_content:
  "pull_int bpp = (i, bpp') \<Longrightarrow> i = fst (takebyte (content bpp)) \<and> content bpp' = snd (takebyte (content bpp))"
  using PULLCHAR_content [of bpp "fst (PULLCHAR bpp)" "snd (PULLCHAR bpp)"]
  by (cases "content bpp") (auto simp: pull_int_def split: prod.splits option.splits)

lemma takebyte_tl: "snd (takebyte bs) = tl bs"
  by (cases bs) auto

lemma takebyte_byte: "word_of_int (fst (takebyte bs)) = (case bs of [] \<Rightarrow> - 1 | b # _ \<Rightarrow> b)"
  by (cases bs) auto

lemma uint_eq_minus_one: "uint (b :: byte) \<noteq> - 1"
  using uint_ge_0 [of b] by linarith

lemma hand_up_bytes:
  "pull_int bpp = (pid, bpp') \<Longrightarrow> rx_bytes (hand_up pid bpp' rx) = up_bytes (content bpp) (rx_bytes rx)"
  using pull_int_content [of bpp pid bpp'] by (simp add: hand_up_def up_bytes_def rx_bytes_def prod_eq_iff)

lemma procdata_refines: "rx_bytes (procdata bpp rx) = procbytes (content bpp) (rx_bytes rx)"
proof (cases "content bpp")
  case Nil
  then have "fst (pull_int bpp) = -1" using pull_int_content [of bpp] by (cases "pull_int bpp") auto
  then show ?thesis using Nil by (simp add: procdata_def procbytes_def split_def Let_def)
next
  case (Cons pid bs)
  obtain bpp1 where p1: "pull_int bpp = (uint pid, bpp1)" "content bpp1 = bs"
    using pull_int_content [of bpp] Cons by (cases "pull_int bpp") auto
  obtain sq bpp2 where p2: "pull_int bpp1 = (sq, bpp2)" by fastforce
  then have c2: "content bpp2 = tl bs" "word_of_int sq = (case bs of [] \<Rightarrow> (- 1 :: byte) | b # _ \<Rightarrow> b)"
    using pull_int_content [OF p2] p1 takebyte_tl takebyte_byte [of bs] by auto
  have asm: "rx_bytes (case pull_int a of (pid, bpp) \<Rightarrow> hand_up pid bpp r) = up_bytes (content a) (rx_bytes r)" for a r
    using hand_up_bytes [of a] by (simp split: prod.split)
  have pid: "uint pid = uint PID_SEGMENT \<longleftrightarrow> pid = PID_SEGMENT" "uint pid \<noteq> - 1"
    using uint_eq_minus_one by (simp_all add: word_uint_eq_iff)
  show ?thesis
  proof (cases "rx_remain rx = 0")
    case True
    then show ?thesis
      using p1 p2 c2 pid hand_up_bytes [OF p1(1)] Cons by (simp add: procdata_def procbytes_def rx_bytes_def Let_def)
  next
    case False
    define sqb where "sqb = (word_of_int sq :: byte)"
    have z: "uint (sqb AND SEG_REM) = 0 \<longleftrightarrow> sqb AND SEG_REM = 0" by (simp add: word_uint_eq_iff)
    show ?thesis
      using False p1 p2 c2(1) pid asm Cons z
      by (simp add: procdata_def procbytes_def rx_bytes_def Let_def append_p_content flip: c2(2) sqb_def)
  qed
qed

section \<open>Round trip\<close>

text \<open>The segments, as byte strings.\<close>

fun seg_spec :: "nat \<Rightarrow> bool \<Rightarrow> byte list \<Rightarrow> nat \<Rightarrow> byte list list" where
  "seg_spec s first d 0 = []"
| "seg_spec s first d (Suc k) =
     ([PID_SEGMENT, (if first then of_nat k OR SEG_FIRST else of_nat k)] @ take s d) # seg_spec s False (drop s d) k"

lemma length_seg_spec [simp]: "length (seg_spec s first d k) = k"
  by (induction k arbitrary: first d) auto

lemma seg_loop_spec:
  assumes "length bpp \<le> avail" "0 < s"
  shows "k * s < length (content bpp) - offset + s \<Longrightarrow> (offset = 0 \<Longrightarrow> s \<le> length (content bpp)) \<Longrightarrow> (offset \<noteq> 0 \<Longrightarrow> s \<le> offset) \<Longrightarrow>
     (1 < k \<Longrightarrow> s \<le> length (content bpp) - offset) \<Longrightarrow>
     \<exists>q. seg_loop avail fits bpp s offset k result = Some (result @ q) \<and>
       map content q = seg_spec s (offset = 0) (drop offset (content bpp)) k"
proof (induction k arbitrary: offset result)
  case (Suc k)
  obtain n bptmp where d: "dup_p avail bpp offset s = (n, bptmp)" by fastforce
  have c: "content bptmp = take s (drop offset (content bpp))"
    using dup_p_enough [OF assms(1), of offset s] d by simp
  have n: "n = min s (length (content bpp) - offset)" using dup_p_count [of avail bpp offset s] d c by simp
  have pos: "0 < length (content bpp) - offset" using Suc.prems(1) assms(2) by (cases k) auto
  then have ne: "bptmp \<noteq> []" "0 < n" using c n assms(2) by auto
  have first: "offset + n = s \<longleftrightarrow> offset = 0" using n Suc.prems(2,3) ne(2) by (cases "offset = 0") auto
  define seg where "seg = pushdown fits [PID_SEGMENT, (if offset + n = s then of_nat k OR SEG_FIRST else of_nat k)] bptmp"
  have seg: "content seg = [PID_SEGMENT, (if offset = 0 then of_nat k OR SEG_FIRST else of_nat k)] @ take s (drop offset (content bpp))"
    by (simp add: seg_def pushdown_content c first)
  then have "seg \<noteq> []" by auto
  then have enq: "enqueue result seg = result @ [seg]" by (simp add: enqueue_def)
  have step: "seg_loop avail fits bpp s offset (Suc k) result = seg_loop avail fits bpp s (offset + n) k (result @ [seg])"
    using d ne by (simp add: seg_def [symmetric] enq)
  show ?case
  proof (cases k)
    case 0
    then show ?thesis using step seg by auto
  next
    case (Suc k')
    then have "s \<le> length (content bpp) - offset" using Suc.prems(4) by simp
    then have n': "n = s" using n by simp
    have "\<exists>q. seg_loop avail fits bpp s (offset + n) k (result @ [seg]) = Some ((result @ [seg]) @ q) \<and>
       map content q = seg_spec s (offset + n = 0) (drop (offset + n) (content bpp)) k"
    proof (rule Suc.IH)
      show "k * s < length (content bpp) - (offset + n) + s"
        using Suc.prems(1) n' \<open>s \<le> length (content bpp) - offset\<close> by simp
      then show "s \<le> length (content bpp) - (offset + n)" if "1 < k"
        using that by (cases k; cases "k - 1") auto
    qed (use ne n' in auto)
    then show ?thesis using step seg ne n' by (auto simp: add.commute)
  qed
qed auto

lemma seg_counter:
  "k < 128 \<Longrightarrow> uint ((of_nat k :: byte) AND SEG_REM) = int k"
  "k < 128 \<Longrightarrow> uint ((of_nat k OR SEG_FIRST :: byte) AND SEG_REM) = int k"
  "(of_nat k OR SEG_FIRST :: byte) AND SEG_FIRST \<noteq> 0"
proof -
  have m: "SEG_REM = mask 7" "SEG_FIRST = push_bit 7 1" by (simp_all add: SEG_REM_def SEG_FIRST_def mask_eq_exp_minus_1)
  have t: "take_bit 7 (of_nat k OR push_bit 7 1 :: byte) = take_bit 7 (of_nat k)"
    by (rule bit_word_eqI) (auto simp: bit_take_bit_iff bit_or_iff bit_push_bit_iff)
  assume k: "k < 128"
  have "uint (take_bit 7 (of_nat k :: byte)) = int k"
    unfolding unsigned_take_bit_eq using k by (simp add: take_bit_eq_mod unsigned_of_nat)
  then show "uint ((of_nat k :: byte) AND SEG_REM) = int k" "uint ((of_nat k OR SEG_FIRST :: byte) AND SEG_REM) = int k"
    using t by (simp_all add: m flip: take_bit_eq_mask)
next
  have m: "SEG_FIRST = push_bit 7 1" by (simp add: SEG_FIRST_def)
  have "bit ((of_nat k OR SEG_FIRST :: byte) AND SEG_FIRST) 7"
    unfolding m by (simp add: bit_and_iff bit_or_iff bit_push_bit_iff)
  then show "(of_nat k OR SEG_FIRST :: byte) AND SEG_FIRST \<noteq> 0" by auto
qed

lemma procbytes_rest:
  assumes "0 < s"
  shows "k * s < length d + s \<Longrightarrow> length d \<le> k * s \<Longrightarrow> 0 < k \<Longrightarrow> k < 128 \<Longrightarrow> rb_remain rb = int k \<Longrightarrow>
     fold procbytes (seg_spec s False d k) rb = up_bytes (rb_asm rb @ d) (rb\<lparr>rb_asm := [], rb_remain := 0\<rparr>)"
proof (induction k arbitrary: d rb)
  case (Suc k)
  have sq: "uint ((of_nat k :: byte) AND SEG_REM) = int k" using Suc.prems(4) by (simp add: seg_counter)
  then have z: "(of_nat k :: byte) AND SEG_REM = 0 \<longleftrightarrow> k = 0" by (simp add: word_uint_eq_iff)
  let ?rb = "rb\<lparr>rb_asm := rb_asm rb @ take s d, rb_remain := int k\<rparr>"
  have one: "procbytes ([PID_SEGMENT, of_nat k] @ take s d) rb =
      (if k = 0 then up_bytes (rb_asm rb @ take s d) (rb\<lparr>rb_asm := [], rb_remain := 0\<rparr>) else ?rb)"
    using Suc.prems(5) sq z by (simp add: procbytes_def)
  show ?case
  proof (cases "k = 0")
    case True
    then show ?thesis using one Suc.prems(2) by simp
  next
    case False
    have "fold procbytes (seg_spec s False (drop s d) k) ?rb =
        up_bytes (rb_asm ?rb @ drop s d) (?rb\<lparr>rb_asm := [], rb_remain := 0\<rparr>)"
      using Suc.prems False assms by (intro Suc.IH) (auto simp: not_less_eq)
    then show ?thesis using one False by simp
  qed
qed simp

lemma fold_procdata_bytes: "rx_bytes (fold procdata ps rx) = fold procbytes (map content ps) (rx_bytes rx)"
proof (induction ps arbitrary: rx)
  case (Cons p ps)
  then show ?case by (simp add: procdata_refines)
qed simp

lemma segmenter_spec:
  assumes mem: "length bpp \<le> avail" and big: "ssize + 1 < length (content bpp)"
    and fit: "2 \<le> ssize" "length (content bpp) \<le> 128 * (ssize - 1)"
  shows "\<exists>n. 2 \<le> n \<and> n \<le> 128 \<and> n * (ssize - 1) < length (content bpp) + (ssize - 1) \<and> length (content bpp) \<le> n * (ssize - 1) \<and>
     map content (segmenter avail fits bpp ssize) = seg_spec (ssize - 1) True (content bpp) n"
proof -
  let ?d = "content bpp"
  define s where "s = ssize - 1"
  define n where "n = 1 + (length ?d - 1) div s"
  have s: "0 < s" "s < length ?d - 1" "length ?d \<le> 128 * s" using big fit by (auto simp: s_def)
  have d: "length ?d - 1 = (n - 1) * s + (length ?d - 1) mod s" by (simp add: n_def)
  have mod: "(length ?d - 1) mod s < s" using s by simp
  have n2: "2 \<le> n" using s by (simp add: n_def Suc_le_eq div_greater_zero_iff)
  have "(length ?d - 1) div s < 128" using s by (simp add: less_mult_imp_div_less mult.commute)
  then have n128: "n \<le> 128" "n - 1 \<le> 127" by (simp_all add: n_def)
  have up: "length ?d \<le> n * s" "n * s < length ?d + s"
  proof -
    have "n * s = (n - 1) * s + s" using n2 by (cases n) simp_all
    then show "length ?d \<le> n * s" "n * s < length ?d + s" using d mod s by linarith+
  qed
  have "\<exists>q. seg_loop avail fits bpp s 0 n [] = Some ([] @ q) \<and> map content q = seg_spec s (0 = (0::nat)) (drop 0 ?d) n"
    using mem s up by (intro seg_loop_spec) auto
  then have "map content (segmenter avail fits bpp ssize) = seg_spec s True ?d n"
    using big fit n128 by (auto simp: segmenter_def len_p_content n_def s_def SEG_REM_def)
  then show ?thesis using n2 n128 up by (auto simp: s_def)
qed

lemma segments_processed:
  assumes "length bpp \<le> avail" "content bpp = pid # info" "pid \<noteq> PID_SEGMENT" "segmenter avail fits bpp ssize \<noteq> []"
    and idle: "rb_remain rb = 0" "rb_asm rb = []"
  shows "fold procbytes (map content (segmenter avail fits bpp ssize)) rb = rb\<lparr>rb_up := rb_up rb @ [(uint pid, info)]\<rparr>"
proof (cases "ssize + 1 < length (content bpp)")
  case False
  then have "segmenter avail fits bpp ssize = [bpp]" by (simp add: segmenter_def len_p_content)
  then show ?thesis using assms(2,3) idle by (simp add: procbytes_def up_bytes_def)
next
  case True
  define s where "s = ssize - 1"
  have fit: "2 \<le> ssize" "length (content bpp) \<le> 128 * s"
  proof -
    show "2 \<le> ssize" using assms(4) True by (auto simp: segmenter_def len_p_content Let_def split: if_splits)
    moreover have "(length (content bpp) - 1) div s \<le> 127"
      using assms(4) True by (auto simp: segmenter_def len_p_content Let_def SEG_REM_def s_def split: if_splits)
    ultimately have "length (content bpp) - 1 < 128 * s"
      using div_less_iff_less_mult [of s "length (content bpp) - 1" 128] by (simp add: s_def mult.commute)
    then show "length (content bpp) \<le> 128 * s" by simp
  qed
  then obtain n where n: "2 \<le> n" "n \<le> 128" "n * s < length (content bpp) + s" "length (content bpp) \<le> n * s"
      "map content (segmenter avail fits bpp ssize) = seg_spec s True (content bpp) n"
    using segmenter_spec [OF assms(1) True] by (auto simp: s_def)
  obtain k where k: "n = Suc k" using n(1) by (cases n) auto
  have s: "0 < s" using fit by (simp add: s_def)
  let ?rb = "rb\<lparr>rb_asm := take s (content bpp), rb_remain := int k\<rparr>"
  have "fold procbytes (seg_spec s True (content bpp) n) rb = fold procbytes (seg_spec s False (drop s (content bpp)) k) ?rb"
    using idle seg_counter(2,3) [of k] n(2) by (simp add: k procbytes_def)
  also have "\<dots> = up_bytes (rb_asm ?rb @ drop s (content bpp)) (?rb\<lparr>rb_asm := [], rb_remain := 0\<rparr>)"
    using n s by (intro procbytes_rest) (auto simp: k)
  finally show ?thesis using idle assms(2) by (simp add: n(5) up_bytes_def)
qed

text \<open>C14: What the segmenter makes of a datagram is put together again by \<^verbatim>\<open>procdata\<close>: when the segments arrive in order, in
  whatever buffers, exactly the datagram is handed up, once, under its own protocol id, and the receiver is ready for the
  next one.\<close>
theorem segmentation_roundtrip:
  assumes "length bpp \<le> avail" "content bpp = pid # info" "pid \<noteq> PID_SEGMENT" "segmenter avail fits bpp ssize \<noteq> []"
    and got: "map content got = map content (segmenter avail fits bpp ssize)" and idle: "rx_remain rx = 0" "rx_asm rx = []"
  shows "rx_bytes (fold procdata got rx) = (rx_bytes rx)\<lparr>rb_up := rb_up (rx_bytes rx) @ [(uint pid, info)]\<rparr>"
  unfolding fold_procdata_bytes got
  by (rule segments_processed [OF assms(1-4)]) (simp_all add: rx_bytes_def idle)

lemma segmentation_roundtrip_witness:
  "rx_bytes (fold procdata (rev (rev (segmenter 5 False [[0xcc, 1, 2], [3, 4, 5, 6, 7]] 4))) \<lparr>rx_asm = [], rx_remain = 0, rx_up = []\<rparr>) =
     \<lparr>rb_asm = [], rb_remain = 0, rb_up = [(0xcc, [1, 2, 3, 4, 5, 6, 7])]\<rparr>"
proof -
  have "segmenter 5 False [[0xcc, 1, 2], [3, 4, 5, 6, 7]] 4 \<noteq> []" by code_simp
  from segmentation_roundtrip [OF _ _ _ this refl, of "0xcc" "[1, 2, 3, 4, 5, 6, 7]" "\<lparr>rx_asm = [], rx_remain = 0, rx_up = []\<rparr>"]
  show ?thesis by (simp add: PID_SEGMENT_def rx_bytes_def)
qed

text \<open>The segmenter refuses a datagram exactly when it does not fit one frame and would need more than 128 segments (or
  there is no room for the counter); what it makes has information fields of at most \<^verbatim>\<open>paclen\<close> octets behind the protocol id.\<close>
theorem segments_fit:
  assumes "length bpp \<le> avail" "content bpp \<noteq> []"
  shows "(segmenter avail fits bpp ssize = [] \<longleftrightarrow> ssize + 1 < length (content bpp) \<and> (ssize < 2 \<or> 128 * (ssize - 1) < length (content bpp))) \<and>
     list_all (\<lambda>p. length (content p) \<le> ssize + 1) (segmenter avail fits bpp ssize)"
proof (cases "ssize + 1 < length (content bpp)")
  case False
  then show ?thesis by (simp add: segmenter_def len_p_content)
next
  case True
  show ?thesis
  proof (cases "2 \<le> ssize \<and> length (content bpp) \<le> 128 * (ssize - 1)")
    case False
    have "127 < (length (content bpp) - 1) div (ssize - 1)" if "2 \<le> ssize"
    proof -
      have "128 * (ssize - 1) \<le> length (content bpp) - 1" using False that by auto
      then show ?thesis using that by (simp add: Suc_le_eq [symmetric] less_eq_div_iff_mult_less_eq)
    qed
    then have "segmenter avail fits bpp ssize = []"
      using True False by (auto simp: segmenter_def len_p_content SEG_REM_def Let_def not_le)
    then show ?thesis using True False by auto
  next
    case fit: True
    then obtain n where n: "2 \<le> n" "map content (segmenter avail fits bpp ssize) = seg_spec (ssize - 1) True (content bpp) n"
      using segmenter_spec [OF assms(1) True] by auto
    have short: "list_all (\<lambda>p. length p \<le> s + 2) (seg_spec s b d k)" for s b d k
      by (induction k arbitrary: b d) auto
    have "list_all (\<lambda>p. length p \<le> ssize + 1) (map content (segmenter avail fits bpp ssize))"
      using short [of "ssize - 1" True "content bpp" n] fit unfolding n(2) by simp
    moreover have "segmenter avail fits bpp ssize \<noteq> []" using arg_cong [OF n(2), of length] n(1) by auto
    ultimately show ?thesis using fit by (auto simp: list_all_iff)
  qed
qed

lemma segments_fit_witness:
  "segmenter 1 False [replicate 300 1] 3 = [] \<and> segmenter 1 False [replicate 300 1] 4 \<noteq> []"
proof
  show "segmenter 1 False [replicate 300 1] 3 = []" using segments_fit [of "[replicate 300 1]" 1 False 3] by simp
  show "segmenter 1 False [replicate 300 1] 4 \<noteq> []" using segments_fit [of "[replicate 300 1]" 1 False 4] by auto
qed

section \<open>What has been handed up stays\<close>

lemma procbytes_grows: "\<exists>l. rb_up (procbytes bs rb) = rb_up rb @ l"
  by (auto simp: procbytes_def up_bytes_def Let_def split: list.split)

lemma fold_procbytes_grows: "\<exists>l. rb_up (fold procbytes bss rb) = rb_up rb @ l"
proof (induction bss arbitrary: rb)
  case (Cons bs bss)
  then show ?case using procbytes_grows [of bs rb] by (metis append.assoc fold_simps(2))
qed simp

end
