(* ===== verification/Lapb.thy ===== *)
theory Lapb
  imports Lapb_Seg Ax25_Hdr
begin

text \<open>
  The link control of \<^verbatim>\<open>src/src/lapb.c\<close> and \<^verbatim>\<open>src/src/lapbtime.c\<close> for a link that ends at this
  node (\<^verbatim>\<open>peer\<close> and \<^verbatim>\<open>loop\<close> are null): sending of frames and acknowledgements, acknowledgement processing,
  resequencing of received frames, the five timers and the state machine \<^verbatim>\<open>lapb_input\<close>.  XID frames are handed on as an event.

  The control block is the record \<open>axcb\<close>; \<open>cb_ev\<close> logs what leaves the handlers: frames for the interface, upcalls, notes for
  the routing table and for DAMA.  The outside is the record \<open>lenv\<close>: clock, memory, settings of the port, what the
  consumers still hold, and the answers of \<^verbatim>\<open>dama.c\<close>.
\<close>

section \<open>Control field\<close>

definition S_FRAME :: byte where "S_FRAME = 0x01"
definition U_FRAME :: byte where "U_FRAME = 0x03"
definition RR :: byte where "RR = 0x01"
definition RNR :: byte where "RNR = 0x05"
definition REJ :: byte where "REJ = 0x09"
definition SREJ :: byte where "SREJ = 0x0d"
definition SABM :: byte where "SABM = 0x2f"
definition SABME :: byte where "SABME = 0x6f"
definition DISC :: byte where "DISC = 0x43"
definition DM :: byte where "DM = 0x0f"
definition UA :: byte where "UA = 0x63"
definition FRMR :: byte where "FRMR = 0x87"
definition XID :: byte where "XID = 0xaf"
definition TEST :: byte where "TEST = 0xe3"
definition PF :: byte where "PF = 0x10"
definition PF_EAX25 :: byte where "PF_EAX25 = 0x01"
definition MMASK :: byte where "MMASK = 7"
definition EMMASK :: byte where "EMMASK = 0x7f"

lemmas ctl_defs = S_FRAME_def U_FRAME_def RR_def RNR_def REJ_def SREJ_def SABM_def SABME_def DISC_def DM_def UA_def FRMR_def
  XID_def TEST_def PF_def PF_EAX25_def MMASK_def EMMASK_def

definition ftype :: "byte \<Rightarrow> byte" where
  "ftype control =
     (if control AND 1 = 0 then 0
      else if control AND 2 \<noteq> 0 then control AND NOT PF
      else control AND 0xf)"

section \<open>The control block\<close>

datatype lapb_state = LAPB_DISCONNECTED | LAPB_LISTEN | LAPB_SETUP | LAPB_DISCPENDING | LAPB_CONNECTED | LAPB_RECOVERY
datatype lapb_version = V1 | V2 | V2_2
datatype lb_reason = LB_NORMAL | LB_DM | LB_TIMEOUT | LB_NEGOTIATION

record tmr =
  tm_dur :: int
  tm_run :: bool

definition start_t :: "tmr \<Rightarrow> tmr" where "start_t t = t\<lparr>tm_run := (tm_dur t > 0)\<rparr>"
definition stop_t :: "tmr \<Rightarrow> tmr" where "stop_t t = t\<lparr>tm_run := False\<rparr>"

record axreseq =
  rs_bp :: chain
  rs_sum :: nat

datatype lapb_event =
  Raw lapb_cmdrsp chain
| Xid_in lapb_cmdrsp bool chain
| T_upcall int
| S_upcall lapb_state lapb_state
| Link_gone
| Serve
| Eax25_remember bool
| Eax25_failed
| Eax25_hint
| Xid_refused
| Xid_silent
| Xid_ask_again
| Dama_wait
| Dama_owe
| Dama_kick

record axcb =
  cb_state :: lapb_state
  cb_proto :: lapb_version
  cb_mmask :: byte
  cb_txq :: pqueue
  cb_reseq :: "nat \<Rightarrow> axreseq"
  cb_rx :: rxdata
  cb_remotebusy :: u32
  cb_rejsent :: bool
  cb_peer_srej :: bool
  cb_neg_wait :: bool
  cb_rtt_run :: bool
  cb_retrans :: bool
  cb_closed :: bool
  cb_rnrsent :: bool
  cb_dama_link :: bool
  cb_dama_rex :: bool
  cb_dama_ackpend :: bool
  cb_reason :: lb_reason
  cb_vs :: byte
  cb_vr :: byte
  cb_unack :: byte
  cb_maxframe :: int
  cb_paclen :: nat
  cb_window :: nat
  cb_peer_n1 :: nat
  cb_peer_k :: nat
  cb_pthresh :: nat
  cb_retries :: nat
  cb_n2 :: nat
  cb_t1 :: tmr
  cb_t2 :: tmr
  cb_t3 :: tmr
  cb_t4 :: tmr
  cb_t5 :: tmr
  cb_rtt_time :: u32
  cb_rtt_seq :: byte
  cb_srt :: int
  cb_mdev :: int
  cb_eax25_tried :: bool
  cb_eax25_probes :: nat
  cb_eax25_dmed :: bool
  cb_eax25_bit :: bool
  cb_ev :: "lapb_event list"

record lenv =
  e_now :: u32
  e_avail :: nat
  e_fits :: bool
  e_iface :: bool
  e_services :: bool
  e_held :: nat
  e_holds :: bool
  e_mholds :: bool
  e_marked :: bool
  e_refused :: bool
  e_conn_block :: bool
  e_eax25_off :: bool
  e_v2_asks :: bool
  e_v2_always :: bool
  e_route :: bool
  e_port_maxframe :: nat
  e_port_emaxframe :: nat
  e_Maxframe :: nat
  e_EMaxframe :: nat
  e_Blimit :: nat

definition event :: "lapb_event \<Rightarrow> axcb \<Rightarrow> axcb" where
  "event e s = s\<lparr>cb_ev := cb_ev s @ [e]\<rparr>"

definition start1 :: "axcb \<Rightarrow> axcb" where "start1 s = s\<lparr>cb_t1 := start_t (cb_t1 s)\<rparr>"
definition stop1 :: "axcb \<Rightarrow> axcb" where "stop1 s = s\<lparr>cb_t1 := stop_t (cb_t1 s)\<rparr>"
definition start2 :: "axcb \<Rightarrow> axcb" where "start2 s = s\<lparr>cb_t2 := start_t (cb_t2 s)\<rparr>"
definition stop2 :: "axcb \<Rightarrow> axcb" where "stop2 s = s\<lparr>cb_t2 := stop_t (cb_t2 s)\<rparr>"
definition start3 :: "axcb \<Rightarrow> axcb" where "start3 s = s\<lparr>cb_t3 := start_t (cb_t3 s)\<rparr>"
definition stop3 :: "axcb \<Rightarrow> axcb" where "stop3 s = s\<lparr>cb_t3 := stop_t (cb_t3 s)\<rparr>"
definition start4 :: "axcb \<Rightarrow> axcb" where "start4 s = s\<lparr>cb_t4 := start_t (cb_t4 s)\<rparr>"
definition stop4 :: "axcb \<Rightarrow> axcb" where "stop4 s = s\<lparr>cb_t4 := stop_t (cb_t4 s)\<rparr>"
definition start5 :: "axcb \<Rightarrow> axcb" where "start5 s = s\<lparr>cb_t5 := start_t (cb_t5 s)\<rparr>"
definition stop5 :: "axcb \<Rightarrow> axcb" where "stop5 s = s\<lparr>cb_t5 := stop_t (cb_t5 s)\<rparr>"

section \<open>Sending\<close>

definition busy :: "lenv \<Rightarrow> axcb \<Rightarrow> bool" where
  "busy env s \<longleftrightarrow> e_held env \<ge> cb_window s"

definition srej_ok :: "axcb \<Rightarrow> bool" where
  "srej_ok s \<longleftrightarrow> cb_peer_srej s \<and> cb_proto s = V2_2"

definition sendframe :: "lenv \<Rightarrow> lapb_cmdrsp \<Rightarrow> byte \<Rightarrow> byte option \<Rightarrow> chain \<Rightarrow> axcb \<Rightarrow> axcb" where
  "sendframe env cr ctl ctlx bpp s =
     (let bpp = (case ctlx of None \<Rightarrow> bpp | Some x \<Rightarrow> pushdown (e_fits env) [x] bpp);
          bpp = pushdown (e_fits env) [ctl] bpp;
          s = (if ctl AND 3 \<noteq> U_FRAME then stop2 s else s)
      in if e_iface env then event (Raw cr bpp) s else s)"

definition sendctl :: "lenv \<Rightarrow> lapb_cmdrsp \<Rightarrow> byte \<Rightarrow> axcb \<Rightarrow> axcb" where
  "sendctl env cr cmd s =
     (let kind = cmd AND NOT PF;
          s = (if kind \<in> {RR, REJ, SREJ, UA} then s\<lparr>cb_rnrsent := False\<rparr>
               else if kind = RNR then s\<lparr>cb_rnrsent := True\<rparr> else s)
      in if ftype cmd AND 3 = S_FRAME
         then (if cb_mmask s = EMMASK
               then sendframe env cr (cmd AND 0x0f)
                      (Some ((if cmd AND PF \<noteq> 0 then PF_EAX25 else 0) OR push_bit 1 (cb_vr s))) [] s
               else sendframe env cr (cmd OR push_bit 5 (cb_vr s)) None [] s)
         else if cb_mmask s = EMMASK \<and> kind = SABM
         then sendframe env cr (SABME OR (cmd AND PF)) None [] s
         else sendframe env cr cmd None [] s)"

definition pfbit :: "bool \<Rightarrow> byte" where "pfbit pf = (if pf then PF else 0)"

definition enq_resp :: "lenv \<Rightarrow> axcb \<Rightarrow> axcb" where
  "enq_resp env s = sendctl env LAPB_RESPONSE (if busy env s then RNR OR PF else RR OR PF) s"

definition inv_rex :: "axcb \<Rightarrow> axcb" where
  "inv_rex s = s\<lparr>cb_vs := (cb_vs s - cb_unack s) AND cb_mmask s, cb_unack := 0\<rparr>"

definition clr_ex :: "axcb \<Rightarrow> axcb" where
  "clr_ex s = stop3 ((stop4 (s\<lparr>cb_remotebusy := 0\<rparr>))\<lparr>cb_rejsent := False\<rparr>)"

text \<open>Control octets of an I frame; \<open>p\<close> asks for the poll bit.\<close>

definition i_ctl :: "byte \<Rightarrow> byte \<Rightarrow> byte \<Rightarrow> bool \<Rightarrow> byte \<times> byte option" where
  "i_ctl mmask ns vr p =
     (if mmask = EMMASK then (push_bit 1 ns, Some ((if p then PF_EAX25 else 0) OR push_bit 1 vr))
      else (push_bit 1 ns OR (if p then PF else 0) OR push_bit 5 vr, None))"

text \<open>The loop of \<^verbatim>\<open>lapb_output\<close> over the unsent frames.\<close>

fun out_loop :: "lenv \<Rightarrow> pqueue \<Rightarrow> axcb \<Rightarrow> axcb" where
  "out_loop env [] s = s"
| "out_loop env (bp # q) s =
     (if int (unat (cb_unack s)) < cb_maxframe s
      then let (control, controlx) = i_ctl (cb_mmask s) (cb_vs s) (cb_vr s) False;
               s = s\<lparr>cb_vs := (cb_vs s + 1) AND cb_mmask s\<rparr>;
               tbp = snd (dup_p (e_avail env) bp 0 (len_p bp))
           in if tbp = [] then s
              else let s = sendframe env LAPB_COMMAND control controlx tbp s;
                       s = s\<lparr>cb_unack := cb_unack s + 1\<rparr>;
                       s = (if tm_run (cb_t1 s) then s else start1 (stop3 s));
                       s = start5 s;
                       s = (if cb_rtt_run s then s
                            else s\<lparr>cb_rtt_seq := drop_bit 1 control AND cb_mmask s, cb_rtt_time := e_now env, cb_rtt_run := True\<rparr>)
                   in out_loop env q s
      else s)"

definition lapb_output :: "lenv \<Rightarrow> axcb \<Rightarrow> axcb" where
  "lapb_output env s =
     (if cb_state s \<noteq> LAPB_RECOVERY \<and> cb_state s \<noteq> LAPB_CONNECTED \<or> cb_remotebusy s \<noteq> 0 then s
      else if e_holds env then (if cb_txq s \<noteq> [] then event Dama_wait s else s)
      else let s = (if cb_dama_rex s
                    then let s = s\<lparr>cb_dama_rex := False\<rparr> in if cb_unack s \<noteq> 0 then inv_rex s else s
                    else s)
           in out_loop env (drop (unat (cb_unack s)) (cb_txq s)) s)"

text \<open>The one retransmission an SREJ asks for.\<close>

definition srej_answer :: "lenv \<Rightarrow> byte \<Rightarrow> axcb \<Rightarrow> axcb" where
  "srej_answer env nr s =
     (case cb_txq s of
        [] \<Rightarrow> s
      | bp # _ \<Rightarrow>
          if (cb_vs s - cb_unack s) AND cb_mmask s \<noteq> nr then s
          else let tbp = snd (dup_p (e_avail env) bp 0 (len_p bp))
               in if tbp = [] then s
                  else let (ctl, ctlx) = i_ctl (cb_mmask s) nr (cb_vr s) False
                       in start5 ((sendframe env LAPB_COMMAND ctl ctlx tbp s)\<lparr>cb_retrans := True\<rparr>))"

section \<open>State changes\<close>

definition lapbstate :: "lenv \<Rightarrow> lapb_state \<Rightarrow> axcb \<Rightarrow> axcb" where
  "lapbstate env new s =
     (let oldstate = cb_state s;
          s = s\<lparr>cb_state := new\<rparr>;
          s = (if new = LAPB_CONNECTED \<and> oldstate \<noteq> LAPB_CONNECTED then event Dama_kick s else s);
          s = (if new = LAPB_DISCONNECTED
               then (stop5 (stop4 (stop3 (stop2 (stop1 (s\<lparr>cb_dama_link := False\<rparr>))))))\<lparr>cb_txq := []\<rparr> else s)
      in if new = LAPB_DISCONNECTED \<and> \<not> e_services env then event Link_gone s
         else if oldstate \<noteq> new then event (S_upcall oldstate new) s
         else s)"

section \<open>Acknowledgements\<close>

definition ax25_maxframe :: "lenv \<Rightarrow> axcb \<Rightarrow> int" where
  "ax25_maxframe env s =
     (let k = (if cb_mmask s = EMMASK
               then (if e_port_emaxframe env \<noteq> 0 then e_port_emaxframe env else e_EMaxframe env)
               else (if e_port_maxframe env \<noteq> 0 then e_port_maxframe env else e_Maxframe env))
      in if cb_peer_k s \<noteq> 0 \<and> k > cb_peer_k s then int (cb_peer_k s) else int k)"

text \<open>The frame that was timed has been acknowledged.\<close>

definition rtt_update :: "lenv \<Rightarrow> axcb \<Rightarrow> axcb" where
  "rtt_update env s =
     (let s = s\<lparr>cb_rtt_run := False\<rparr>;
          s = (if cb_retrans s then s
               else let rtt = sint (e_now env - cb_rtt_time s);
                        abserr = (if rtt > cb_srt s then rtt - cb_srt s else cb_srt s - rtt);
                        s = s\<lparr>cb_srt := (cb_srt s * 7 + rtt + 4) div 8, cb_mdev := (cb_mdev s * 3 + abserr + 2) div 4\<rparr>;
                        tmp = 4 * cb_mdev s + cb_srt s;
                        s = s\<lparr>cb_t1 := (cb_t1 s)\<lparr>tm_dur := max tmp 500\<rparr>\<rparr>
                    in if cb_maxframe s < ax25_maxframe env s then s\<lparr>cb_maxframe := cb_maxframe s + 1\<rparr> else s)
      in s\<lparr>cb_retrans := False\<rparr>)"

lemma rtt_update_txq [simp]: "cb_txq (rtt_update env s) = cb_txq s" "cb_unack (rtt_update env s) = cb_unack s"
  "cb_mmask (rtt_update env s) = cb_mmask s"
  by (simp_all add: rtt_update_def Let_def)

function ack_loop :: "lenv \<Rightarrow> byte \<Rightarrow> byte \<Rightarrow> axcb \<Rightarrow> nat \<Rightarrow> axcb \<times> nat \<times> bool" where
  "ack_loop env n oldest s acked =
     (if cb_unack s = 0 \<or> oldest = n then (s, acked, True)
      else case cb_txq s of
             [] \<Rightarrow> (s, acked, False)
           | bp # q \<Rightarrow>
               let s = s\<lparr>cb_txq := q, cb_unack := cb_unack s - 1\<rparr>;
                   s = (if cb_rtt_run s \<and> cb_rtt_seq s = oldest then rtt_update env s else s);
                   s = s\<lparr>cb_retries := 0\<rparr>
               in ack_loop env n ((oldest + 1) AND cb_mmask s) s (acked + 1))"
  by pat_completeness auto
termination
  by (relation "measure (\<lambda>(env, n, oldest, s, acked). length (cb_txq s))") simp_all

declare ack_loop.simps [simp del]

definition ackours :: "lenv \<Rightarrow> byte \<Rightarrow> bool \<Rightarrow> axcb \<Rightarrow> axcb \<times> bool" where
  "ackours env n rex_all s =
     (let (s, acked, ok) = ack_loop env n ((cb_vs s - cb_unack s) AND cb_mmask s) s 0
      in if \<not> ok then (s, False)
         else let s = (if cb_unack s = 0 then start3 (stop1 s) else if acked \<noteq> 0 then start1 s else s);
                  s = (if rex_all
                       then s\<lparr>cb_retrans := True, cb_vs := (cb_vs s - cb_unack s) AND cb_mmask s, cb_unack := 0\<rparr>
                       else s);
                  tmp = (cb_maxframe s - int (length (cb_txq s))) * int (cb_paclen s)
              in (if acked \<noteq> 0 \<and> tmp > 0 then event (T_upcall tmp) s else s, True))"

section \<open>Resequencing\<close>

definition byte_sum :: "chain \<Rightarrow> nat" where
  "byte_sum bpp = sum_list (map (\<lambda>p. sum_list (map unat p)) bpp)"

definition accept_frame :: "byte \<Rightarrow> chain \<Rightarrow> axcb \<Rightarrow> axcb" where
  "accept_frame ns bpp s =
     (let rp = cb_reseq s (unat ns)
      in if ns \<noteq> (cb_vr s - 1) AND cb_mmask s \<and> rs_bp rp = [] \<and> (ns = cb_vr s \<or> byte_sum bpp \<noteq> rs_sum rp)
         then s\<lparr>cb_reseq := (cb_reseq s)(unat ns := \<lparr>rs_bp = bpp, rs_sum = byte_sum bpp\<rparr>)\<rparr>
         else s)"

text \<open>\<^verbatim>\<open>while(axp->reseq[axp->vr].bp != NULL)\<close>; the fuel is more than the number of slots, so that it runs out only where the
  loop would not end.\<close>

fun vr_loop :: "nat \<Rightarrow> axcb \<Rightarrow> axcb" where
  "vr_loop 0 s = s"
| "vr_loop (Suc n) s =
     (if rs_bp (cb_reseq s (unat (cb_vr s))) = [] then s
      else vr_loop n (s\<lparr>cb_vr := (cb_vr s + 1) AND cb_mmask s, cb_rejsent := False\<rparr>))"

definition gap_behind :: "byte \<Rightarrow> axcb \<Rightarrow> bool" where
  "gap_behind old_vr s =
     list_ex (\<lambda>t. rs_bp (cb_reseq s (unat t)) \<noteq> [])
       (takeWhile (\<lambda>t. t \<noteq> old_vr) (map (\<lambda>k. (cb_vr s + of_nat k) AND cb_mmask s) [1..<257]))"

fun deliver_loop :: "nat \<Rightarrow> byte \<Rightarrow> axcb \<Rightarrow> axcb" where
  "deliver_loop 0 old_vr s = s"
| "deliver_loop (Suc n) old_vr s =
     (let rp = cb_reseq s (unat old_vr)
      in if rs_bp rp = [] then s
         else deliver_loop n ((old_vr + 1) AND cb_mmask s)
                (s\<lparr>cb_reseq := (cb_reseq s)(unat old_vr := rp\<lparr>rs_bp := []\<rparr>), cb_rx := procdata (rs_bp rp) (cb_rx s)\<rparr>))"

definition resequence :: "lenv \<Rightarrow> chain \<Rightarrow> byte \<Rightarrow> bool \<Rightarrow> bool \<Rightarrow> axcb \<Rightarrow> axcb" where
  "resequence env bpp ns pf poll s =
     (if bpp = [] then s
      else let s = accept_frame ns bpp s;
               old_vr = cb_vr s;
               s = vr_loop 256 s;
               s = (if gap_behind old_vr s \<and> \<not> cb_rejsent s
                    then (let s = s\<lparr>cb_rejsent := True\<rparr>
                          in sendctl env LAPB_RESPONSE ((if srej_ok s then SREJ else REJ) OR pfbit pf) s)
                    else if poll
                    then (if e_mholds env then event Dama_owe s
                          else sendctl env LAPB_RESPONSE ((if busy env s then RNR else RR) OR pfbit pf) s)
                    else start2 s)
           in deliver_loop 256 old_vr s)"

end
