(* ===== verification/Lapb_Fsm.thy ===== *)
theory Lapb_Fsm
  imports Lapb
begin

text \<open>
  The state machine of \<^verbatim>\<open>src/src/lapb.c\<close>: \<^verbatim>\<open>lapb_input\<close> for a frame of a link that ends here (the frame is not
  being digipeated), one definition per state, and the timer handlers of \<^verbatim>\<open>src/src/lapb.c\<close> and
  \<^verbatim>\<open>src/src/lapbtime.c\<close>.

  The handlers of a state return the control block and whether the end of \<^verbatim>\<open>lapb_input\<close>, where more is sent, is reached.
\<close>

section \<open>Frames\<close>

text \<open>What \<^verbatim>\<open>lapb_input\<close> takes out of the control field.\<close>

record fctl =
  fc_type :: byte
  fc_pf :: bool
  fc_poll :: bool
  fc_final :: bool
  fc_ns :: byte
  fc_nr :: byte

definition frame_ctl :: "byte \<Rightarrow> byte option \<Rightarrow> byte \<Rightarrow> lapb_cmdrsp \<Rightarrow> fctl" where
  "frame_ctl control controlx mmask cr =
     (let pf = (case controlx of Some x \<Rightarrow> x AND PF_EAX25 \<noteq> 0 | None \<Rightarrow> control AND PF \<noteq> 0)
      in \<lparr>fc_type = ftype control, fc_pf = pf, fc_poll = (pf \<and> cr = LAPB_COMMAND), fc_final = (pf \<and> cr = LAPB_RESPONSE),
          fc_ns = drop_bit 1 control AND mmask,
          fc_nr = (case controlx of Some x \<Rightarrow> drop_bit 1 x AND EMMASK | None \<Rightarrow> drop_bit 5 control AND MMASK)\<rparr>)"

section \<open>States without a link\<close>

definition in_disconnected :: "lenv \<Rightarrow> fctl \<Rightarrow> axcb \<Rightarrow> axcb \<times> bool" where
  "in_disconnected env f s =
     (let s = (if fc_type f = SABM \<or> fc_type f = SABME
               then let s = clr_ex (sendctl env LAPB_RESPONSE (UA OR pfbit (fc_pf f)) s);
                        s = s\<lparr>cb_unack := 0, cb_vr := 0, cb_vs := 0\<rparr>;
                        s = start5 (start3 (lapbstate env LAPB_CONNECTED s))
                    in if e_services env then s else event Serve s
               else if fc_type f = DM then s
               else if fc_poll f then sendctl env LAPB_RESPONSE (DM OR pfbit (fc_pf f)) s else s)
      in if cb_state s = LAPB_DISCONNECTED then (event Link_gone s, False) else (s, True))"

definition eax25_mark :: "axcb \<Rightarrow> axcb" where
  "eax25_mark s = s\<lparr>cb_eax25_bit := (cb_mmask s = EMMASK)\<rparr>"

definition eax25_fallback :: "lenv \<Rightarrow> axcb \<Rightarrow> axcb" where
  "eax25_fallback env s =
     (let s = eax25_mark (s\<lparr>cb_mmask := MMASK\<rparr>);
          s = s\<lparr>cb_eax25_probes := 0, cb_eax25_tried := True, cb_t1 := (cb_t1 s)\<lparr>tm_dur := 4 * cb_mdev s\<rparr>\<rparr>
      in start1 (sendctl env LAPB_COMMAND (SABM OR PF) s))"

definition in_setup :: "lenv \<Rightarrow> fctl \<Rightarrow> axcb \<Rightarrow> axcb \<times> bool" where
  "in_setup env f s =
     (let s = s\<lparr>cb_neg_wait := False\<rparr>
      in if fc_type f = SABM \<or> fc_type f = SABME then (sendctl env LAPB_RESPONSE (UA OR pfbit (fc_pf f)) s, True)
         else if fc_type f = DISC then (sendctl env LAPB_RESPONSE (DM OR pfbit (fc_pf f)) s, True)
         else if fc_type f = UA
         then let s = (if cb_mmask s = EMMASK then event (Eax25_remember True) s
                       else if cb_eax25_tried s
                       then (event (if cb_eax25_dmed s then Eax25_remember False else Eax25_failed) s)
                              \<lparr>cb_eax25_tried := False, cb_eax25_dmed := False\<rparr>
                       else s);
                  s = start5 (start3 (stop1 s));
                  s = s\<lparr>cb_unack := 0, cb_vr := 0, cb_vs := 0\<rparr>
              in (lapbstate env LAPB_CONNECTED s, True)
         else if fc_type f = DM
         then (if cb_mmask s = EMMASK then (eax25_fallback env (s\<lparr>cb_eax25_dmed := True\<rparr>), False)
               else (lapbstate env LAPB_DISCONNECTED ((stop1 (s\<lparr>cb_txq := []\<rparr>))\<lparr>cb_reason := LB_DM\<rparr>), False))
         else (s, True))"

definition in_discpending :: "lenv \<Rightarrow> fctl \<Rightarrow> axcb \<Rightarrow> axcb \<times> bool" where
  "in_discpending env f s =
     (if fc_type f = SABM \<or> fc_type f = SABME \<or> fc_type f = DISC
      then (sendctl env LAPB_RESPONSE (DM OR pfbit (fc_pf f)) s, True)
      else if fc_type f = UA \<or> fc_type f = DM then (lapbstate env LAPB_DISCONNECTED (stop1 s), False)
      else if fc_poll f then (sendctl env LAPB_RESPONSE (DM OR pfbit (fc_pf f)) s, True)
      else (s, True))"

section \<open>Established links\<close>

text \<open>The link is set up again: numbers to zero, the resequence buffer emptied, the transmit queue kept.\<close>

definition link_reset :: "lenv \<Rightarrow> fctl \<Rightarrow> axcb \<Rightarrow> axcb" where
  "link_reset env f s =
     (let s = clr_ex (sendctl env LAPB_RESPONSE (UA OR pfbit (fc_pf f)) s);
          s = start5 (start3 (stop1 s));
          s = s\<lparr>cb_reseq := (\<lambda>k. if k \<le> unat EMMASK then (cb_reseq s k)\<lparr>rs_bp := []\<rparr> else cb_reseq s k),
                cb_unack := 0, cb_vr := 0, cb_vs := 0\<rparr>
      in lapbstate env LAPB_CONNECTED s)"

definition link_frmr :: "lenv \<Rightarrow> axcb \<Rightarrow> axcb" where
  "link_frmr env s =
     (let s = (if cb_mmask s = EMMASK then event (Eax25_remember False) s else s);
          s = (if e_v2_asks env \<and> e_route env then event Xid_refused s else s)
      in lapbstate env LAPB_DISCPENDING (start1 (sendctl env LAPB_COMMAND (DISC OR PF) s)))"

text \<open>The U frames are handled alike in the two states; \<open>None\<close> for all others.\<close>

definition in_established :: "lenv \<Rightarrow> fctl \<Rightarrow> axcb \<Rightarrow> (axcb \<times> bool) option" where
  "in_established env f s =
     (if fc_type f = SABM \<or> fc_type f = SABME then Some (link_reset env f s, True)
      else if fc_type f = DISC
      then Some (lapbstate env LAPB_DISCONNECTED
             ((stop3 (stop1 (sendctl env LAPB_RESPONSE (DM OR pfbit (fc_pf f)) (s\<lparr>cb_txq := []\<rparr>))))\<lparr>cb_reason := LB_NORMAL\<rparr>), False)
      else if fc_type f = DM then Some (lapbstate env LAPB_DISCONNECTED (s\<lparr>cb_reason := LB_DM\<rparr>), False)
      else if fc_type f = UA then Some (stop4 (s\<lparr>cb_remotebusy := 0\<rparr>), True)
      else if fc_type f = FRMR then Some (link_frmr env s, True)
      else None)"

definition answer_poll :: "lenv \<Rightarrow> fctl \<Rightarrow> axcb \<Rightarrow> axcb" where
  "answer_poll env f s =
     (if fc_poll f then (if e_mholds env then event Dama_owe s else enq_resp env s) else s)"

definition remote_busy :: "lenv \<Rightarrow> byte \<Rightarrow> axcb \<Rightarrow> axcb" where
  "remote_busy env ty s =
     (if ty = RNR then start4 (if cb_remotebusy s = 0 then s\<lparr>cb_remotebusy := e_now env\<rparr> else s)
      else stop4 (s\<lparr>cb_remotebusy := 0\<rparr>))"

definition in_connected :: "lenv \<Rightarrow> fctl \<Rightarrow> chain \<Rightarrow> axcb \<Rightarrow> axcb" where
  "in_connected env f bpp s =
     (if fc_type f = RR \<or> fc_type f = RNR
      then fst (ackours env (fc_nr f) False (answer_poll env f (remote_busy env (fc_type f) s)))
      else if fc_type f = REJ
      then fst (ackours env (fc_nr f) True (answer_poll env f (stop4 (s\<lparr>cb_remotebusy := 0\<rparr>))))
      else if fc_type f = SREJ
      then (let s = stop4 (s\<lparr>cb_peer_srej := True, cb_proto := V2_2, cb_remotebusy := 0\<rparr>);
                s = fst (ackours env (fc_nr f) False (answer_poll env f s));
                s = (if e_route env then event Xid_ask_again s else s)
            in srej_answer env (fc_nr f) s)
      else if fc_type f = 0
      then resequence env bpp (fc_ns f) (fc_pf f) (fc_poll f) (fst (ackours env (fc_nr f) False (start5 s)))
      else s)"

definition keep_t1 :: "axcb \<Rightarrow> axcb" where
  "keep_t1 s = (if tm_run (cb_t1 s) then s else start1 s)"

definition in_recovery :: "lenv \<Rightarrow> fctl \<Rightarrow> chain \<Rightarrow> axcb \<Rightarrow> axcb" where
  "in_recovery env f bpp s =
     (let final_seen = (\<lambda>s. let s = fst (ackours env (fc_nr f) True (stop1 s))
                            in if cb_unack s \<noteq> 0 then inv_rex s
                               else lapbstate env LAPB_CONNECTED (start3 s))
      in if fc_type f = RR \<or> fc_type f = RNR
         then (let s = remote_busy env (fc_type f) s
               in if cb_proto s = V1 \<or> fc_final f then final_seen s
                  else keep_t1 (fst (ackours env (fc_nr f) False (answer_poll env f s))))
         else if fc_type f = REJ
         then (let s = stop4 (s\<lparr>cb_remotebusy := 0\<rparr>)
               in if cb_proto s = V1 \<or> fc_final f then final_seen s
                  else let s = fst (ackours env (fc_nr f) True (answer_poll env f s));
                           s = (if cb_unack s \<noteq> 0 then inv_rex s else s)
                       in keep_t1 s)
         else if fc_type f = SREJ
         then (let s = stop4 (s\<lparr>cb_peer_srej := True, cb_proto := V2_2, cb_remotebusy := 0\<rparr>);
                   s = fst (ackours env (fc_nr f) False (answer_poll env f s))
               in keep_t1 (srej_answer env (fc_nr f) s))
         else if fc_type f = 0
         then (let s = fst (ackours env (fc_nr f) False (start5 s))
               in resequence env bpp (fc_ns f) (fc_pf f) (fc_poll f) (keep_t1 s))
         else s)"

section \<open>The input routine\<close>

definition lapb_dispatch :: "lenv \<Rightarrow> fctl \<Rightarrow> chain \<Rightarrow> axcb \<Rightarrow> axcb \<times> bool" where
  "lapb_dispatch env f bpp s =
     (case cb_state s of
        LAPB_DISCONNECTED \<Rightarrow> in_disconnected env f s
      | LAPB_LISTEN \<Rightarrow> (s, True)
      | LAPB_SETUP \<Rightarrow> in_setup env f s
      | LAPB_DISCPENDING \<Rightarrow> in_discpending env f s
      | LAPB_CONNECTED \<Rightarrow> (case in_established env f s of Some r \<Rightarrow> r | None \<Rightarrow> (in_connected env f bpp s, True))
      | LAPB_RECOVERY \<Rightarrow> (case in_established env f s of Some r \<Rightarrow> r | None \<Rightarrow> (in_recovery env f bpp s, True)))"

text \<open>The end of \<^verbatim>\<open>lapb_input\<close>: send what can be sent, then perhaps close the link.\<close>

definition lapb_finish :: "lenv \<Rightarrow> axcb \<Rightarrow> axcb" where
  "lapb_finish env s =
     (let s = lapb_output env s
      in if (cb_state s = LAPB_RECOVERY \<or> cb_state s = LAPB_CONNECTED) \<and>
            (cb_closed s \<and> cb_txq s = [] \<or> cb_remotebusy s \<noteq> 0 \<and> sint (e_now env - cb_remotebusy s) > 900000)
         then if e_holds env then event Dama_wait s
              else lapbstate env LAPB_DISCPENDING (start1 (sendctl env LAPB_COMMAND (DISC OR PF) s))
         else s)"

definition lapb_frame :: "lenv \<Rightarrow> lapb_cmdrsp \<Rightarrow> byte \<Rightarrow> byte option \<Rightarrow> chain \<Rightarrow> axcb \<Rightarrow> axcb" where
  "lapb_frame env cr control controlx bpp s =
     (let f = frame_ctl control controlx (cb_mmask s) cr;
          s = (if e_marked env then s\<lparr>cb_dama_link := True\<rparr> else s)
      in if fc_type f = TEST
         then (if cr = LAPB_COMMAND then sendframe env LAPB_RESPONSE (TEST OR pfbit (fc_pf f)) None bpp s else s)
         else if fc_type f = XID then event (Xid_in cr (fc_pf f) bpp) s
         else let (s, cont) = lapb_dispatch env f bpp s in if cont then lapb_finish env s else s)"

definition lapb_input :: "lenv \<Rightarrow> lapb_cmdrsp \<Rightarrow> chain \<Rightarrow> axcb \<Rightarrow> axcb" where
  "lapb_input env cr bpp s =
     (if bpp = [] then s
      else case PULLCHAR bpp of
        (None, _) \<Rightarrow> s
      | (Some control, bpp) \<Rightarrow>
          let ty = ftype control; opens = (ty = SABM \<or> ty = SABME);
              s = (if cr = LAPB_UNKNOWN then s\<lparr>cb_proto := V1\<rparr> else s)
          in if opens \<and> e_refused env then sendctl env LAPB_RESPONSE (DM OR (control AND PF)) s
             else if ty = SABME \<and> e_eax25_off env
             then sendctl env LAPB_RESPONSE (DM OR (control AND PF)) (event Eax25_hint s)
             else if e_conn_block env \<and> cb_state s = LAPB_DISCONNECTED
             then (if opens then sendctl env LAPB_RESPONSE (DM OR (control AND PF)) s else s)
             else let s = (if opens
                           then let s = s\<lparr>cb_mmask := (if ty = SABME then EMMASK else MMASK), cb_eax25_bit := (ty = SABME)\<rparr>
                                in if ty = SABME then event Eax25_hint (event (Eax25_remember True) s) else s
                           else s)
                  in if ty AND 3 \<noteq> U_FRAME \<and> cb_mmask s = EMMASK
                     then (case PULLCHAR bpp of
                             (None, _) \<Rightarrow> s
                           | (Some controlx, bpp) \<Rightarrow> lapb_frame env cr control (Some controlx) bpp s)
                     else lapb_frame env cr control None bpp s)"

section \<open>Timers\<close>

text \<open>\<^verbatim>\<open>tx_enq\<close>: the oldest frame again when it is small, else a poll.  The copy of the frame is not checked for NULL: the
  control octets then go out without data.\<close>

definition tx_enq :: "lenv \<Rightarrow> axcb \<Rightarrow> axcb" where
  "tx_enq env s =
     (let s = (if cb_txq s \<noteq> [] \<and> (len_p (hd (cb_txq s)) < cb_pthresh s \<or> cb_proto s = V1)
               then let bp = snd (dup_p (e_avail env) (hd (cb_txq s)) 0 (len_p (hd (cb_txq s))));
                        (ctl, ctlx) = i_ctl (cb_mmask s) ((cb_vs s - cb_unack s) AND cb_mmask s) (cb_vr s) True
                    in sendframe env LAPB_COMMAND ctl ctlx bp s
               else sendctl env LAPB_COMMAND (if busy env s then RNR OR PF else RR OR PF) s)
      in start1 (stop3 s))"

definition t1_give_up :: "lenv \<Rightarrow> axcb \<Rightarrow> axcb" where
  "t1_give_up env s = lapbstate env LAPB_DISCONNECTED (s\<lparr>cb_txq := [], cb_reason := LB_TIMEOUT\<rparr>)"

definition out_of_tries :: "axcb \<Rightarrow> bool" where
  "out_of_tries s \<longleftrightarrow> cb_n2 s \<noteq> 0 \<and> cb_retries s > cb_n2 s"

definition recover_setup :: "lenv \<Rightarrow> axcb \<Rightarrow> axcb" where
  "recover_setup env s =
     (if cb_neg_wait s
      then let s = s\<lparr>cb_neg_wait := False\<rparr>;
               s = (if e_route env then event Xid_silent s else s)
           in if e_v2_always env
              then lapbstate env LAPB_DISCONNECTED (s\<lparr>cb_txq := [], cb_reason := LB_NEGOTIATION\<rparr>)
              else start1 (sendctl env LAPB_COMMAND (SABM OR PF) (s\<lparr>cb_retries := 0\<rparr>))
      else let s = (if cb_mmask s = EMMASK then s\<lparr>cb_eax25_probes := cb_eax25_probes s + 1\<rparr> else s)
           in if cb_mmask s = EMMASK \<and> cb_eax25_probes s \<ge> 3 then eax25_fallback env s
              else if out_of_tries s then t1_give_up env s
              else start1 (sendctl env LAPB_COMMAND (SABM OR PF) s))"

definition recover :: "lenv \<Rightarrow> axcb \<Rightarrow> axcb" where
  "recover env s =
     (if e_holds env
      then (if cb_unack s \<noteq> 0
            then let s = s\<lparr>cb_retries := cb_retries s + 1\<rparr>
                 in if out_of_tries s then t1_give_up env (sendctl env LAPB_RESPONSE DM s)
                    else start1 (s\<lparr>cb_dama_rex := True\<rparr>)
            else start1 s)
      else let s = s\<lparr>cb_retrans := True, cb_retries := cb_retries s + 1\<rparr>;
               s = (if cb_retries s < e_Blimit env
                    then s\<lparr>cb_t1 := (cb_t1 s)\<lparr>tm_dur := (tm_dur (cb_t1 s) * 5 + 2) div 4\<rparr>\<rparr> else s);
               s = (if cb_maxframe s > 1 then s\<lparr>cb_maxframe := cb_maxframe s - 1\<rparr> else s)
           in case cb_state s of
                LAPB_SETUP \<Rightarrow> recover_setup env s
              | LAPB_DISCPENDING \<Rightarrow>
                  if out_of_tries s then lapbstate env LAPB_DISCONNECTED (s\<lparr>cb_reason := LB_TIMEOUT\<rparr>)
                  else start1 (sendctl env LAPB_COMMAND (DISC OR PF) s)
              | LAPB_CONNECTED \<Rightarrow>
                  if out_of_tries s then t1_give_up env (sendctl env LAPB_RESPONSE DM s)
                  else lapbstate env LAPB_RECOVERY (tx_enq env s)
              | LAPB_RECOVERY \<Rightarrow>
                  if out_of_tries s then t1_give_up env (sendctl env LAPB_RESPONSE DM s)
                  else lapbstate env LAPB_RECOVERY (tx_enq env s)
              | _ \<Rightarrow> s)"

definition pollthem :: "lenv \<Rightarrow> axcb \<Rightarrow> axcb" where
  "pollthem env s =
     (if cb_proto s = V1 then s
      else if e_holds env then start3 s
      else if cb_state s = LAPB_CONNECTED then lapbstate env LAPB_RECOVERY (tx_enq env (s\<lparr>cb_retries := 0\<rparr>))
      else s)"

definition lapb_ack_now :: "lenv \<Rightarrow> axcb \<Rightarrow> axcb" where
  "lapb_ack_now env s =
     (if \<not> cb_rejsent s \<and> list_ex (\<lambda>i. rs_bp (cb_reseq s i) \<noteq> []) [0..<128]
      then sendctl env LAPB_RESPONSE (if srej_ok s then SREJ else REJ) (s\<lparr>cb_rejsent := True\<rparr>)
      else sendctl env LAPB_RESPONSE (if busy env s then RNR else RR) s)"

definition ax_t2_timeout :: "lenv \<Rightarrow> axcb \<Rightarrow> axcb" where
  "ax_t2_timeout env s =
     (if e_holds env then event Dama_wait s
      else if e_mholds env then s\<lparr>cb_dama_ackpend := True\<rparr>
      else lapb_ack_now env s)"

definition ax_t5_timeout :: "lenv \<Rightarrow> axcb \<Rightarrow> axcb" where
  "ax_t5_timeout env s =
     (if e_holds env then start5 s
      else if cb_state s = LAPB_CONNECTED \<or> cb_state s = LAPB_RECOVERY
      then lapbstate env LAPB_DISCPENDING
             (start1 (stop3 (sendctl env LAPB_COMMAND (DISC OR PF) (s\<lparr>cb_txq := [], cb_retries := 0\<rparr>))))
      else s)"

section \<open>The user's side\<close>

text \<open>\<^verbatim>\<open>cr_ax25\<close>: a new block; the settings of the node are the arguments.\<close>

definition cr_ax25 :: "nat \<Rightarrow> nat \<Rightarrow> lapb_version \<Rightarrow> nat \<Rightarrow> nat \<Rightarrow> int \<Rightarrow> int \<Rightarrow> int \<Rightarrow> int \<Rightarrow> axcb" where
  "cr_ax25 Axwindow Paclen Axversion Pthresh N2 T2init T3init T4init T5init =
     \<lparr>cb_state = LAPB_DISCONNECTED, cb_proto = Axversion, cb_mmask = MMASK, cb_txq = [],
      cb_reseq = (\<lambda>_. \<lparr>rs_bp = [], rs_sum = 0\<rparr>), cb_rx = \<lparr>rx_asm = [], rx_remain = 0, rx_up = []\<rparr>, cb_remotebusy = 0,
      cb_rejsent = False, cb_peer_srej = False, cb_neg_wait = False, cb_rtt_run = False, cb_retrans = False, cb_closed = False,
      cb_rnrsent = False, cb_dama_link = False, cb_dama_rex = False, cb_dama_ackpend = False, cb_reason = LB_NORMAL,
      cb_vs = 0, cb_vr = 0, cb_unack = 0, cb_maxframe = 1, cb_paclen = Paclen, cb_window = Axwindow, cb_peer_n1 = 0, cb_peer_k = 0,
      cb_pthresh = Pthresh, cb_retries = 0, cb_n2 = N2, cb_t1 = \<lparr>tm_dur = 0, tm_run = False\<rparr>,
      cb_t2 = \<lparr>tm_dur = T2init, tm_run = False\<rparr>, cb_t3 = \<lparr>tm_dur = T3init, tm_run = False\<rparr>,
      cb_t4 = \<lparr>tm_dur = T4init, tm_run = False\<rparr>, cb_t5 = \<lparr>tm_dur = T5init, tm_run = False\<rparr>, cb_rtt_time = 0, cb_rtt_seq = 0,
      cb_srt = 0, cb_mdev = 0, cb_eax25_tried = False, cb_eax25_probes = 0, cb_eax25_dmed = False, cb_eax25_bit = False,
      cb_ev = []\<rparr>"

text \<open>\<^verbatim>\<open>path_timing\<close>, without the limits of the port; \<open>hops\<close> is the number of digipeaters still to go.\<close>

definition path_timing :: "int \<Rightarrow> int \<Rightarrow> axcb \<Rightarrow> axcb" where
  "path_timing T1init hops s =
     (let m = (T1init * (1 + 2 * hops) + 2) div 4
      in s\<lparr>cb_srt := 0, cb_mdev := m, cb_t1 := (cb_t1 s)\<lparr>tm_dur := 4 * m\<rparr>\<rparr>)"

definition ax25_apply_peer_xid :: "nat \<Rightarrow> nat \<Rightarrow> axcb \<Rightarrow> axcb" where
  "ax25_apply_peer_xid n1_bits k s =
     (let s = (if n1_bits \<noteq> 0
               then let n1 = n1_bits div 8; s = s\<lparr>cb_peer_n1 := n1\<rparr>
                    in if n1 \<noteq> 0 \<and> cb_paclen s > n1 then s\<lparr>cb_paclen := n1\<rparr> else s
               else s)
      in if k \<noteq> 0
         then let k = (if k > unat (cb_mmask s) then unat (cb_mmask s) else k);
                  s = s\<lparr>cb_peer_k := k\<rparr>
              in if cb_maxframe s > int k then s\<lparr>cb_maxframe := int k\<rparr> else s
         else s)"

definition disc_ax25 :: "lenv \<Rightarrow> axcb \<Rightarrow> axcb" where
  "disc_ax25 env s =
     (case cb_state s of
        LAPB_DISCONNECTED \<Rightarrow> s
      | LAPB_LISTEN \<Rightarrow> event Link_gone s
      | LAPB_SETUP \<Rightarrow> lapbstate env LAPB_DISCONNECTED s
      | LAPB_DISCPENDING \<Rightarrow> lapbstate env LAPB_DISCONNECTED s
      | _ \<Rightarrow>
          if cb_txq s \<noteq> [] \<and> \<not> cb_closed s then s\<lparr>cb_closed := True\<rparr>
          else lapbstate env LAPB_DISCPENDING
                 (start1 (stop3 (sendctl env LAPB_COMMAND (DISC OR PF) (s\<lparr>cb_txq := [], cb_retries := 0\<rparr>)))))"

definition space_ax25 :: "axcb \<Rightarrow> int" where
  "space_ax25 s =
     (if cb_state s \<in> {LAPB_SETUP, LAPB_CONNECTED, LAPB_RECOVERY} \<and> \<not> cb_closed s
      then let cnt = (cb_maxframe s - int (length (cb_txq s))) * int (cb_paclen s) in if cnt > 0 then cnt else 0
      else -1)"

end
