(* ===== verification/Lapb_Steps.thy ===== *)
theory Lapb_Steps
  imports Lapb_Fsm
begin

text \<open>
  What the handlers of \<^verbatim>\<open>Lapb_Fsm\<close> can do to the part of the control block that matters for the transfer of data: each is
  a sequence of the micro steps \<open>micro\<close> - send a supervisory frame, send a new I frame, repeat the oldest one, start over,
  take the acknowledgement or the data of the frame that is being processed.
\<close>

section \<open>Sequence numbers\<close>

definition seq :: "byte \<Rightarrow> nat \<Rightarrow> byte" where
  "seq mm n = of_nat n AND mm"

definition good_mask :: "byte \<Rightarrow> bool" where
  "good_mask mm \<longleftrightarrow> mm = MMASK \<or> mm = EMMASK"

lemma good_mask_mask: "good_mask mm \<Longrightarrow> \<exists>p. mm = mask p \<and> p \<le> 7 \<and> unat mm = 2 ^ p - 1"
proof -
  assume "good_mask mm"
  then consider "mm = 7" | "mm = 127" by (auto simp: good_mask_def MMASK_def EMMASK_def)
  then show ?thesis
    by cases (rule exI [of _ 3], simp add: mask_eq_exp_minus_1, rule exI [of _ 7], simp add: mask_eq_exp_minus_1)
qed

lemma seq_unat: "good_mask mm \<Longrightarrow> unat (seq mm n) = n mod Suc (unat mm)"
proof -
  assume "good_mask mm"
  then obtain p where p: "mm = mask p" "p \<le> 7" "unat mm = 2 ^ p - 1" using good_mask_mask by blast
  have "seq mm n = take_bit p (of_nat n)" by (simp add: seq_def p(1) take_bit_eq_mask)
  moreover have "unat (take_bit p (of_nat n) :: byte) = n mod 2 ^ p"
    unfolding unsigned_take_bit_eq using p(2) by (simp add: unsigned_of_nat take_bit_take_bit min_def) (simp add: take_bit_eq_mod)
  ultimately show ?thesis using p(3) by simp
qed

lemma seq_eq_iff: "good_mask mm \<Longrightarrow> seq mm x = seq mm y \<longleftrightarrow> x mod Suc (unat mm) = y mod Suc (unat mm)"
  by (simp add: word_unat_eq_iff seq_unat)

lemma seq_0 [simp]: "seq mm 0 = 0"
  by (simp add: seq_def)

lemma seq_less: "good_mask mm \<Longrightarrow> unat (seq mm x) \<le> unat mm"
  using mod_less_divisor [of "Suc (unat mm)" x] by (simp add: seq_unat less_Suc_eq_le)

lemma seq_of_nat: "good_mask mm \<Longrightarrow> seq mm n = of_nat (n mod Suc (unat mm))"
proof -
  assume g: "good_mask mm"
  then have "unat mm < 256" using unat_byte_less by blast
  then have "n mod Suc (unat mm) < 256" using mod_less_divisor [of "Suc (unat mm)" n] by linarith
  then have "unat (of_nat (n mod Suc (unat mm)) :: byte) = n mod Suc (unat mm)" by (simp add: unat_of_nat)
  then show ?thesis by (simp add: word_unat_eq_iff seq_unat [OF g])
qed

lemma seq_add: "good_mask mm \<Longrightarrow> (seq mm x + of_nat k) AND mm = seq mm (x + k)"
proof -
  assume g: "good_mask mm"
  have "(seq mm x + of_nat k) AND mm = seq mm (x mod Suc (unat mm) + k)"
    unfolding seq_of_nat [OF g, of x] by (simp add: seq_def)
  then show ?thesis by (simp add: seq_eq_iff [OF g] mod_simps)
qed

lemma seq_Suc: "good_mask mm \<Longrightarrow> (seq mm x + 1) AND mm = seq mm (Suc x)"
  using seq_add [of mm x 1] by simp

lemma seq_diff: "good_mask mm \<Longrightarrow> k \<le> x \<Longrightarrow> (seq mm x - of_nat k) AND mm = seq mm (x - k)"
proof -
  assume g: "good_mask mm" and k: "k \<le> x"
  have d: "Suc (unat mm) dvd 256" using g by (auto simp: good_mask_def MMASK_def EMMASK_def)
  have "(255 :: byte) = - 1" by simp
  then have "of_nat (255 * k) = - (of_nat k :: byte)" by (simp only: of_nat_mult of_nat_numeral) simp
  then have e: "seq mm x - of_nat k = seq mm x + of_nat (255 * k)" by (simp only: diff_conv_add_uminus)
  have "(seq mm x - of_nat k) AND mm = seq mm (x + 255 * k)" unfolding e by (rule seq_add [OF g])
  moreover have "x + 255 * k = (x - k) + 256 * k" using k by simp
  moreover have "seq mm ((x - k) + 256 * k) = seq mm (x - k)"
    using d by (simp add: seq_eq_iff [OF g] mod_add_right_eq [symmetric] dvd_imp_mod_0)
  ultimately show ?thesis by simp
qed

lemma seq_window:
  "good_mask mm \<Longrightarrow> seq mm x = seq mm y \<Longrightarrow> x \<le> y \<Longrightarrow> y < x + Suc (unat mm) \<Longrightarrow> x = y"
proof -
  assume g: "good_mask mm" "seq mm x = seq mm y" "x \<le> y" "y < x + Suc (unat mm)"
  then have "(y - x) mod Suc (unat mm) = 0" using seq_eq_iff [of mm x y] mod_eq_dvd_iff_nat [of x y "Suc (unat mm)"] by auto
  moreover have "y - x < Suc (unat mm)" using g(3,4) by linarith
  ultimately show "x = y" using g(3) by simp
qed

section \<open>Frames on the line\<close>

fun frames :: "lapb_event list \<Rightarrow> (lapb_cmdrsp \<times> chain) list" where
  "frames [] = []"
| "frames (Raw cr bp # es) = (cr, bp) # frames es"
| "frames (_ # es) = frames es"

lemma frames_append [simp]: "frames (xs @ ys) = frames xs @ frames ys"
  by (induction xs rule: frames.induct) auto

definition ctl_bytes :: "byte \<times> byte option \<Rightarrow> byte list" where
  "ctl_bytes c = (case snd c of None \<Rightarrow> [fst c] | Some x \<Rightarrow> [fst c, x])"

definition i_frame :: "byte \<Rightarrow> byte \<Rightarrow> byte \<Rightarrow> byte list \<Rightarrow> lapb_cmdrsp \<times> chain \<Rightarrow> bool" where
  "i_frame mm ns vr d f \<longleftrightarrow> fst f = LAPB_COMMAND \<and> (\<exists>p. content (snd f) = ctl_bytes (i_ctl mm ns vr p) @ d)"

definition s_ctl :: "byte \<Rightarrow> byte \<Rightarrow> byte \<Rightarrow> byte \<times> byte option" where
  "s_ctl mm cmd vr =
     (if mm = EMMASK then (cmd AND 0x0f, Some ((if cmd AND PF \<noteq> 0 then PF_EAX25 else 0) OR push_bit 1 vr))
      else (cmd OR push_bit 5 vr, None))"

definition s_cmds :: "byte set" where
  "s_cmds = {RR, RNR, REJ, SREJ, RR OR PF, RNR OR PF, REJ OR PF, SREJ OR PF}"

definition s_frame :: "byte \<Rightarrow> byte \<Rightarrow> lapb_cmdrsp \<times> chain \<Rightarrow> bool" where
  "s_frame mm vr f \<longleftrightarrow> fst f \<noteq> LAPB_UNKNOWN \<and> (\<exists>cmd \<in> s_cmds. content (snd f) = ctl_bytes (s_ctl mm cmd vr))"

section \<open>Micro steps\<close>

definition core :: "axcb \<Rightarrow> pqueue \<times> byte \<times> byte \<times> byte \<times> (nat \<Rightarrow> axreseq) \<times> rxdata \<times> byte" where
  "core s = (cb_txq s, cb_vs s, cb_unack s, cb_vr s, cb_reseq s, cb_rx s, cb_mmask s)"

abbreviation sentfr :: "axcb \<Rightarrow> (lapb_cmdrsp \<times> chain) list" where
  "sentfr s \<equiv> frames (cb_ev s)"

text \<open>The acknowledgement \<open>nr\<close> takes \<open>k\<close> frames off the queue.\<close>

definition takes_ack :: "byte \<Rightarrow> axcb \<Rightarrow> axcb \<Rightarrow> bool" where
  "takes_ack nr s s' \<longleftrightarrow> (\<exists>k. k \<le> unat (cb_unack s) \<and> k \<le> length (cb_txq s) \<and>
     (\<forall>i < k. (((cb_vs s - cb_unack s) AND cb_mmask s) + of_nat i) AND cb_mmask s \<noteq> nr) \<and>
     core s' = (drop k (cb_txq s), cb_vs s, cb_unack s - of_nat k, cb_vr s, cb_reseq s, cb_rx s, cb_mmask s))"

text \<open>The receiving half of \<^verbatim>\<open>resequence\<close>.\<close>

definition receive :: "byte \<Rightarrow> chain \<Rightarrow> axcb \<Rightarrow> axcb" where
  "receive ns bp s = (let s = accept_frame ns bp s in deliver_loop 256 (cb_vr s) (vr_loop 256 s))"

inductive micro :: "nat \<Rightarrow> byte \<Rightarrow> (byte \<times> chain) option \<Rightarrow> axcb \<Rightarrow> axcb \<Rightarrow> bool" for W nr dat where
  same: "core s' = core s \<Longrightarrow> sentfr s' = sentfr s \<Longrightarrow> cb_maxframe s' \<le> int W \<Longrightarrow> micro W nr dat s s'"
| supervise: "core s' = core s \<Longrightarrow> sentfr s' = sentfr s @ [f] \<Longrightarrow> s_frame (cb_mmask s) (cb_vr s) f \<Longrightarrow> cb_maxframe s' \<le> int W \<Longrightarrow>
     micro W nr dat s s'"
| send_new: "unat (cb_unack s) < length (cb_txq s) \<Longrightarrow> unat (cb_unack s) < W \<Longrightarrow>
     core s' = (cb_txq s, (cb_vs s + 1) AND cb_mmask s, cb_unack s + 1, cb_vr s, cb_reseq s, cb_rx s, cb_mmask s) \<Longrightarrow>
     sentfr s' = sentfr s @ [f] \<Longrightarrow> i_frame (cb_mmask s) (cb_vs s) (cb_vr s) (content (cb_txq s ! unat (cb_unack s))) f \<Longrightarrow>
     cb_maxframe s' \<le> int W \<Longrightarrow> micro W nr dat s s'"
| repeat_oldest: "cb_txq s \<noteq> [] \<Longrightarrow> core s' = core s \<Longrightarrow> sentfr s' = sentfr s @ [f] \<Longrightarrow>
     i_frame (cb_mmask s) ((cb_vs s - cb_unack s) AND cb_mmask s) (cb_vr s) (content (hd (cb_txq s))) f \<Longrightarrow>
     cb_maxframe s' \<le> int W \<Longrightarrow> micro W nr dat s s'"
| start_over: "core s' = (cb_txq s, (cb_vs s - cb_unack s) AND cb_mmask s, 0, cb_vr s, cb_reseq s, cb_rx s, cb_mmask s) \<Longrightarrow>
     sentfr s' = sentfr s \<Longrightarrow> cb_maxframe s' \<le> int W \<Longrightarrow> micro W nr dat s s'"
| acknowledge: "takes_ack nr s s' \<Longrightarrow> sentfr s' = sentfr s \<Longrightarrow> cb_maxframe s' \<le> int W \<Longrightarrow> micro W nr dat s s'"
| receive_data: "dat = Some (ns, bp) \<Longrightarrow> core s' = core (receive ns bp s) \<Longrightarrow> sentfr s' = sentfr s \<Longrightarrow> cb_maxframe s' \<le> int W \<Longrightarrow>
     micro W nr dat s s'"

definition steps :: "nat \<Rightarrow> byte \<Rightarrow> (byte \<times> chain) option \<Rightarrow> axcb \<Rightarrow> axcb \<Rightarrow> bool" where
  "steps W nr dat s s' \<longleftrightarrow> (micro W nr dat)\<^sup>*\<^sup>* s s' \<and> cb_maxframe s' \<le> int W"

named_theorems steps_rules
  \<open>what every handler does is a sequence of micro steps\<close>

lemma steps_refl: "cb_maxframe s \<le> int W \<Longrightarrow> steps W nr dat s s"
  by (simp add: steps_def)

lemma steps_micro: "steps W nr dat s0 s \<Longrightarrow> micro W nr dat s s' \<Longrightarrow> steps W nr dat s0 s'"
  by (auto simp: steps_def intro: rtranclp.rtrancl_into_rtrancl elim: micro.cases)

lemma steps_maxframe: "steps W nr dat s0 s \<Longrightarrow> cb_maxframe s \<le> int W"
  by (simp add: steps_def)

lemma steps_same:
  "steps W nr dat s0 s \<Longrightarrow> core s' = core s \<Longrightarrow> sentfr s' = sentfr s \<Longrightarrow> cb_maxframe s' \<le> int W \<Longrightarrow> steps W nr dat s0 s'"
  by (rule steps_micro [OF _ micro.same])

lemma steps_txq: "steps W nr dat s0 s \<Longrightarrow> set (cb_txq s) \<subseteq> set (cb_txq s0)"
proof -
  have recv: "cb_txq (receive ns bp s) = cb_txq s" for ns bp s
  proof -
    have v: "cb_txq (vr_loop n s) = cb_txq s" for n s by (induction n s rule: vr_loop.induct) auto
    have d: "cb_txq (deliver_loop n v s) = cb_txq s" for n v s
      by (induction n v s rule: deliver_loop.induct) (auto simp: Let_def)
    show ?thesis by (simp add: receive_def accept_frame_def Let_def v d)
  qed
  have m: "micro W nr dat s s' \<Longrightarrow> set (cb_txq s') \<subseteq> set (cb_txq s)" for s s'
    by (induction rule: micro.cases) (auto simp: core_def takes_ack_def recv dest: in_set_dropD)
  assume "steps W nr dat s0 s"
  then have "(micro W nr dat)\<^sup>*\<^sup>* s0 s" by (simp add: steps_def)
  then show ?thesis
  proof (induction rule: rtranclp_induct)
    case (step s s')
    then show ?case using m [of s s'] by blast
  qed simp
qed

subsection \<open>Timers, flags and events\<close>

lemma timers_same [simp]:
  "core (start1 s) = core s" "core (stop1 s) = core s" "core (start2 s) = core s" "core (stop2 s) = core s"
  "core (start3 s) = core s" "core (stop3 s) = core s" "core (start4 s) = core s" "core (stop4 s) = core s"
  "core (start5 s) = core s" "core (stop5 s) = core s"
  "cb_ev (start1 s) = cb_ev s" "cb_ev (stop1 s) = cb_ev s" "cb_ev (start2 s) = cb_ev s" "cb_ev (stop2 s) = cb_ev s"
  "cb_ev (start3 s) = cb_ev s" "cb_ev (stop3 s) = cb_ev s" "cb_ev (start4 s) = cb_ev s" "cb_ev (stop4 s) = cb_ev s"
  "cb_ev (start5 s) = cb_ev s" "cb_ev (stop5 s) = cb_ev s"
  "cb_maxframe (start1 s) = cb_maxframe s" "cb_maxframe (stop1 s) = cb_maxframe s" "cb_maxframe (start2 s) = cb_maxframe s"
  "cb_maxframe (stop2 s) = cb_maxframe s" "cb_maxframe (start3 s) = cb_maxframe s" "cb_maxframe (stop3 s) = cb_maxframe s"
  "cb_maxframe (start4 s) = cb_maxframe s" "cb_maxframe (stop4 s) = cb_maxframe s" "cb_maxframe (start5 s) = cb_maxframe s"
  "cb_maxframe (stop5 s) = cb_maxframe s"
  by (simp_all add: start1_def stop1_def start2_def stop2_def start3_def stop3_def start4_def stop4_def start5_def stop5_def core_def)

lemma flags_same [simp]:
  "core (cb_rejsent_update f_rejsent s) = core s" "core (cb_remotebusy_update f_remotebusy s) = core s" "core (cb_retrans_update f_retrans s) = core s"
  "core (cb_retries_update f_retries s) = core s" "core (cb_dama_rex_update f_dama_rex s) = core s" "core (cb_dama_ackpend_update f_dama_ackpend s) = core s"
  "core (cb_dama_link_update f_dama_link s) = core s" "core (cb_peer_srej_update f_peer_srej s) = core s" "core (cb_proto_update f_proto s) = core s"
  "core (cb_maxframe_update f_maxframe s) = core s" "core (cb_t1_update f_t1 s) = core s" "core (cb_rnrsent_update f_rnrsent s) = core s"
  "core (cb_state_update f_state s) = core s" "core (cb_closed_update f_closed s) = core s" "core (cb_ev_update f_ev s) = core s"
  "core (cb_rtt_run_update f_rtt_run s) = core s" "core (cb_rtt_seq_update f_rtt_seq s) = core s" "core (cb_rtt_time_update f_rtt_time s) = core s"
  "core (cb_srt_update f_srt s) = core s" "core (cb_mdev_update f_mdev s) = core s" "core (cb_reason_update f_reason s) = core s"
  "core (event e s) = core s" "cb_maxframe (event e s) = cb_maxframe s" "cb_ev (event e s) = cb_ev s @ [e]"
  by (simp_all add: core_def event_def)

lemma rtt_same [simp]: "core (rtt_update env s) = core s" "cb_ev (rtt_update env s) = cb_ev s"
  unfolding rtt_update_def Let_def by (simp_all add: if_distrib [of core] if_distrib [of cb_ev] cong: if_cong)

subsection \<open>Sending\<close>

lemma core_eqD:
  "core s' = core s \<Longrightarrow> cb_txq s' = cb_txq s" "core s' = core s \<Longrightarrow> cb_vs s' = cb_vs s" "core s' = core s \<Longrightarrow> cb_unack s' = cb_unack s"
  "core s' = core s \<Longrightarrow> cb_vr s' = cb_vr s" "core s' = core s \<Longrightarrow> cb_reseq s' = cb_reseq s" "core s' = core s \<Longrightarrow> cb_rx s' = cb_rx s"
  "core s' = core s \<Longrightarrow> cb_mmask s' = cb_mmask s"
  by (simp_all add: core_def)

lemma sendframe_same [simp]: "core (sendframe env cr ctl ctlx bp s) = core s" "cb_maxframe (sendframe env cr ctl ctlx bp s) = cb_maxframe s"
  by (simp_all add: sendframe_def Let_def)

lemma sendframe_out:
  assumes "e_iface env"
  shows "\<exists>bp'. sentfr (sendframe env cr ctl ctlx bp s) = sentfr s @ [(cr, bp')] \<and> content bp' = ctl_bytes (ctl, ctlx) @ content bp"
  using assms by (auto simp: sendframe_def Let_def ctl_bytes_def pushdown_content split: option.split)

lemma sendctl_same [simp]: "core (sendctl env cr cmd s) = core s" "cb_maxframe (sendctl env cr cmd s) = cb_maxframe s"
  by (simp_all add: sendctl_def Let_def)

lemma s_cmds_ftype: "cmd \<in> s_cmds \<Longrightarrow> ftype cmd AND 3 = S_FRAME"
  by (auto simp: s_cmds_def ftype_def ctl_defs)

lemma sendctl_out:
  assumes "e_iface env" "cmd \<in> s_cmds" "cr \<noteq> LAPB_UNKNOWN"
  shows "\<exists>f. sentfr (sendctl env cr cmd s) = sentfr s @ [f] \<and> s_frame (cb_mmask s) (cb_vr s) f"
proof -
  define s1 where "s1 = (if cmd AND NOT PF \<in> {RR, REJ, SREJ, UA} then s\<lparr>cb_rnrsent := False\<rparr>
      else if cmd AND NOT PF = RNR then s\<lparr>cb_rnrsent := True\<rparr> else s)"
  have s1: "cb_mmask s1 = cb_mmask s" "cb_vr s1 = cb_vr s" "cb_ev s1 = cb_ev s" by (simp_all add: s1_def)
  obtain c x where c: "s_ctl (cb_mmask s) cmd (cb_vr s) = (c, x)" by fastforce
  have "sendctl env cr cmd s = sendframe env cr c x [] s1"
    unfolding sendctl_def Let_def s1_def [symmetric] using c s_cmds_ftype [OF assms(2)] s1
    by (auto simp: s_ctl_def split: if_splits)
  then show ?thesis using sendframe_out [OF assms(1), of cr c x "[]" s1] c s1 assms(2,3)
    unfolding s_frame_def by (auto intro!: bexI [of _ cmd])
qed

lemma steps_sendctl [steps_rules]:
  assumes "steps W nr dat s0 s" "cmd \<in> s_cmds" "cr \<noteq> LAPB_UNKNOWN" "e_iface env"
  shows "steps W nr dat s0 (sendctl env cr cmd s)"
  using sendctl_out [OF assms(4,2,3), of s] steps_maxframe [OF assms(1)]
  by (auto intro: steps_micro [OF assms(1) micro.supervise])

end
