(* ===== verification/Lapb_Ops.thy ===== *)
theory Lapb_Ops
  imports Lapb_Steps
begin

text \<open>
  Each routine of the link control, on a link that is up and stays up, is a sequence of micro steps (\<open>steps_rules\<close>);
  from this the handlers \<^verbatim>\<open>lapb_input\<close>, \<^verbatim>\<open>recover\<close>, \<^verbatim>\<open>pollthem\<close>, \<^verbatim>\<open>ax_t2_timeout\<close> and \<^verbatim>\<open>lapb_output\<close> follow.
\<close>

section \<open>What the outside must provide\<close>

text \<open>The interface takes frames, copies of queued frames are possible, the queue holds no empty frames, and no setting of
  the node allows more than \<open>W\<close> frames in flight.\<close>

definition maxframe_ok :: "nat \<Rightarrow> byte \<Rightarrow> lenv \<Rightarrow> bool" where
  "maxframe_ok W mm env =
     (if mm = EMMASK then e_port_emaxframe env \<le> W \<and> e_EMaxframe env \<le> W else e_port_maxframe env \<le> W \<and> e_Maxframe env \<le> W)"

definition copies_ok :: "lenv \<Rightarrow> pqueue \<Rightarrow> bool" where
  "copies_ok env q \<longleftrightarrow> (\<forall>bp \<in> set q. length bp \<le> e_avail env \<and> content bp \<noteq> [])"

definition works :: "nat \<Rightarrow> lenv \<Rightarrow> axcb \<Rightarrow> bool" where
  "works W env s \<longleftrightarrow> e_iface env \<and> copies_ok env (cb_txq s) \<and> maxframe_ok W (cb_mmask s) env \<and> good_mask (cb_mmask s) \<and>
     W \<le> unat (cb_mmask s)"

lemma ax25_maxframe_le: "maxframe_ok W (cb_mmask s) env \<Longrightarrow> ax25_maxframe env s \<le> int W"
  by (auto simp: maxframe_ok_def ax25_maxframe_def Let_def split: if_splits)

lemma copy_content:
  assumes "copies_ok env q" "bp \<in> set q"
  shows "content (snd (dup_p (e_avail env) bp 0 (len_p bp))) = content bp" "snd (dup_p (e_avail env) bp 0 (len_p bp)) \<noteq> []"
proof -
  have l: "length bp \<le> e_avail env" and n: "content bp \<noteq> []" using assms by (auto simp: copies_ok_def)
  show c: "content (snd (dup_p (e_avail env) bp 0 (len_p bp))) = content bp"
    by (simp add: dup_p_enough [OF l] len_p_content)
  show "snd (dup_p (e_avail env) bp 0 (len_p bp)) \<noteq> []" using c n by auto
qed

lemma steps_mmask: "steps W nr dat s0 s \<Longrightarrow> cb_mmask s = cb_mmask s0"
proof -
  have m: "micro W nr dat s s' \<Longrightarrow> cb_mmask s' = cb_mmask s" for s s'
  proof (induction rule: micro.cases)
    case (receive_data s' s ns bp)
    have v: "cb_mmask (vr_loop n s) = cb_mmask s" for n s by (induction n s rule: vr_loop.induct) auto
    have d: "cb_mmask (deliver_loop n v s) = cb_mmask s" for n v s
      by (induction n v s rule: deliver_loop.induct) (auto simp: Let_def)
    show ?case using receive_data by (auto simp: core_def receive_def accept_frame_def Let_def v d)
  qed (auto simp: core_def takes_ack_def)
  assume "steps W nr dat s0 s"
  then have "(micro W nr dat)\<^sup>*\<^sup>* s0 s" by (simp add: steps_def)
  then show ?thesis
  proof (induction rule: rtranclp_induct)
    case (step s s')
    then show ?case using m [of s s'] by simp
  qed simp
qed

lemma works_steps: "works W env s0 \<Longrightarrow> steps W nr dat s0 s \<Longrightarrow> works W env s"
  using steps_mmask [of W nr dat s0 s] steps_txq [of W nr dat s0 s]
  by (auto simp: works_def copies_ok_def)

lemma works_core: "works W env s0 \<Longrightarrow> core s = core s0 \<Longrightarrow> works W env s"
  by (simp add: works_def core_def)

section \<open>Steps that change nothing that matters\<close>

lemma steps_flag:
  "steps W nr dat s0 s \<Longrightarrow> core s' = core s \<Longrightarrow> cb_ev s' = cb_ev s \<Longrightarrow> cb_maxframe s' = cb_maxframe s \<Longrightarrow> steps W nr dat s0 s'"
  by (rule steps_same) (simp_all add: steps_maxframe)

lemma steps_event [steps_rules]:
  "steps W nr dat s0 s \<Longrightarrow> frames [e] = [] \<Longrightarrow> steps W nr dat s0 (event e s)"
  by (rule steps_same) (simp_all add: steps_maxframe)

lemma steps_timers [steps_rules]:
  assumes "steps W nr dat s0 s"
  shows "steps W nr dat s0 (start1 s)" "steps W nr dat s0 (stop1 s)" "steps W nr dat s0 (start2 s)"
    "steps W nr dat s0 (stop2 s)" "steps W nr dat s0 (start3 s)" "steps W nr dat s0 (stop3 s)" "steps W nr dat s0 (start4 s)"
    "steps W nr dat s0 (stop4 s)" "steps W nr dat s0 (start5 s)" "steps W nr dat s0 (keep_t1 s)"
  by (rule steps_flag [OF assms]; simp add: keep_t1_def)+

lemma steps_flags [steps_rules]:
  assumes "steps W nr dat s0 s"
  shows "steps W nr dat s0 (s\<lparr>cb_rejsent := b\<rparr>)" "steps W nr dat s0 (s\<lparr>cb_remotebusy := n\<rparr>)" "steps W nr dat s0 (s\<lparr>cb_retrans := b\<rparr>)"
    "steps W nr dat s0 (s\<lparr>cb_retries := m\<rparr>)" "steps W nr dat s0 (s\<lparr>cb_dama_rex := b\<rparr>)" "steps W nr dat s0 (s\<lparr>cb_dama_ackpend := b\<rparr>)"
    "steps W nr dat s0 (s\<lparr>cb_dama_link := b\<rparr>)" "steps W nr dat s0 (s\<lparr>cb_peer_srej := b\<rparr>)" "steps W nr dat s0 (s\<lparr>cb_proto := v\<rparr>)"
    "steps W nr dat s0 (s\<lparr>cb_t1 := t\<rparr>)" "steps W nr dat s0 (s\<lparr>cb_peer_srej := b, cb_proto := v, cb_remotebusy := n\<rparr>)"
    "steps W nr dat s0 (s\<lparr>cb_retrans := b, cb_retries := m\<rparr>)"
  by (rule steps_flag [OF assms]; simp)+

lemma steps_lapbstate [steps_rules]:
  assumes "steps W nr dat s0 s" "new \<noteq> LAPB_DISCONNECTED"
  shows "steps W nr dat s0 (lapbstate env new s)"
  using assms(2) steps_maxframe [OF assms(1)] by (intro steps_same [OF assms(1)]) (auto simp: lapbstate_def Let_def)

lemma steps_if [steps_rules]:
  "(b \<Longrightarrow> steps W nr dat s0 s) \<Longrightarrow> (\<not> b \<Longrightarrow> steps W nr dat s0 s') \<Longrightarrow> steps W nr dat s0 (if b then s else s')"
  by simp

section \<open>Supervisory frames\<close>

lemma s_cmds_simps [simp]: "RR \<in> s_cmds" "RNR \<in> s_cmds" "RR OR PF \<in> s_cmds" "RNR OR PF \<in> s_cmds"
  by (simp_all add: s_cmds_def)

lemma s_cmds_pf: "(if b then SREJ else REJ) OR pfbit p \<in> s_cmds" "(if b then RNR else RR) OR pfbit p \<in> s_cmds"
  "(if b then SREJ else REJ) \<in> s_cmds" "(if b then RNR else RR) \<in> s_cmds" "(if b then RNR OR PF else RR OR PF) \<in> s_cmds"
  by (auto simp: s_cmds_def pfbit_def)

lemma steps_enq_resp [steps_rules]:
  "steps W nr dat s0 s \<Longrightarrow> e_iface env \<Longrightarrow> steps W nr dat s0 (enq_resp env s)"
  unfolding enq_resp_def by (rule steps_sendctl) (auto simp: s_cmds_pf)

lemma steps_answer_poll [steps_rules]:
  "steps W nr dat s0 s \<Longrightarrow> e_iface env \<Longrightarrow> steps W nr dat s0 (answer_poll env f s)"
  unfolding answer_poll_def by (intro steps_rules) auto

lemma steps_remote_busy [steps_rules]:
  "steps W nr dat s0 s \<Longrightarrow> steps W nr dat s0 (remote_busy env ty s)"
  unfolding remote_busy_def by (intro steps_rules) auto

lemma steps_lapb_ack_now [steps_rules]:
  "steps W nr dat s0 s \<Longrightarrow> e_iface env \<Longrightarrow> steps W nr dat s0 (lapb_ack_now env s)"
  unfolding lapb_ack_now_def by (intro steps_rules) (auto simp: s_cmds_pf)

lemma steps_inv_rex [steps_rules]:
  assumes "steps W nr dat s0 s"
  shows "steps W nr dat s0 (inv_rex s)"
  by (rule steps_micro [OF assms micro.start_over]) (auto simp: inv_rex_def core_def steps_maxframe [OF assms])

section \<open>Data\<close>

lemma i_frame_sent:
  assumes "e_iface env" "i_ctl mm ns vr p = (ctl, ctlx)"
  shows "\<exists>f. sentfr (sendframe env LAPB_COMMAND ctl ctlx bp s) = sentfr s @ [f] \<and> i_frame mm ns vr (content bp) f"
  using sendframe_out [OF assms(1), of LAPB_COMMAND ctl ctlx bp s] assms(2)
  by (auto simp: i_frame_def intro!: exI [of _ p])

lemma steps_repeat:
  assumes h: "steps W nr dat s0 s" and w: "works W env s" and q: "cb_txq s \<noteq> []"
    and bp: "bp = snd (dup_p (e_avail env) (hd (cb_txq s)) 0 (len_p (hd (cb_txq s))))"
    and c: "i_ctl (cb_mmask s) ((cb_vs s - cb_unack s) AND cb_mmask s) (cb_vr s) p = (ctl, ctlx)"
  shows "steps W nr dat s0 (sendframe env LAPB_COMMAND ctl ctlx bp s)"
proof -
  have e: "e_iface env" using w by (simp add: works_def)
  have "content bp = content (hd (cb_txq s))"
    using copy_content(1) [of env "cb_txq s" "hd (cb_txq s)"] w q by (simp add: works_def bp)
  then obtain f where "sentfr (sendframe env LAPB_COMMAND ctl ctlx bp s) = sentfr s @ [f]"
    "i_frame (cb_mmask s) ((cb_vs s - cb_unack s) AND cb_mmask s) (cb_vr s) (content (hd (cb_txq s))) f"
    using i_frame_sent [OF e c, of bp s] by auto
  then show ?thesis using q steps_maxframe [OF h] by (intro steps_micro [OF h micro.repeat_oldest]) auto
qed

lemma steps_srej_answer [steps_rules]:
  assumes h: "steps W nr dat s0 s" and w: "works W env s"
  shows "steps W nr dat s0 (srej_answer env n s)"
proof -
  have "steps W nr dat s0 (start5 ((sendframe env LAPB_COMMAND ctl ctlx bp s)\<lparr>cb_retrans := True\<rparr>))"
    if "cb_txq s \<noteq> []" "bp = snd (dup_p (e_avail env) (hd (cb_txq s)) 0 (len_p (hd (cb_txq s))))"
      "i_ctl (cb_mmask s) ((cb_vs s - cb_unack s) AND cb_mmask s) (cb_vr s) False = (ctl, ctlx)" for bp ctl ctlx
    using steps_repeat [OF h w that] by (intro steps_rules)
  then show ?thesis using h by (auto simp: srej_answer_def Let_def split: list.split prod.split)
qed

lemma steps_tx_enq [steps_rules]:
  assumes h: "steps W nr dat s0 s" and w: "works W env s"
  shows "steps W nr dat s0 (tx_enq env s)"
proof -
  have "steps W nr dat s0 (sendctl env LAPB_COMMAND (if busy env s then RNR OR PF else RR OR PF) s)"
    using h w by (intro steps_rules) (auto simp: works_def)
  then have "steps W nr dat s0 (start1 (stop3 (sendctl env LAPB_COMMAND (if busy env s then RNR OR PF else RR OR PF) s)))"
    by (intro steps_timers)
  moreover have "steps W nr dat s0 (start1 (stop3 (sendframe env LAPB_COMMAND ctl ctlx bp s)))"
    if "cb_txq s \<noteq> []" "bp = snd (dup_p (e_avail env) (hd (cb_txq s)) 0 (len_p (hd (cb_txq s))))"
      "i_ctl (cb_mmask s) ((cb_vs s - cb_unack s) AND cb_mmask s) (cb_vr s) True = (ctl, ctlx)" for bp ctl ctlx
    using steps_repeat [OF h w that] by (intro steps_rules)
  ultimately show ?thesis by (auto simp: tx_enq_def Let_def split: prod.split)
qed

text \<open>Frames that were not sent yet: the loop of \<^verbatim>\<open>lapb_output\<close>.\<close>

lemma steps_send_one:
  assumes h: "steps W nr dat s0 s" and w: "works W env s" and q: "drop (unat (cb_unack s)) (cb_txq s) = bp # q"
    and m: "int (unat (cb_unack s)) < cb_maxframe s"
    and c: "i_ctl (cb_mmask s) (cb_vs s) (cb_vr s) False = (ctl, ctlx)"
    and t: "t = sendframe env LAPB_COMMAND ctl ctlx (snd (dup_p (e_avail env) bp 0 (len_p bp)))
                  (s\<lparr>cb_vs := (cb_vs s + 1) AND cb_mmask s\<rparr>)"
  shows "steps W nr dat s0 (t\<lparr>cb_unack := cb_unack t + 1\<rparr>)" "unat (cb_unack t + 1) = Suc (unat (cb_unack s))"
    "cb_txq t = cb_txq s"
proof -
  have u: "unat (cb_unack s) < length (cb_txq s)" using q by (metis drop_all leI list.distinct(1))
  have bp: "bp = cb_txq s ! unat (cb_unack s)" using q u by (metis Cons_nth_drop_Suc list.inject)
  have le: "unat (cb_unack s) < W" using m steps_maxframe [OF h] by linarith
  have W: "W < 256" using w unat_byte_less [of "cb_mmask s"] by (simp add: works_def)
  have e: "e_iface env" using w by (simp add: works_def)
  have tc: "core t = core (s\<lparr>cb_vs := (cb_vs s + 1) AND cb_mmask s\<rparr>)" "cb_maxframe t = cb_maxframe s" by (simp_all add: t)
  have cc: "content (snd (dup_p (e_avail env) bp 0 (len_p bp))) = content (cb_txq s ! unat (cb_unack s))"
    using copy_content(1) [of env "cb_txq s" bp] w u bp by (simp add: works_def)
  obtain f where f: "sentfr t = sentfr s @ [f]" "i_frame (cb_mmask s) (cb_vs s) (cb_vr s) (content (cb_txq s ! unat (cb_unack s))) f"
    using i_frame_sent [OF e c, of "snd (dup_p (e_avail env) bp 0 (len_p bp))" "s\<lparr>cb_vs := (cb_vs s + 1) AND cb_mmask s\<rparr>"]
    unfolding t [symmetric] cc by auto
  show "steps W nr dat s0 (t\<lparr>cb_unack := cb_unack t + 1\<rparr>)"
    using u le tc f steps_maxframe [OF h] by (intro steps_micro [OF h micro.send_new]) (auto simp: core_def)
  have "cb_unack t = cb_unack s" using tc by (simp add: core_def)
  then show "unat (cb_unack t + 1) = Suc (unat (cb_unack s))" using le W by (simp add: unat_word_ariths)
  show "cb_txq t = cb_txq s" using tc by (simp add: core_def)
qed

lemma steps_out_loop:
  "steps W nr dat s0 s \<Longrightarrow> works W env s \<Longrightarrow> q = drop (unat (cb_unack s)) (cb_txq s) \<Longrightarrow> steps W nr dat s0 (out_loop env q s)"
proof (induction q arbitrary: s)
  case (Cons bp q)
  note h = Cons.prems(1) and w = Cons.prems(2) and q = Cons.prems(3) [symmetric]
  show ?case
  proof (cases "int (unat (cb_unack s)) < cb_maxframe s")
    case True
    obtain ctl ctlx where c: "i_ctl (cb_mmask s) (cb_vs s) (cb_vr s) False = (ctl, ctlx)" by fastforce
    define t where "t = sendframe env LAPB_COMMAND ctl ctlx (snd (dup_p (e_avail env) bp 0 (len_p bp)))
                  (s\<lparr>cb_vs := (cb_vs s + 1) AND cb_mmask s\<rparr>)"
    note one = steps_send_one [OF h w q True c t_def]
    define t1 where "t1 = t\<lparr>cb_unack := cb_unack t + 1\<rparr>"
    define t2 where "t2 = start5 (if tm_run (cb_t1 t1) then t1 else start1 (stop3 t1))"
    define t3 where "t3 = (if cb_rtt_run t2 then t2
       else t2\<lparr>cb_rtt_seq := drop_bit 1 ctl AND cb_mmask t2, cb_rtt_time := e_now env, cb_rtt_run := True\<rparr>)"
    have core: "core t3 = core t1" "cb_ev t3 = cb_ev t1" "cb_maxframe t3 = cb_maxframe t1" by (simp_all add: t3_def t2_def)
    have bp: "bp \<in> set (cb_txq s)" using q by (metis in_set_dropD list.set_intros(1))
    have out: "out_loop env (bp # q) s = out_loop env q t3"
      using True c copy_content(2) [OF _ bp] w
      by (simp add: Let_def works_def t3_def t2_def t1_def t_def)
    have s3: "steps W nr dat s0 t3" using one(1) by (rule steps_flag) (use core in \<open>simp_all add: t1_def\<close>)
    have txq: "cb_txq t3 = cb_txq s" "unat (cb_unack t3) = Suc (unat (cb_unack s))"
      using core_eqD(1,3) [OF core(1)] one(2,3) by (simp_all add: t1_def)
    have q3: "q = drop (unat (cb_unack t3)) (cb_txq t3)" unfolding txq using q by (metis drop_Suc list.sel(3) tl_drop)
    have w3: "works W env t3" using w unfolding works_def steps_mmask [OF s3] steps_mmask [OF h] txq(1) .
    show ?thesis unfolding out by (rule Cons.IH [OF s3 w3 q3])
  qed (use h in simp)
qed simp

lemma steps_lapb_output [steps_rules]:
  assumes h: "steps W nr dat s0 s" and w: "works W env s"
  shows "steps W nr dat s0 (lapb_output env s)"
proof -
  define t where "t = (if cb_dama_rex s then let s = s\<lparr>cb_dama_rex := False\<rparr> in if cb_unack s \<noteq> 0 then inv_rex s else s else s)"
  have t: "steps W nr dat s0 t" unfolding t_def Let_def using h by (intro steps_if steps_inv_rex steps_flags)
  have "core t = core s \<or> core t = core (inv_rex s)" by (auto simp: t_def Let_def core_def inv_rex_def)
  then have "works W env t" using w by (auto simp: works_def core_def inv_rex_def)
  then have "steps W nr dat s0 (out_loop env (drop (unat (cb_unack t)) (cb_txq t)) t)" using steps_out_loop [OF t] by simp
  moreover have "steps W nr dat s0 (event Dama_wait s)" using h by (rule steps_event) simp
  moreover have "lapb_output env s =
     (if cb_state s \<noteq> LAPB_RECOVERY \<and> cb_state s \<noteq> LAPB_CONNECTED \<or> cb_remotebusy s \<noteq> 0 then s
      else if e_holds env then (if cb_txq s \<noteq> [] then event Dama_wait s else s)
      else out_loop env (drop (unat (cb_unack t)) (cb_txq t)) t)"
    unfolding lapb_output_def t_def Let_def by (rule refl)
  ultimately show ?thesis using h by simp
qed

subsection \<open>Acknowledgements\<close>

lemma good_mask_and: "good_mask mm \<Longrightarrow> ((x AND mm) + y) AND mm = (x + y) AND (mm :: byte)"
proof -
  assume g: "good_mask mm"
  have x: "x AND mm = seq mm (unat x)" and xy: "(x + y) AND mm = seq mm (unat x + unat y)" by (simp_all add: seq_def)
  have "(seq mm (unat x) + of_nat (unat y)) AND mm = seq mm (unat x + unat y)" by (rule seq_add [OF g])
  then show ?thesis unfolding x xy by simp
qed

lemma ax25_maxframe_flags [simp]:
  "ax25_maxframe env (cb_rtt_run_update f1 s) = ax25_maxframe env s" "ax25_maxframe env (cb_srt_update f2 s) = ax25_maxframe env s"
  "ax25_maxframe env (cb_mdev_update f3 s) = ax25_maxframe env s" "ax25_maxframe env (cb_t1_update f4 s) = ax25_maxframe env s"
  by (simp_all add: ax25_maxframe_def Let_def)

lemma rtt_maxframe:
  assumes "maxframe_ok W (cb_mmask s) env" "cb_maxframe s \<le> int W"
  shows "cb_maxframe (rtt_update env s) \<le> int W"
  using ax25_maxframe_le [OF assms(1)] assms(2) unfolding rtt_update_def Let_def by simp

lemma ack_loop_spec:
  assumes "ack_loop env n oldest s acked = (s', acked', ok)" "good_mask (cb_mmask s)" "oldest AND cb_mmask s = oldest"
    "maxframe_ok W (cb_mmask s) env" "cb_maxframe s \<le> int W"
  shows "\<exists>k. k \<le> unat (cb_unack s) \<and> k \<le> length (cb_txq s) \<and> (\<forall>i < k. (oldest + of_nat i) AND cb_mmask s \<noteq> n) \<and>
     core s' = (drop k (cb_txq s), cb_vs s, cb_unack s - of_nat k, cb_vr s, cb_reseq s, cb_rx s, cb_mmask s) \<and>
     cb_ev s' = cb_ev s \<and> cb_maxframe s' \<le> int W"
  using assms
proof (induction "cb_txq s" arbitrary: s oldest acked)
  case Nil
  then have "s' = s" using ack_loop.simps [of env n oldest s acked] by (auto split: if_splits)
  then show ?case using Nil.prems(5) by (intro exI [of _ 0]) (simp add: core_def)
next
  case (Cons bp q)
  note q = Cons.hyps(2) [symmetric]
  show ?case
  proof (cases "cb_unack s = 0 \<or> oldest = n")
    case True
    then have "s' = s" using Cons.prems(1) ack_loop.simps [of env n oldest s acked] by (auto split: if_splits)
    then show ?thesis using Cons.prems(5) by (intro exI [of _ 0]) (simp add: core_def)
  next
    case c: False
    define t where "t = s\<lparr>cb_txq := q, cb_unack := cb_unack s - 1\<rparr>"
    define u where "u = (if cb_rtt_run t \<and> cb_rtt_seq t = oldest then rtt_update env t else t)"
    define v where "v = u\<lparr>cb_retries := 0\<rparr>"
    have core: "core v = core t" "cb_ev v = cb_ev s" by (simp_all add: v_def u_def t_def)
    have v: "cb_txq v = q" "cb_unack v = cb_unack s - 1" "cb_vs v = cb_vs s" "cb_vr v = cb_vr s" "cb_reseq v = cb_reseq s"
      "cb_rx v = cb_rx s" "cb_mmask v = cb_mmask s"
      using core_eqD [OF core(1)] by (simp_all add: t_def)
    have mf: "cb_maxframe v \<le> int W"
      using Cons.prems(4,5) rtt_maxframe [of W t env] by (simp add: v_def u_def t_def)
    have "ack_loop env n ((oldest + 1) AND cb_mmask v) v (acked + 1) = (s', acked', ok)"
      using Cons.prems(1) unfolding ack_loop.simps [of env n oldest s acked] q list.case Let_def if_not_P [OF c]
        t_def [symmetric] u_def [symmetric] v_def [symmetric] .
    then obtain k where k: "k \<le> unat (cb_unack v)" "k \<le> length q" "\<forall>i<k. (((oldest + 1) AND cb_mmask v) + of_nat i) AND cb_mmask v \<noteq> n"
      "core s' = (drop k q, cb_vs v, cb_unack v - of_nat k, cb_vr v, cb_reseq v, cb_rx v, cb_mmask v)"
      "cb_ev s' = cb_ev v" "cb_maxframe s' \<le> int W"
      using Cons.hyps(1) [of v "(oldest + 1) AND cb_mmask v" "acked + 1"] Cons.prems(2,4) mf
      unfolding v by (auto simp: and.assoc)
    have "unat (cb_unack s) \<noteq> 0" "unat (cb_unack s - 1) = unat (cb_unack s) - 1" using c by (simp_all add: unat_eq_0 unat_minus_one)
    then have u: "Suc k \<le> unat (cb_unack s)" using k(1) v(2) by simp
    have n: "(oldest + of_nat i) AND cb_mmask s \<noteq> n" if "i < Suc k" for i
    proof (cases i)
      case 0
      then show ?thesis using c Cons.prems(3) by simp
    next
      case (Suc j)
      then have "(((oldest + 1) AND cb_mmask v) + of_nat j) AND cb_mmask v \<noteq> n" using k(3) that by simp
      then show ?thesis unfolding v(7) good_mask_and [OF Cons.prems(2)] using Suc by (simp add: add_ac)
    qed
    show ?thesis
      using u n k(2,4,5,6) by (intro exI [of _ "Suc k"]) (simp add: v q core(2) diff_diff_add add.commute)
  qed
qed

lemma steps_ackours [steps_rules]:
  assumes h: "steps W nr dat s0 s" and w: "works W env s"
  shows "steps W nr dat s0 (fst (ackours env nr b s))"
proof -
  obtain s1 acked ok where l: "ack_loop env nr ((cb_vs s - cb_unack s) AND cb_mmask s) s 0 = (s1, acked, ok)"
    using prod_cases3 by blast
  obtain k where "k \<le> unat (cb_unack s)" "k \<le> length (cb_txq s)"
    "\<forall>i < k. (((cb_vs s - cb_unack s) AND cb_mmask s) + of_nat i) AND cb_mmask s \<noteq> nr"
    "core s1 = (drop k (cb_txq s), cb_vs s, cb_unack s - of_nat k, cb_vr s, cb_reseq s, cb_rx s, cb_mmask s)"
    "cb_ev s1 = cb_ev s" "cb_maxframe s1 \<le> int W"
    using ack_loop_spec [OF l, of W] w steps_maxframe [OF h] by (auto simp: works_def and.assoc)
  then have s1: "steps W nr dat s0 s1" by (intro steps_micro [OF h micro.acknowledge]) (auto simp: takes_ack_def)
  define s2 where "s2 = (if cb_unack s1 = 0 then start3 (stop1 s1) else if acked \<noteq> 0 then start1 s1 else s1)"
  have s2: "steps W nr dat s0 s2" unfolding s2_def using s1 by (intro steps_if steps_timers)
  define s3 where "s3 = (if b
                       then s2\<lparr>cb_retrans := True, cb_vs := (cb_vs s2 - cb_unack s2) AND cb_mmask s2, cb_unack := 0\<rparr>
                       else s2)"
  have "steps W nr dat s0 (s2\<lparr>cb_retrans := True, cb_vs := (cb_vs s2 - cb_unack s2) AND cb_mmask s2, cb_unack := 0\<rparr>)"
    by (rule steps_micro [OF s2 micro.start_over]) (use steps_maxframe [OF s2] in \<open>auto simp: core_def\<close>)
  then have s3: "steps W nr dat s0 s3" unfolding s3_def using s2 by (intro steps_if)
  have s4: "steps W nr dat s0 (if acked \<noteq> 0 \<and> tmp > 0 then event (T_upcall tmp) s3 else s3)" for tmp
    using s3 by (intro steps_if steps_event) auto
  show ?thesis
  proof (cases ok)
    case False
    then show ?thesis using s1 by (simp add: ackours_def l)
  next
    case True
    have "fst (ackours env nr b s) = (let tmp = (cb_maxframe s3 - int (length (cb_txq s3))) * int (cb_paclen s3)
              in if acked \<noteq> 0 \<and> tmp > 0 then event (T_upcall tmp) s3 else s3)"
      unfolding ackours_def l prod.case Let_def s2_def [symmetric] s3_def [symmetric] using True by simp
    then show ?thesis using s4 by (simp add: Let_def)
  qed
qed

subsection \<open>Received data\<close>

lemma vr_loop_same [simp]:
  "cb_ev (vr_loop n s) = cb_ev s" "cb_maxframe (vr_loop n s) = cb_maxframe s" "cb_mmask (vr_loop n s) = cb_mmask s"
  by (induction n s rule: vr_loop.induct) auto

lemma deliver_loop_same [simp]:
  "cb_ev (deliver_loop n v s) = cb_ev s" "cb_maxframe (deliver_loop n v s) = cb_maxframe s"
  "cb_vr (deliver_loop n v s) = cb_vr s" "cb_mmask (deliver_loop n v s) = cb_mmask s"
  by (induction n v s rule: deliver_loop.induct) (auto simp: Let_def)

lemma accept_frame_same [simp]:
  "cb_ev (accept_frame ns bp s) = cb_ev s" "cb_maxframe (accept_frame ns bp s) = cb_maxframe s"
  "cb_vr (accept_frame ns bp s) = cb_vr s" "cb_mmask (accept_frame ns bp s) = cb_mmask s"
  by (simp_all add: accept_frame_def Let_def)

lemma deliver_loop_core: "core s = core t \<Longrightarrow> core (deliver_loop n v s) = core (deliver_loop n v t)"
proof (induction n v s arbitrary: t rule: deliver_loop.induct)
  case (2 n v s)
  note f = core_eqD [OF "2.prems" [symmetric]]
  show ?case
  proof (cases "rs_bp (cb_reseq s (unat v)) = []")
    case False
    have "core (deliver_loop n ((v + 1) AND cb_mmask s)
                (s\<lparr>cb_reseq := (cb_reseq s)(unat v := cb_reseq s (unat v)\<lparr>rs_bp := []\<rparr>), cb_rx := procdata (rs_bp (cb_reseq s (unat v))) (cb_rx s)\<rparr>))
        = core (deliver_loop n ((v + 1) AND cb_mmask s)
                (t\<lparr>cb_reseq := (cb_reseq s)(unat v := cb_reseq s (unat v)\<lparr>rs_bp := []\<rparr>), cb_rx := procdata (rs_bp (cb_reseq s (unat v))) (cb_rx s)\<rparr>))"
      by (rule "2.IH" [OF refl False]) (use f in \<open>simp add: core_def\<close>)
    then show ?thesis using False f by (simp add: Let_def)
  qed (use f "2.prems" in \<open>simp add: Let_def\<close>)
qed simp

lemma steps_resequence [steps_rules]:
  assumes h: "steps W nr (Some (ns, bp)) s0 s" and e: "e_iface env"
  shows "steps W nr (Some (ns, bp)) s0 (resequence env bp ns pf poll s)"
proof (cases "bp = []")
  case False
  define v where "v = vr_loop 256 (accept_frame ns bp s)"
  define w where "w = (if gap_behind (cb_vr s) v \<and> \<not> cb_rejsent v
                    then (let s = v\<lparr>cb_rejsent := True\<rparr>
                          in sendctl env LAPB_RESPONSE ((if srej_ok s then SREJ else REJ) OR pfbit pf) s)
                    else if poll
                    then (if e_mholds env then event Dama_owe v
                          else sendctl env LAPB_RESPONSE ((if busy env v then RNR else RR) OR pfbit pf) v)
                    else start2 v)"
  define r where "r = deliver_loop 256 (cb_vr s) w"
  have res: "resequence env bp ns pf poll s = r"
    using False by (simp add: resequence_def Let_def v_def w_def r_def)
  have v: "cb_ev v = cb_ev s" "cb_maxframe v = cb_maxframe s" "cb_mmask v = cb_mmask s" by (simp_all add: v_def)
  have w: "core w = core v" "cb_maxframe w = cb_maxframe v" by (simp_all add: w_def Let_def)
  define P where "P = (\<lambda>x. sentfr x = sentfr s \<or> (\<exists>f. sentfr x = sentfr s @ [f] \<and> s_frame (cb_mmask v) (cb_vr v) f))"
  have P_if: "(b \<Longrightarrow> P x) \<Longrightarrow> (\<not> b \<Longrightarrow> P y) \<Longrightarrow> P (if b then x else y)" for b x y by simp
  have P_sendctl: "cmd \<in> s_cmds \<Longrightarrow> cb_ev x = cb_ev s \<Longrightarrow> cb_mmask x = cb_mmask v \<Longrightarrow> cb_vr x = cb_vr v \<Longrightarrow>
      P (sendctl env LAPB_RESPONSE cmd x)" for cmd x
    using sendctl_out [OF e, of cmd LAPB_RESPONSE x] by (simp add: P_def)
  have "P w" unfolding w_def Let_def by (intro P_if P_sendctl) (auto simp: s_cmds_pf P_def v)
  then have out: "sentfr w = sentfr s \<or> (\<exists>f. sentfr w = sentfr s @ [f] \<and> s_frame (cb_mmask v) (cb_vr v) f)"
    by (simp add: P_def)
  define m where "m = receive ns bp s"
  have m: "m = deliver_loop 256 (cb_vr s) v" by (simp add: m_def receive_def v_def)
  have rm: "core r = core m" unfolding r_def m by (rule deliver_loop_core [OF w(1)])
  have 1: "steps W nr (Some (ns, bp)) s0 m"
    by (rule steps_micro [OF h micro.receive_data [OF refl]]) (use v steps_maxframe [OF h] in \<open>simp_all add: m_def [symmetric] m\<close>)
  have mv: "cb_mmask m = cb_mmask v" "cb_vr m = cb_vr v" "cb_ev m = cb_ev s" "cb_ev r = cb_ev w" "cb_maxframe r = cb_maxframe m"
    using v w by (simp_all add: m r_def)
  show ?thesis
    unfolding res using out
  proof (elim disjE exE conjE)
    fix f assume "sentfr w = sentfr s @ [f]" "s_frame (cb_mmask v) (cb_vr v) f"
    then show "steps W nr (Some (ns, bp)) s0 r"
      using rm mv steps_maxframe [OF 1] by (intro steps_micro [OF 1 micro.supervise]) auto
  qed (use rm mv steps_maxframe [OF 1] in \<open>intro steps_same [OF 1], auto\<close>)
qed (use h in \<open>simp add: resequence_def\<close>)

section \<open>Handlers\<close>

text \<open>\<open>up\<close>: the link is established.\<close>

definition up :: "axcb \<Rightarrow> bool" where
  "up s \<longleftrightarrow> cb_state s = LAPB_CONNECTED \<or> cb_state s = LAPB_RECOVERY"

lemma steps_in_connected:
  assumes w: "works W env s" and m: "cb_maxframe s \<le> int W"
    and t: "fc_type f \<in> {RR, RNR, REJ, SREJ} \<or> fc_type f = 0 \<and> dat = Some (fc_ns f, bp)"
  shows "steps W (fc_nr f) dat s (in_connected env f bp s)"
proof -
  have e: "e_iface env" using w by (simp add: works_def)
  note w' = works_steps [OF w]
  have h: "steps W (fc_nr f) dat s s" by (rule steps_refl [OF m])
  have ack: "steps W (fc_nr f) dat s (fst (ackours env (fc_nr f) b x))" if "steps W (fc_nr f) dat s x" for b x
    using that w' [OF that] by (rule steps_ackours)
  have rr: "steps W (fc_nr f) dat s (fst (ackours env (fc_nr f) False (answer_poll env f (remote_busy env (fc_type f) s))))"
    using h e by (intro ack steps_answer_poll steps_remote_busy)
  have rej: "steps W (fc_nr f) dat s (fst (ackours env (fc_nr f) True (answer_poll env f (stop4 (s\<lparr>cb_remotebusy := 0\<rparr>)))))"
    using h e by (intro ack steps_answer_poll steps_timers steps_flags)
  define s1 where "s1 = fst (ackours env (fc_nr f) False (answer_poll env f (stop4 (s\<lparr>cb_peer_srej := True, cb_proto := V2_2, cb_remotebusy := 0\<rparr>))))"
  have s1: "steps W (fc_nr f) dat s s1" unfolding s1_def using h e by (intro ack steps_answer_poll steps_timers steps_flags)
  then have s2: "steps W (fc_nr f) dat s (if e_route env then event Xid_ask_again s1 else s1)" by (intro steps_if steps_event) auto
  have srej: "steps W (fc_nr f) dat s (srej_answer env (fc_nr f) (if e_route env then event Xid_ask_again s1 else s1))"
    using s2 w' [OF s2] by (rule steps_srej_answer)
  have i: "steps W (fc_nr f) dat s (resequence env bp (fc_ns f) (fc_pf f) (fc_poll f) (fst (ackours env (fc_nr f) False (start5 s))))"
    if "fc_type f = 0"
  proof -
    have d: "dat = Some (fc_ns f, bp)" using t that by (auto simp: ctl_defs)
    show ?thesis using ack [of "start5 s" False] h e unfolding d by (intro steps_resequence) (auto intro: steps_timers)
  qed
  show ?thesis
    unfolding in_connected_def
    by (simp only: Let_def, intro steps_if) (use rr rej srej [unfolded s1_def] i h in auto)
qed

lemma steps_in_recovery:
  assumes w: "works W env s" and m: "cb_maxframe s \<le> int W"
    and t: "fc_type f \<in> {RR, RNR, REJ, SREJ} \<or> fc_type f = 0 \<and> dat = Some (fc_ns f, bp)"
  shows "steps W (fc_nr f) dat s (in_recovery env f bp s)"
proof -
  have e: "e_iface env" using w by (simp add: works_def)
  note w' = works_steps [OF w]
  have h: "steps W (fc_nr f) dat s s" by (rule steps_refl [OF m])
  have ack: "steps W (fc_nr f) dat s (fst (ackours env (fc_nr f) b x))" if "steps W (fc_nr f) dat s x" for b x
    using that w' [OF that] by (rule steps_ackours)
  have final: "steps W (fc_nr f) dat s (inv_rex (fst (ackours env (fc_nr f) True (stop1 x))))"
    "steps W (fc_nr f) dat s (lapbstate env LAPB_CONNECTED (start3 (fst (ackours env (fc_nr f) True (stop1 x)))))"
    if x: "steps W (fc_nr f) dat s x" for x
    using ack [of "stop1 x" True] x by (auto intro: steps_timers steps_inv_rex steps_lapbstate)
  have rb: "steps W (fc_nr f) dat s (remote_busy env ty s)" for ty using h by (rule steps_remote_busy)
  have rr: "steps W (fc_nr f) dat s (keep_t1 (fst (ackours env (fc_nr f) False (answer_poll env f (remote_busy env ty s)))))" for ty
    using rb e by (intro steps_timers ack steps_answer_poll)
  have q: "steps W (fc_nr f) dat s (stop4 (s\<lparr>cb_remotebusy := 0\<rparr>))" using h by (intro steps_timers steps_flags)
  define s1 where "s1 = fst (ackours env (fc_nr f) True (answer_poll env f (stop4 (s\<lparr>cb_remotebusy := 0\<rparr>))))"
  have s1: "steps W (fc_nr f) dat s s1" unfolding s1_def using q e by (intro ack steps_answer_poll)
  then have rej: "steps W (fc_nr f) dat s (keep_t1 (if cb_unack s1 \<noteq> 0 then inv_rex s1 else s1))"
    by (intro steps_timers steps_if steps_inv_rex)
  define s2 where "s2 = fst (ackours env (fc_nr f) False (answer_poll env f (stop4 (s\<lparr>cb_peer_srej := True, cb_proto := V2_2, cb_remotebusy := 0\<rparr>))))"
  have s2: "steps W (fc_nr f) dat s s2" unfolding s2_def using h e by (intro ack steps_answer_poll steps_timers steps_flags)
  have srej: "steps W (fc_nr f) dat s (keep_t1 (srej_answer env (fc_nr f) s2))"
    using s2 w' [OF s2] by (intro steps_timers steps_srej_answer)
  have i: "steps W (fc_nr f) dat s (resequence env bp (fc_ns f) (fc_pf f) (fc_poll f) (keep_t1 (fst (ackours env (fc_nr f) False (start5 s)))))"
    if "fc_type f = 0"
  proof -
    have d: "dat = Some (fc_ns f, bp)" using t that by (auto simp: ctl_defs)
    show ?thesis using ack [of "start5 s" False] h e unfolding d by (intro steps_resequence steps_timers) (auto intro: steps_timers)
  qed
  show ?thesis
    unfolding in_recovery_def
    by (simp only: Let_def, intro steps_if)
       (use final [OF rb] final [OF q] rr rej [unfolded s1_def] srej [unfolded s2_def] i h in auto)
qed

text \<open>The states: only \<^verbatim>\<open>lapbstate\<close> changes them.\<close>

lemma state_same [simp]:
  "cb_state (start1 s) = cb_state s" "cb_state (stop1 s) = cb_state s" "cb_state (start3 s) = cb_state s"
  "cb_state (stop3 s) = cb_state s" "cb_state (event e s) = cb_state s"
  "cb_state (start4 s) = cb_state s" "cb_state (stop4 s) = cb_state s" "cb_state (start5 s) = cb_state s"
  "cb_state (start2 s) = cb_state s" "cb_state (stop2 s) = cb_state s" "cb_state (inv_rex s) = cb_state s"
  by (simp_all add: start1_def stop1_def start3_def stop3_def event_def start4_def stop4_def start5_def start2_def stop2_def
      inv_rex_def)

lemma state_send [simp]: "cb_state (sendframe env cr c x bp s) = cb_state s" "cb_state (sendctl env cr cmd s) = cb_state s"
proof -
  show f: "cb_state (sendframe env cr c x bp s) = cb_state s" for c x bp s by (simp add: sendframe_def Let_def)
  show "cb_state (sendctl env cr cmd s) = cb_state s" by (simp add: sendctl_def Let_def f)
qed

lemma state_lapbstate [simp]: "cb_state (lapbstate env new s) = new"
  by (simp add: lapbstate_def Let_def stop5_def)

lemma steps_finish:
  assumes h: "steps W nr dat s0 s" and w: "works W env s" and u: "up (lapb_finish env s)"
  shows "steps W nr dat s0 (lapb_finish env s)"
proof -
  define t where "t = lapb_output env s"
  have t: "steps W nr dat s0 t" unfolding t_def using h w by (rule steps_lapb_output)
  have "steps W nr dat s0 (event Dama_wait t)" using t by (rule steps_event) simp
  then show ?thesis using t u by (auto simp: lapb_finish_def t_def [symmetric] Let_def up_def)
qed

lemma lapb_frame_steps:
  assumes w: "works W env s" and m: "cb_maxframe s \<le> int W" and s: "up s" and u: "up (lapb_frame env cr control controlx bp s)"
    and f: "f = frame_ctl control controlx (cb_mmask s) cr" and nr: "nr = fc_nr f"
    and t: "fc_type f \<in> {RR, RNR, REJ, SREJ} \<or> fc_type f = 0 \<and> dat = Some (fc_ns f, bp)"
  shows "steps W nr dat s (lapb_frame env cr control controlx bp s)"
proof -
  define s1 where "s1 = (if e_marked env then s\<lparr>cb_dama_link := True\<rparr> else s)"
  have h: "steps W nr dat s s1" unfolding s1_def using steps_refl [OF m] by (intro steps_if steps_flags)
  have s1: "core s1 = core s" "cb_maxframe s1 = cb_maxframe s" "cb_state s1 = cb_state s" by (simp_all add: s1_def)
  have w1: "works W env s1" using w s1(1) by (rule works_core)
  have ne: "fc_type f \<noteq> TEST" "fc_type f \<noteq> XID" "in_established env f s1 = None" using t
    by (auto simp: ctl_defs in_established_def)
  define r where "r = (if cb_state s = LAPB_CONNECTED then in_connected env f bp s1 else in_recovery env f bp s1)"
  have "steps W (fc_nr f) dat s1 r" unfolding r_def
    using s1(2) m by (intro steps_if steps_in_connected steps_in_recovery w1 t) auto
  moreover have "steps W nr dat s1 r \<Longrightarrow> steps W nr dat s r" using h by (auto simp: steps_def)
  ultimately have r: "steps W nr dat s r" using nr by simp
  have eq: "lapb_frame env cr control controlx bp s = lapb_finish env r"
    using ne s s1(3) by (auto simp: lapb_frame_def Let_def f [symmetric] s1_def [symmetric] lapb_dispatch_def up_def r_def)
  show ?thesis unfolding eq
    by (rule steps_finish [OF r works_steps [OF w r]]) (use u eq in simp)
qed

end
