(* ===== verification/Lapb_Handlers.thy ===== *)
theory Lapb_Handlers
  imports Lapb_Ops
begin
unbundle bit_operations_syntax

text \<open>
  The two entrances of the link control, a frame (\<open>lapb_input\<close>) and the expiry of T1 (\<open>recover\<close>), as sequences of micro steps: what they
  do to the queue, the numbers and the resequencing slots follows from the fields of the control octets.
\<close>

section \<open>Reading the control field\<close>

lemma bit_and_7: "v AND 7 = (v :: byte) \<Longrightarrow> bit v n \<Longrightarrow> n < 3"
proof -
  assume v: "v AND 7 = v" and b: "bit v n"
  have "v AND mask 3 = v" using v by (simp add: mask_eq_exp_minus_1)
  then have "bit (v AND mask 3) n" using b by simp
  then show ?thesis by (simp add: bit_simps)
qed

lemma bit_16: "bit (16 :: int) n \<longleftrightarrow> n = 4"
proof -
  have "bit (push_bit 4 1 :: int) n \<longleftrightarrow> n = 4" unfolding bit_push_bit_iff bit_1_iff by auto
  then show ?thesis by simp
qed

lemma i_ctl_8:
  assumes ns: "ns AND 7 = (ns :: byte)" and vr: "vr AND 7 = (vr :: byte)"
    and c_def: "c = push_bit 1 ns OR (if p then 0x10 else 0) OR push_bit 5 vr"
  shows "c AND 1 = 0" "drop_bit 1 c AND 7 = ns" "drop_bit 5 c AND 7 = vr"
proof -
  have m: "(7 :: byte) = mask 3" by (simp add: mask_eq_exp_minus_1)
  note b = bit_and_7 [OF ns] bit_and_7 [OF vr]
  have c: "bit c n \<longleftrightarrow> n < 8 \<and> (1 \<le> n \<and> bit ns (n - 1) \<or> p \<and> n = 4 \<or> 5 \<le> n \<and> bit vr (n - 5))" for n
    by (cases p; simp_all add: c_def bit_16 bit_simps del: push_bit_Suc; auto)
  show "c AND 1 = 0" by (rule bit_word_eqI) (auto simp: bit_and_iff bit_1_iff c)
  show "drop_bit 1 c AND 7 = ns" unfolding m(1)
    by (rule bit_word_eqI) (auto simp: bit_and_iff bit_drop_bit_eq bit_mask_iff c dest: b)
  show "drop_bit 5 c AND 7 = vr" unfolding m(1)
    by (rule bit_word_eqI) (auto simp: bit_and_iff bit_drop_bit_eq bit_mask_iff c dest: b)
qed

lemma ctl_128:
  assumes "v AND 127 = (v :: byte)"
  shows "push_bit 1 v AND 1 = 0" "drop_bit 1 (push_bit 1 v) AND 127 = v" "drop_bit 1 ((if p then 1 else 0) OR push_bit 1 v) AND 127 = v"
proof -
  have m: "(127 :: byte) = mask 7" by (simp add: mask_eq_exp_minus_1)
  have b: "bit v n \<Longrightarrow> n < 7" for n
  proof -
    assume "bit v n"
    then have "bit (v AND mask 7) n" using assms m by simp
    then show "n < 7" by (simp add: bit_simps)
  qed
  show "push_bit 1 v AND 1 = 0" by (rule bit_word_eqI) (auto simp: bit_simps simp del: push_bit_Suc)
  show "drop_bit 1 (push_bit 1 v) AND 127 = v" unfolding m by (rule bit_word_eqI) (use b in \<open>auto simp: bit_simps simp del: push_bit_Suc\<close>)
  show "drop_bit 1 ((if p then 1 else 0) OR push_bit 1 v) AND 127 = v"
    unfolding m by (rule bit_word_eqI) (use b in \<open>auto simp: bit_simps simp del: push_bit_Suc\<close>)
qed

lemma s_ctl_8:
  assumes vr: "vr AND 7 = (vr :: byte)"
  shows "push_bit 5 vr AND 15 = 0" "push_bit 5 vr AND 1 = 0" "push_bit 5 vr AND 2 = 0" "drop_bit 5 (push_bit 5 vr) AND 7 = vr"
proof -
  have m: "(7 :: byte) = mask 3" "(15 :: byte) = mask 4" "(2 :: byte) = push_bit 1 1" by (simp_all add: mask_eq_exp_minus_1)
  note b = bit_and_7 [OF vr]
  show "push_bit 5 vr AND 15 = 0" unfolding m by (rule bit_word_eqI) (auto simp: bit_simps)
  show "push_bit 5 vr AND 1 = 0" by (rule bit_word_eqI) (auto simp: bit_simps)
  show "push_bit 5 vr AND 2 = 0" unfolding m by (rule bit_word_eqI) (auto simp: bit_simps)
  show "drop_bit 5 (push_bit 5 vr) AND 7 = vr" unfolding m(1)
    by (rule bit_word_eqI) (use b in \<open>auto simp: bit_simps\<close>)
qed

lemma masks: "MMASK = 7" "EMMASK = 127" "PF = 0x10" "PF_EAX25 = 1" "good_mask mm \<Longrightarrow> mm \<noteq> EMMASK \<Longrightarrow> mm = 7"
  by (auto simp: ctl_defs good_mask_def)

lemma frame_ctl_i:
  assumes g: "good_mask mm" and ns: "ns AND mm = ns" and vr: "vr AND mm = vr" and c: "i_ctl mm ns vr p = (c, x)"
  shows "ftype c = 0 \<and> (x \<noteq> None \<longleftrightarrow> mm = EMMASK) \<and> fc_type (frame_ctl c x mm cr) = 0 \<and> fc_ns (frame_ctl c x mm cr) = ns \<and>
     fc_nr (frame_ctl c x mm cr) = vr"
proof (cases "mm = EMMASK")
  case True
  then have "c = push_bit 1 ns" "x = Some ((if p then 1 else 0) OR push_bit 1 vr)" using c by (auto simp: i_ctl_def masks)
  then show ?thesis using True ctl_128(1,2) [of ns] ctl_128(3) [of vr p] ns vr by (simp add: frame_ctl_def Let_def ftype_def masks)
next
  case False
  then have m: "mm = 7" using g masks(5) by blast
  then have cx: "c = push_bit 1 ns OR (if p then 0x10 else 0) OR push_bit 5 vr" and x: "x = None"
    using c by (simp_all add: i_ctl_def masks split: if_splits)
  show ?thesis using m i_ctl_8 [OF _ _ cx] x ns vr by (simp add: frame_ctl_def Let_def ftype_def masks)
qed

lemma s_cmds_and: "cmd \<in> s_cmds \<Longrightarrow> cmd AND 1 = 1 \<and> cmd AND 2 = 0 \<and> cmd AND 15 \<in> {RR, RNR, REJ, SREJ} \<and> drop_bit 5 cmd = 0"
  by (auto simp: s_cmds_def ctl_defs)

lemma frame_ctl_s:
  assumes g: "good_mask mm" and vr: "vr AND mm = vr" and cmd: "cmd \<in> s_cmds" and c: "s_ctl mm cmd vr = (c, x)"
  shows "ftype c AND 3 \<noteq> U_FRAME \<and> (x \<noteq> None \<longleftrightarrow> mm = EMMASK) \<and> fc_type (frame_ctl c x mm cr) \<in> {RR, RNR, REJ, SREJ} \<and>
     fc_nr (frame_ctl c x mm cr) = vr"
proof -
  note a = s_cmds_and [OF cmd]
  have u: "t \<in> {RR, RNR, REJ, SREJ} \<Longrightarrow> t AND 3 \<noteq> U_FRAME" for t by (auto simp: ctl_defs)
  show ?thesis
  proof (cases "mm = EMMASK")
    case True
    then have cx: "c = cmd AND 15" "x = Some ((if cmd AND PF \<noteq> 0 then 1 else 0) OR push_bit 1 vr)"
      using c by (auto simp: s_ctl_def masks)
    have "(cmd AND 15) AND 1 = cmd AND 1" "(cmd AND 15) AND 2 = cmd AND 2" "(cmd AND 15) AND 15 = cmd AND 15"
      by (simp_all add: and.assoc)
    then have f: "ftype c = cmd AND 15" using a by (simp add: ftype_def cx)
    have "vr AND 127 = vr" using vr True by (simp add: masks)
    then have "fc_nr (frame_ctl c x mm cr) = vr" using ctl_128(3) [of vr "cmd AND PF \<noteq> 0"]
      by (simp only: frame_ctl_def Let_def cx fctl.simps option.case masks)
    then show ?thesis using a u True cx f by (simp add: frame_ctl_def Let_def)
  next
    case False
    then have m: "mm = 7" using g masks(5) by blast
    then have cx: "c = cmd OR push_bit 5 vr" "x = None" using c False by (simp_all add: s_ctl_def)
    note v = s_ctl_8 [OF vr [unfolded m]]
    have "c AND 1 = 1" "c AND 2 = 0" "c AND 15 = cmd AND 15" using a v by (simp_all add: cx bit.conj_disj_distrib2)
    then have f: "ftype c = cmd AND 15" by (simp add: ftype_def)
    have "drop_bit 5 c AND 7 = vr" using a v by (simp add: cx drop_bit_or)
    then show ?thesis using a u False cx(2) by (simp add: frame_ctl_def Let_def f masks)
  qed
qed

lemma lapb_input_frame:
  assumes "content bpp = ctl_bytes (c, x) @ d" "x \<noteq> None \<longleftrightarrow> cb_mmask s = EMMASK" "ftype c AND 3 \<noteq> U_FRAME" "cr \<noteq> LAPB_UNKNOWN" "up s"
  shows "\<exists>bp. content bp = d \<and> lapb_input env cr bpp s = lapb_frame env cr c x bp s"
proof -
  obtain a b1 where p1: "PULLCHAR bpp = (a, b1)" by fastforce
  have a: "a = Some c" and b1: "content b1 = (case x of None \<Rightarrow> d | Some y \<Rightarrow> y # d)"
    using PULLCHAR_content [OF p1] assms(1) by (auto simp: ctl_bytes_def split: option.splits)
  have ne: "bpp \<noteq> []" using assms(1) by (auto simp: ctl_bytes_def split: option.splits)
  have t: "ftype c \<noteq> SABM" "ftype c \<noteq> SABME" using assms(3) by (auto simp: ctl_defs)
  have st: "cb_state s \<noteq> LAPB_DISCONNECTED" using assms(5) by (auto simp: up_def)
  show ?thesis
  proof (cases x)
    case None
    then have "lapb_input env cr bpp s = lapb_frame env cr c x b1 s"
      using ne p1 a t st assms(2,4) by (simp add: lapb_input_def Let_def)
    then show ?thesis using b1 None by auto
  next
    case (Some y)
    obtain a2 b2 where p2: "PULLCHAR b1 = (a2, b2)" by fastforce
    have a2: "a2 = Some y" "content b2 = d" using PULLCHAR_content [OF p2] b1 Some by auto
    have "lapb_input env cr bpp s = lapb_frame env cr c x b2 s"
      using ne p1 a t st assms(2,3,4) Some p2 a2 by (simp add: lapb_input_def Let_def)
    then show ?thesis using a2 by auto
  qed
qed

theorem input_i_frame:
  assumes w: "works W env s" and m: "cb_maxframe s \<le> int W" and s: "up s" and u: "up (lapb_input env cr bpp s)"
    and f: "i_frame (cb_mmask s) ns vr d (cr, bpp)" and ns: "ns AND cb_mmask s = ns" and vr: "vr AND cb_mmask s = vr"
  shows "\<exists>bp. content bp = d \<and> steps W vr (Some (ns, bp)) s (lapb_input env cr bpp s)"
proof -
  have g: "good_mask (cb_mmask s)" using w by (simp add: works_def)
  obtain p where cr: "cr = LAPB_COMMAND" and c: "content bpp = ctl_bytes (i_ctl (cb_mmask s) ns vr p) @ d"
    using f by (auto simp: i_frame_def)
  obtain c x where cx: "i_ctl (cb_mmask s) ns vr p = (c, x)" by fastforce
  note fc = frame_ctl_i [OF g ns vr cx, of cr]
  have ct: "ftype c AND 3 \<noteq> U_FRAME" using fc by (simp add: ctl_defs)
  obtain bp where bp: "content bp = d" "lapb_input env cr bpp s = lapb_frame env cr c x bp s"
    using lapb_input_frame [of bpp c x d s cr env] c cx fc ct s cr by auto
  have "steps W vr (Some (ns, bp)) s (lapb_frame env cr c x bp s)"
    by (rule lapb_frame_steps [OF w m s _ refl]) (use u bp fc in auto)
  then show ?thesis using bp by auto
qed

theorem input_s_frame:
  assumes w: "works W env s" and m: "cb_maxframe s \<le> int W" and s: "up s" and u: "up (lapb_input env cr bpp s)"
    and f: "s_frame (cb_mmask s) vr (cr, bpp)" and vr: "vr AND cb_mmask s = vr"
  shows "steps W vr None s (lapb_input env cr bpp s)"
proof -
  have g: "good_mask (cb_mmask s)" using w by (simp add: works_def)
  obtain cmd where cr: "cr \<noteq> LAPB_UNKNOWN" and cmd: "cmd \<in> s_cmds" and c: "content bpp = ctl_bytes (s_ctl (cb_mmask s) cmd vr) @ []"
    using f by (auto simp: s_frame_def)
  obtain c x where cx: "s_ctl (cb_mmask s) cmd vr = (c, x)" by fastforce
  note fc = frame_ctl_s [OF g vr cmd cx, of cr]
  obtain bp where bp: "lapb_input env cr bpp s = lapb_frame env cr c x bp s"
    using lapb_input_frame [of bpp c x "[]" s cr env] c cx fc s cr by auto
  have "steps W vr None s (lapb_frame env cr c x bp s)"
    by (rule lapb_frame_steps [OF w m s _ refl]) (use u bp fc in auto)
  then show ?thesis using bp by simp
qed

section \<open>Timers and the user\<close>

theorem steps_recover:
  assumes w: "works W env s" and m: "cb_maxframe s \<le> int W" and s: "up s" and u: "up (recover env s)"
  shows "steps W nr dat s (recover env s)"
proof (cases "e_holds env")
  case True
  have h: "steps W nr dat s s" by (rule steps_refl [OF m])
  have "steps W nr dat s (start1 s)" "steps W nr dat s (start1 (s\<lparr>cb_retries := n, cb_dama_rex := True\<rparr>))" for n
    using steps_flag [OF h, of "s\<lparr>cb_retries := n, cb_dama_rex := True\<rparr>"] h by (auto intro: steps_timers)
  then show ?thesis using True u by (auto simp: recover_def Let_def t1_give_up_def up_def)
next
  case False
  define s1 where "s1 = s\<lparr>cb_retrans := True, cb_retries := cb_retries s + 1\<rparr>"
  define s2 where "s2 = (if cb_retries s1 < e_Blimit env
                    then s1\<lparr>cb_t1 := (cb_t1 s1)\<lparr>tm_dur := (tm_dur (cb_t1 s1) * 5 + 2) div 4\<rparr>\<rparr> else s1)"
  define s3 where "s3 = (if cb_maxframe s2 > 1 then s2\<lparr>cb_maxframe := cb_maxframe s2 - 1\<rparr> else s2)"
  have c: "core s3 = core s" "cb_ev s3 = cb_ev s" "cb_maxframe s3 \<le> int W" "cb_state s3 = cb_state s"
    using m by (simp_all add: s3_def s2_def s1_def)
  have h: "steps W nr dat s s3" by (rule steps_same [OF steps_refl [OF m]]) (simp_all add: c)
  have q: "steps W nr dat s (lapbstate env LAPB_RECOVERY (tx_enq env s3))"
    by (intro steps_lapbstate steps_tx_enq h works_core [OF w c(1)]) simp
  have "recover env s = (if out_of_tries s3 then t1_give_up env (sendctl env LAPB_RESPONSE DM s3) else lapbstate env LAPB_RECOVERY (tx_enq env s3))"
    using False s c(4) unfolding recover_def Let_def s1_def [symmetric] s2_def [symmetric] s3_def [symmetric]
    by (auto simp: up_def)
  then show ?thesis using q u by (auto simp: t1_give_up_def up_def)
qed

theorem steps_pollthem:
  assumes w: "works W env s" and m: "cb_maxframe s \<le> int W" and s: "up s"
  shows "steps W nr dat s (pollthem env s)"
proof -
  have h: "steps W nr dat s s" by (rule steps_refl [OF m])
  have "steps W nr dat s (lapbstate env LAPB_RECOVERY (tx_enq env (s\<lparr>cb_retries := 0\<rparr>)))"
    by (intro steps_lapbstate steps_tx_enq steps_flags h works_core [OF w]) simp_all
  then show ?thesis using h by (auto simp: pollthem_def intro: steps_timers)
qed

theorem steps_t2:
  assumes w: "works W env s" and m: "cb_maxframe s \<le> int W"
  shows "steps W nr dat s (ax_t2_timeout env s)"
  unfolding ax_t2_timeout_def using steps_refl [OF m] w
  by (intro steps_if steps_event steps_flags steps_lapb_ack_now) (auto simp: works_def)

end
