(* ===== verification/Lapb_Send.thy ===== *)
theory Lapb_Send
  imports Lapb_Fsm
begin

text \<open>
  \<^verbatim>\<open>send_ax25\<close> of \<^verbatim>\<open>src/src/ax25user.c\<close>: what the user hands to a link is cut into frames - by the segmenter, or into
  pieces of at most \<^verbatim>\<open>paclen\<close> octets that each carry the protocol id - and put on the transmit queue.

  The settings of the port are arguments: \<open>blocked\<close> is \<^verbatim>\<open>pid_blocked(axp->iface,PF_OUT,.)\<close>, \<open>segs\<close> is the condition
  \<^verbatim>\<open>ax25_segments_pid(axp->iface,pid) && axp->peer_segment >= 0\<close>.
\<close>

text \<open>The loop that cuts; \<open>None\<close> when it does not end (\<^verbatim>\<open>paclen\<close> is 0 and there is data).\<close>

function chop_loop :: "lenv \<Rightarrow> byte \<Rightarrow> chain \<Rightarrow> nat \<Rightarrow> nat \<Rightarrow> nat \<Rightarrow> pqueue \<Rightarrow> pqueue option" where
  "chop_loop env pid bpp paclen offset len q =
     (if len = 0 then Some q
      else let size = min len paclen
           in if size = 0 then None
              else chop_loop env pid bpp paclen (offset + size) (len - size)
                     (enqueue q (pushdown (e_fits env) [pid] (snd (dup_p (e_avail env) bpp offset size)))))"
  by pat_completeness auto
termination
  by (relation "measure (\<lambda>(env, pid, bpp, paclen, offset, len, q). len)") auto

declare chop_loop.simps [simp del]

definition send_frames :: "lenv \<Rightarrow> bool \<Rightarrow> byte \<Rightarrow> chain \<Rightarrow> axcb \<Rightarrow> pqueue option" where
  "send_frames env segs pid bpp s =
     (if segs then Some (segmenter (e_avail env) (e_fits env) (pushdown (e_fits env) [pid] bpp) (cb_paclen s))
      else chop_loop env pid bpp (cb_paclen s) 0 (len_p bpp) [])"

text \<open>With a protocol id; the result tells whether the data was taken.  \<open>None\<close>: the call does not return.\<close>

definition send_ax25 :: "lenv \<Rightarrow> (byte \<Rightarrow> bool) \<Rightarrow> bool \<Rightarrow> byte \<Rightarrow> chain \<Rightarrow> axcb \<Rightarrow> (axcb \<times> bool) option" where
  "send_ax25 env blocked segs pid bpp s =
     (if bpp = [] \<or> cb_closed s then Some (s, False)
      else if blocked pid then Some (s, False)
      else case send_frames env segs pid bpp s of
             None \<Rightarrow> None
           | Some q \<Rightarrow> if segs \<and> q = [] then Some (s, False)
                       else Some (lapb_output env (s\<lparr>cb_txq := foldl enqueue (cb_txq s) q\<rparr>), True))"

text \<open>With protocol id -1: frames that carry their id already; those of a blocked protocol are dropped.\<close>

definition send_queue :: "lenv \<Rightarrow> (byte \<Rightarrow> bool) \<Rightarrow> bool \<Rightarrow> pqueue \<Rightarrow> axcb \<Rightarrow> axcb \<times> bool" where
  "send_queue env blocked any q s =
     (if q = [] \<or> cb_closed s then (s, False)
      else let q = (if any then filter (\<lambda>bp. \<not> (case bp of [] \<Rightarrow> False | p # _ \<Rightarrow> p \<noteq> [] \<and> blocked (hd p))) q else q)
           in (lapb_output env (s\<lparr>cb_txq := foldl enqueue (cb_txq s) q\<rparr>), True))"

section \<open>What is queued\<close>

function pieces :: "nat \<Rightarrow> byte list \<Rightarrow> byte list list" where
  "pieces n d = (if d = [] \<or> n = 0 then [] else take n d # pieces n (drop n d))"
  by pat_completeness auto
termination
  by (relation "measure (\<lambda>(n, d). length d)") auto

declare pieces.simps [simp del]

lemma concat_pieces: "0 < n \<Longrightarrow> concat (pieces n d) = d"
  by (induction n d rule: pieces.induct) (subst pieces.simps, auto)

lemma pieces_length: "\<forall>p \<in> set (pieces n d). p \<noteq> [] \<and> length p \<le> n"
  by (induction n d rule: pieces.induct) (subst pieces.simps, auto)

lemma foldl_enqueue: "\<forall>bp \<in> set q. bp \<noteq> [] \<Longrightarrow> foldl enqueue q0 q = q0 @ q"
  by (induction q arbitrary: q0) (auto simp: enqueue_def)

lemma chop_loop_spec:
  assumes "length bpp \<le> e_avail env" "0 < paclen"
  shows "offset + len = length (content bpp) \<Longrightarrow>
     \<exists>q'. chop_loop env pid bpp paclen offset len q = Some (q @ q') \<and> (\<forall>bp \<in> set q'. bp \<noteq> []) \<and>
       map content q' = map ((#) pid) (pieces paclen (drop offset (content bpp)))"
proof (induction len arbitrary: offset q rule: less_induct)
  case (less len)
  show ?case
  proof (cases "len = 0")
    case True
    then show ?thesis using less.prems by (simp add: chop_loop.simps pieces.simps)
  next
    case False
    let ?size = "min len paclen"
    let ?f = "pushdown (e_fits env) [pid] (snd (dup_p (e_avail env) bpp offset ?size))"
    have f: "content ?f = pid # take ?size (drop offset (content bpp))"
      using dup_p_enough [OF assms(1), of offset ?size] by (simp add: pushdown_content)
    then have ne: "?f \<noteq> []" by auto
    then have enq: "enqueue q ?f = q @ [?f]" by (simp add: enqueue_def)
    obtain q' where q': "chop_loop env pid bpp paclen (offset + ?size) (len - ?size) (q @ [?f]) = Some ((q @ [?f]) @ q')"
       "\<forall>bp \<in> set q'. bp \<noteq> []"
       "map content q' = map ((#) pid) (pieces paclen (drop (offset + ?size) (content bpp)))"
      using less.IH [of "len - ?size" "offset + ?size" "q @ [?f]"] False assms(2) less.prems by auto
    have step: "chop_loop env pid bpp paclen offset len q = Some (q @ ?f # q')"
      using False assms(2) q'(1) by (subst chop_loop.simps) (simp add: Let_def enq)
    have len: "length (drop offset (content bpp)) = len" using less.prems by simp
    define D where "D = drop offset (content bpp)"
    have D: "take ?size D = take paclen D" "drop ?size D = drop paclen D" using len by (simp_all add: D_def [symmetric] min_def)
    have "drop (offset + ?size) (content bpp) = drop paclen D" using D(2) by (metis D_def add.commute drop_drop)
    moreover have "pieces paclen D = take paclen D # pieces paclen (drop paclen D)"
      using len False assms(2) by (subst pieces.simps) (auto simp: D_def)
    ultimately have "pieces paclen (drop offset (content bpp)) =
        take ?size (drop offset (content bpp)) # pieces paclen (drop (offset + ?size) (content bpp))"
      using D by (simp add: D_def)
    then show ?thesis using step q' f ne by (intro exI [of _ "?f # q'"]) auto
  qed
qed

end
