(* ===== verification/Lapb_Link.thy ===== *)
theory Lapb_Link
  imports Lapb_Handlers Lapb_Send
begin

text \<open>
  Two stations and the line between them.  The line delivers frames in order or loses them; each station runs the handlers of
  \<^verbatim>\<open>lapb.c\<close>.  \<open>flow\<close> is the invariant of one direction: what the sender still holds, what is in flight and what the receiver has
  stored and handed up, in terms of the list \<open>S\<close> of all payloads the sender was given.
\<close>

section \<open>One direction\<close>

definition bsum :: "byte list \<Rightarrow> nat" where
  "bsum bs = sum_list (map unat bs)"

lemma byte_sum_content: "byte_sum bp = bsum (content bp)"
  by (induction bp) (auto simp: byte_sum_def bsum_def)

text \<open>\<open>x\<close> is the index of the frame that is stored in slot \<open>k\<close>, when the receiver waits for \<open>R\<close> or, while it moves on, an
  earlier one.\<close>

definition stored :: "nat \<Rightarrow> byte \<Rightarrow> byte list list \<Rightarrow> nat \<Rightarrow> nat list \<Rightarrow> nat \<Rightarrow> axreseq \<Rightarrow> nat \<Rightarrow> bool" where
  "stored W mm S base js k slot x \<longleftrightarrow> x < base + W \<and> x < length S \<and> k = unat (seq mm x) \<and> content (rs_bp slot) = S ! x \<and>
     rs_sum slot = bsum (S ! x) \<and> (\<forall>j \<in> set js. x < j + W)"

definition sender_ok :: "nat \<Rightarrow> byte \<Rightarrow> byte list list \<Rightarrow> axcb \<Rightarrow> nat \<Rightarrow> bool" where
  "sender_ok W mm S s base \<longleftrightarrow> base \<le> length S \<and> map content (cb_txq s) = drop base S \<and> unat (cb_unack s) \<le> W \<and>
     base + unat (cb_unack s) \<le> length S \<and> cb_vs s = seq mm (base + unat (cb_unack s))"

definition receiver_ok :: "nat \<Rightarrow> byte \<Rightarrow> byte list list \<Rightarrow> axcb \<Rightarrow> rxbytes \<Rightarrow> nat \<Rightarrow> nat \<Rightarrow> nat list \<Rightarrow> bool" where
  "receiver_ok W mm S r rx0 base R js \<longleftrightarrow> R \<le> length S \<and> cb_vr r = seq mm R \<and>
     rx_bytes (cb_rx r) = fold procbytes (take R S) rx0 \<and>
     (\<forall>k \<le> unat mm. rs_bp (cb_reseq r k) \<noteq> [] \<longrightarrow> (\<exists>x > R. stored W mm S base js k (cb_reseq r k) x)) \<and>
     (\<forall>x < R. R \<le> x + W \<longrightarrow> rs_bp (cb_reseq r (unat (seq mm x))) = [] \<longrightarrow> rs_sum (cb_reseq r (unat (seq mm x))) = bsum (S ! x))"

definition flight_ok :: "nat \<Rightarrow> byte list list \<Rightarrow> nat \<Rightarrow> nat \<Rightarrow> nat list \<Rightarrow> nat list \<Rightarrow> bool" where
  "flight_ok W S base R js rs \<longleftrightarrow> base \<le> R \<and> R \<le> base + W \<and>
     sorted_wrt (\<lambda>i j. i < j + W) js \<and> (\<forall>j \<in> set js. j < length S \<and> R \<le> j + W \<and> j < base + W) \<and>
     sorted rs \<and> (\<forall>q \<in> set rs. base \<le> q \<and> q \<le> R)"

definition flow :: "nat \<Rightarrow> byte \<Rightarrow> byte list list \<Rightarrow> axcb \<Rightarrow> axcb \<Rightarrow> rxbytes \<Rightarrow> nat \<Rightarrow> nat \<Rightarrow> nat list \<Rightarrow> nat list \<Rightarrow> bool" where
  "flow W mm S s r rx0 base R js rs \<longleftrightarrow> (\<forall>d \<in> set S. d \<noteq> []) \<and> sender_ok W mm S s base \<and>
     receiver_ok W mm S r rx0 base R js \<and> flight_ok W S base R js rs"

lemmas flow_defs = flow_def sender_ok_def receiver_ok_def flight_ok_def

lemma flowD:
  assumes "flow W mm S s r rx0 base R js rs"
  shows "sender_ok W mm S s base" "receiver_ok W mm S r rx0 base R js" "flight_ok W S base R js rs"
  using assms by (simp_all add: flow_def)

lemma sender_length:
  assumes "flow W mm S s r rx0 base R js rs"
  shows "length (cb_txq s) = length S - base" "base \<le> length S"
proof -
  have m: "map content (cb_txq s) = drop base S" using assms by (simp add: flow_def sender_ok_def)
  show "length (cb_txq s) = length S - base" using arg_cong [OF m, of length] by simp
  show "base \<le> length S" using assms by (simp add: flow_def sender_ok_def)
qed

lemma flow_cong_sender:
  "flow W mm S s r rx0 base R js rs \<Longrightarrow> cb_txq s' = cb_txq s \<Longrightarrow> cb_vs s' = cb_vs s \<Longrightarrow> cb_unack s' = cb_unack s \<Longrightarrow>
     flow W mm S s' r rx0 base R js rs"
  by (simp add: flow_def sender_ok_def)

lemma flow_cong_receiver:
  "flow W mm S s r rx0 base R js rs \<Longrightarrow> cb_vr r' = cb_vr r \<Longrightarrow> cb_reseq r' = cb_reseq r \<Longrightarrow> cb_rx r' = cb_rx r \<Longrightarrow>
     flow W mm S s r' rx0 base R js rs"
  by (simp add: flow_def receiver_ok_def)

subsection \<open>The sender moves\<close>

lemma receiver_ok_js:
  assumes "receiver_ok W mm S r rx0 base R js" "base \<le> base'" "\<And>j. j \<in> set js' \<Longrightarrow> j \<in> set js \<or> base \<le> j"
  shows "receiver_ok W mm S r rx0 base' R js'"
proof -
  have st: "stored W mm S base js k slot x \<Longrightarrow> stored W mm S base' js' k slot x" for k slot x
    using assms(2) assms(3) unfolding stored_def by (metis add_le_mono1 less_le_trans)
  show ?thesis using assms(1) unfolding receiver_ok_def by (meson st)
qed

lemma flow_data:
  assumes f: "flow W mm S s r rx0 base R js rs" and j: "base \<le> j" "j < base + W" "j < length S"
  shows "flow W mm S s r rx0 base R (js @ [j]) rs"
proof -
  have "receiver_ok W mm S r rx0 base R (js @ [j])"
    by (rule receiver_ok_js [OF flowD(2) [OF f]]) (use j in auto)
  moreover have "flight_ok W S base R (js @ [j]) rs"
  proof -
    have fl: "flight_ok W S base R js rs" using f by (simp add: flow_def)
    then have "i < j + W" if "i \<in> set js" for i using that j(1) by (auto simp: flight_ok_def)
    then show ?thesis using fl j by (auto simp: flight_ok_def sorted_wrt_append)
  qed
  ultimately show ?thesis using f by (simp add: flow_def)
qed

lemma flow_send_new:
  assumes f: "flow W mm S s r rx0 base R js rs" and g: "good_mask mm" "W \<le> unat mm"
    and u: "unat (cb_unack s) < length (cb_txq s)" "unat (cb_unack s) < W"
    and s': "cb_txq s' = cb_txq s" "cb_vs s' = (cb_vs s + 1) AND mm" "cb_unack s' = cb_unack s + 1"
  shows "flow W mm S s' r rx0 base R (js @ [base + unat (cb_unack s)]) rs" "content (cb_txq s ! unat (cb_unack s)) = S ! (base + unat (cb_unack s))"
    "cb_vs s = seq mm (base + unat (cb_unack s))"
proof -
  have ok: "sender_ok W mm S s base" using f by (simp add: flow_def)
  then have q: "map content (cb_txq s) = drop base S" "base \<le> length S" and vs: "cb_vs s = seq mm (base + unat (cb_unack s))"
    by (simp_all add: sender_ok_def)
  have len: "length (cb_txq s) = length S - base" using arg_cong [OF q(1), of length] by simp
  have "W < 256" using g unat_byte_less [of mm] by simp
  then have un: "unat (cb_unack s + 1) = Suc (unat (cb_unack s))" using u by (simp add: unat_word_ariths)
  show "content (cb_txq s ! unat (cb_unack s)) = S ! (base + unat (cb_unack s))"
    using arg_cong [OF q(1), of "\<lambda>l. l ! unat (cb_unack s)"] u(1) q(2) len by (simp add: add.commute)
  show "cb_vs s = seq mm (base + unat (cb_unack s))" by (rule vs)
  have "sender_ok W mm S s' base"
    using ok u len seq_Suc [OF g(1), of "base + unat (cb_unack s)"] by (simp add: sender_ok_def s' un)
  moreover have "flow W mm S s r rx0 base R (js @ [base + unat (cb_unack s)]) rs"
    using u len by (intro flow_data [OF f]) auto
  ultimately show "flow W mm S s' r rx0 base R (js @ [base + unat (cb_unack s)]) rs" by (simp add: flow_def)
qed

lemma flow_oldest:
  assumes f: "flow W mm S s r rx0 base R js rs" and g: "good_mask mm"
  shows "(cb_vs s - cb_unack s) AND mm = seq mm base"
  using f seq_diff [OF g, of "unat (cb_unack s)" "base + unat (cb_unack s)"] by (simp add: flow_def sender_ok_def)

lemma flow_repeat:
  assumes f: "flow W mm S s r rx0 base R js rs" and W: "0 < W" and q: "cb_txq s \<noteq> []"
  shows "flow W mm S s r rx0 base R (js @ [base]) rs" "content (hd (cb_txq s)) = S ! base" "base < length S"
proof -
  have m: "map content (cb_txq s) = drop base S" using f by (simp add: flow_def sender_ok_def)
  have "drop base S \<noteq> []" using q unfolding m [symmetric] by simp
  then show l: "base < length S" by simp
  have "hd (map content (cb_txq s)) = S ! base" unfolding m using l by (rule hd_drop_conv_nth)
  then show "content (hd (cb_txq s)) = S ! base" using q by (simp add: hd_map)
  show "flow W mm S s r rx0 base R (js @ [base]) rs" by (rule flow_data [OF f]) (use l W in auto)
qed

lemma flow_start_over:
  assumes f: "flow W mm S s r rx0 base R js rs" and g: "good_mask mm"
    and s': "cb_txq s' = cb_txq s" "cb_vs s' = (cb_vs s - cb_unack s) AND mm" "cb_unack s' = 0"
  shows "flow W mm S s' r rx0 base R js rs"
  using f flow_oldest [OF f g] by (simp add: flow_def sender_ok_def s')

lemma flow_ack:
  assumes f: "flow W mm S s r rx0 base R js rs" and g: "good_mask mm"
    and k: "k \<le> unat (cb_unack s)" "k \<le> length (cb_txq s)" "\<forall>i<k. (((cb_vs s - cb_unack s) AND mm) + of_nat i) AND mm \<noteq> seq mm q"
    and q: "base \<le> q" "q \<le> R" "\<forall>p \<in> set rs. q \<le> p"
    and s': "cb_txq s' = drop k (cb_txq s)" "cb_vs s' = cb_vs s" "cb_unack s' = cb_unack s - of_nat k"
  shows "flow W mm S s' r rx0 (base + k) R js rs" "base + k \<le> q"
proof -
  show kq: "base + k \<le> q"
  proof (rule ccontr)
    assume "\<not> base + k \<le> q"
    then have "q - base < k" using q(1) by simp
    then have "(seq mm base + of_nat (q - base)) AND mm \<noteq> seq mm q" using k(3) flow_oldest [OF f g] by simp
    then show False using seq_add [OF g, of base "q - base"] q(1) by simp
  qed
  have "k < 256" using k(1) unat_byte_less [of "cb_unack s"] by simp
  then have "unat (of_nat k :: byte) = k" by (simp add: unat_of_nat)
  then have un: "unat (cb_unack s - of_nat k) = unat (cb_unack s) - k"
    using k(1) unat_sub [of "of_nat k" "cb_unack s"] by (simp add: word_le_nat_alt)
  have ok: "sender_ok W mm S s base" using f by (simp add: flow_def)
  then have "sender_ok W mm S s' (base + k)"
    using k(1) by (auto simp: sender_ok_def s' un drop_map [symmetric] add.commute)
  moreover have "receiver_ok W mm S r rx0 (base + k) R js"
    by (rule receiver_ok_js [OF flowD(2) [OF f]]) auto
  moreover have "flight_ok W S (base + k) R js rs" using f kq q by (fastforce simp: flow_def flight_ok_def)
  ultimately show "flow W mm S s' r rx0 (base + k) R js rs" using f by (simp add: flow_def)
qed

subsection \<open>The receiver moves\<close>

definition slots_ok :: "nat \<Rightarrow> byte \<Rightarrow> byte list list \<Rightarrow> nat \<Rightarrow> nat list \<Rightarrow> nat \<Rightarrow> (nat \<Rightarrow> axreseq) \<Rightarrow> bool" where
  "slots_ok W mm S base js R rs \<longleftrightarrow>
     (\<forall>k \<le> unat mm. rs_bp (rs k) \<noteq> [] \<longrightarrow> (\<exists>x \<ge> R. stored W mm S base js k (rs k) x))"

definition sums_ok :: "nat \<Rightarrow> byte \<Rightarrow> byte list list \<Rightarrow> nat \<Rightarrow> (nat \<Rightarrow> axreseq) \<Rightarrow> bool" where
  "sums_ok W mm S R rs \<longleftrightarrow>
     (\<forall>x < R. R \<le> x + W \<longrightarrow> rs_bp (rs (unat (seq mm x))) = [] \<longrightarrow> rs_sum (rs (unat (seq mm x))) = bsum (S ! x))"

lemma accept_frame_fields:
  "cb_rx (accept_frame ns bp s) = cb_rx s"
  "cb_reseq (accept_frame ns bp s) = cb_reseq s \<or>
     rs_bp (cb_reseq s (unat ns)) = [] \<and> (ns = cb_vr s \<or> byte_sum bp \<noteq> rs_sum (cb_reseq s (unat ns))) \<and>
     cb_reseq (accept_frame ns bp s) = (cb_reseq s)(unat ns := \<lparr>rs_bp = bp, rs_sum = byte_sum bp\<rparr>)"
  by (auto simp: accept_frame_def Let_def)

text \<open>A frame that was handed up before is known by its sum, so what is accepted is new.\<close>

lemma accept_new:
  assumes r: "receiver_ok W mm S r rx0 base R js" and g: "good_mask mm" "W \<le> unat mm" and fl: "base \<le> R" "R \<le> base + W"
    and j: "R \<le> j + W" "j < base + W" "j < length S" "\<forall>i \<in> set js. j < i + W" and bp: "content bp = S ! j" "bp \<noteq> []"
  shows "slots_ok W mm S base js R (cb_reseq (accept_frame (seq mm j) bp r))" "sums_ok W mm S R (cb_reseq (accept_frame (seq mm j) bp r))"
proof -
  let ?rs = "cb_reseq r" and ?rs' = "cb_reseq (accept_frame (seq mm j) bp r)" and ?k = "unat (seq mm j)"
  have old: "slots_ok W mm S base js R ?rs" "sums_ok W mm S R ?rs"
    using r unfolding receiver_ok_def slots_ok_def sums_ok_def by (meson less_imp_le, simp)
  have vr: "cb_vr r = seq mm R" using r by (simp add: receiver_ok_def)
  consider "?rs' = ?rs" | "rs_bp (?rs ?k) = []" "seq mm j = cb_vr r \<or> byte_sum bp \<noteq> rs_sum (?rs ?k)"
      "?rs' = ?rs(?k := \<lparr>rs_bp = bp, rs_sum = byte_sum bp\<rparr>)"
    using accept_frame_fields(2) [of "seq mm j" bp r] by blast
  then have "slots_ok W mm S base js R ?rs' \<and> sums_ok W mm S R ?rs'"
  proof cases
    case 2
    note e = 2(1) and n = 2(2) and new = 2(3)
    have jR: "R \<le> j"
    proof (rule ccontr)
      assume "\<not> R \<le> j"
      then have lt: "j < R" by simp
      then have "byte_sum bp = rs_sum (?rs ?k)" using old(2) j(1) e by (simp add: sums_ok_def byte_sum_content bp)
      then have "seq mm j = seq mm R" using n vr by simp
      then show False using seq_window [OF g(1), of j R] lt j(1) g(2) by simp
    qed
    have "stored W mm S base js ?k \<lparr>rs_bp = bp, rs_sum = byte_sum bp\<rparr> j"
      using j bp by (simp add: stored_def byte_sum_content)
    then have "slots_ok W mm S base js R ?rs'" using old(1) jR by (auto simp: slots_ok_def new)
    moreover have "sums_ok W mm S R ?rs'" using old(2) bp(2) by (auto simp: sums_ok_def new)
    ultimately show "slots_ok W mm S base js R ?rs' \<and> sums_ok W mm S R ?rs'" ..
  qed (use old in simp)
  then show "slots_ok W mm S base js R ?rs'" "sums_ok W mm S R ?rs'" by simp_all
qed

lemma slot_occupant:
  assumes s: "slots_ok W mm S base js R rs" and g: "good_mask mm" "W \<le> unat mm" and fl: "base \<le> R"
    and y: "R \<le> y" "y \<le> R + W" "rs_bp (rs (unat (seq mm y))) \<noteq> []"
  shows "stored W mm S base js (unat (seq mm y)) (rs (unat (seq mm y))) y"
proof -
  obtain x where x: "R \<le> x" "stored W mm S base js (unat (seq mm y)) (rs (unat (seq mm y))) x"
    using s y(3) seq_less [OF g(1), of y] by (auto simp: slots_ok_def)
  have "seq mm x = seq mm y" "x < base + W" using x(2) by (simp_all add: stored_def word_unat_eq_iff)
  then have "x = y" using seq_window [OF g(1), of x y] seq_window [OF g(1), of y x] x(1) y(1,2) g(2) fl
    by (cases "x \<le> y") auto
  then show ?thesis using x by simp
qed

lemma vr_loop_run:
  assumes "good_mask (cb_mmask s)"
  shows "m < n \<Longrightarrow> cb_vr s = seq (cb_mmask s) R \<Longrightarrow> \<forall>i<m. rs_bp (cb_reseq s (unat (seq (cb_mmask s) (R + i)))) \<noteq> [] \<Longrightarrow>
     rs_bp (cb_reseq s (unat (seq (cb_mmask s) (R + m)))) = [] \<Longrightarrow>
     cb_vr (vr_loop n s) = seq (cb_mmask s) (R + m) \<and> cb_reseq (vr_loop n s) = cb_reseq s \<and> cb_rx (vr_loop n s) = cb_rx s"
  using assms
proof (induction m arbitrary: n s R)
  case 0
  then show ?case by (cases n) auto
next
  case (Suc m)
  obtain n' where n: "n = Suc n'" using Suc.prems(1) by (cases n) auto
  let ?s = "s\<lparr>cb_vr := (cb_vr s + 1) AND cb_mmask s, cb_rejsent := False\<rparr>"
  have ne: "rs_bp (cb_reseq s (unat (cb_vr s))) \<noteq> []" using Suc.prems(2,3) by (metis add_0_right zero_less_Suc)
  have "cb_vr ?s = seq (cb_mmask ?s) (Suc R)" using Suc.prems(2) seq_Suc [OF Suc.prems(5)] by simp
  moreover have "\<forall>i<m. rs_bp (cb_reseq ?s (unat (seq (cb_mmask ?s) (Suc R + i)))) \<noteq> []"
    using Suc.prems(3) [rule_format, of "Suc i" for i] by simp
  ultimately show ?case using Suc.IH [of n' ?s "Suc R"] Suc.prems ne n by simp
qed

lemma deliver_run:
  "good_mask mm \<Longrightarrow> cb_mmask s = mm \<Longrightarrow> m < n \<Longrightarrow> m \<le> unat mm \<Longrightarrow>
     \<forall>i<m. rs_bp (cb_reseq s (unat (seq mm (R + i)))) \<noteq> [] \<and> content (rs_bp (cb_reseq s (unat (seq mm (R + i))))) = S ! (R + i) \<Longrightarrow>
     rs_bp (cb_reseq s (unat (seq mm (R + m)))) = [] \<Longrightarrow>
     cb_reseq (deliver_loop n (seq mm R) s) =
       (\<lambda>k. if \<exists>i<m. k = unat (seq mm (R + i)) then (cb_reseq s k)\<lparr>rs_bp := []\<rparr> else cb_reseq s k) \<and>
     rx_bytes (cb_rx (deliver_loop n (seq mm R) s)) = fold procbytes (map (\<lambda>i. S ! (R + i)) [0..<m]) (rx_bytes (cb_rx s))"
proof (induction m arbitrary: n s R)
  case 0
  then show ?case by (cases n) auto
next
  case (Suc m)
  note g = Suc.prems(1)
  obtain n' where n: "n = Suc n'" "m < n'" using Suc.prems(3) by (cases n) auto
  let ?k = "unat (seq mm R)"
  let ?s = "s\<lparr>cb_reseq := (cb_reseq s)(?k := (cb_reseq s ?k)\<lparr>rs_bp := []\<rparr>), cb_rx := procdata (rs_bp (cb_reseq s ?k)) (cb_rx s)\<rparr>"
  have first: "rs_bp (cb_reseq s ?k) \<noteq> []" "content (rs_bp (cb_reseq s ?k)) = S ! R"
    using Suc.prems(5) [rule_format, of 0] by simp_all
  have other: "unat (seq mm (Suc R + i)) \<noteq> ?k" if "i \<le> m" for i
  proof
    assume "unat (seq mm (Suc R + i)) = ?k"
    then have "seq mm R = seq mm (Suc R + i)" by (simp add: word_unat_eq_iff)
    then show False using seq_window [OF g, of R "Suc R + i"] that Suc.prems(4) by simp
  qed
  have step: "deliver_loop n (seq mm R) s = deliver_loop n' (seq mm (Suc R)) ?s"
    using first Suc.prems(2) seq_Suc [OF g] by (simp add: n Let_def)
  have ih: "cb_reseq (deliver_loop n' (seq mm (Suc R)) ?s) =
       (\<lambda>k. if \<exists>i<m. k = unat (seq mm (Suc R + i)) then (cb_reseq ?s k)\<lparr>rs_bp := []\<rparr> else cb_reseq ?s k) \<and>
     rx_bytes (cb_rx (deliver_loop n' (seq mm (Suc R)) ?s)) = fold procbytes (map (\<lambda>i. S ! (Suc R + i)) [0..<m]) (rx_bytes (cb_rx ?s))"
  proof (rule Suc.IH [OF g])
    show "\<forall>i<m. rs_bp (cb_reseq ?s (unat (seq mm (Suc R + i)))) \<noteq> [] \<and> content (rs_bp (cb_reseq ?s (unat (seq mm (Suc R + i))))) = S ! (Suc R + i)"
    proof (intro allI impI)
      fix i assume i: "i < m"
      then show "rs_bp (cb_reseq ?s (unat (seq mm (Suc R + i)))) \<noteq> [] \<and> content (rs_bp (cb_reseq ?s (unat (seq mm (Suc R + i))))) = S ! (Suc R + i)"
        using Suc.prems(5) [rule_format, of "Suc i"] other [of i] by simp
    qed
    show "rs_bp (cb_reseq ?s (unat (seq mm (Suc R + m)))) = []" using Suc.prems(6) other [of m] by simp
  qed (use Suc.prems n in simp_all)
  have ex: "(\<exists>i<Suc m. k = unat (seq mm (R + i))) \<longleftrightarrow> k = ?k \<or> (\<exists>i<m. k = unat (seq mm (Suc R + i)))" for k
    by (auto simp: less_Suc_eq_0_disj)
  have "rx_bytes (cb_rx ?s) = procbytes (S ! R) (rx_bytes (cb_rx s))" using first by (simp add: procdata_refines)
  then show ?case using ih unfolding step ex
    by (auto simp: fun_eq_iff map_upt_Suc simp del: upt_Suc)
qed

lemma take_run: "R + m \<le> length S \<Longrightarrow> take (R + m) S = take R S @ map (\<lambda>i. S ! (R + i)) [0..<m]"
proof -
  assume "R + m \<le> length S"
  then have "map (\<lambda>i. S ! (R + i)) [0..<m] = take m (drop R S)" by (intro nth_equalityI) auto
  then show ?thesis by (simp add: take_add)
qed

lemma receive_run:
  assumes s: "slots_ok W mm S base js R (cb_reseq s)" and u: "sums_ok W mm S R (cb_reseq s)" and g: "good_mask mm" "W \<le> unat mm"
    and fl: "base \<le> R" "R \<le> base + W" "R \<le> length S" "\<forall>j \<in> set js. R \<le> j + W"
    and c: "cb_mmask s = mm" "cb_vr s = seq mm R" "rx_bytes (cb_rx s) = fold procbytes (take R S) rx0"
  shows "\<exists>R' \<ge> R. R' \<le> base + W \<and> (\<forall>j \<in> set js. R' \<le> j + W) \<and>
     receiver_ok W mm S (deliver_loop 256 (seq mm R) (vr_loop 256 s)) rx0 base R' js"
proof -
  let ?slot = "\<lambda>x. cb_reseq s (unat (seq mm x))"
  note occ = slot_occupant [OF s g fl(1)]
  define m where "m = (LEAST i. rs_bp (?slot (R + i)) = [])"
  have "rs_bp (?slot (R + W)) = []" using occ [of "R + W"] fl(1) by (auto simp: stored_def)
  then have me: "rs_bp (?slot (R + m)) = []" and mW: "m \<le> W" unfolding m_def by (rule LeastI, rule Least_le)
  have mne: "rs_bp (?slot (R + i)) \<noteq> []" if "i < m" for i using not_less_Least that unfolding m_def by blast
  have st: "stored W mm S base js (unat (seq mm (R + i))) (?slot (R + i)) (R + i)" if "i < m" for i
    using occ [of "R + i"] mne [OF that] that mW by simp
  have m256: "m < 256" "m \<le> unat mm" using mW g(2) unat_byte_less [of mm] by linarith+
  have last: "R + m \<le> base + W" "R + m \<le> length S" "\<forall>j \<in> set js. R + m \<le> j + W"
    using st [of "m - 1"] fl by (cases m; auto simp: stored_def)+
  define v where "v = vr_loop 256 s"
  have v: "cb_vr v = seq mm (R + m)" "cb_reseq v = cb_reseq s" "cb_rx v = cb_rx s" "cb_mmask v = mm"
    using vr_loop_run [of s m 256 R] g(1) c m256 mne me by (simp_all add: v_def)
  define d where "d = deliver_loop 256 (seq mm R) v"
  have rd: "cb_reseq d = (\<lambda>k. if \<exists>i<m. k = unat (seq mm (R + i)) then (cb_reseq s k)\<lparr>rs_bp := []\<rparr> else cb_reseq s k)"
    and xd: "rx_bytes (cb_rx d) = fold procbytes (map (\<lambda>i. S ! (R + i)) [0..<m]) (rx_bytes (cb_rx s))"
  proof -
    have "cb_reseq d = (\<lambda>k. if \<exists>i<m. k = unat (seq mm (R + i)) then (cb_reseq v k)\<lparr>rs_bp := []\<rparr> else cb_reseq v k) \<and>
       rx_bytes (cb_rx d) = fold procbytes (map (\<lambda>i. S ! (R + i)) [0..<m]) (rx_bytes (cb_rx v))"
      unfolding d_def by (rule deliver_run [OF g(1) v(4) m256]) (use st mne me v in \<open>auto simp: stored_def\<close>)
    then show "cb_reseq d = (\<lambda>k. if \<exists>i<m. k = unat (seq mm (R + i)) then (cb_reseq s k)\<lparr>rs_bp := []\<rparr> else cb_reseq s k)"
      "rx_bytes (cb_rx d) = fold procbytes (map (\<lambda>i. S ! (R + i)) [0..<m]) (rx_bytes (cb_rx s))"
      unfolding v(2,3) by blast+
  qed
  have vd: "cb_vr d = seq mm (R + m)" using v by (simp add: d_def)
  have xd': "rx_bytes (cb_rx d) = fold procbytes (take (R + m) S) rx0"
    unfolding xd c(3) take_run [OF last(2)] by simp
  have "receiver_ok W mm S d rx0 base (R + m) js"
    unfolding receiver_ok_def
  proof (intro conjI allI impI)
    fix k assume k: "k \<le> unat mm" "rs_bp (cb_reseq d k) \<noteq> []"
    then have sk: "cb_reseq d k = cb_reseq s k" and nk: "\<not> (\<exists>i<m. k = unat (seq mm (R + i)))"
      unfolding rd by (auto split: if_splits)
    obtain x where x: "R \<le> x" "stored W mm S base js k (cb_reseq s k) x" using s k sk by (auto simp: slots_ok_def)
    have kx: "k = unat (seq mm x)" using x(2) by (simp add: stored_def)
    have "rs_bp (cb_reseq s k) \<noteq> []" using k(2) sk by simp
    then have "x \<noteq> R + m" using me kx by auto
    moreover have "\<not> x < R + m" using nk x(1) kx by (metis add_diff_inverse_nat less_diff_conv2 not_less add.commute)
    ultimately show "\<exists>x>R + m. stored W mm S base js k (cb_reseq d k) x" using x unfolding sk by (intro exI [of _ x]) auto
  next
    fix x assume x: "x < R + m" "R + m \<le> x + W" "rs_bp (cb_reseq d (unat (seq mm x))) = []"
    let ?k = "unat (seq mm x)"
    have sum: "rs_sum (cb_reseq d ?k) = rs_sum (cb_reseq s ?k)" unfolding rd by simp
    show "rs_sum (cb_reseq d ?k) = bsum (S ! x)"
    proof (cases "x < R")
      case False
      then have "R + (x - R) = x" "x - R < m" using x(1) by simp_all
      then show ?thesis using st [of "x - R"] unfolding sum by (simp add: stored_def)
    next
      case True
      have "?k \<noteq> unat (seq mm (R + i))" if "i < m" for i
      proof
        assume "?k = unat (seq mm (R + i))"
        then have "seq mm x = seq mm (R + i)" by (simp add: word_unat_eq_iff)
        then show False using seq_window [OF g(1), of x "R + i"] True that x(2) g(2) by simp
      qed
      then have "rs_bp (cb_reseq s ?k) = []" using x(3) unfolding rd by (auto split: if_splits)
      then show ?thesis using u True x(2) unfolding sum by (simp add: sums_ok_def)
    qed
  qed (use vd xd' last in simp_all)
  then show ?thesis using last unfolding d_def v_def by (intro exI [of _ "R + m"]) auto
qed

lemma flow_receive:
  assumes f: "flow W mm S s r rx0 base R js rs" and g: "good_mask mm" "W \<le> unat mm" and mm: "cb_mmask r = mm"
    and j: "j \<in> set js" "\<forall>i \<in> set js. j < i + W" and bp: "content bp = S ! j"
  shows "\<exists>R' \<ge> R. flow W mm S s (receive (seq mm j) bp r) rx0 base R' js rs"
proof -
  note ok = flowD(2) [OF f] and fl = flowD(3) [OF f]
  have jf: "R \<le> j + W" "j < base + W" "j < length S" using fl j(1) by (auto simp: flight_ok_def)
  have "S ! j \<noteq> []" using f jf(3) by (simp add: flow_def)
  then have ne: "bp \<noteq> []" using bp by auto
  have RB: "base \<le> R" "R \<le> base + W" "R \<le> length S" "\<forall>i \<in> set js. R \<le> i + W"
    using ok fl by (auto simp: flight_ok_def receiver_ok_def)
  let ?a = "accept_frame (seq mm j) bp r"
  have vr: "cb_vr r = seq mm R" "cb_vr ?a = seq mm R" "rx_bytes (cb_rx ?a) = fold procbytes (take R S) rx0"
    using ok by (simp_all add: receiver_ok_def accept_frame_fields)
  obtain R' where R': "R' \<ge> R" "R' \<le> base + W" "\<forall>i \<in> set js. R' \<le> i + W"
    "receiver_ok W mm S (deliver_loop 256 (seq mm R) (vr_loop 256 ?a)) rx0 base R' js"
    using receive_run [OF accept_new [OF ok g RB(1,2) jf j(2) bp ne] g RB, of rx0] vr mm by auto
  have rc: "receive (seq mm j) bp r = deliver_loop 256 (seq mm R) (vr_loop 256 ?a)" using vr by (simp add: receive_def)
  have "flight_ok W S base R' js rs" using fl R' by (fastforce simp: flight_ok_def)
  then show ?thesis using f R' unfolding rc flow_def by blast
qed

subsection \<open>The line moves\<close>

lemma flow_emit: "flow W mm S s r rx0 base R js rs \<Longrightarrow> flow W mm S s r rx0 base R js (rs @ [R])"
  by (auto simp: flow_def flight_ok_def sorted_append)

lemma flow_lose_data:
  assumes f: "flow W mm S s r rx0 base R (us @ j # vs) rs"
  shows "flow W mm S s r rx0 base R (us @ vs) rs"
proof -
  have "receiver_ok W mm S r rx0 base R (us @ vs)" by (rule receiver_ok_js [OF flowD(2) [OF f]]) auto
  moreover have "flight_ok W S base R (us @ vs) rs" using flowD(3) [OF f] by (auto simp: flight_ok_def sorted_wrt_append)
  ultimately show ?thesis using f by (simp add: flow_def)
qed

lemma flow_lose_ack: "flow W mm S s r rx0 base R js (us @ q # vs) \<Longrightarrow> flow W mm S s r rx0 base R js (us @ vs)"
  by (auto simp: flow_def flight_ok_def sorted_append)

lemma flow_offer:
  assumes f: "flow W mm S s r rx0 base R js rs" and q: "\<forall>p \<in> set q. content p \<noteq> []"
    and s': "cb_txq s' = cb_txq s @ q" "cb_vs s' = cb_vs s" "cb_unack s' = cb_unack s"
  shows "flow W mm (S @ map content q) s' r rx0 base R js rs"
proof -
  have st: "stored W mm S base js k slot x \<Longrightarrow> stored W mm (S @ map content q) base js k slot x" for k slot x
    by (auto simp: stored_def nth_append)
  have "sender_ok W mm (S @ map content q) s' base" using flowD(1) [OF f] by (auto simp: sender_ok_def s')
  moreover have "receiver_ok W mm (S @ map content q) r rx0 base R js"
  proof -
    have R: "R \<le> length S" using flowD(2) [OF f] by (simp add: receiver_ok_def)
    then have "x < R \<Longrightarrow> (S @ map content q) ! x = S ! x" for x by (simp add: nth_append)
    then show ?thesis using flowD(2) [OF f] R unfolding receiver_ok_def by (simp, meson st)
  qed
  moreover have "flight_ok W (S @ map content q) base R js rs" using flowD(3) [OF f] by (auto simp: flight_ok_def)
  ultimately show ?thesis using f q by (auto simp: flow_def)
qed

section \<open>Both directions\<close>

text \<open>What a frame in flight says: an acknowledgement and perhaps a payload, both by their index.\<close>

definition says :: "byte \<Rightarrow> byte list list \<Rightarrow> nat option \<times> nat \<Rightarrow> lapb_cmdrsp \<times> chain \<Rightarrow> bool" where
  "says mm S p f = (case fst p of
       None \<Rightarrow> s_frame mm (seq mm (snd p)) f
     | Some j \<Rightarrow> j < length S \<and> i_frame mm (seq mm j) (seq mm (snd p)) (S ! j) f)"

definition datas :: "(nat option \<times> nat) list \<Rightarrow> nat list" where
  "datas xs = List.map_filter fst xs"

lemma datas_simps [simp]: "datas [] = []" "datas ((None, r) # xs) = datas xs" "datas ((Some j, r) # xs) = j # datas xs"
  "datas (xs @ ys) = datas xs @ datas ys"
  by (simp_all add: datas_def List.map_filter_def)

definition accepts :: "nat \<Rightarrow> byte \<Rightarrow> byte list list \<Rightarrow> nat list \<Rightarrow> (byte \<times> chain) option \<Rightarrow> bool" where
  "accepts W mm S js dat \<longleftrightarrow> (\<forall>ns bp. dat = Some (ns, bp) \<longrightarrow>
     (\<exists>j. ns = seq mm j \<and> content bp = S ! j \<and> j \<in> set js \<and> (\<forall>i \<in> set js. j < i + W)))"

lemma micro_linked:
  assumes out: "flow W mm SA a b rxB bA rB (datas xs) (map snd ys)" and inn: "flow W mm SB b a rxA bB rA (datas ys) (map snd xs)"
    and g: "good_mask mm" "W \<le> unat mm" "0 < W" and mm: "cb_mmask a = mm" and m: "micro W (seq mm r) dat a a'"
    and r: "bA \<le> r" "r \<le> rB" "\<forall>p \<in> set (map snd ys). r \<le> p" and d: "accepts W mm SB (datas ys) dat"
  shows "\<exists>zs fs bA' rA'. sentfr a' = sentfr a @ fs \<and> list_all2 (says mm SA) zs fs \<and> cb_mmask a' = mm \<and> bA' \<le> r \<and>
     flow W mm SA a' b rxB bA' rB (datas (xs @ zs)) (map snd ys) \<and> flow W mm SB b a' rxA bB rA' (datas ys) (map snd (xs @ zs))"
proof -
  have vr: "cb_vr a = seq mm rA" using flowD(2) [OF inn] by (simp add: receiver_ok_def)
  have ex: ?thesis if "sentfr a' = sentfr a @ fs" "list_all2 (says mm SA) zs fs" "cb_mmask a' = mm" "bA' \<le> r"
     "flow W mm SA a' b rxB bA' rB (datas (xs @ zs)) (map snd ys)" "flow W mm SB b a' rxA bB rA' (datas ys) (map snd (xs @ zs))"
    for zs fs bA' rA' using that by blast
  show ?thesis
    using m
  proof cases
    case same
    note c = core_eqD [OF same(1)]
    show ?thesis
      by (rule ex [of "[]" "[]" bA rA]) (use same(2) r(1) mm c flow_cong_sender [OF out] flow_cong_receiver [OF inn] in auto)
  next
    case (supervise f)
    note c = core_eqD [OF supervise(1)]
    have "says mm SA (None, rA) f" using supervise(3) vr mm by (simp add: says_def)
    then show ?thesis
      by (intro ex [of "[f]" "[(None, rA)]" bA rA])
        (use supervise(2) r(1) mm c flow_cong_sender [OF out] flow_cong_receiver [OF flow_emit [OF inn]] in auto)
  next
    case (send_new f)
    have c: "cb_txq a' = cb_txq a" "cb_vs a' = (cb_vs a + 1) AND mm" "cb_unack a' = cb_unack a + 1" "cb_vr a' = cb_vr a"
      "cb_reseq a' = cb_reseq a" "cb_rx a' = cb_rx a" "cb_mmask a' = mm" using send_new(3) mm by (simp_all add: core_def)
    let ?j = "bA + unat (cb_unack a)"
    note n = flow_send_new [OF out g(1,2) send_new(1,2) c(1-3)]
    have "?j < length SA" using send_new(1) sender_length [OF out] by linarith
    then have "says mm SA (Some ?j, rA) f" using send_new(5) n(2,3) vr mm by (simp add: says_def)
    then show ?thesis
      by (intro ex [of "[f]" "[(Some ?j, rA)]" bA rA])
        (use send_new(4) r(1) c n(1) flow_cong_receiver [OF flow_emit [OF inn], of a'] in auto)
  next
    case (repeat_oldest f)
    note c = core_eqD [OF repeat_oldest(2)]
    note n = flow_repeat [OF out g(3) repeat_oldest(1)]
    have "says mm SA (Some bA, rA) f" using repeat_oldest(4) n(2,3) vr mm flow_oldest [OF out g(1)] by (simp add: says_def)
    then show ?thesis
      by (intro ex [of "[f]" "[(Some bA, rA)]" bA rA])
        (use repeat_oldest(3) r(1) mm c flow_cong_sender [OF n(1), of a'] flow_cong_receiver [OF flow_emit [OF inn], of a'] in auto)
  next
    case start_over
    have c: "cb_txq a' = cb_txq a" "cb_vs a' = (cb_vs a - cb_unack a) AND mm" "cb_unack a' = 0" "cb_vr a' = cb_vr a"
      "cb_reseq a' = cb_reseq a" "cb_rx a' = cb_rx a" "cb_mmask a' = mm" using start_over(1) mm by (simp_all add: core_def)
    show ?thesis
      by (rule ex [of "[]" "[]" bA rA])
        (use start_over(2) r(1) c flow_start_over [OF out g(1) c(1-3)] flow_cong_receiver [OF inn, of a'] in auto)
  next
    case acknowledge
    then obtain k where k: "k \<le> unat (cb_unack a)" "k \<le> length (cb_txq a)"
        "\<forall>i < k. (((cb_vs a - cb_unack a) AND mm) + of_nat i) AND mm \<noteq> seq mm r"
        "core a' = (drop k (cb_txq a), cb_vs a, cb_unack a - of_nat k, cb_vr a, cb_reseq a, cb_rx a, mm)"
      unfolding takes_ack_def mm by blast
    have c: "cb_txq a' = drop k (cb_txq a)" "cb_vs a' = cb_vs a" "cb_unack a' = cb_unack a - of_nat k" "cb_vr a' = cb_vr a"
      "cb_reseq a' = cb_reseq a" "cb_rx a' = cb_rx a" "cb_mmask a' = mm" using k(4) by (simp_all add: core_def)
    note n = flow_ack [OF out g(1) k(1-3) r c(1-3)]
    show ?thesis
      by (rule ex [of "[]" "[]" "bA + k" rA]) (use acknowledge(2) c n flow_cong_receiver [OF inn, of a'] in auto)
  next
    case (receive_data ns bp)
    obtain j where j: "ns = seq mm j" "content bp = SB ! j" "j \<in> set (datas ys)" "\<forall>i \<in> set (datas ys). j < i + W"
      using d receive_data(1) by (auto simp: accepts_def)
    obtain R' where R': "R' \<ge> rA" "flow W mm SB b (receive (seq mm j) bp a) rxA bB R' (datas ys) (map snd xs)"
      using flow_receive [OF inn g(1,2) mm j(3,4,2)] by blast
    note c = core_eqD [OF receive_data(2)]
    have "cb_txq (vr_loop n s) = cb_txq s \<and> cb_vs (vr_loop n s) = cb_vs s \<and> cb_unack (vr_loop n s) = cb_unack s" for n s
      by (induction n s rule: vr_loop.induct) auto
    moreover have "cb_txq (deliver_loop n v s) = cb_txq s \<and> cb_vs (deliver_loop n v s) = cb_vs s \<and> cb_unack (deliver_loop n v s) = cb_unack s" for n v s
      by (induction n v s rule: deliver_loop.induct) (auto simp: Let_def)
    ultimately have t: "cb_txq a' = cb_txq a" "cb_vs a' = cb_vs a" "cb_unack a' = cb_unack a" "cb_mmask a' = mm"
      using c mm by (auto simp: receive_def accept_frame_def Let_def)
    show ?thesis
      by (rule ex [of "[]" "[]" bA R'])
        (use receive_data(3) r(1) t flow_cong_sender [OF out, of a'] flow_cong_receiver [OF R'(2), of a'] c j(1) in auto)
  qed
qed

lemma steps_linked:
  assumes g: "good_mask mm" "W \<le> unat mm" "0 < W" and r: "r \<le> rB" "\<forall>p \<in> set (map snd ys). r \<le> p"
    and d: "accepts W mm SB (datas ys) dat" and st: "steps W (seq mm r) dat a a'"
    and a: "cb_mmask a = mm" "bA \<le> r" "flow W mm SA a b rxB bA rB (datas xs) (map snd ys)" "flow W mm SB b a rxA bB rA (datas ys) (map snd xs)"
  shows "\<exists>zs fs bA' rA'. sentfr a' = sentfr a @ fs \<and> list_all2 (says mm SA) zs fs \<and>
     flow W mm SA a' b rxB bA' rB (datas (xs @ zs)) (map snd ys) \<and> flow W mm SB b a' rxA bB rA' (datas ys) (map snd (xs @ zs))"
proof -
  have "(micro W (seq mm r) dat)\<^sup>*\<^sup>* a a'" using st by (simp add: steps_def)
  then have "\<exists>zs fs bA' rA'. sentfr a' = sentfr a @ fs \<and> list_all2 (says mm SA) zs fs \<and> cb_mmask a' = mm \<and> bA' \<le> r \<and>
     flow W mm SA a' b rxB bA' rB (datas (xs @ zs)) (map snd ys) \<and> flow W mm SB b a' rxA bB rA' (datas ys) (map snd (xs @ zs))"
  proof (induction rule: rtranclp_induct)
    case base
    then show ?case using a by (intro exI [of _ "[]"] exI [of _ bA] exI [of _ rA]) simp
  next
    case (step s t)
    obtain zs fs bA1 rA1 where 1: "sentfr s = sentfr a @ fs" "list_all2 (says mm SA) zs fs" "cb_mmask s = mm" "bA1 \<le> r"
      "flow W mm SA s b rxB bA1 rB (datas (xs @ zs)) (map snd ys)" "flow W mm SB b s rxA bB rA1 (datas ys) (map snd (xs @ zs))"
      using step.IH by blast
    obtain zs2 fs2 bA2 rA2 where 2: "sentfr t = sentfr s @ fs2" "list_all2 (says mm SA) zs2 fs2" "cb_mmask t = mm" "bA2 \<le> r"
      "flow W mm SA t b rxB bA2 rB (datas ((xs @ zs) @ zs2)) (map snd ys)" "flow W mm SB b t rxA bB rA2 (datas ys) (map snd ((xs @ zs) @ zs2))"
      using micro_linked [OF 1(5,6) g 1(3) step.hyps(2) 1(4) r d] by blast
    show ?case
      using 1(1) 2 list_all2_appendI [OF 1(2) 2(2)]
      by (intro exI [of _ "zs @ zs2"] exI [of _ "fs @ fs2"] exI [of _ bA2] exI [of _ rA2]) simp
  qed
  then show ?thesis by blast
qed

section \<open>The link\<close>

text \<open>Two stations, the frames under way in each direction, and the payloads each station was given to send.\<close>

record link =
  la :: axcb
  lb :: axcb
  lab :: "(lapb_cmdrsp \<times> chain) list"
  lba :: "(lapb_cmdrsp \<times> chain) list"
  lsa :: "byte list list"
  lsb :: "byte list list"

definition swap :: "link \<Rightarrow> link" where
  "swap L = \<lparr>la = lb L, lb = la L, lab = lba L, lba = lab L, lsa = lsb L, lsb = lsa L\<rparr>"

lemma swap_swap [simp]: "swap (swap L) = L"
  by (simp add: swap_def)

text \<open>What a station does of its own accord; the list is what it was given to send.\<close>

inductive acts :: "nat \<Rightarrow> axcb \<Rightarrow> axcb \<Rightarrow> byte list list \<Rightarrow> bool" for W where
  t1: "works W env s \<Longrightarrow> acts W s (recover env s) []"
| t3: "works W env s \<Longrightarrow> acts W s (pollthem env s) []"
| t2: "works W env s \<Longrightarrow> acts W s (ax_t2_timeout env s) []"
| transmit: "works W env s \<Longrightarrow> acts W s (lapb_output env s) []"
| send: "send_frames env segs pid bpp s = Some q \<Longrightarrow> works W env (s\<lparr>cb_txq := cb_txq s @ q\<rparr>) \<Longrightarrow>
     send_ax25 env blocked segs pid bpp s = Some (s', True) \<Longrightarrow> acts W s s' (map content q)"

definition new_frames :: "axcb \<Rightarrow> axcb \<Rightarrow> (lapb_cmdrsp \<times> chain) list" where
  "new_frames s s' = drop (length (sentfr s)) (sentfr s')"

inductive side_step :: "nat \<Rightarrow> link \<Rightarrow> link \<Rightarrow> bool" for W where
  acts: "acts W (la L) a' ds \<Longrightarrow> up a' \<Longrightarrow>
     side_step W L (L\<lparr>la := a', lab := lab L @ new_frames (la L) a', lsa := lsa L @ ds\<rparr>)"
| hears: "lba L = (cr, bpp) # rest \<Longrightarrow> works W env (la L) \<Longrightarrow> a' = lapb_input env cr bpp (la L) \<Longrightarrow> up a' \<Longrightarrow>
     side_step W L (L\<lparr>la := a', lba := rest, lab := lab L @ new_frames (la L) a'\<rparr>)"
| loses: "lba L = us @ f # vs \<Longrightarrow> side_step W L (L\<lparr>lba := us @ vs\<rparr>)"

inductive link_step :: "nat \<Rightarrow> link \<Rightarrow> link \<Rightarrow> bool" for W where
  A: "side_step W L L' \<Longrightarrow> link_step W L L'"
| B: "side_step W (swap L) (swap L') \<Longrightarrow> link_step W L L'"

definition station_ok :: "nat \<Rightarrow> byte \<Rightarrow> axcb \<Rightarrow> bool" where
  "station_ok W mm s \<longleftrightarrow> cb_mmask s = mm \<and> cb_maxframe s \<le> int W \<and> up s"

definition link_inv :: "nat \<Rightarrow> byte \<Rightarrow> rxbytes \<Rightarrow> rxbytes \<Rightarrow> link \<Rightarrow> bool" where
  "link_inv W mm rxA rxB L \<longleftrightarrow> station_ok W mm (la L) \<and> station_ok W mm (lb L) \<and>
     (\<exists>xs ys bA rB bB rA. list_all2 (says mm (lsa L)) xs (lab L) \<and> list_all2 (says mm (lsb L)) ys (lba L) \<and>
        flow W mm (lsa L) (la L) (lb L) rxB bA rB (datas xs) (map snd ys) \<and>
        flow W mm (lsb L) (lb L) (la L) rxA bB rA (datas ys) (map snd xs))"

lemma link_invI:
  assumes "station_ok W mm (la L)" "station_ok W mm (lb L)" "list_all2 (says mm (lsa L)) xs (lab L)"
    "list_all2 (says mm (lsb L)) ys (lba L)" "flow W mm (lsa L) (la L) (lb L) rxB bA rB (datas xs) (map snd ys)"
    "flow W mm (lsb L) (lb L) (la L) rxA bB rA (datas ys) (map snd xs)"
  shows "link_inv W mm rxA rxB L"
  using assms unfolding link_inv_def by blast

lemma link_inv_swap: "link_inv W mm rxA rxB (swap L) \<longleftrightarrow> link_inv W mm rxB rxA L"
  unfolding link_inv_def swap_def by (simp, blast)

lemma says_offer: "list_all2 (says mm S) xs fs \<Longrightarrow> list_all2 (says mm (S @ ds)) xs fs"
  by (erule list_all2_mono) (auto simp: says_def nth_append split: option.splits)

lemma flow_rs: "flow W mm S s r rx0 base R js rs \<Longrightarrow> base \<le> R \<and> (\<forall>q \<in> set rs. base \<le> q \<and> q \<le> R) \<and> sorted rs"
  by (simp add: flow_def flight_ok_def)

lemma steps_link:
  assumes g: "good_mask mm" "W \<le> unat mm" "0 < W"
    and fl: "flow W mm SA a b rxB bA rB (datas xs) (map snd ys)" "flow W mm SB b a rxA bB rA (datas ys) (map snd xs)"
    and a: "cb_mmask a = mm" and st: "\<And>nr dat. steps W nr dat a a'"
  shows "\<exists>zs bA' rA'. list_all2 (says mm SA) zs (new_frames a a') \<and>
     flow W mm SA a' b rxB bA' rB (datas (xs @ zs)) (map snd ys) \<and> flow W mm SB b a' rxA bB rA' (datas ys) (map snd (xs @ zs))"
proof -
  have "\<exists>zs fs bA' rA'. sentfr a' = sentfr a @ fs \<and> list_all2 (says mm SA) zs fs \<and>
     flow W mm SA a' b rxB bA' rB (datas (xs @ zs)) (map snd ys) \<and> flow W mm SB b a' rxA bB rA' (datas ys) (map snd (xs @ zs))"
    using flow_rs [OF fl(1)]
    by (intro steps_linked [OF g _ _ _ st [of "seq mm bA" None] a _ fl]) (auto simp: accepts_def)
  then show ?thesis unfolding new_frames_def by auto
qed

lemma acts_inv:
  assumes g: "good_mask mm" "W \<le> unat mm" "0 < W" and act: "acts W a a' ds" and up: "up a'" and ok: "station_ok W mm a"
    and fl: "flow W mm SA a b rxB bA rB (datas xs) (map snd ys)" "flow W mm SB b a rxA bB rA (datas ys) (map snd xs)"
  shows "station_ok W mm a' \<and> (\<exists>zs bA' rA'. list_all2 (says mm (SA @ ds)) zs (new_frames a a') \<and>
     flow W mm (SA @ ds) a' b rxB bA' rB (datas (xs @ zs)) (map snd ys) \<and> flow W mm SB b a' rxA bB rA' (datas ys) (map snd (xs @ zs)))"
proof -
  have a: "cb_mmask a = mm" "cb_maxframe a \<le> int W" "up a" using ok by (simp_all add: station_ok_def)
  have plain: ?thesis if st: "\<And>nr dat. steps W nr dat a a'" and "ds = []"
  proof -
    have "station_ok W mm a'" using steps_mmask [OF st] steps_maxframe [OF st] a up by (simp add: station_ok_def)
    then show ?thesis using steps_link [OF g fl a(1) st] \<open>ds = []\<close> by simp
  qed
  show ?thesis
    using act
  proof cases
    case (t1 env)
    then show ?thesis using steps_recover [OF t1(3) a(2,3)] up by (intro plain) auto
  next
    case (t3 env)
    then show ?thesis using steps_pollthem [OF t3(3) a(2,3)] by (intro plain) auto
  next
    case (t2 env)
    then show ?thesis using steps_t2 [OF t2(3) a(2)] by (intro plain) auto
  next
    case (transmit env)
    then show ?thesis using steps_lapb_output [OF steps_refl [OF a(2)] transmit(3)] by (intro plain) auto
  next
    case (send env segs pid bpp q blocked)
    let ?s = "a\<lparr>cb_txq := cb_txq a @ q\<rparr>"
    have ne: "\<forall>p \<in> set q. content p \<noteq> []" using send(3) by (auto simp: works_def copies_ok_def)
    then have "foldl enqueue (cb_txq a) q = cb_txq a @ q" by (intro foldl_enqueue) auto
    then have a': "a' = lapb_output env ?s" using send(2,4) by (auto simp: send_ax25_def split: if_splits)
    have st: "steps W nr dat ?s a'" for nr dat
      unfolding a' by (rule steps_lapb_output [OF steps_refl send(3)]) (use a(2) in simp)
    have f1: "flow W mm (SA @ ds) ?s b rxB bA rB (datas xs) (map snd ys)"
      using flow_offer [OF fl(1) ne, of ?s] send(1) by simp
    have f2: "flow W mm SB b ?s rxA bB rA (datas ys) (map snd xs)" using flow_cong_receiver [OF fl(2), of ?s] by simp
    have "new_frames ?s a' = new_frames a a'" by (simp add: new_frames_def)
    moreover have "station_ok W mm a'" using steps_mmask [OF st] steps_maxframe [OF st] a up by (simp add: station_ok_def)
    ultimately show ?thesis using steps_link [OF g f1 f2 _ st] a(1) by simp
  qed
qed

lemma seq_and: "seq mm n AND mm = seq mm n"
  by (simp add: seq_def and.assoc)

lemma hears_inv:
  assumes g: "good_mask mm" "W \<le> unat mm" "0 < W" and f: "says mm SB (jo, r) (cr, bpp)" and w: "works W env a"
    and a': "a' = lapb_input env cr bpp a" "up a'" and ok: "station_ok W mm a"
    and fl: "flow W mm SA a b rxB bA rB (datas xs) (map snd ((jo, r) # ys))"
      "flow W mm SB b a rxA bB rA (datas ((jo, r) # ys)) (map snd xs)"
  shows "station_ok W mm a' \<and> (\<exists>zs bA' rA'. list_all2 (says mm SA) zs (new_frames a a') \<and>
     flow W mm SA a' b rxB bA' rB (datas (xs @ zs)) (map snd ys) \<and> flow W mm SB b a' rxA bB rA' (datas ys) (map snd (xs @ zs)))"
proof -
  have a: "cb_mmask a = mm" "cb_maxframe a \<le> int W" "up a" using ok by (simp_all add: station_ok_def)
  obtain dat where st: "steps W (seq mm r) dat a a'" and acc: "accepts W mm SB (datas ((jo, r) # ys)) dat"
  proof (cases jo)
    case None
    then have "steps W (seq mm r) None a a'"
      using input_s_frame [OF w a(2,3), of cr bpp "seq mm r"] f a a' by (simp add: says_def seq_and)
    then show ?thesis by (rule that) (simp add: accepts_def)
  next
    case (Some j)
    obtain bp where bp: "content bp = SB ! j" "steps W (seq mm r) (Some (seq mm j, bp)) a a'"
      using input_i_frame [OF w a(2,3), of cr bpp "seq mm j" "seq mm r" "SB ! j"] f a a' Some by (auto simp: says_def seq_and)
    have "sorted_wrt (\<lambda>i j. i < j + W) (j # datas ys)" using flowD(3) [OF fl(2)] Some by (simp add: flight_ok_def)
    then have "accepts W mm SB (datas ((jo, r) # ys)) (Some (seq mm j, bp))" using bp(1) g(3) Some by (auto simp: accepts_def)
    then show ?thesis by (rule that [OF bp(2)])
  qed
  have rs: "bA \<le> r" "r \<le> rB" "\<forall>p \<in> set (map snd ((jo, r) # ys)). r \<le> p" using flow_rs [OF fl(1)] by auto
  obtain zs fs bA' rA' where 1: "sentfr a' = sentfr a @ fs" "list_all2 (says mm SA) zs fs"
     "flow W mm SA a' b rxB bA' rB (datas (xs @ zs)) (map snd ((jo, r) # ys))"
     "flow W mm SB b a' rxA bB rA' (datas ((jo, r) # ys)) (map snd (xs @ zs))"
    using steps_linked [OF g rs(2,3) acc st a(1) rs(1) fl] by blast
  have "flow W mm SA a' b rxB bA' rB (datas (xs @ zs)) (map snd ys)" using flow_lose_ack [of W mm SA a' b rxB bA' rB _ "[]"] 1(3) by simp
  moreover have "flow W mm SB b a' rxA bB rA' (datas ys) (map snd (xs @ zs))"
    using flow_lose_data [of W mm SB b a' rxA bB rA' "[]"] 1(4) by (cases jo) auto
  moreover have "new_frames a a' = fs" using 1(1) by (simp add: new_frames_def)
  moreover have "station_ok W mm a'" using steps_mmask [OF st] steps_maxframe [OF st] a a'(2) by (simp add: station_ok_def)
  ultimately show ?thesis using 1(2) by blast
qed

lemma side_step_inv:
  assumes g: "good_mask mm" "W \<le> unat mm" "0 < W" and s: "side_step W L L'" and i: "link_inv W mm rxA rxB L"
  shows "link_inv W mm rxA rxB L'"
proof -
  obtain xs ys bA rB bB rA where c: "list_all2 (says mm (lsa L)) xs (lab L)" "list_all2 (says mm (lsb L)) ys (lba L)"
    and fl: "flow W mm (lsa L) (la L) (lb L) rxB bA rB (datas xs) (map snd ys)"
      "flow W mm (lsb L) (lb L) (la L) rxA bB rA (datas ys) (map snd xs)"
    and ok: "station_ok W mm (la L)" "station_ok W mm (lb L)"
    using i unfolding link_inv_def by blast
  show ?thesis
    using s
  proof cases
    case (acts a' ds)
    obtain zs bA' rA' where 1: "station_ok W mm a'" "list_all2 (says mm (lsa L @ ds)) zs (new_frames (la L) a')"
      "flow W mm (lsa L @ ds) a' (lb L) rxB bA' rB (datas (xs @ zs)) (map snd ys)"
      "flow W mm (lsb L) (lb L) a' rxA bB rA' (datas ys) (map snd (xs @ zs))"
      using acts_inv [OF g acts(2,3) ok(1) fl] by blast
    have "list_all2 (says mm (lsa L @ ds)) (xs @ zs) (lab L @ new_frames (la L) a')"
      using says_offer [OF c(1)] 1(2) by (rule list_all2_appendI)
    then show ?thesis unfolding acts(1)
      by (intro link_invI [where xs = "xs @ zs" and ys = ys and bA = bA' and rB = rB and bB = bB and rA = rA'])
        (use 1 c(2) ok(2) in simp_all)
  next
    case (hears cr bpp rest env a')
    obtain jo r ys' where ys: "ys = (jo, r) # ys'" "says mm (lsb L) (jo, r) (cr, bpp)" "list_all2 (says mm (lsb L)) ys' rest"
      using c(2) unfolding hears(2) by (auto simp: list_all2_Cons2)
    obtain zs bA' rA' where 1: "station_ok W mm a'" "list_all2 (says mm (lsa L)) zs (new_frames (la L) a')"
      "flow W mm (lsa L) a' (lb L) rxB bA' rB (datas (xs @ zs)) (map snd ys')"
      "flow W mm (lsb L) (lb L) a' rxA bB rA' (datas ys') (map snd (xs @ zs))"
      using hears_inv [OF g ys(2) hears(3,4,5) ok(1)] fl unfolding ys(1) by blast
    have "list_all2 (says mm (lsa L)) (xs @ zs) (lab L @ new_frames (la L) a')" using c(1) 1(2) by (rule list_all2_appendI)
    then show ?thesis unfolding hears(1)
      by (intro link_invI [where xs = "xs @ zs" and ys = ys' and bA = bA' and rB = rB and bB = bB and rA = rA'])
        (use 1 ys(3) ok(2) in simp_all)
  next
    case (loses us f vs)
    obtain us' y vs' where y: "ys = us' @ y # vs'" "list_all2 (says mm (lsb L)) us' us" "list_all2 (says mm (lsb L)) vs' vs"
      using c(2) unfolding loses(2) by (auto simp: list_all2_append2 list_all2_Cons2)
    obtain jo r where ys: "ys = us' @ (jo, r) # vs'" "list_all2 (says mm (lsb L)) (us' @ vs') (us @ vs)"
      using y(1) list_all2_appendI [OF y(2,3)] by (cases y) auto
    have "flow W mm (lsa L) (la L) (lb L) rxB bA rB (datas xs) (map snd (us' @ vs'))" using flow_lose_ack fl(1) ys(1) by fastforce
    moreover have "flow W mm (lsb L) (lb L) (la L) rxA bB rA (datas (us' @ vs')) (map snd xs)"
      using fl(2) flow_lose_data [of W mm "lsb L" "lb L" "la L" rxA bB rA "datas us'" _ "datas vs'"] unfolding ys(1) by (cases jo) auto
    ultimately show ?thesis unfolding loses(1)
      by (intro link_invI [where xs = xs and ys = "us' @ vs'" and bA = bA and rB = rB and bB = bB and rA = rA])
        (use ok c(1) ys(2) in simp_all)
  qed
qed

lemma link_step_inv:
  assumes g: "good_mask mm" "W \<le> unat mm" "0 < W" and s: "link_step W L L'" and i: "link_inv W mm rxA rxB L"
  shows "link_inv W mm rxA rxB L'"
  using s
proof cases
  case A
  then show ?thesis by (rule side_step_inv [OF g _ i])
next
  case B
  then have "link_inv W mm rxB rxA (swap L')" using i by (intro side_step_inv [OF g B]) (simp add: link_inv_swap)
  then show ?thesis by (simp add: link_inv_swap)
qed

text \<open>A station at the start of a connection: the numbers are zero and no frame is stored.\<close>

definition fresh :: "axcb \<Rightarrow> bool" where
  "fresh s \<longleftrightarrow> cb_vs s = 0 \<and> cb_vr s = 0 \<and> cb_unack s = 0 \<and> (\<forall>k \<le> 127. rs_bp (cb_reseq s k) = [])"

definition link_start :: "nat \<Rightarrow> byte \<Rightarrow> link \<Rightarrow> bool" where
  "link_start W mm L \<longleftrightarrow> station_ok W mm (la L) \<and> station_ok W mm (lb L) \<and> fresh (la L) \<and> fresh (lb L) \<and> lab L = [] \<and> lba L = [] \<and>
     lsa L = map content (cb_txq (la L)) \<and> lsb L = map content (cb_txq (lb L)) \<and>
     (\<forall>p \<in> set (cb_txq (la L) @ cb_txq (lb L)). content p \<noteq> [])"

lemma flow_start:
  assumes "good_mask mm" "fresh s" "fresh r" "\<forall>p \<in> set (cb_txq s). content p \<noteq> []"
  shows "flow W mm (map content (cb_txq s)) s r (rx_bytes (cb_rx r)) 0 0 [] []"
proof -
  have "unat mm \<le> 127" using assms(1) by (auto simp: good_mask_def ctl_defs)
  then have e: "rs_bp (cb_reseq r k) = []" if "k \<le> unat mm" for k using that assms(3) by (simp add: fresh_def)
  have z: "cb_vs s = 0" "cb_unack s = 0" "cb_vr r = 0" using assms(2,3) by (simp_all add: fresh_def)
  have "sender_ok W mm (map content (cb_txq s)) s 0" by (simp add: sender_ok_def z)
  moreover have "receiver_ok W mm (map content (cb_txq s)) r (rx_bytes (cb_rx r)) 0 0 []"
    unfolding receiver_ok_def using e by (auto simp: z)
  moreover have "flight_ok W (map content (cb_txq s)) 0 0 [] []" by (simp add: flight_ok_def)
  ultimately show ?thesis using assms(4) by (simp add: flow_def)
qed

lemma link_start_inv:
  assumes "good_mask mm" "link_start W mm L"
  shows "link_inv W mm (rx_bytes (cb_rx (la L))) (rx_bytes (cb_rx (lb L))) L"
  using assms(2) flow_start [OF assms(1), of "la L" "lb L" W] flow_start [OF assms(1), of "lb L" "la L" W]
  by (intro link_invI [where xs = "[]" and ys = "[]" and bA = 0 and rB = 0 and bB = 0 and rA = 0]) (simp_all add: link_start_def)

lemma link_reach_inv:
  assumes g: "good_mask mm" "W \<le> unat mm" "0 < W" and s: "link_start W mm L0" and r: "(link_step W)\<^sup>*\<^sup>* L0 L"
  shows "link_inv W mm (rx_bytes (cb_rx (la L0))) (rx_bytes (cb_rx (lb L0))) L"
  using r
proof (induction rule: rtranclp_induct)
  case base
  then show ?case by (rule link_start_inv [OF g(1) s])
next
  case (step L L')
  show ?case by (rule link_step_inv [OF g step.hyps(2) step.IH])
qed

end
