(* ===== verification/Xid.thy ===== *)
theory Xid
  imports Mbuf
begin

text \<open>
  The information field of an XID frame, \<^verbatim>\<open>src/src/xid.c\<close>: \<^verbatim>\<open>xid_parse\<close> reads what a peer says of itself, \<^verbatim>\<open>xid_our_info\<close>
  writes what this port says.  The field is a format octet and groups of parameters, each parameter an identifier, a length
  and a value (\<open>put_groups\<close>); \<open>xid_reads\<close> shows that the parser reads every such field, whatever the cut into mbufs, and skips
  what it does not know.
\<close>

section \<open>Identifiers\<close>

definition XID_FI_GENERAL :: byte where "XID_FI_GENERAL = 0x82"
definition XID_GI_PARAMS :: byte where "XID_GI_PARAMS = 0x80"
definition XID_GI_PRIVATE :: byte where "XID_GI_PRIVATE = 0xF0"
definition XID_PI_PRIV_SETID :: byte where "XID_PI_PRIV_SETID = 0"
definition XID_PI_PRIV_CAPS :: byte where "XID_PI_PRIV_CAPS = 1"
definition XID_PRIV_SET :: "byte list" where "XID_PRIV_SET = [0x57, 0x41, 0x4d, 0x50]"
definition XID_PRIV_SETVAL :: u32 where "XID_PRIV_SETVAL = 0x57414d50"
definition XID_PRIV_CAP_HOP2HOP :: u32 where "XID_PRIV_CAP_HOP2HOP = 1"
definition XID_PI_OPTIONS :: byte where "XID_PI_OPTIONS = 3"
definition XID_PI_IFIELDTX :: byte where "XID_PI_IFIELDTX = 5"
definition XID_PI_IFIELDRX :: byte where "XID_PI_IFIELDRX = 6"
definition XID_PI_WINDOWTX :: byte where "XID_PI_WINDOWTX = 7"
definition XID_PI_WINDOWRX :: byte where "XID_PI_WINDOWRX = 8"
definition XID_N1RX_BYTES :: u32 where "XID_N1RX_BYTES = 256"
definition XID_OPT_REJ :: u32 where "XID_OPT_REJ = 0x000002"
definition XID_OPT_SREJ :: u32 where "XID_OPT_SREJ = 0x000004"
definition XID_OPT_MOD8 :: u32 where "XID_OPT_MOD8 = 0x000400"
definition XID_OPT_MOD128 :: u32 where "XID_OPT_MOD128 = 0x000800"
definition XID_OPT_FIXED :: u32 where "XID_OPT_FIXED = 0x02a080"
definition XID_OPT_SEGMENT :: u32 where "XID_OPT_SEGMENT = 0x400000"

lemmas xid_ids = XID_FI_GENERAL_def XID_GI_PARAMS_def XID_GI_PRIVATE_def XID_PI_PRIV_SETID_def XID_PI_PRIV_CAPS_def
  XID_PI_OPTIONS_def XID_PI_IFIELDTX_def XID_PI_IFIELDRX_def XID_PI_WINDOWTX_def XID_PI_WINDOWRX_def

lemmas xid_opts = XID_OPT_REJ_def XID_OPT_SREJ_def XID_OPT_MOD8_def XID_OPT_MOD128_def XID_OPT_FIXED_def XID_OPT_SEGMENT_def

section \<open>Reading\<close>

record xid_info =
  xi_srej :: bool
  xi_mod128 :: bool
  xi_mod8 :: bool
  xi_segment :: bool
  xi_wamp :: bool
  xi_hop2hop :: bool
  xi_n1rx :: u32
  xi_window :: u32

definition xid_zero :: xid_info where
  "xid_zero = \<lparr>xi_srej = False, xi_mod128 = False, xi_mod8 = False, xi_segment = False, xi_wamp = False, xi_hop2hop = False,
     xi_n1rx = 0, xi_window = 0\<rparr>"

definition pv_byte :: "u32 \<Rightarrow> byte \<Rightarrow> u32" where
  "pv_byte pv b = push_bit 8 pv OR ucast b"

text \<open>The value of a parameter; \<open>None\<close> where the packet ends.\<close>

fun pv_loop :: "nat \<Rightarrow> u32 \<Rightarrow> chain \<Rightarrow> u32 option \<times> chain" where
  "pv_loop 0 pv bpp = (Some pv, bpp)"
| "pv_loop (Suc n) pv bpp =
     (case pull8 bpp of
        (None, bpp) \<Rightarrow> (None, bpp)
      | (Some b, bpp) \<Rightarrow> pv_loop n (pv_byte pv b) bpp)"

text \<open>The \<^verbatim>\<open>switch\<close> over group and parameter; the state is \<^verbatim>\<open>set_wamp\<close> and what is known so far.\<close>

definition xid_param :: "byte \<Rightarrow> byte \<Rightarrow> nat \<Rightarrow> u32 \<Rightarrow> bool \<times> xid_info \<Rightarrow> bool \<times> xid_info" where
  "xid_param gi pi pl pv st =
     (let (set_wamp, xi) = st
      in if gi = XID_GI_PARAMS
         then (if pi = XID_PI_OPTIONS
               then (if pl \<ge> 3
                     then (set_wamp, xi\<lparr>xi_srej := (pv AND XID_OPT_SREJ \<noteq> 0), xi_mod128 := (pv AND XID_OPT_MOD128 \<noteq> 0),
                             xi_mod8 := (pv AND XID_OPT_MOD8 \<noteq> 0), xi_segment := (pv AND XID_OPT_SEGMENT \<noteq> 0)\<rparr>)
                     else st)
               else if pi = XID_PI_WINDOWRX then (set_wamp, xi\<lparr>xi_window := pv\<rparr>)
               else if pi = XID_PI_IFIELDRX then (set_wamp, xi\<lparr>xi_n1rx := pv\<rparr>)
               else st)
         else if gi = XID_GI_PRIVATE
         then (if pi = XID_PI_PRIV_SETID
               then let set_wamp = (pl = length XID_PRIV_SET \<and> pv = XID_PRIV_SETVAL) in (set_wamp, xi\<lparr>xi_wamp := set_wamp\<rparr>)
               else if pi = XID_PI_PRIV_CAPS
               then (if set_wamp \<and> pl \<ge> 1 \<and> pv AND XID_PRIV_CAP_HOP2HOP \<noteq> 0 then (set_wamp, xi\<lparr>xi_hop2hop := True\<rparr>) else st)
               else st)
         else st)"

text \<open>The parameters of a group, \<open>left\<close> octets; the result tells what is left of the group, \<open>None\<close> where the packet ends.\<close>

function xid_params :: "byte \<Rightarrow> nat \<Rightarrow> bool \<times> xid_info \<Rightarrow> chain \<Rightarrow> nat option \<times> (bool \<times> xid_info) \<times> chain" where
  "xid_params gi left st bpp =
     (if left > 2
      then case pull8 bpp of
             (None, bpp) \<Rightarrow> (None, st, bpp)
           | (Some pi, bpp) \<Rightarrow>
               (case pull8 bpp of
                  (None, bpp) \<Rightarrow> (None, st, bpp)
                | (Some pl, bpp) \<Rightarrow>
                    let left = left - 2; pl = min (unat pl) left
                    in case pv_loop pl 0 bpp of
                         (None, bpp) \<Rightarrow> (None, st, bpp)
                       | (Some pv, bpp) \<Rightarrow> xid_params gi (left - pl) (xid_param gi pi pl pv st) bpp)
      else (Some left, st, bpp))"
  by pat_completeness auto
termination
  by (relation "measure (\<lambda>(gi, left, st, bpp). left)") auto

declare xid_params.simps [simp del]

text \<open>What is left of a group is stepped over.\<close>

fun skip_loop :: "nat \<Rightarrow> chain \<Rightarrow> bool \<times> chain" where
  "skip_loop 0 bpp = (True, bpp)"
| "skip_loop (Suc n) bpp =
     (case pull8 bpp of (None, bpp) \<Rightarrow> (False, bpp) | (Some _, bpp) \<Rightarrow> skip_loop n bpp)"

lemma pull8_rest: "pull8 bp = (r, bp') \<Longrightarrow> content bp' = tl (content bp) \<and> r = (if content bp = [] then None else Some (hd (content bp)))"
  using pull8_content [of bp r bp'] by (auto split: list.splits)

lemma pv_loop_shrinks: "pv_loop n pv bp = (r, bp') \<Longrightarrow> length (content bp') \<le> length (content bp)"
  by (induction n pv bp arbitrary: r bp' rule: pv_loop.induct) (fastforce split: prod.splits option.splits dest!: pull8_rest)+

lemma xid_params_shrinks: "xid_params gi left st bp = (r, st', bp') \<Longrightarrow> length (content bp') \<le> length (content bp)"
proof (induction gi left st bp arbitrary: r st' bp' rule: xid_params.induct)
  case (1 gi left st bp)
  obtain x b1 where x: "pull8 bp = (x, b1)" by fastforce
  obtain y b2 where y: "pull8 b1 = (y, b2)" by fastforce
  show ?case
  proof (cases "2 < left \<and> x \<noteq> None \<and> y \<noteq> None")
    case False
    then show ?thesis using "1.prems" pull8_rest [OF x] pull8_rest [OF y]
      by (subst (asm) xid_params.simps) (auto simp: x y split: if_splits option.splits)
  next
    case True
    then obtain pi pl where p: "x = Some pi" "y = Some pl" by auto
    define n where "n = min (unat pl) (left - 2)"
    obtain z b3 where z: "pv_loop n 0 b2 = (z, b3)" by fastforce
    note s = pull8_rest [OF x] pull8_rest [OF y] pv_loop_shrinks [OF z]
    have e: "xid_params gi left st bp =
        (case z of None \<Rightarrow> (None, st, b3) | Some pv \<Rightarrow> xid_params gi (left - 2 - n) (xid_param gi pi n pv st) b3)"
      using True by (subst xid_params.simps) (simp add: x y z [unfolded n_def] p n_def Let_def split: option.split)
    show ?thesis
    proof (cases z)
      case None
      then show ?thesis using "1.prems" s by (auto simp: e)
    next
      case (Some pv)
      have "length (content bp') \<le> length (content b3)"
        using "1.IH" [OF _ x [symmetric] p(1) y [symmetric] p(2) refl refl z [unfolded n_def, symmetric] Some] "1.prems" True Some
        by (simp add: e n_def)
      then show ?thesis using s by simp
    qed
  qed
qed

lemma skip_loop_shrinks: "skip_loop n bp = (r, bp') \<Longrightarrow> length (content bp') \<le> length (content bp)"
  by (induction n bp arbitrary: r bp' rule: skip_loop.induct) (fastforce split: prod.splits option.splits dest!: pull8_rest)+

text \<open>The loop over the groups.\<close>

function xid_groups :: "bool \<times> xid_info \<Rightarrow> chain \<Rightarrow> (bool \<times> xid_info) \<times> chain" where
  "xid_groups st bpp =
     (case pull8 bpp of
        (None, bpp) \<Rightarrow> (st, bpp)
      | (Some gi, bpp) \<Rightarrow>
          (case pull8 bpp of
             (None, bpp) \<Rightarrow> (st, bpp)
           | (Some h, bpp) \<Rightarrow>
               (case pull8 bpp of
                  (None, bpp) \<Rightarrow> (st, bpp)
                | (Some l, bpp) \<Rightarrow>
                    (case xid_params gi (unat h * 256 + unat l) st bpp of
                       (None, st, bpp) \<Rightarrow> (st, bpp)
                     | (Some left, st, bpp) \<Rightarrow>
                         (case skip_loop left bpp of
                            (False, bpp) \<Rightarrow> (st, bpp)
                          | (True, bpp) \<Rightarrow> xid_groups st bpp)))))"
  by pat_completeness auto
termination
  by (relation "measure (\<lambda>(st, bpp). length (content bpp))")
     (auto dest!: pull8_rest [OF sym] xid_params_shrinks [OF sym] skip_loop_shrinks [OF sym]
        simp: neq_Nil_conv split: if_splits)

declare xid_groups.simps [simp del]

definition xid_parse :: "chain \<Rightarrow> xid_info \<times> chain" where
  "xid_parse bpp =
     (case pull8 bpp of
        (None, bpp) \<Rightarrow> (xid_zero, bpp)
      | (Some b, bpp) \<Rightarrow>
          if b \<noteq> XID_FI_GENERAL then (xid_zero, bpp)
          else let ((_, xi), bpp) = xid_groups (False, xid_zero) bpp in (xi, bpp))"

section \<open>Writing\<close>

text \<open>The settings of the port and of the node that go into the field.\<close>

record xid_port =
  xp_paclen :: u32
  xp_maxframe :: u32
  xp_emaxframe :: u32
  xp_segmentation :: nat

definition AXSEG_OFF :: nat where "AXSEG_OFF = 1"

definition put_be16 :: "u32 \<Rightarrow> byte list" where
  "put_be16 x = [ucast (drop_bit 8 x), ucast x]"

definition xid_options :: "bool \<Rightarrow> bool \<Rightarrow> bool \<Rightarrow> u32" where
  "xid_options segmented srej mod128 =
     XID_OPT_FIXED OR (if segmented then XID_OPT_SEGMENT else 0) OR (if srej then XID_OPT_SREJ else XID_OPT_REJ)
       OR (if mod128 then XID_OPT_MOD128 else XID_OPT_MOD8)"

definition xid_ktx :: "xid_port \<Rightarrow> xid_port \<Rightarrow> bool \<Rightarrow> u32" where
  "xid_ktx node ifp mod128 =
     (let ktx = (if mod128 then (if xp_emaxframe ifp \<noteq> 0 then xp_emaxframe ifp else xp_emaxframe node)
                 else (if xp_maxframe ifp \<noteq> 0 then xp_maxframe ifp else xp_maxframe node))
      in if ktx = 0 \<or> ktx > (if mod128 then 127 else 7) then (if mod128 then 32 else 4) else ktx)"

definition xid_krx :: "xid_port \<Rightarrow> xid_port \<Rightarrow> bool \<Rightarrow> u32" where
  "xid_krx node ifp mod128 =
     (if mod128
      then let e = (if xp_emaxframe ifp \<noteq> 0 then xp_emaxframe ifp else xp_emaxframe node);
               e = (if e = 0 \<or> e > 127 then 32 else e)
           in (if e > 32 then e else 32)
      else 7)"

definition xid_our_bytes :: "xid_port \<Rightarrow> xid_port \<Rightarrow> bool \<Rightarrow> bool \<Rightarrow> bool \<Rightarrow> byte list" where
  "xid_our_bytes node ifp mod128 srej hop2hop =
     (let segmode = (if xp_segmentation ifp \<noteq> 0 then xp_segmentation ifp else xp_segmentation node);
          opt = xid_options (segmode \<noteq> AXSEG_OFF) srej mod128;
          n1tx = (if xp_paclen ifp \<noteq> 0 then xp_paclen ifp else xp_paclen node) * 8;
          n1rx = XID_N1RX_BYTES * 8;
          items = [XID_PI_OPTIONS, 3, ucast (drop_bit 16 opt), ucast (drop_bit 8 opt), ucast opt] @
                  [XID_PI_IFIELDTX, 2] @ put_be16 n1tx @
                  [XID_PI_IFIELDRX, 2] @ put_be16 n1rx @
                  [XID_PI_WINDOWTX, 2] @ put_be16 (xid_ktx node ifp mod128) @
                  [XID_PI_WINDOWRX, 2] @ put_be16 (xid_krx node ifp mod128)
      in [XID_FI_GENERAL, XID_GI_PARAMS, ucast (drop_bit 8 (of_nat (length items) :: u32)), ucast (of_nat (length items) :: u32)]
         @ items @
         [XID_GI_PRIVATE, 0, 9, XID_PI_PRIV_SETID, of_nat (length XID_PRIV_SET)] @ XID_PRIV_SET @
         [XID_PI_PRIV_CAPS, 1, if hop2hop then ucast XID_PRIV_CAP_HOP2HOP else 0])"

text \<open>\<^verbatim>\<open>ifp == NULL\<close> writes nothing.\<close>

definition xid_our_info :: "bool \<Rightarrow> xid_port \<Rightarrow> xid_port option \<Rightarrow> bool \<Rightarrow> bool \<Rightarrow> bool \<Rightarrow> chain \<Rightarrow> chain" where
  "xid_our_info fits node ifp mod128 srej hop2hop bpp =
     (case ifp of None \<Rightarrow> bpp | Some i \<Rightarrow> pushdown fits (xid_our_bytes node i mod128 srej hop2hop) bpp)"

section \<open>What a field says\<close>

type_synonym xid_field = "byte \<times> byte list"

definition put_params :: "xid_field list \<Rightarrow> byte list" where
  "put_params ps = concat (map (\<lambda>(pi, v). pi # of_nat (length v) # v) ps)"

definition put_groups :: "(byte \<times> xid_field list) list \<Rightarrow> byte list" where
  "put_groups gs = concat (map (\<lambda>(gi, ps). let n = length (put_params ps) in gi # of_nat (n div 256) # of_nat n # put_params ps) gs)"

definition field_value :: "byte list \<Rightarrow> u32" where
  "field_value v = foldl pv_byte 0 v"

definition read_params :: "byte \<Rightarrow> xid_field list \<Rightarrow> bool \<times> xid_info \<Rightarrow> bool \<times> xid_info" where
  "read_params gi ps st = foldl (\<lambda>st (pi, v). xid_param gi pi (length v) (field_value v) st) st ps"

definition read_groups :: "(byte \<times> xid_field list) list \<Rightarrow> bool \<times> xid_info \<Rightarrow> bool \<times> xid_info" where
  "read_groups gs st = foldl (\<lambda>st (gi, ps). read_params gi ps st) st gs"

text \<open>Every value has at least one octet and each length fits its octets.\<close>

definition well_formed :: "(byte \<times> xid_field list) list \<Rightarrow> bool" where
  "well_formed gs \<longleftrightarrow>
     (\<forall>(gi, ps) \<in> set gs. length (put_params ps) < 65536 \<and> (\<forall>(pi, v) \<in> set ps. v \<noteq> [] \<and> length v < 256))"

section \<open>The parser reads every field\<close>

lemma pull8_Cons: "content bp = a # s \<Longrightarrow> \<exists>bp'. pull8 bp = (Some a, bp') \<and> content bp' = s"
  by (cases "pull8 bp") (auto dest!: pull8_content)

lemma pull8_Nil: "content bp = [] \<Longrightarrow> \<exists>bp'. pull8 bp = (None, bp')"
  by (cases "pull8 bp") (auto dest!: pull8_content)

lemma pv_loop_reads:
  "content bp = v @ rest \<Longrightarrow> \<exists>bp'. pv_loop (length v) pv bp = (Some (foldl pv_byte pv v), bp') \<and> content bp' = rest"
proof (induction v arbitrary: pv bp)
  case (Cons b v)
  obtain b1 where b1: "pull8 bp = (Some b, b1)" "content b1 = v @ rest" using pull8_Cons [of bp b "v @ rest"] Cons.prems by auto
  then show ?case using Cons.IH [OF b1(2), of "pv_byte pv b"] by simp
qed simp

lemma put_params_simps [simp]: "put_params [] = []"
  "put_params ((pi, v) # ps) = pi # of_nat (length v) # v @ put_params ps"
  by (simp_all add: put_params_def)

lemma read_params_simps [simp]: "read_params gi [] st = st"
  "read_params gi ((pi, v) # ps) st = read_params gi ps (xid_param gi pi (length v) (field_value v) st)"
  by (simp_all add: read_params_def)

lemma xid_params_reads:
  "\<forall>(pi, v) \<in> set ps. v \<noteq> [] \<and> length v < 256 \<Longrightarrow> content bp = put_params ps @ rest \<Longrightarrow>
     \<exists>bp'. xid_params gi (length (put_params ps)) st bp = (Some 0, read_params gi ps st, bp') \<and> content bp' = rest"
proof (induction ps arbitrary: st bp)
  case Nil
  then show ?case by (simp add: xid_params.simps)
next
  case (Cons f ps)
  obtain pi v where f: "f = (pi, v)" by fastforce
  have v: "v \<noteq> []" "length v < 256" using Cons.prems(1) by (auto simp: f)
  obtain b1 where b1: "pull8 bp = (Some pi, b1)" "content b1 = of_nat (length v) # v @ put_params ps @ rest"
    using pull8_Cons [of bp pi] Cons.prems(2) by (auto simp: f)
  obtain b2 where b2: "pull8 b1 = (Some (of_nat (length v)), b2)" "content b2 = v @ put_params ps @ rest"
    using pull8_Cons [OF b1(2)] by blast
  obtain b3 where b3: "pv_loop (length v) 0 b2 = (Some (field_value v), b3)" "content b3 = put_params ps @ rest"
    using pv_loop_reads [OF b2(2), of 0] by (auto simp: field_value_def)
  have n: "unat (of_nat (length v) :: byte) = length v" using v(2) by (simp add: unat_of_nat)
  have "xid_params gi (length (put_params (f # ps))) st bp =
      xid_params gi (length (put_params ps)) (xid_param gi pi (length v) (field_value v) st) b3"
    using v(1) by (subst xid_params.simps) (simp add: f b1(1) b2(1) b3(1) n neq_Nil_conv min_def Let_def)
  then show ?case using Cons.IH [OF _ b3(2), of "xid_param gi pi (length v) (field_value v) st"] Cons.prems(1) by (simp add: f)
qed

lemma xid_groups_reads:
  "well_formed gs \<Longrightarrow> content bp = put_groups gs \<Longrightarrow> fst (xid_groups st bp) = read_groups gs st"
proof (induction gs arbitrary: st bp)
  case Nil
  then obtain b1 where "pull8 bp = (None, b1)" using pull8_Nil [of bp] by (auto simp: put_groups_def)
  then show ?case by (simp add: xid_groups.simps read_groups_def)
next
  case (Cons g gs)
  obtain gi ps where g: "g = (gi, ps)" by fastforce
  define n where "n = length (put_params ps)"
  have w: "n < 65536" "\<forall>(pi, v) \<in> set ps. v \<noteq> [] \<and> length v < 256" "well_formed gs"
    using Cons.prems(1) by (auto simp: well_formed_def g n_def)
  have c: "content bp = gi # of_nat (n div 256) # of_nat n # put_params ps @ put_groups gs"
    using Cons.prems(2) by (simp add: put_groups_def g n_def Let_def)
  obtain b1 where b1: "pull8 bp = (Some gi, b1)" "content b1 = of_nat (n div 256) # of_nat n # put_params ps @ put_groups gs"
    using pull8_Cons [OF c] by blast
  obtain b2 where b2: "pull8 b1 = (Some (of_nat (n div 256)), b2)" "content b2 = of_nat n # put_params ps @ put_groups gs"
    using pull8_Cons [OF b1(2)] by blast
  obtain b3 where b3: "pull8 b2 = (Some (of_nat n), b3)" "content b3 = put_params ps @ put_groups gs"
    using pull8_Cons [OF b2(2)] by blast
  obtain b4 where b4: "xid_params gi n st b3 = (Some 0, read_params gi ps st, b4)" "content b4 = put_groups gs"
    using xid_params_reads [OF w(2) b3(2), of gi st] unfolding n_def by blast
  have "n div 256 < 256" using w(1) by simp
  then have l: "unat (of_nat (n div 256) :: byte) * 256 + unat (of_nat n :: byte) = n"
    by (simp add: unat_of_nat)
  have "xid_groups st bp = xid_groups (read_params gi ps st) b4"
    by (subst xid_groups.simps) (simp add: b1(1) b2(1) b3(1) l b4(1))
  then show ?case using Cons.IH [OF w(3) b4(2)] by (simp add: read_groups_def g)
qed

lemma xid_parse_reads:
  assumes "content bp = XID_FI_GENERAL # put_groups gs" "well_formed gs"
  shows "fst (xid_parse bp) = snd (read_groups gs (False, xid_zero))"
proof -
  obtain b1 where b1: "pull8 bp = (Some XID_FI_GENERAL, b1)" "content b1 = put_groups gs" using pull8_Cons [OF assms(1)] by blast
  show ?thesis using xid_groups_reads [OF assms(2) b1(2), of "(False, xid_zero)"]
    by (simp add: xid_parse_def b1(1) split_def)
qed

section \<open>What we offer is what the peer reads\<close>

definition our_groups :: "xid_port \<Rightarrow> xid_port \<Rightarrow> bool \<Rightarrow> bool \<Rightarrow> bool \<Rightarrow> (byte \<times> xid_field list) list" where
  "our_groups node ifp mod128 srej hop2hop =
     (let opt = xid_options ((if xp_segmentation ifp \<noteq> 0 then xp_segmentation ifp else xp_segmentation node) \<noteq> AXSEG_OFF) srej mod128
      in [(XID_GI_PARAMS,
           [(XID_PI_OPTIONS, [ucast (drop_bit 16 opt), ucast (drop_bit 8 opt), ucast opt]),
            (XID_PI_IFIELDTX, put_be16 ((if xp_paclen ifp \<noteq> 0 then xp_paclen ifp else xp_paclen node) * 8)),
            (XID_PI_IFIELDRX, put_be16 (XID_N1RX_BYTES * 8)),
            (XID_PI_WINDOWTX, put_be16 (xid_ktx node ifp mod128)),
            (XID_PI_WINDOWRX, put_be16 (xid_krx node ifp mod128))]),
          (XID_GI_PRIVATE,
           [(XID_PI_PRIV_SETID, XID_PRIV_SET),
            (XID_PI_PRIV_CAPS, [if hop2hop then ucast XID_PRIV_CAP_HOP2HOP else 0])])])"

lemma our_bytes_groups: "xid_our_bytes node ifp mod128 srej hop2hop = XID_FI_GENERAL # put_groups (our_groups node ifp mod128 srej hop2hop)"
  by (simp add: xid_our_bytes_def our_groups_def put_groups_def put_be16_def XID_PRIV_SET_def Let_def)

lemma our_groups_well_formed: "well_formed (our_groups node ifp mod128 srej hop2hop)"
  by (simp add: well_formed_def our_groups_def put_be16_def XID_PRIV_SET_def Let_def)

lemma value_be16: "field_value (put_be16 x) = take_bit 16 x"
  by (rule bit_word_eqI)
     (auto simp: field_value_def put_be16_def pv_byte_def bit_simps not_less simp del: push_bit_Suc)

lemma value_be24: "field_value [ucast (drop_bit 16 x), ucast (drop_bit 8 x), ucast x] = take_bit 24 x"
proof (rule bit_word_eqI)
  fix n :: nat
  assume "n < LENGTH(32)"
  then show "bit (field_value [ucast (drop_bit 16 x), ucast (drop_bit 8 x), ucast x]) n \<longleftrightarrow> bit (take_bit 24 x) n"
    by (cases "n < 8"; cases "n < 16"; cases "n < 24")
       (auto simp: field_value_def pv_byte_def bit_simps simp del: push_bit_Suc)
qed

lemma krx_range: "7 \<le> xid_krx node ifp m" "xid_krx node ifp m \<le> 127" "m \<Longrightarrow> 32 \<le> xid_krx node ifp m"
  by (auto simp: xid_krx_def Let_def word_le_nat_alt word_less_nat_alt)

lemma krx_mod8: "xid_krx node ifp False = 7"
  by (simp add: xid_krx_def)

lemma options_read:
  "take_bit 24 (xid_options g r m) AND XID_OPT_SREJ \<noteq> 0 \<longleftrightarrow> r"
  "take_bit 24 (xid_options g r m) AND XID_OPT_MOD128 \<noteq> 0 \<longleftrightarrow> m"
  "take_bit 24 (xid_options g r m) AND XID_OPT_MOD8 \<noteq> 0 \<longleftrightarrow> \<not> m"
  "take_bit 24 (xid_options g r m) AND XID_OPT_SEGMENT \<noteq> 0 \<longleftrightarrow> g"
  by (cases g; cases r; cases m; simp add: xid_options_def xid_opts take_bit_eq_mask mask_numeral)+

lemma private_read: "field_value XID_PRIV_SET = XID_PRIV_SETVAL" "length XID_PRIV_SET = 4"
  "field_value [ucast XID_PRIV_CAP_HOP2HOP] AND XID_PRIV_CAP_HOP2HOP = 1" "field_value [0] = 0"
  by (simp_all add: XID_PRIV_SET_def XID_PRIV_SETVAL_def XID_PRIV_CAP_HOP2HOP_def field_value_def pv_byte_def)

lemma n1rx_read: "take_bit 16 (XID_N1RX_BYTES * 8) = 2048"
  by (simp add: XID_N1RX_BYTES_def take_bit_eq_mask mask_numeral)

lemma our_info_read:
  assumes "content bp = content (xid_our_info fits node (Some ifp) mod128 srej hop2hop [])"
  shows "fst (xid_parse bp) =
           \<lparr>xi_srej = srej, xi_mod128 = mod128, xi_mod8 = (\<not> mod128),
            xi_segment = ((if xp_segmentation ifp \<noteq> 0 then xp_segmentation ifp else xp_segmentation node) \<noteq> AXSEG_OFF),
            xi_wamp = True, xi_hop2hop = hop2hop, xi_n1rx = 2048, xi_window = xid_krx node ifp mod128\<rparr>"
proof -
  have c: "content bp = XID_FI_GENERAL # put_groups (our_groups node ifp mod128 srej hop2hop)"
    using assms by (simp add: xid_our_info_def our_bytes_groups content_simps)
  have k: "take_bit 16 (xid_krx node ifp mod128) = xid_krx node ifp mod128"
    using krx_range(2) [of node ifp mod128]
    by (simp add: word_unat_eq_iff unsigned_take_bit_eq word_le_nat_alt take_bit_nat_eq_self)
  show ?thesis
    unfolding xid_parse_reads [OF c our_groups_well_formed]
    by (auto simp: read_groups_def our_groups_def xid_param_def xid_ids xid_zero_def value_be24 options_read value_be16 k
        private_read n1rx_read Let_def)
qed



text \<open>C30: What this port writes about itself is what the parser of a peer reads, however the frame is cut into mbufs: whether
  it offers SREJ, modulo 128 (else modulo 8) and segmentation, that it speaks the WAMP set and acknowledges hop by hop, an
  I field of 2048 bits, and a receive window of 7 frames in modulo 8 and of 32 to 127 frames in modulo 128.\<close>
theorem xid_offer_understood:
  assumes "content bp = content (xid_our_info fits node (Some ifp) mod128 srej hop2hop [])"
  shows "\<exists>w. fst (xid_parse bp) =
           \<lparr>xi_srej = srej, xi_mod128 = mod128, xi_mod8 = (\<not> mod128),
            xi_segment = ((if xp_segmentation ifp \<noteq> 0 then xp_segmentation ifp else xp_segmentation node) \<noteq> AXSEG_OFF),
            xi_wamp = True, xi_hop2hop = hop2hop, xi_n1rx = 2048, xi_window = w\<rparr> \<and>
         (if mod128 then 32 \<le> w \<and> w \<le> 127 else w = 7)"
  using our_info_read [OF assms] krx_range(2) [of node ifp mod128] krx_range(3) [of mod128 node ifp] krx_mod8 [of node ifp]
  by (intro exI [of _ "xid_krx node ifp mod128"]) auto

lemma xid_offer_understood_witness:
  "fst (xid_parse (xid_our_info False \<lparr>xp_paclen = 256, xp_maxframe = 7, xp_emaxframe = 32, xp_segmentation = 3\<rparr>
      (Some \<lparr>xp_paclen = 0, xp_maxframe = 4, xp_emaxframe = 0, xp_segmentation = 0\<rparr>) False True True [])) =
   \<lparr>xi_srej = True, xi_mod128 = False, xi_mod8 = True, xi_segment = True, xi_wamp = True, xi_hop2hop = True, xi_n1rx = 2048,
    xi_window = 7\<rparr>"
  using xid_offer_understood [of _ False "\<lparr>xp_paclen = 256, xp_maxframe = 7, xp_emaxframe = 32, xp_segmentation = 3\<rparr>"
      "\<lparr>xp_paclen = 0, xp_maxframe = 4, xp_emaxframe = 0, xp_segmentation = 0\<rparr>" False True True, OF refl]
  by (simp add: AXSEG_OFF_def)

definition known_param :: "byte \<Rightarrow> byte \<Rightarrow> bool" where
  "known_param gi pi \<longleftrightarrow>
     gi = XID_GI_PARAMS \<and> pi \<in> {XID_PI_OPTIONS, XID_PI_IFIELDRX, XID_PI_WINDOWRX} \<or>
     gi = XID_GI_PRIVATE \<and> pi \<in> {XID_PI_PRIV_SETID, XID_PI_PRIV_CAPS}"

definition only_known :: "(byte \<times> xid_field list) list \<Rightarrow> (byte \<times> xid_field list) list" where
  "only_known gs = map (\<lambda>(gi, ps). (gi, filter (\<lambda>(pi, v). known_param gi pi) ps)) gs"

lemma unknown_ignored: "\<not> known_param gi pi \<Longrightarrow> xid_param gi pi n v st = st"
  by (cases st) (auto simp: known_param_def xid_param_def xid_ids)

lemma read_known: "read_params gi (filter (\<lambda>(pi, v). known_param gi pi) ps) st = read_params gi ps st"
proof (induction ps arbitrary: st)
  case (Cons f ps)
  then show ?case by (cases f) (simp add: unknown_ignored)
qed simp

lemma read_only_known: "read_groups (only_known gs) st = read_groups gs st"
  by (induction gs arbitrary: st) (auto simp: only_known_def read_groups_def read_known)

lemma put_params_filter: "length (put_params (filter P ps)) \<le> length (put_params ps)"
  by (induction ps) auto

lemma only_known_well_formed: "well_formed gs \<Longrightarrow> well_formed (only_known gs)"
  using le_less_trans [OF put_params_filter] by (fastforce simp: well_formed_def only_known_def)

text \<open>A parameter this node does not know, in any group, and a group it does not know are skipped: the parser reads from
  the field what it would read were they not there.\<close>
theorem xid_unknown_skipped:
  assumes "content bp = XID_FI_GENERAL # put_groups gs" "well_formed gs"
    and "content bp' = XID_FI_GENERAL # put_groups (only_known gs)"
  shows "fst (xid_parse bp) = fst (xid_parse bp')"
  by (simp add: xid_parse_reads [OF assms(1,2)] xid_parse_reads [OF assms(3) only_known_well_formed [OF assms(2)]]
    read_only_known)

lemma xid_unknown_skipped_witness:
  "fst (xid_parse [[0x82, 0x80, 0, 7, 2, 2], [0, 0x21, 8, 1, 5, 0xf1, 0, 3], [9, 1, 1]]) = fst (xid_parse [[0x82, 0x80, 0, 3, 8, 1, 5, 0xf1, 0, 0]])"
  by (rule xid_unknown_skipped [of _ "[(0x80, [(2, [0, 0x21]), (8, [5])]), (0xf1, [(9, [1])])]"])
     (simp_all add: put_groups_def xid_ids well_formed_def only_known_def known_param_def Let_def)

end
