(* ===== verification/Lapb_Setup.thy ===== *)
theory Lapb_Setup
  imports Lapb_Link Xid
begin

text \<open>
  How a link is set up: \<^verbatim>\<open>est_link\<close> and the negotiation by XID, \<^verbatim>\<open>src/src/lapb.c\<close>, and the end of \<^verbatim>\<open>open_ax25\<close>,
  \<^verbatim>\<open>src/src/ax25user.c\<close>, for a link that ends here (\<^verbatim>\<open>peer\<close> is null, no relay leg waits for an answer).

  A session \<open>sess\<close> is the control block, what the route entry of the peer remembers (\<^verbatim>\<open>struct ax_route\<close>, \<open>None\<close> when there is
  no entry) and \<^verbatim>\<open>peer_segment\<close>.  The notes for the route that the state machine logged are carried out by \<open>session_event\<close>.
\<close>

section \<open>What a route remembers of a station\<close>

datatype verdict = R_UNKNOWN | R_YES | R_NO
datatype knob = K_ACCEPT | K_OFF | K_INITIATE | K_ALWAYS

record xroute =
  r_eax25 :: verdict
  r_fails :: nat
  r_skips :: nat
  r_xid :: verdict
  r_xid_time :: int
  r_frmr :: bool
  r_tries :: nat
  r_n1rx :: u32
  r_window :: u32
  r_srej :: bool
  r_segment :: bool
  r_peer_time :: int

definition new_route :: xroute where
  "new_route = \<lparr>r_eax25 = R_UNKNOWN, r_fails = 0, r_skips = 0, r_xid = R_UNKNOWN, r_xid_time = 0, r_frmr = False, r_tries = 0,
     r_n1rx = 0, r_window = 0, r_srej = False, r_segment = False, r_peer_time = 0\<rparr>"

text \<open>The settings of the port and the node, and the clock in seconds (\<^verbatim>\<open>secclock\<close>).\<close>

record senv =
  s_sec :: int
  s_eax25 :: knob
  s_v2 :: knob
  s_node :: xid_port
  s_ifp :: xid_port
  s_hop2hop :: bool
  s_retries :: nat
  s_probe_time :: int
  s_expire_time :: int

record sess =
  ss_cb :: axcb
  ss_rt :: "xroute option"
  ss_segment :: int

definition EAX25_MAXFAILS :: nat where "EAX25_MAXFAILS = 3"
definition EAX25_RETRY :: nat where "EAX25_RETRY = 15"

definition create_route :: "xroute option \<Rightarrow> xroute" where
  "create_route rt = (case rt of None \<Rightarrow> new_route | Some r \<Rightarrow> r)"

definition eax25_remember :: "bool \<Rightarrow> xroute option \<Rightarrow> xroute option" where
  "eax25_remember yes rt =
     (let r = create_route rt
      in Some (if yes then r\<lparr>r_eax25 := R_YES, r_fails := 0\<rparr> else r\<lparr>r_eax25 := R_NO, r_skips := 0\<rparr>))"

definition eax25_failed :: "xroute option \<Rightarrow> xroute option" where
  "eax25_failed rt =
     (let r = create_route rt
      in Some (if r_eax25 r = R_NO then r
               else let r = r\<lparr>r_fails := r_fails r + 1\<rparr>
                    in if r_fails r \<ge> EAX25_MAXFAILS then r\<lparr>r_eax25 := R_NO, r_skips := 0\<rparr> else r))"

definition eax25_age :: "xroute option \<Rightarrow> xroute option" where
  "eax25_age rt =
     (case rt of
        None \<Rightarrow> None
      | Some r \<Rightarrow>
          Some (if r_eax25 r \<noteq> R_NO then r
                else let r = r\<lparr>r_skips := r_skips r + 1\<rparr>
                     in if r_skips r < EAX25_RETRY then r else r\<lparr>r_eax25 := R_UNKNOWN, r_fails := 0, r_skips := 0\<rparr>))"

definition eax25_wanted :: "lenv \<Rightarrow> senv \<Rightarrow> xroute option \<Rightarrow> byte" where
  "eax25_wanted env se rt =
     (if \<not> e_iface env \<or> s_eax25 se = K_OFF then MMASK
      else case rt of
             Some r \<Rightarrow> (case r_eax25 r of R_YES \<Rightarrow> EMMASK | R_NO \<Rightarrow> MMASK
                        | R_UNKNOWN \<Rightarrow> if s_eax25 se = K_ACCEPT then MMASK else EMMASK)
           | None \<Rightarrow> if s_eax25 se = K_ACCEPT then MMASK else EMMASK)"

definition xid_may_probe :: "senv \<Rightarrow> xroute option \<Rightarrow> bool" where
  "xid_may_probe se rt =
     (case rt of
        None \<Rightarrow> True
      | Some r \<Rightarrow>
          if r_frmr r then False
          else if r_xid r = R_YES then False
          else if r_tries r < s_retries se then True
          else s_sec se - r_xid_time r \<ge> s_probe_time se)"

definition ax25_v2_refused :: "lenv \<Rightarrow> senv \<Rightarrow> xroute option \<Rightarrow> bool" where
  "ax25_v2_refused env se rt =
     (if \<not> e_iface env \<or> s_v2 se \<noteq> K_ALWAYS then False
      else case rt of None \<Rightarrow> False | Some r \<Rightarrow> r_xid r = R_NO \<and> r_frmr r)"

section \<open>Establishing a link\<close>

definition est_link_sabm :: "lenv \<Rightarrow> axcb \<Rightarrow> axcb" where
  "est_link_sabm env s = start1 (stop3 (sendctl env LAPB_COMMAND (SABM OR PF) s))"

definition our_info :: "lenv \<Rightarrow> senv \<Rightarrow> chain" where
  "our_info env se =
     xid_our_info (e_fits env) (s_node se) (if e_iface env then Some (s_ifp se) else None)
       (e_iface env \<and> s_eax25 se \<noteq> K_OFF) True (s_hop2hop se) []"

definition est_link_xid :: "lenv \<Rightarrow> senv \<Rightarrow> sess \<Rightarrow> sess" where
  "est_link_xid env se st =
     (let r = create_route (ss_rt st);
          r = r\<lparr>r_xid_time := s_sec se, r_tries := r_tries r + 1\<rparr>;
          s = sendframe env LAPB_COMMAND (XID OR PF) None (our_info env se) (ss_cb st);
          s = start1 (stop3 (s\<lparr>cb_neg_wait := True, cb_retries := 0\<rparr>))
      in st\<lparr>ss_rt := Some r, ss_cb := s\<rparr>)"

text \<open>What a peer said of itself in an earlier session still holds.\<close>

definition known_peer :: "senv \<Rightarrow> sess \<Rightarrow> sess" where
  "known_peer se st =
     (case ss_rt st of
        None \<Rightarrow> st
      | Some r \<Rightarrow>
          if r_xid r = R_YES \<and> r_peer_time r \<noteq> 0 \<and> (s_expire_time se \<le> 0 \<or> s_sec se - r_peer_time r < s_expire_time se)
          then let s = ax25_apply_peer_xid (unat (r_n1rx r)) (unat (r_window r)) (ss_cb st);
                   s = s\<lparr>cb_proto := V2_2\<rparr>;
                   s = (if r_srej r then s\<lparr>cb_peer_srej := True\<rparr> else s)
               in st\<lparr>ss_cb := s, ss_segment := (if r_segment r then 1 else - 1)\<rparr>
          else st)"

definition est_link :: "lenv \<Rightarrow> senv \<Rightarrow> sess \<Rightarrow> sess" where
  "est_link env se st =
     (let s = (clr_ex (ss_cb st))\<lparr>cb_retries := 0, cb_eax25_probes := 0, cb_eax25_dmed := False\<rparr>;
          rt = eax25_age (ss_rt st);
          s = s\<lparr>cb_peer_n1 := 0, cb_peer_k := 0\<rparr>;
          s = eax25_mark (s\<lparr>cb_mmask := eax25_wanted env se rt\<rparr>);
          st = known_peer se (st\<lparr>ss_cb := s, ss_rt := rt, ss_segment := 0\<rparr>)
      in if e_iface env \<and> (s_v2 se = K_INITIATE \<or> s_v2 se = K_ALWAYS)
         then (if map_option r_xid (ss_rt st) = Some R_NO \<and> xid_may_probe se (ss_rt st) then est_link_xid env se st
               else if map_option r_xid (ss_rt st) = Some R_NO \<and> ax25_v2_refused env se (ss_rt st)
               then st\<lparr>ss_cb := lapbstate env LAPB_DISCONNECTED ((ss_cb st)\<lparr>cb_txq := [], cb_reason := LB_NEGOTIATION\<rparr>)\<rparr>
               else if ss_rt st = None \<or> map_option r_xid (ss_rt st) = Some R_UNKNOWN \<and> xid_may_probe se (ss_rt st)
               then est_link_xid env se st
               else st\<lparr>ss_cb := est_link_sabm env (ss_cb st)\<rparr>)
         else st\<lparr>ss_cb := est_link_sabm env (ss_cb st)\<rparr>)"

text \<open>On the way from \<open>s\<close> to \<open>s'\<close> the control block was taken away.\<close>

definition freed :: "axcb \<Rightarrow> axcb \<Rightarrow> bool" where
  "freed s s' \<longleftrightarrow> list_ex (\<lambda>e. case e of Link_gone \<Rightarrow> True | _ \<Rightarrow> False) (drop (length (cb_ev s)) (cb_ev s'))"

text \<open>\<^verbatim>\<open>open_ax25\<close> with \<^verbatim>\<open>AX_ACTIVE\<close>, from the test whether the link is in use on: \<open>openpid\<close> is what an existing link was
  opened for (0: nothing), \<open>blocks\<close> is \<^verbatim>\<open>frame_blocks(axp->iface,PF_OUT,FRF_CONN)\<close>.\<close>

datatype opened = Refused sess | Opened sess | Dangling sess

definition open_active :: "lenv \<Rightarrow> senv \<Rightarrow> nat \<Rightarrow> bool \<Rightarrow> sess \<Rightarrow> opened" where
  "open_active env se openpid blocks st =
     (if e_services env \<or> openpid \<noteq> 0 \<and> cb_state (ss_cb st) \<noteq> LAPB_DISCONNECTED then Refused st
      else if cb_state (ss_cb st) \<noteq> LAPB_DISCONNECTED then Opened st
      else if blocks then Refused st
      else let st' = est_link env se st
           in if freed (ss_cb st) (ss_cb st') then Dangling st'
              else Opened (st'\<lparr>ss_cb := lapbstate env LAPB_SETUP (ss_cb st')\<rparr>))"

section \<open>XID frames\<close>

text \<open>What the answer (\<open>cr\<close> is a response) or the question of the peer says of it, in its route entry.\<close>

definition xid_note :: "senv \<Rightarrow> lapb_cmdrsp \<Rightarrow> xid_info \<Rightarrow> xroute option \<Rightarrow> xroute option" where
  "xid_note se cr xi rt =
     (case rt of
        Some r \<Rightarrow>
          if cr = LAPB_RESPONSE
          then map_option (\<lambda>r. r\<lparr>r_n1rx := xi_n1rx xi, r_window := xi_window xi, r_srej := xi_srej xi, r_segment := xi_segment xi,
                                 r_peer_time := s_sec se\<rparr>)
                 (eax25_remember (xi_mod128 xi) (Some (r\<lparr>r_xid := R_YES, r_xid_time := s_sec se, r_tries := 0\<rparr>)))
          else if cr = LAPB_COMMAND then eax25_remember (xi_mod128 xi) rt else rt
      | None \<Rightarrow> if cr = LAPB_COMMAND then eax25_remember (xi_mod128 xi) rt else rt)"

text \<open>Our own question is answered: the link goes on with SABM or SABME.\<close>

definition xid_go_on :: "lenv \<Rightarrow> senv \<Rightarrow> xid_info \<Rightarrow> axcb \<Rightarrow> axcb" where
  "xid_go_on env se xi s =
     (let want = (if xi_mod128 xi then EMMASK else MMASK);
          s = (if e_iface env \<and> s_eax25 se \<noteq> K_OFF \<and> cb_mmask s \<noteq> want then eax25_mark (s\<lparr>cb_mmask := want\<rparr>) else s);
          s = ax25_apply_peer_xid (unat (xi_n1rx xi)) (unat (xi_window xi)) s
      in est_link_sabm env (s\<lparr>cb_neg_wait := False, cb_retries := 0\<rparr>))"

definition xid_input :: "lenv \<Rightarrow> senv \<Rightarrow> lapb_cmdrsp \<Rightarrow> bool \<Rightarrow> chain \<Rightarrow> sess \<Rightarrow> sess" where
  "xid_input env se cr pf bpp st =
     (let xi = fst (xid_parse bpp);
          st = st\<lparr>ss_rt := xid_note se cr xi (ss_rt st)\<rparr>;
          s = ss_cb st
      in if cr = LAPB_RESPONSE
         then let s = (if \<not> cb_neg_wait s \<and> cb_state s \<noteq> LAPB_DISCONNECTED
                       then ax25_apply_peer_xid (unat (xi_n1rx xi)) (unat (xi_window xi)) s else s);
                  s = s\<lparr>cb_proto := V2_2\<rparr>;
                  s = (if xi_srej xi then s\<lparr>cb_peer_srej := True\<rparr> else s)
              in st\<lparr>ss_segment := (if xi_segment xi then 1 else - 1), ss_cb := (if cb_neg_wait s then xid_go_on env se xi s else s)\<rparr>
         else if cr = LAPB_COMMAND \<and> (\<not> e_iface env \<or> s_v2 se \<noteq> K_OFF)
         then st\<lparr>ss_cb := sendframe env LAPB_RESPONSE (XID OR pfbit pf) None (our_info env se) s\<rparr>
         else st)"

text \<open>An answer that belongs to no link: a block was made for the frame, and \<^verbatim>\<open>lapb_input\<close> deletes it before it asks the
  block whether the answer was waited for.  \<open>None\<close>: freed memory is read.\<close>

definition xid_input_stray :: "lenv \<Rightarrow> senv \<Rightarrow> lapb_cmdrsp \<Rightarrow> bool \<Rightarrow> chain \<Rightarrow> sess \<Rightarrow> sess option" where
  "xid_input_stray env se cr pf bpp st =
     (if cr = LAPB_RESPONSE then None else Some (xid_input env se cr pf bpp st))"

section \<open>Notes for the route\<close>

text \<open>What the state machine notes: a FRMR in answer to our XID, silence, an SREJ from a station that did not answer XID.\<close>

definition note_event :: "lapb_event \<Rightarrow> xroute option \<Rightarrow> xroute option" where
  "note_event e rt =
     (case e of
        Eax25_remember yes \<Rightarrow> eax25_remember yes rt
      | Eax25_failed \<Rightarrow> eax25_failed rt
      | Xid_refused \<Rightarrow> map_option (\<lambda>r. r\<lparr>r_xid := R_NO, r_frmr := True, r_n1rx := 0, r_window := 0, r_srej := False,
                         r_segment := False, r_peer_time := 0\<rparr>) rt
      | Xid_silent \<Rightarrow> map_option (\<lambda>r. r\<lparr>r_xid := R_NO\<rparr>) rt
      | Xid_ask_again \<Rightarrow> map_option (\<lambda>r. if r_xid r \<noteq> R_YES then r\<lparr>r_tries := 0\<rparr> else r) rt
      | _ \<Rightarrow> rt)"

definition session_event :: "lenv \<Rightarrow> senv \<Rightarrow> lapb_event \<Rightarrow> sess \<Rightarrow> sess" where
  "session_event env se e st =
     (case e of
        Xid_in cr pf bpp \<Rightarrow> xid_input env se cr pf bpp st
      | _ \<Rightarrow> st\<lparr>ss_rt := note_event e (ss_rt st)\<rparr>)"

text \<open>A handler of the control block, then what it noted.\<close>

definition session_step :: "lenv \<Rightarrow> senv \<Rightarrow> (axcb \<Rightarrow> axcb) \<Rightarrow> sess \<Rightarrow> sess" where
  "session_step env se h st =
     (let s' = h (ss_cb st)
      in fold (session_event env se) (drop (length (cb_ev (ss_cb st))) (cb_ev s')) (st\<lparr>ss_cb := s'\<rparr>))"

definition session_input :: "lenv \<Rightarrow> senv \<Rightarrow> lapb_cmdrsp \<Rightarrow> chain \<Rightarrow> sess \<Rightarrow> sess" where
  "session_input env se cr bpp = session_step env se (lapb_input env cr bpp)"

end
