(* ===== verification/Lapb_Service.thy ===== *)
theory Lapb_Service
  imports Lapb_Link "HOL-Library.Sublist"
begin

text \<open>
  What two stations get from the link: the payloads, and with segmentation the datagrams, arrive whole, once and in order.
\<close>

text \<open>\<open>pid\<close> and \<open>info\<close> were given to the segmenter, and \<open>q\<close> is what it made of them.\<close>

definition is_cut :: "byte \<times> byte list \<Rightarrow> byte list list \<Rightarrow> bool" where
  "is_cut d q \<longleftrightarrow> fst d \<noteq> PID_SEGMENT \<and> (\<exists>avail fits bpp ssize. length bpp \<le> avail \<and> content bpp = fst d # snd d \<and>
     segmenter avail fits bpp ssize \<noteq> [] \<and> q = map content (segmenter avail fits bpp ssize))"

lemma is_cut_processed:
  "list_all2 is_cut ds Q \<Longrightarrow> rb_remain rb = 0 \<Longrightarrow> rb_asm rb = [] \<Longrightarrow>
     fold procbytes (concat Q) rb = rb\<lparr>rb_up := rb_up rb @ map (\<lambda>d. (uint (fst d), snd d)) ds\<rparr>"
proof (induction ds Q arbitrary: rb rule: list_all2_induct)
  case (Cons d ds q Q)
  have "fold procbytes q rb = rb\<lparr>rb_up := rb_up rb @ [(uint (fst d), snd d)]\<rparr>"
    using Cons.hyps(1) Cons.prems segments_processed by (auto simp: is_cut_def)
  then show ?case using Cons.IH [of "rb\<lparr>rb_up := rb_up rb @ [(uint (fst d), snd d)]\<rparr>"] Cons.prems by simp
qed simp

subsection \<open>A small run\<close>

text \<open>A frame that is expected next, when nothing is stored.\<close>

lemma no_gap: "(\<And>k. k \<noteq> unat old_vr \<Longrightarrow> rs_bp (cb_reseq s k) = []) \<Longrightarrow> \<not> gap_behind old_vr s"
  unfolding gap_behind_def list_ex_iff by (auto simp: word_unat_eq_iff dest!: set_takeWhileD)

lemma resequence_next:
  assumes e: "\<And>k. rs_bp (cb_reseq s k) = []" and bp: "bp \<noteq> []" and g: "good_mask (cb_mmask s)" and v: "cb_vr s = seq (cb_mmask s) n"
    and ns: "ns = cb_vr s"
  shows "resequence env bp ns pf False s =
     start2 (s\<lparr>cb_vr := seq (cb_mmask s) (Suc n), cb_rejsent := False,
       cb_reseq := (cb_reseq s)(unat (cb_vr s) := \<lparr>rs_bp = [], rs_sum = byte_sum bp\<rparr>), cb_rx := procdata bp (cb_rx s)\<rparr>)"
proof -
  let ?v = "cb_vr s" and ?v' = "seq (cb_mmask s) (Suc n)"
  have mm: "0 < unat (cb_mmask s)" using g by (auto simp: good_mask_def ctl_defs)
  have v': "(?v + 1) AND cb_mmask s = ?v'" using seq_Suc [OF g, of n] v by simp
  have ne: "unat ?v' \<noteq> unat ?v" using seq_window [OF g, of n "Suc n"] mm v by (auto simp: word_unat_eq_iff)
  have nv: "?v \<noteq> (?v - 1) AND cb_mmask s"
  proof
    assume a: "?v = (?v - 1) AND cb_mmask s"
    have "(((?v - 1) AND cb_mmask s) + 1) AND cb_mmask s = ((?v - 1) + 1) AND cb_mmask s" by (rule good_mask_and [OF g])
    then have "(?v + 1) AND cb_mmask s = ?v AND cb_mmask s" unfolding a [symmetric] by simp
    moreover have "?v AND cb_mmask s = ?v" using seq_and [of "cb_mmask s" n] v by simp
    ultimately show False using v' ne by simp
  qed
  define a where "a = accept_frame ?v bp s"
  have a: "a = s\<lparr>cb_reseq := (cb_reseq s)(unat ?v := \<lparr>rs_bp = bp, rs_sum = byte_sum bp\<rparr>)\<rparr>"
    using e nv by (simp add: a_def accept_frame_def Let_def)
  define w where "w = vr_loop 256 a"
  have w: "w = a\<lparr>cb_vr := ?v', cb_rejsent := False\<rparr>"
  proof -
    have "vr_loop (Suc (Suc k)) a = a\<lparr>cb_vr := ?v', cb_rejsent := False\<rparr>" for k using e bp v' ne by (simp add: a)
    from this [of 254] show ?thesis by (simp add: w_def)
  qed
  have ng: "\<not> gap_behind ?v w" by (rule no_gap) (use e in \<open>simp add: w a\<close>)
  have d: "deliver_loop 256 ?v (start2 w) = (start2 w)\<lparr>cb_reseq := (cb_reseq s)(unat ?v := \<lparr>rs_bp = [], rs_sum = byte_sum bp\<rparr>), cb_rx := procdata bp (cb_rx s)\<rparr>"
  proof -
    have "deliver_loop (Suc (Suc k)) ?v (start2 w) =
        (start2 w)\<lparr>cb_reseq := (cb_reseq s)(unat ?v := \<lparr>rs_bp = [], rs_sum = byte_sum bp\<rparr>), cb_rx := procdata bp (cb_rx s)\<rparr>" for k
      using e bp v' ne by (simp add: w a start2_def Let_def)
    from this [of 254] show ?thesis by simp
  qed
  have av: "cb_vr a = ?v" by (simp add: a)
  have "resequence env bp ?v pf False s = deliver_loop 256 ?v (start2 w)"
    using bp ng unfolding resequence_def Let_def a_def [symmetric] w_def [symmetric] by (simp add: av)
  then show ?thesis unfolding d by (simp add: ns w a start2_def)
qed


text \<open>One station sends a datagram, the other hears it and acknowledges it when T2 runs out.\<close>

definition demo_env :: lenv where
  "demo_env = \<lparr>e_now = 0, e_avail = 10, e_fits = True, e_iface = True, e_services = True, e_held = 0, e_holds = False, e_mholds = False,
     e_marked = False, e_refused = False, e_conn_block = False, e_eax25_off = False, e_v2_asks = False, e_v2_always = False,
     e_route = False, e_port_maxframe = 0, e_port_emaxframe = 0, e_Maxframe = 7, e_EMaxframe = 32, e_Blimit = 16\<rparr>"

definition demo_a0 :: axcb where
  "demo_a0 = (path_timing 5000 0 (cr_ax25 2048 256 V2 64 10 5000 900000 0 0))\<lparr>cb_state := LAPB_CONNECTED\<rparr>"

definition "demo_a1 = fst (the (send_ax25 demo_env (\<lambda>_. False) True 0xf0 [[1, 2, 3]] demo_a0))"
definition "demo_i = hd (new_frames demo_a0 demo_a1)"
definition "demo_b1 = lapb_input demo_env (fst demo_i) (snd demo_i) demo_a0"
definition "demo_b2 = ax_t2_timeout demo_env demo_b1"
definition "demo_rr = hd (new_frames demo_b1 demo_b2)"
definition "demo_a2 = lapb_input demo_env (fst demo_rr) (snd demo_rr) demo_a1"

definition demo_start :: link where
  "demo_start = \<lparr>la = demo_a0, lb = demo_a0, lab = [], lba = [], lsa = [], lsb = []\<rparr>"

definition demo_end :: link where
  "demo_end = \<lparr>la = demo_a2, lb = demo_b2, lab = [], lba = [], lsa = [[0xf0, 1, 2, 3]], lsb = []\<rparr>"

lemma demo_cuts: "send_frames demo_env True 0xf0 [[1, 2, 3]] demo_a0 = Some [[[0xf0, 1, 2, 3]]]"
  by code_simp

lemma demo_takes: "map_option snd (send_ax25 demo_env (\<lambda>_. False) True 0xf0 [[1, 2, 3]] demo_a0) = Some True"
  by code_simp

lemma demo_pull: "pull8 [[0x21]] = (Some 0x21, [])" by code_simp
lemma demo_i_frame: "demo_i = (LAPB_COMMAND, [[0, 240, 1, 2, 3]])" by code_simp
lemmas timer_evals = Let_def event_def start1_def stop1_def start2_def stop2_def start3_def stop3_def
  start4_def stop4_def start5_def stop5_def start_t_def stop_t_def ctl_defs
lemmas input_evals = lapb_input_def pull8_def lapb_frame_def frame_ctl_def ftype_def lapb_dispatch_def in_established_def
  in_connected_def ackours_def ack_loop.simps

lemma demo_b1_is: "demo_b1 = demo_a0\<lparr>cb_vr := 1, cb_reseq := (\<lambda>_. \<lparr>rs_bp = [], rs_sum = 0\<rparr>)(0 := \<lparr>rs_bp = [], rs_sum = 246\<rparr>),
   cb_rx := \<lparr>rx_asm = [], rx_remain = 0, rx_up = [(240, [[1, 2, 3]])]\<rparr>, cb_t2 := \<lparr>tm_dur = 5000, tm_run = True\<rparr>,
   cb_t3 := \<lparr>tm_dur = 900000, tm_run = True\<rparr>\<rparr>"
  apply (simp add: demo_b1_def demo_i_frame demo_a0_def path_timing_def cr_ax25_def demo_env_def input_evals timer_evals)
  apply (subst resequence_next [where n = 0])
  apply (simp_all add: good_mask_def ctl_defs)
  apply (simp add: lapb_finish_def lapb_output_def timer_evals seq_def procdata_def pull_int_def pull8_def hand_up_def byte_sum_def PID_SEGMENT_def)
  done

lemma demo_b2_is: "demo_b2 = demo_b1\<lparr>cb_t2 := \<lparr>tm_dur = 5000, tm_run = False\<rparr>, cb_ev := [Raw LAPB_RESPONSE [[0x21]]]\<rparr>"
  by (simp add: demo_b2_def demo_b1_is demo_a0_def path_timing_def cr_ax25_def demo_env_def timer_evals ax_t2_timeout_def lapb_ack_now_def list_ex_iff sendctl_def sendframe_def
    busy_def pushdown_def ftype_def)

lemma demo_a1_is: "demo_a1 = demo_a0\<lparr>cb_txq := [[[0xf0, 1, 2, 3]]], cb_vs := 1, cb_unack := 1, cb_rtt_run := True,
     cb_t1 := \<lparr>tm_dur = 5000, tm_run = True\<rparr>, cb_ev := [Raw LAPB_COMMAND [[0, 0xf0, 1, 2, 3]]]\<rparr>"
  apply (simp add: demo_a1_def send_ax25_def demo_cuts)
  apply (simp add: demo_a0_def path_timing_def cr_ax25_def demo_env_def enqueue_def lapb_output_def timer_evals i_ctl_def sendframe_def pushdown_def dup_p_def)
  done

lemma demo_rr_is: "demo_rr = (LAPB_RESPONSE, [[0x21]])"
  by (simp add: demo_rr_def new_frames_def demo_b2_is demo_b1_is demo_a0_def path_timing_def cr_ax25_def)

lemma demo_a2_is: "up demo_a2 \<and> cb_txq demo_a2 = [] \<and> sentfr demo_a2 = sentfr demo_a1"
  apply (simp add: demo_a2_def demo_rr_is demo_a1_is demo_a0_def path_timing_def cr_ax25_def demo_env_def lapb_input_def demo_pull)
  apply (simp add: input_evals timer_evals rtt_update_def ax25_maxframe_def answer_poll_def remote_busy_def)
  apply (simp add: lapb_finish_def lapb_output_def timer_evals up_def)
  done
lemmas demo_states = demo_b2_is demo_b1_is demo_a1_is demo_a0_def path_timing_def cr_ax25_def demo_env_def

lemma demo_works:
  "works 7 demo_env (demo_a0\<lparr>cb_txq := cb_txq demo_a0 @ [[[0xf0, 1, 2, 3]]]\<rparr>)"
  "works 7 demo_env demo_a0" "works 7 demo_env demo_b1" "works 7 demo_env demo_a1" "up demo_a1" "up demo_b1" "up demo_b2"
  by (simp_all add: works_def copies_ok_def maxframe_ok_def demo_states good_mask_def ctl_defs up_def)

lemma demo_frames:
  "new_frames demo_a0 demo_a1 = [demo_i]" "new_frames demo_a0 demo_b1 = []" "new_frames demo_b1 demo_b2 = [demo_rr]"
  "new_frames demo_a1 demo_a2 = []"
  using demo_a2_is by (simp_all add: new_frames_def demo_i_frame demo_rr_is demo_states)

lemma demo_reachable: "(link_step 7)\<^sup>*\<^sup>* demo_start demo_end"
proof -
  let ?L1 = "demo_start\<lparr>la := demo_a1, lab := [demo_i], lsa := [[0xf0, 1, 2, 3]]\<rparr>"
  let ?L2 = "?L1\<lparr>lb := demo_b1, lab := []\<rparr>"
  let ?L3 = "?L2\<lparr>lb := demo_b2, lba := [demo_rr]\<rparr>"
  have "send_ax25 demo_env (\<lambda>_. False) True 0xf0 [[1, 2, 3]] demo_a0 = Some (demo_a1, True)"
    using demo_takes by (auto simp: demo_a1_def)
  then have "acts 7 demo_a0 demo_a1 (map content [[[0xf0, 1, 2, 3]]])" by (rule acts.send [OF demo_cuts demo_works(1)])
  then have "side_step 7 demo_start (demo_start\<lparr>la := demo_a1, lab := lab demo_start @ new_frames (la demo_start) demo_a1,
      lsa := lsa demo_start @ map content [[[0xf0, 1, 2, 3]]]\<rparr>)"
    using demo_works(5) by (intro side_step.acts) (simp_all add: demo_start_def)
  then have 1: "link_step 7 demo_start ?L1" by (intro link_step.A) (simp add: demo_start_def demo_frames(1))
  have "side_step 7 (swap ?L1) ((swap ?L1)\<lparr>la := demo_b1, lba := [], lab := lab (swap ?L1) @ new_frames (la (swap ?L1)) demo_b1\<rparr>)"
    by (rule side_step.hears [of _ "fst demo_i" "snd demo_i" "[]" 7 demo_env])
      (use demo_works(2,6) in \<open>simp_all add: swap_def demo_start_def demo_b1_def\<close>)
  then have 2: "link_step 7 ?L1 ?L2" by (intro link_step.B) (simp add: swap_def demo_start_def demo_frames(2))
  have "side_step 7 (swap ?L2) ((swap ?L2)\<lparr>la := demo_b2, lab := lab (swap ?L2) @ new_frames (la (swap ?L2)) demo_b2, lsa := lsa (swap ?L2) @ []\<rparr>)"
    using acts.t2 [OF demo_works(3)] demo_works(7) by (intro side_step.acts) (simp_all add: swap_def demo_b2_def)
  then have 3: "link_step 7 ?L2 ?L3" by (intro link_step.B) (simp add: swap_def demo_start_def demo_frames(3))
  have "side_step 7 ?L3 (?L3\<lparr>la := demo_a2, lba := [], lab := lab ?L3 @ new_frames (la ?L3) demo_a2\<rparr>)"
    by (rule side_step.hears [of _ "fst demo_rr" "snd demo_rr" "[]" 7 demo_env])
      (use demo_works(4) demo_a2_is in \<open>simp_all add: demo_a2_def\<close>)
  then have 4: "link_step 7 ?L3 demo_end" by (intro link_step.A) (simp add: demo_start_def demo_end_def demo_frames(4))
  show ?thesis using 1 2 3 4 by (meson converse_rtranclp_into_rtranclp rtranclp.rtrancl_refl)
qed

lemma demo_started: "link_start 7 7 demo_start"
  by (simp add: link_start_def demo_start_def station_ok_def fresh_def up_def demo_a0_def path_timing_def cr_ax25_def MMASK_def)

lemma demo_cut: "list_all2 is_cut [(0xf0, [1, 2, 3])] [[[0xf0, 1, 2, 3]]]"
proof -
  have "segmenter 10 True [[0xf0, 1, 2, 3]] 256 = [[[0xf0, 1, 2, 3]]]" by code_simp
  then have "is_cut (0xf0, [1, 2, 3]) [[0xf0, 1, 2, 3]]"
    unfolding is_cut_def
    by (intro conjI, simp add: PID_SEGMENT_def) (rule exI [of _ 10], rule exI [of _ True], rule exI [of _ "[[0xf0, 1, 2, 3]]"], rule exI [of _ 256], simp)
  then show ?thesis by simp
qed

section \<open>What the link guarantees\<close>

text \<open>C2: Data is neither lost, nor repeated, nor reordered.  Whatever the line loses and whenever the timers run, what a
  station has processed is the result of processing a first part of the payloads that its peer was given, in order, and the
  rest is still in the transmit queue of the peer; in particular everything has arrived when that queue is empty.\<close>
theorem link_delivers:
  assumes "good_mask mm" "W \<le> unat mm" "0 < W" "link_start W mm L0" "(link_step W)\<^sup>*\<^sup>* L0 L"
  shows "(\<exists>n. n \<le> length (lsa L) \<and> length (lsa L) \<le> n + length (cb_txq (la L)) \<and>
           rx_bytes (cb_rx (lb L)) = fold procbytes (take n (lsa L)) (rx_bytes (cb_rx (lb L0)))) \<and>
     (\<exists>n. n \<le> length (lsb L) \<and> length (lsb L) \<le> n + length (cb_txq (lb L)) \<and>
           rx_bytes (cb_rx (la L)) = fold procbytes (take n (lsb L)) (rx_bytes (cb_rx (la L0))))"
proof -
  obtain xs ys bA rB bB rA where fl:
      "flow W mm (lsa L) (la L) (lb L) (rx_bytes (cb_rx (lb L0))) bA rB (datas xs) (map snd ys)"
      "flow W mm (lsb L) (lb L) (la L) (rx_bytes (cb_rx (la L0))) bB rA (datas ys) (map snd xs)"
    using link_reach_inv [OF assms] unfolding link_inv_def by blast
  show ?thesis
    using flowD(2) [OF fl(1)] flowD(2) [OF fl(2)] flow_rs [OF fl(1)] flow_rs [OF fl(2)] sender_length [OF fl(1)] sender_length [OF fl(2)]
    unfolding receiver_ok_def by (intro conjI exI [of _ rB] exI [of _ rA]) auto
qed

lemma link_delivers_witness:
  "\<exists>n. n \<le> 1 \<and> 1 \<le> n \<and> rx_bytes (cb_rx demo_b2) = fold procbytes (take n [[0xf0, 1, 2, 3]]) \<lparr>rb_asm = [], rb_remain = 0, rb_up = []\<rparr>"
  using link_delivers [OF _ _ _ demo_started demo_reachable] demo_a2_is
  by (auto simp: demo_end_def demo_start_def demo_a0_def path_timing_def cr_ax25_def rx_bytes_def good_mask_def MMASK_def)

text \<open>C3: Seen from above, with segmentation: the datagrams handed up at one end are a first part of those given to the
  segmenter at the other, each whole, once and in order; they are all of them when the transmit queue of the sender is empty.\<close>
theorem link_datagrams:
  assumes "good_mask mm" "W \<le> unat mm" "0 < W" "link_start W mm L0" "(link_step W)\<^sup>*\<^sup>* L0 L"
    and cut: "list_all2 is_cut ds Q" "lsa L = concat Q" and idle: "rx_remain (cb_rx (lb L0)) = 0" "rx_asm (cb_rx (lb L0)) = []" "rx_up (cb_rx (lb L0)) = []"
  shows "prefix (rb_up (rx_bytes (cb_rx (lb L)))) (map (\<lambda>d. (uint (fst d), snd d)) ds) \<and>
     (cb_txq (la L) = [] \<longrightarrow> rb_up (rx_bytes (cb_rx (lb L))) = map (\<lambda>d. (uint (fst d), snd d)) ds)"
proof -
  let ?rx0 = "rx_bytes (cb_rx (lb L0))"
  obtain xs bA rB and ys :: "(nat option \<times> nat) list" where fl: "flow W mm (lsa L) (la L) (lb L) ?rx0 bA rB (datas xs) (map snd ys)"
    using link_reach_inv [OF assms(1-5)] unfolding link_inv_def by blast
  have i: "rb_remain ?rx0 = 0" "rb_asm ?rx0 = []" "rb_up ?rx0 = []" using idle by (simp_all add: rx_bytes_def)
  have all: "rb_up (fold procbytes (lsa L) ?rx0) = map (\<lambda>d. (uint (fst d), snd d)) ds"
    using is_cut_processed [OF cut(1) i(1,2)] i(3) by (simp add: cut(2))
  have rx: "rx_bytes (cb_rx (lb L)) = fold procbytes (take rB (lsa L)) ?rx0" "rB \<le> length (lsa L)"
    using flowD(2) [OF fl] by (simp_all add: receiver_ok_def)
  obtain l where "rb_up (fold procbytes (drop rB (lsa L)) (rx_bytes (cb_rx (lb L)))) = rb_up (rx_bytes (cb_rx (lb L))) @ l"
    using fold_procbytes_grows by blast
  moreover have "fold procbytes (drop rB (lsa L)) (rx_bytes (cb_rx (lb L))) = fold procbytes (lsa L) ?rx0"
    unfolding rx(1) by (metis append_take_drop_id fold_append o_apply)
  ultimately have "prefix (rb_up (rx_bytes (cb_rx (lb L)))) (map (\<lambda>d. (uint (fst d), snd d)) ds)" using all by (metis prefixI)
  moreover have "rB = length (lsa L)" if "cb_txq (la L) = []"
    using sender_length [OF fl] flow_rs [OF fl] rx(2) that by simp
  ultimately show ?thesis using rx(1) all by auto
qed


lemma link_datagrams_witness: "rb_up (rx_bytes (cb_rx demo_b2)) = [(0xf0, [1, 2, 3])]"
  using link_datagrams [OF _ _ _ demo_started demo_reachable demo_cut] demo_a2_is
  by (simp add: demo_end_def demo_start_def demo_a0_def path_timing_def cr_ax25_def good_mask_def MMASK_def)

end
