(* ===== verification/Lapb_Open.thy ===== *)
theory Lapb_Open
  imports Lapb_Setup Lapb_Service
begin

text \<open>
  What the set-up of a link guarantees: the exchange of SABM and UA, after a negotiation by XID or without one, puts both
  stations in a state from which the link is reliable (\<open>link_start\<close>); and where the set-up goes wrong.
\<close>

section \<open>The frames of the exchange\<close>

lemma pushdown_one: "pushdown fits [c] [] = [[c]]"
  by (simp add: pushdown_def)

lemma sendctl_sabm:
  "e_iface env \<Longrightarrow> sendctl env LAPB_COMMAND (SABM OR PF) s =
     event (Raw LAPB_COMMAND [[(if cb_mmask s = EMMASK then SABME else SABM) OR PF]]) s"
  by (simp add: sendctl_def sendframe_def ftype_def ctl_defs pushdown_one)

lemma sendctl_ua:
  "e_iface env \<Longrightarrow> sendctl env LAPB_RESPONSE (UA OR PF) s = event (Raw LAPB_RESPONSE [[UA OR PF]]) (s\<lparr>cb_rnrsent := False\<rparr>)"
  by (simp add: sendctl_def sendframe_def ftype_def ctl_defs pushdown_one)

lemma pullchar_one: "PULLCHAR [[c]] = (Some c, [])"
  by (simp add: pull8_def pullup.simps(2))

definition sabm_of :: "byte \<Rightarrow> lapb_cmdrsp \<times> chain" where
  "sabm_of mm = (LAPB_COMMAND, [[(if mm = EMMASK then SABME else SABM) OR PF]])"

definition ua_frame :: "lapb_cmdrsp \<times> chain" where
  "ua_frame = (LAPB_RESPONSE, [[UA OR PF]])"

text \<open>Nothing is left to send and nothing closes the link.\<close>

definition quiet :: "axcb \<Rightarrow> bool" where
  "quiet s \<longleftrightarrow> cb_txq s = [] \<and> \<not> cb_closed s \<and> cb_remotebusy s = 0 \<and> cb_unack s = 0"

lemma finish_quiet: "quiet s \<Longrightarrow> cb_state s = LAPB_CONNECTED \<Longrightarrow>
   \<exists>s'. lapb_finish env s = s' \<and> quiet s' \<and> cb_state s' = LAPB_CONNECTED \<and> core s' = core s \<and> sentfr s' = sentfr s \<and> cb_maxframe s' = cb_maxframe s"
  by (auto simp: lapb_finish_def lapb_output_def quiet_def Let_def)

definition accepts_link :: "lenv \<Rightarrow> byte \<Rightarrow> bool" where
  "accepts_link env mm \<longleftrightarrow> e_iface env \<and> \<not> e_refused env \<and> \<not> e_conn_block env \<and> (mm = EMMASK \<longrightarrow> \<not> e_eax25_off env)"

definition idle :: "axcb \<Rightarrow> bool" where
  "idle s \<longleftrightarrow> cb_state s = LAPB_DISCONNECTED \<and> cb_txq s = [] \<and> \<not> cb_closed s \<and> (\<forall>k \<le> 127. rs_bp (cb_reseq s k) = [])"

text \<open>What a station that is linked up looks like.\<close>

definition linked :: "byte \<Rightarrow> axcb \<Rightarrow> bool" where
  "linked mm s \<longleftrightarrow> cb_state s = LAPB_CONNECTED \<and> cb_mmask s = mm \<and> fresh s \<and> quiet s"

lemma finish_linked:
  assumes "cb_state s = LAPB_CONNECTED" "cb_mmask s = mm" "fresh s" "quiet s"
  shows "linked mm (lapb_finish env s) \<and> sentfr (lapb_finish env s) = sentfr s \<and> cb_maxframe (lapb_finish env s) = cb_maxframe s"
  using finish_quiet [OF assms(4,1)] assms(2,3) by (auto simp: linked_def fresh_def core_def)

lemma answer_sabm:
  assumes mm: "good_mask mm" and env: "accepts_link env mm" and b: "idle b"
  shows "linked mm (lapb_input env LAPB_COMMAND (snd (sabm_of mm)) b) \<and>
     sentfr (lapb_input env LAPB_COMMAND (snd (sabm_of mm)) b) = sentfr b @ [ua_frame] \<and>
     cb_maxframe (lapb_input env LAPB_COMMAND (snd (sabm_of mm)) b) = cb_maxframe b"
proof -
  let ?c = "(if mm = EMMASK then SABME else SABM) OR PF"
  have c: "ftype ?c = (if mm = EMMASK then SABME else SABM)" by (simp add: ftype_def ctl_defs)
  define b0 where "b0 = (let s = b\<lparr>cb_mmask := mm, cb_eax25_bit := (mm = EMMASK)\<rparr>
      in if mm = EMMASK then event Eax25_hint (event (Eax25_remember True) s) else s)"
  define b1 where "b1 = (if e_marked env then b0\<lparr>cb_dama_link := True\<rparr> else b0)"
  define f where "f = frame_ctl ?c None mm LAPB_COMMAND"
  have f: "fc_type f = ftype ?c" "fc_pf f" by (simp_all add: f_def frame_ctl_def c Let_def) (simp add: ctl_defs)
  have in1: "lapb_input env LAPB_COMMAND [[?c]] b = lapb_frame env LAPB_COMMAND ?c None [] b0"
    using mm env unfolding lapb_input_def pullchar_one Let_def b0_def accepts_link_def good_mask_def
    by (elim disjE) (simp_all add: ctl_defs ftype_def event_def)
  have b0: "cb_mmask b0 = mm" by (simp add: b0_def event_def Let_def)
  have in2: "lapb_frame env LAPB_COMMAND ?c None [] b0 = (let (s, cont) = in_disconnected env f b1 in if cont then lapb_finish env s else s)"
  proof -
    have st: "cb_state b1 = LAPB_DISCONNECTED" using b by (simp add: idle_def b1_def b0_def event_def Let_def)
    have ty: "fc_type f \<noteq> TEST" "fc_type f \<noteq> XID" unfolding f(1) c by (simp_all add: ctl_defs)
    show ?thesis
      unfolding lapb_frame_def b0 f_def [symmetric] b1_def [symmetric] Let_def using ty by (simp add: lapb_dispatch_def st)
  qed
  define s1 where "s1 = (let s = clr_ex (sendctl env LAPB_RESPONSE (UA OR PF) b1);
      s = s\<lparr>cb_unack := 0, cb_vr := 0, cb_vs := 0\<rparr>; s = start5 (start3 (lapbstate env LAPB_CONNECTED s))
      in if e_services env then s else event Serve s)"
  have s1: "cb_state s1 = LAPB_CONNECTED" "cb_mmask s1 = mm" "fresh s1" "quiet s1" "sentfr s1 = sentfr b @ [ua_frame]"
    "cb_maxframe s1 = cb_maxframe b"
    using env b by (auto simp: s1_def b1_def b0_def sendctl_ua accepts_link_def idle_def clr_ex_def lapbstate_def event_def fresh_def quiet_def
      start5_def start3_def stop4_def stop3_def ua_frame_def pfbit_def Let_def)
  have "pfbit (fc_pf f) = PF" "fc_type f = SABM \<or> fc_type f = SABME" using f c by (auto simp: pfbit_def)
  then have "in_disconnected env f b1 = (if cb_state s1 = LAPB_DISCONNECTED then (event Link_gone s1, False) else (s1, True))"
    unfolding in_disconnected_def s1_def Let_def by presburger
  then have "in_disconnected env f b1 = (s1, True)" using s1(1) by simp
  then have "lapb_input env LAPB_COMMAND [[?c]] b = lapb_finish env s1" using in1 in2 by simp
  then show ?thesis using finish_linked [OF s1(1-4), of env] s1(5,6) by (simp add: sabm_of_def)
qed

text \<open>A station that waits for the answer to its SABM.\<close>

definition waiting :: "byte \<Rightarrow> axcb \<Rightarrow> bool" where
  "waiting mm s \<longleftrightarrow> cb_state s = LAPB_SETUP \<and> cb_mmask s = mm \<and> cb_txq s = [] \<and> \<not> cb_closed s \<and> cb_remotebusy s = 0 \<and>
     (\<forall>k \<le> 127. rs_bp (cb_reseq s k) = [])"

lemma hear_ua:
  assumes a: "waiting mm a"
  shows "linked mm (lapb_input env LAPB_RESPONSE [[UA OR PF]] a) \<and>
     sentfr (lapb_input env LAPB_RESPONSE [[UA OR PF]] a) = sentfr a \<and>
     cb_maxframe (lapb_input env LAPB_RESPONSE [[UA OR PF]] a) = cb_maxframe a"
proof -
  define a0 where "a0 = (if e_marked env then a\<lparr>cb_dama_link := True\<rparr> else a)"
  define f where "f = frame_ctl (UA OR PF) None mm LAPB_RESPONSE"
  have f: "fc_type f = UA" by (simp add: f_def frame_ctl_def ftype_def ctl_defs Let_def)
  have in1: "lapb_input env LAPB_RESPONSE [[UA OR PF]] a = lapb_frame env LAPB_RESPONSE (UA OR PF) None [] a"
    using a unfolding lapb_input_def pullchar_one Let_def waiting_def by (simp add: ftype_def ctl_defs)
  have in2: "lapb_frame env LAPB_RESPONSE (UA OR PF) None [] a = (let (s, cont) = in_setup env f a0 in if cont then lapb_finish env s else s)"
  proof -
    have st: "cb_state a0 = LAPB_SETUP" "cb_mmask a = mm" using a by (simp_all add: waiting_def a0_def)
    have ty: "fc_type f \<noteq> TEST" "fc_type f \<noteq> XID" unfolding f by (simp_all add: ctl_defs)
    show ?thesis
      unfolding lapb_frame_def st(2) f_def [symmetric] a0_def [symmetric] Let_def using ty by (simp add: lapb_dispatch_def st(1))
  qed
  define s1 where "s1 = fst (in_setup env f a0)"
  have i: "in_setup env f a0 = (s1, True)" by (simp add: s1_def in_setup_def f Let_def ctl_defs)
  have s1: "cb_state s1 = LAPB_CONNECTED" "cb_mmask s1 = mm" "fresh s1" "quiet s1" "sentfr s1 = sentfr a" "cb_maxframe s1 = cb_maxframe a"
    using a by (auto simp: s1_def in_setup_def f a0_def waiting_def lapbstate_def event_def fresh_def quiet_def
      start5_def start3_def stop1_def Let_def ctl_defs)
  show ?thesis using finish_linked [OF s1(1-4), of env] s1(5,6) in1 in2 i by simp
qed

section \<open>The opening station\<close>

definition xid_frame :: "lapb_cmdrsp \<Rightarrow> lenv \<Rightarrow> senv \<Rightarrow> lapb_cmdrsp \<times> chain" where
  "xid_frame cr env se = (cr, pushdown (e_fits env) [XID OR PF] (our_info env se))"

lemma send_xid:
  "e_iface env \<Longrightarrow> sendframe env cr (XID OR PF) None (our_info env se) s = event (Raw cr (snd (xid_frame cr env se))) s"
  by (simp add: sendframe_def xid_frame_def ctl_defs)

text \<open>What the parameters of the peer do to the control block.\<close>

lemma apply_peer [simp]:
  "core (ax25_apply_peer_xid n k s) = core s" "cb_state (ax25_apply_peer_xid n k s) = cb_state s"
  "cb_closed (ax25_apply_peer_xid n k s) = cb_closed s" "cb_remotebusy (ax25_apply_peer_xid n k s) = cb_remotebusy s"
  "cb_ev (ax25_apply_peer_xid n k s) = cb_ev s" "cb_neg_wait (ax25_apply_peer_xid n k s) = cb_neg_wait s"
  by (simp_all add: ax25_apply_peer_xid_def core_def Let_def)

lemma apply_peer_core [simp]:
  "cb_txq (ax25_apply_peer_xid n k s) = cb_txq s" "cb_reseq (ax25_apply_peer_xid n k s) = cb_reseq s"
  "cb_mmask (ax25_apply_peer_xid n k s) = cb_mmask s"
  by (rule core_eqD, rule apply_peer)+

lemma apply_peer_maxframe:
  "cb_maxframe (ax25_apply_peer_xid n k s) \<le> cb_maxframe s"
  "0 < k \<Longrightarrow> cb_maxframe (ax25_apply_peer_xid n k s) \<le> int k \<and> cb_maxframe (ax25_apply_peer_xid n k s) \<le> int (unat (cb_mmask s))"
proof -
  define m where "m = unat (cb_mmask s)"
  have mi: "uint (cb_mmask s) = int m" by (simp add: m_def)
  have "cb_maxframe (ax25_apply_peer_xid n k s) = (if k = 0 then cb_maxframe s else min (cb_maxframe s) (int (min k m)))"
    unfolding ax25_apply_peer_xid_def Let_def by (auto simp: m_def [symmetric] mi min_def)
  then show "cb_maxframe (ax25_apply_peer_xid n k s) \<le> cb_maxframe s"
    "0 < k \<Longrightarrow> cb_maxframe (ax25_apply_peer_xid n k s) \<le> int k \<and> cb_maxframe (ax25_apply_peer_xid n k s) \<le> int (unat (cb_mmask s))"
    by (auto simp: m_def [symmetric] mi)
qed

lemma wanted_good: "good_mask (eax25_wanted env se rt)"
  by (auto simp: eax25_wanted_def good_mask_def split: option.splits verdict.splits)

lemma known_peer_same:
  "core (ss_cb (known_peer se st)) = core (ss_cb st)" "cb_state (ss_cb (known_peer se st)) = cb_state (ss_cb st)"
  "cb_closed (ss_cb (known_peer se st)) = cb_closed (ss_cb st)" "cb_remotebusy (ss_cb (known_peer se st)) = cb_remotebusy (ss_cb st)"
  "cb_ev (ss_cb (known_peer se st)) = cb_ev (ss_cb st)" "cb_neg_wait (ss_cb (known_peer se st)) = cb_neg_wait (ss_cb st)"
  "cb_maxframe (ss_cb (known_peer se st)) \<le> cb_maxframe (ss_cb st)"
  by (auto simp: known_peer_def Let_def apply_peer_maxframe split: option.splits)

text \<open>The control block as \<^verbatim>\<open>est_link\<close> has prepared it, before a frame is sent.\<close>

definition prepared :: "byte \<Rightarrow> axcb \<Rightarrow> axcb \<Rightarrow> bool" where
  "prepared mm s s' \<longleftrightarrow> cb_mmask s' = mm \<and> cb_txq s' = [] \<and> \<not> cb_closed s' \<and> cb_remotebusy s' = 0 \<and>
     (\<forall>k \<le> 127. rs_bp (cb_reseq s' k) = []) \<and> cb_ev s' = cb_ev s \<and> cb_neg_wait s' = cb_neg_wait s \<and> cb_maxframe s' \<le> cb_maxframe s \<and>
     cb_state s' = LAPB_DISCONNECTED"

definition est_prepare :: "lenv \<Rightarrow> senv \<Rightarrow> sess \<Rightarrow> sess" where
  "est_prepare env se st =
     (let s = (clr_ex (ss_cb st))\<lparr>cb_retries := 0, cb_eax25_probes := 0, cb_eax25_dmed := False\<rparr>;
          rt = eax25_age (ss_rt st);
          s = s\<lparr>cb_peer_n1 := 0, cb_peer_k := 0\<rparr>;
          s = eax25_mark (s\<lparr>cb_mmask := eax25_wanted env se rt\<rparr>)
      in known_peer se (st\<lparr>ss_cb := s, ss_rt := rt, ss_segment := 0\<rparr>))"

lemma est_prepared:
  assumes "idle (ss_cb st)"
  shows "prepared (eax25_wanted env se (eax25_age (ss_rt st))) (ss_cb st) (ss_cb (est_prepare env se st))"
proof -
  define s where "s = eax25_mark ((clr_ex (ss_cb st))\<lparr>cb_retries := 0, cb_eax25_probes := 0, cb_eax25_dmed := False,
    cb_peer_n1 := 0, cb_peer_k := 0, cb_mmask := eax25_wanted env se (eax25_age (ss_rt st))\<rparr>)"
  define st2 where "st2 = st\<lparr>ss_cb := s, ss_rt := eax25_age (ss_rt st), ss_segment := 0\<rparr>"
  have e: "est_prepare env se st = known_peer se st2" by (simp add: est_prepare_def s_def st2_def Let_def)
  have s: "cb_mmask s = eax25_wanted env se (eax25_age (ss_rt st))" "cb_txq s = []" "\<not> cb_closed s" "cb_remotebusy s = 0"
    "\<forall>k \<le> 127. rs_bp (cb_reseq s k) = []" "cb_ev s = cb_ev (ss_cb st)" "cb_neg_wait s = cb_neg_wait (ss_cb st)"
    "cb_maxframe s = cb_maxframe (ss_cb st)" "cb_state s = LAPB_DISCONNECTED"
    using assms by (simp_all add: s_def eax25_mark_def clr_ex_def stop3_def stop4_def idle_def)
  have k: "ss_cb st2 = s" by (simp add: st2_def)
  show ?thesis unfolding prepared_def e
    using known_peer_same [of se st2, unfolded k] core_eqD [OF known_peer_same(1), of se st2, unfolded k] s by simp
qed

lemma est_sabm_sent:
  assumes "e_iface env" "prepared mm s s'"
  shows "waiting mm (lapbstate env LAPB_SETUP (est_link_sabm env s'))"
    "sentfr (lapbstate env LAPB_SETUP (est_link_sabm env s')) = sentfr s @ [sabm_of mm]"
    "cb_neg_wait (lapbstate env LAPB_SETUP (est_link_sabm env s')) = cb_neg_wait s"
    "cb_maxframe (lapbstate env LAPB_SETUP (est_link_sabm env s')) \<le> cb_maxframe s" "\<not> freed s (est_link_sabm env s')"
  using assms by (auto simp: waiting_def prepared_def est_link_sabm_def sendctl_sabm event_def start1_def stop3_def lapbstate_def sabm_of_def
      freed_def Let_def)

lemma est_xid_sent:
  assumes "e_iface env" "prepared mm s (ss_cb st)"
  shows "waiting mm (lapbstate env LAPB_SETUP (ss_cb (est_link_xid env se st)))"
    "sentfr (lapbstate env LAPB_SETUP (ss_cb (est_link_xid env se st))) = sentfr s @ [xid_frame LAPB_COMMAND env se]"
    "cb_neg_wait (lapbstate env LAPB_SETUP (ss_cb (est_link_xid env se st)))"
    "cb_maxframe (lapbstate env LAPB_SETUP (ss_cb (est_link_xid env se st))) \<le> cb_maxframe s"
    "\<not> freed s (ss_cb (est_link_xid env se st))"
  using assms by (auto simp: waiting_def prepared_def est_link_xid_def send_xid event_def start1_def stop3_def lapbstate_def xid_frame_def
      freed_def Let_def)

lemma opened_sends:
  assumes env: "e_iface env" and st: "idle (ss_cb st)" "\<not> cb_neg_wait (ss_cb st)" and o: "open_active env se openpid blocks st = Opened st'"
  defines "mm \<equiv> eax25_wanted env se (eax25_age (ss_rt st))"
  shows "waiting mm (ss_cb st') \<and> cb_maxframe (ss_cb st') \<le> cb_maxframe (ss_cb st) \<and>
     sentfr (ss_cb st') = sentfr (ss_cb st) @ [if cb_neg_wait (ss_cb st') then xid_frame LAPB_COMMAND env se else sabm_of mm]"
proof -
  let ?p = "est_prepare env se st"
  have p: "prepared mm (ss_cb st) (ss_cb ?p)" using est_prepared [OF st(1)] by (simp add: mm_def)
  have sv: "\<not> e_services env" using o by (simp add: open_active_def split: if_splits)
  have "est_link env se st \<in> {est_link_xid env se ?p, ?p\<lparr>ss_cb := est_link_sabm env (ss_cb ?p)\<rparr>,
      ?p\<lparr>ss_cb := lapbstate env LAPB_DISCONNECTED ((ss_cb ?p)\<lparr>cb_txq := [], cb_reason := LB_NEGOTIATION\<rparr>)\<rparr>}"
    by (simp add: est_link_def est_prepare_def Let_def)
  moreover have "freed (ss_cb st) (lapbstate env LAPB_DISCONNECTED ((ss_cb ?p)\<lparr>cb_txq := [], cb_reason := LB_NEGOTIATION\<rparr>))"
    using sv p by (simp add: freed_def lapbstate_def event_def prepared_def Let_def stop1_def stop2_def stop3_def stop4_def stop5_def)
  ultimately show ?thesis
    using o st est_sabm_sent [OF env p] est_xid_sent [OF env p, of se]
    by (auto simp: open_active_def idle_def Let_def split: if_splits)
qed

section \<open>The XID frames\<close>

lemma hear_xid:
  assumes "\<not> e_refused env" "\<not> e_conn_block env" and c: "content bpp = (XID OR PF) # bs" and cr: "cr \<noteq> LAPB_UNKNOWN"
  shows "\<exists>b'. content b' = bs \<and> session_input env se cr bpp st =
     xid_input env se cr True b' (st\<lparr>ss_cb := event (Xid_in cr True b')
       (if e_marked env then (ss_cb st)\<lparr>cb_dama_link := True\<rparr> else ss_cb st)\<rparr>)"
proof -
  let ?s = "ss_cb st"
  obtain b' where b': "PULLCHAR bpp = (Some (XID OR PF), b')" "content b' = bs"
    using PULLCHAR_content [of bpp] c by (cases "PULLCHAR bpp") auto
  have ne: "bpp \<noteq> []" using c by auto
  define s0 where "s0 = (if e_marked env then ?s\<lparr>cb_dama_link := True\<rparr> else ?s)"
  have s0: "cb_ev s0 = cb_ev ?s" by (simp add: s0_def)
  have "lapb_input env cr bpp ?s = event (Xid_in cr True b') s0"
    using assms(1,2) ne cr unfolding lapb_input_def b'(1) Let_def lapb_frame_def frame_ctl_def s0_def
    by (simp add: ftype_def ctl_defs)
  then have "session_input env se cr bpp st = xid_input env se cr True b' (st\<lparr>ss_cb := event (Xid_in cr True b') s0\<rparr>)"
    by (simp add: session_input_def session_step_def session_event_def Let_def s0)
  then show ?thesis using b'(2) by (auto simp: s0_def)
qed

lemma xid_frame_content: "e_iface env \<Longrightarrow> content (snd (xid_frame cr env se)) =
   (XID OR PF) # content (our_info env se)"
  by (simp add: xid_frame_def content_simps)

text \<open>The station that is called answers the question and stays as it is.\<close>

lemma answer_xid:
  assumes b: "idle (ss_cb sb)" and env: "e_iface envB" "\<not> e_refused envB" "\<not> e_conn_block envB" "s_v2 seB \<noteq> K_OFF"
    and c: "content bpp = (XID OR PF) # bs"
  defines "sb1 \<equiv> session_input envB seB LAPB_COMMAND bpp sb"
  shows "idle (ss_cb sb1) \<and> sentfr (ss_cb sb1) = sentfr (ss_cb sb) @ [xid_frame LAPB_RESPONSE envB seB] \<and>
     cb_maxframe (ss_cb sb1) = cb_maxframe (ss_cb sb)"
proof -
  obtain b' where e: "sb1 = xid_input envB seB LAPB_COMMAND True b' (sb\<lparr>ss_cb := event (Xid_in LAPB_COMMAND True b')
       (if e_marked envB then (ss_cb sb)\<lparr>cb_dama_link := True\<rparr> else ss_cb sb)\<rparr>)"
    using hear_xid [OF env(2,3) c, of LAPB_COMMAND seB sb] by (auto simp: sb1_def)
  have "ss_cb sb1 = event (Raw LAPB_RESPONSE (snd (xid_frame LAPB_RESPONSE envB seB))) (event (Xid_in LAPB_COMMAND True b')
       (if e_marked envB then (ss_cb sb)\<lparr>cb_dama_link := True\<rparr> else ss_cb sb))"
    using env unfolding e xid_input_def Let_def by (simp add: pfbit_def send_xid)
  then show ?thesis using b by (simp add: idle_def event_def xid_frame_def)
qed

definition agreed_mask :: "senv \<Rightarrow> senv \<Rightarrow> byte \<Rightarrow> byte" where
  "agreed_mask seA seB mm =
     (if s_eax25 seA = K_OFF then mm else if s_eax25 seB = K_OFF then MMASK else EMMASK)"

text \<open>The calling station goes on with the modulus of the answer and a window that the other end can take.\<close>

lemma hear_answer:
  fixes seA seB :: senv
  assumes a: "waiting mm (ss_cb sa)" "cb_neg_wait (ss_cb sa)" "good_mask mm"
    and env: "e_iface envA" "\<not> e_refused envA" "\<not> e_conn_block envA" "e_iface envB"
  defines "sa1 \<equiv> session_input envA seA LAPB_RESPONSE (snd (xid_frame LAPB_RESPONSE envB seB)) sa"
    and "mm' \<equiv> agreed_mask seA seB mm"
  shows "waiting mm' (ss_cb sa1) \<and> sentfr (ss_cb sa1) = sentfr (ss_cb sa) @ [sabm_of mm'] \<and> good_mask mm' \<and>
     cb_maxframe (ss_cb sa1) \<le> int (unat (xid_krx (s_node seB) (s_ifp seB) (s_eax25 seB \<noteq> K_OFF))) \<and>
     cb_maxframe (ss_cb sa1) \<le> int (unat mm')"
proof -
  let ?k = "xid_krx (s_node seB) (s_ifp seB) (s_eax25 seB \<noteq> K_OFF)"
  obtain b' where b': "content b' = content (our_info envB seB)" and
    e: "sa1 = xid_input envA seA LAPB_RESPONSE True b' (sa\<lparr>ss_cb := event (Xid_in LAPB_RESPONSE True b')
       (if e_marked envA then (ss_cb sa)\<lparr>cb_dama_link := True\<rparr> else ss_cb sa)\<rparr>)"
    using hear_xid [where cr = LAPB_RESPONSE and se = seA and st = sa,
        OF env(2,3) xid_frame_content [where cr = LAPB_RESPONSE and se = seB, OF env(4)]] by (auto simp: sa1_def)
  define xi where "xi = fst (xid_parse b')"
  have "xi_mod128 xi = (s_eax25 seB \<noteq> K_OFF) \<and> xi_window xi = ?k \<and> xi_srej xi"
    using our_info_read [of b' "e_fits envB" "s_node seB" "s_ifp seB" "s_eax25 seB \<noteq> K_OFF" True "s_hop2hop seB"] b' env(4)
    by (auto simp: xi_def our_info_def)
  then have xi: "xi_mod128 xi = (s_eax25 seB \<noteq> K_OFF)" "xi_window xi = ?k" "xi_srej xi" by simp_all
  define s where "s = (event (Xid_in LAPB_RESPONSE True b') (if e_marked envA then (ss_cb sa)\<lparr>cb_dama_link := True\<rparr> else ss_cb sa))
      \<lparr>cb_proto := V2_2, cb_peer_srej := True\<rparr>"
  have s: "waiting mm s" "cb_neg_wait s" "sentfr s = sentfr (ss_cb sa)"
    using a by (auto simp: s_def waiting_def event_def)
  have e2: "ss_cb sa1 = xid_go_on envA seA xi s"
    using s(2) xi(3) a(2) unfolding e xid_input_def Let_def xi_def [symmetric] by (simp add: s_def event_def)
  define s' where "s' = (if s_eax25 seA \<noteq> K_OFF \<and> cb_mmask s \<noteq> mm' then eax25_mark (s\<lparr>cb_mmask := mm'\<rparr>) else s)"
  have s': "waiting mm' s'" "sentfr s' = sentfr (ss_cb sa)"
    using s by (auto simp: s'_def mm'_def agreed_mask_def waiting_def eax25_mark_def)
  define s2 where "s2 = (ax25_apply_peer_xid (unat (xi_n1rx xi)) (unat ?k) s')\<lparr>cb_neg_wait := False, cb_retries := 0\<rparr>"
  have e3: "ss_cb sa1 = est_link_sabm envA s2"
    using env(1) xi(1,2) unfolding e2 xid_go_on_def Let_def s2_def s'_def mm'_def agreed_mask_def by auto
  have s2: "waiting mm' s2" "sentfr s2 = sentfr (ss_cb sa)" "cb_maxframe s2 = cb_maxframe (ax25_apply_peer_xid (unat (xi_n1rx xi)) (unat ?k) s')"
    using s' by (simp_all add: s2_def waiting_def)
  have k: "0 < unat ?k" using krx_range(1) [of "s_node seB" "s_ifp seB" "s_eax25 seB \<noteq> K_OFF"]
    by (simp add: word_le_nat_alt)
  have mf: "cb_maxframe s2 \<le> int (unat ?k) \<and> cb_maxframe s2 \<le> int (unat mm')"
    using apply_peer_maxframe(2) [OF k, of "unat (xi_n1rx xi)" s'] s'(1) by (simp add: s2(3) waiting_def)
  show ?thesis
    using s2(1,2) mf a(3) env(1) unfolding e3
    by (auto simp: waiting_def est_link_sabm_def sendctl_sabm event_def start1_def stop3_def sabm_of_def mm'_def agreed_mask_def good_mask_def)
qed

section \<open>Setting up a link\<close>

definition hears :: "lenv \<Rightarrow> (lapb_cmdrsp \<times> chain) list \<Rightarrow> axcb \<Rightarrow> axcb" where
  "hears env fs s = fold (\<lambda>f. lapb_input env (fst f) (snd f)) fs s"

definition session_hears :: "lenv \<Rightarrow> senv \<Rightarrow> (lapb_cmdrsp \<times> chain) list \<Rightarrow> sess \<Rightarrow> sess" where
  "session_hears env se fs st = fold (\<lambda>f. session_input env se (fst f) (snd f)) fs st"

definition new_link :: "axcb \<Rightarrow> axcb \<Rightarrow> link" where
  "new_link a b = \<lparr>la = a, lb = b, lab = [], lba = [], lsa = [], lsb = []\<rparr>"

lemma linked_start:
  assumes "linked mm a" "linked mm b" "cb_maxframe a \<le> int W" "cb_maxframe b \<le> int W"
  shows "link_start W mm (new_link a b)"
  using assms by (simp add: link_start_def new_link_def linked_def station_ok_def quiet_def up_def)

lemma sabm_ua:
  fixes envA :: lenv
  assumes "good_mask mm" "accepts_link envB mm" "idle b" "waiting mm a" "sentfr a = fs @ [sabm_of mm]"
  defines "b1 \<equiv> hears envB [sabm_of mm] b"
  defines "a1 \<equiv> hears envA (new_frames b b1) a"
  shows "new_frames b b1 = [ua_frame] \<and> new_frames a a1 = [] \<and> linked mm a1 \<and> linked mm b1 \<and>
     cb_maxframe a1 = cb_maxframe a \<and> cb_maxframe b1 = cb_maxframe b"
proof -
  have b1: "b1 = lapb_input envB LAPB_COMMAND (snd (sabm_of mm)) b" by (simp add: b1_def hears_def sabm_of_def)
  have n: "new_frames b b1 = [ua_frame]" using answer_sabm [OF assms(1-3)] by (simp add: b1 new_frames_def)
  have a1: "a1 = lapb_input envA LAPB_RESPONSE [[UA OR PF]] a" by (simp add: a1_def n hears_def ua_frame_def)
  show ?thesis using n answer_sabm [OF assms(1-3)] hear_ua [OF assms(4), of envA] by (simp add: a1 b1 new_frames_def)
qed

text \<open>C10: A link that is opened without a question by XID is set up by one SABM or SABME and one UA: both stations then run the
  same modulus with all numbers zero and nothing stored, which is where the transfer of data starts.\<close>
theorem sabm_sets_up_link:
  assumes "idle (ss_cb sa)" "\<not> cb_neg_wait (ss_cb sa)" "e_iface envA" "open_active envA seA openpid blocks sa = Opened sa1"
    "\<not> cb_neg_wait (ss_cb sa1)" "idle b" "accepts_link envB (cb_mmask (ss_cb sa1))"
    "cb_maxframe (ss_cb sa) \<le> int W" "cb_maxframe b \<le> int W"
  shows "let b1 = hears envB (new_frames (ss_cb sa) (ss_cb sa1)) b; a1 = hears envA (new_frames b b1) (ss_cb sa1)
     in length (new_frames (ss_cb sa) (ss_cb sa1)) = 1 \<and> length (new_frames b b1) = 1 \<and> new_frames (ss_cb sa1) a1 = [] \<and>
        good_mask (cb_mmask a1) \<and> link_start W (cb_mmask a1) (new_link a1 b1)"
proof -
  define mm where "mm = eax25_wanted envA seA (eax25_age (ss_rt sa))"
  have g: "good_mask mm" by (simp add: mm_def wanted_good)
  note o = opened_sends [OF assms(3,1,2,4), folded mm_def]
  have n: "new_frames (ss_cb sa) (ss_cb sa1) = [sabm_of mm]" using o assms(5) by (simp add: new_frames_def)
  have w: "waiting mm (ss_cb sa1)" "sentfr (ss_cb sa1) = sentfr (ss_cb sa) @ [sabm_of mm]" using o assms(5) by simp_all
  have acc: "accepts_link envB mm" using assms(7) w(1) by (simp add: waiting_def)
  define b1 where "b1 = hears envB [sabm_of mm] b"
  define a1 where "a1 = hears envA (new_frames b b1) (ss_cb sa1)"
  note sabm_ua [OF g acc assms(6) w, of envA, folded b1_def, folded a1_def]
  then have l: "new_frames b b1 = [ua_frame]" "new_frames (ss_cb sa1) a1 = []" "linked mm a1" "linked mm b1"
    "cb_maxframe a1 = cb_maxframe (ss_cb sa1)" "cb_maxframe b1 = cb_maxframe b" by simp_all
  have "link_start W mm (new_link a1 b1)"
    using o assms(8,9) l(5,6) by (intro linked_start l(3,4)) auto
  then show ?thesis
    using l g unfolding Let_def n b1_def [symmetric] a1_def [symmetric] by (simp add: linked_def)
qed

text \<open>C4: A link that is opened with a question by XID: after question, answer, SABM or SABME and UA both stations run modulo 128
  when neither port has it switched off and modulo 8 otherwise, all numbers are zero, and the window of the caller is not above
  what the called station said it can receive.\<close>
theorem xid_negotiates_link:
  assumes "idle (ss_cb sa)" "\<not> cb_neg_wait (ss_cb sa)" "open_active envA seA openpid blocks sa = Opened sa1"
    "cb_neg_wait (ss_cb sa1)" "idle (ss_cb sb)"
    and env: "e_iface envA" "\<not> e_refused envA" "\<not> e_conn_block envA" "e_iface envB" "\<not> e_refused envB" "\<not> e_conn_block envB"
    and B: "s_v2 seB \<noteq> K_OFF" "e_eax25_off envB = (s_eax25 seB = K_OFF)" "cb_maxframe (ss_cb sb) \<le> 7"
  shows "let sb1 = session_hears envB seB (new_frames (ss_cb sa) (ss_cb sa1)) sb;
             sa2 = session_hears envA seA (new_frames (ss_cb sb) (ss_cb sb1)) sa1;
             b2 = hears envB (new_frames (ss_cb sa1) (ss_cb sa2)) (ss_cb sb1);
             a3 = hears envA (new_frames (ss_cb sb1) b2) (ss_cb sa2);
             mm = (if s_eax25 seA = K_OFF \<or> s_eax25 seB = K_OFF then MMASK else EMMASK)
         in link_start (unat mm) mm (new_link a3 b2) \<and>
            cb_maxframe a3 \<le> int (unat (xid_krx (s_node seB) (s_ifp seB) (s_eax25 seB \<noteq> K_OFF)))"
proof -
  define m0 where "m0 = eax25_wanted envA seA (eax25_age (ss_rt sa))"
  define mm where "mm = agreed_mask seA seB m0"
  have off: "s_eax25 seA = K_OFF \<Longrightarrow> m0 = MMASK" by (simp add: m0_def eax25_wanted_def)
  then have mm: "mm = (if s_eax25 seA = K_OFF \<or> s_eax25 seB = K_OFF then MMASK else EMMASK)" by (auto simp: mm_def agreed_mask_def)
  note o = opened_sends [OF env(1) assms(1-3), folded m0_def]
  have n1: "new_frames (ss_cb sa) (ss_cb sa1) = [xid_frame LAPB_COMMAND envA seA]" using o assms(4) by (simp add: new_frames_def)
  define sb1 where "sb1 = session_hears envB seB [xid_frame LAPB_COMMAND envA seA] sb"
  have "sb1 = session_input envB seB LAPB_COMMAND (snd (xid_frame LAPB_COMMAND envA seA)) sb"
    by (simp add: sb1_def session_hears_def) (simp add: xid_frame_def)
  note b1 = answer_xid [OF assms(5) env(4-6) B(1) xid_frame_content [OF env(1), of LAPB_COMMAND seA], folded this]
  have n2: "new_frames (ss_cb sb) (ss_cb sb1) = [xid_frame LAPB_RESPONSE envB seB]" using b1 by (simp add: new_frames_def)
  define sa2 where "sa2 = session_hears envA seA [xid_frame LAPB_RESPONSE envB seB] sa1"
  have "sa2 = session_input envA seA LAPB_RESPONSE (snd (xid_frame LAPB_RESPONSE envB seB)) sa1"
    by (simp add: sa2_def session_hears_def) (simp add: xid_frame_def)
  note a2 = hear_answer [OF _ assms(4) _ env(1-4), of m0 seA seB, folded this mm_def]
  have a2: "waiting mm (ss_cb sa2)" "sentfr (ss_cb sa2) = sentfr (ss_cb sa1) @ [sabm_of mm]" "good_mask mm"
    "cb_maxframe (ss_cb sa2) \<le> int (unat (xid_krx (s_node seB) (s_ifp seB) (s_eax25 seB \<noteq> K_OFF)))"
    "cb_maxframe (ss_cb sa2) \<le> int (unat mm)"
    using a2 o wanted_good [of envA seA] by (auto simp: m0_def)
  have n3: "new_frames (ss_cb sa1) (ss_cb sa2) = [sabm_of mm]" using a2(2) by (simp add: new_frames_def)
  have acc: "accepts_link envB mm" using env B(2) by (auto simp: accepts_link_def mm ctl_defs)
  note l = sabm_ua [OF a2(3) acc _ a2(1,2), of "ss_cb sb1" envA]
  define b2 where "b2 = hears envB [sabm_of mm] (ss_cb sb1)"
  define a3 where "a3 = hears envA (new_frames (ss_cb sb1) b2) (ss_cb sa2)"
  have l: "linked mm a3" "linked mm b2" "cb_maxframe a3 = cb_maxframe (ss_cb sa2)" "cb_maxframe b2 = cb_maxframe (ss_cb sb1)"
    using l b1 by (auto simp: a3_def b2_def)
  have m7: "7 \<le> int (unat mm)" using a2(3) by (auto simp: good_mask_def ctl_defs)
  have "link_start (unat mm) mm (new_link a3 b2)"
    using l a2(5) b1 B(3) m7 by (intro linked_start) auto
  then show ?thesis
    using a2(4) l(3) unfolding Let_def n1 sb1_def [symmetric] n2 sa2_def [symmetric] n3 b2_def [symmetric] a3_def [symmetric] mm [symmetric]
    by simp
qed

section \<open>Where it goes wrong\<close>

lemma est_link_refuses:
  assumes "e_iface env" "s_v2 se = K_ALWAYS" "ss_rt (est_prepare env se st) = Some r" "r_xid r = R_NO" "r_frmr r"
  shows "est_link env se st =
    (est_prepare env se st)\<lparr>ss_cb := lapbstate env LAPB_DISCONNECTED ((ss_cb (est_prepare env se st))\<lparr>cb_txq := [], cb_reason := LB_NEGOTIATION\<rparr>)\<rparr>"
  using assms by (simp add: est_link_def est_prepare_def Let_def xid_may_probe_def ax25_v2_refused_def)

lemma prepare_route: "ss_rt (est_prepare env se st) = eax25_age (ss_rt st)"
  by (simp add: est_prepare_def known_peer_def Let_def split: option.split)

lemma age_keeps: "eax25_age (Some r) = Some r' \<Longrightarrow> r_xid r' = r_xid r \<and> r_frmr r' = r_frmr r"
  by (auto simp: eax25_age_def Let_def split: if_splits)

text \<open>C33: On a port with \<^verbatim>\<open>ax25-v2.2 always\<close>, opening a link to a station that once answered XID with FRMR uses freed memory:
  \<^verbatim>\<open>est_link\<close> refuses and takes the control block away, and \<^verbatim>\<open>open_ax25\<close> then sets its state and returns it.  It happens
  in no other case.\<close>
theorem refused_open_dangles:
  assumes "idle (ss_cb st)" "e_iface env" "\<not> e_services env"
  shows "(\<exists>st'. open_active env se openpid False st = Dangling st') \<longleftrightarrow>
     s_v2 se = K_ALWAYS \<and> (\<exists>r. ss_rt st = Some r \<and> r_xid r = R_NO \<and> r_frmr r)"
proof
  let ?p = "est_prepare env se st"
  assume "s_v2 se = K_ALWAYS \<and> (\<exists>r. ss_rt st = Some r \<and> r_xid r = R_NO \<and> r_frmr r)"
  then obtain r where r: "s_v2 se = K_ALWAYS" "ss_rt st = Some r" "r_xid r = R_NO" "r_frmr r" by blast
  obtain r' where r': "eax25_age (Some r) = Some r'" by (simp add: eax25_age_def)
  have p: "prepared (eax25_wanted env se (eax25_age (ss_rt st))) (ss_cb st) (ss_cb ?p)" by (rule est_prepared [OF assms(1)])
  have e: "est_link env se st = ?p\<lparr>ss_cb := lapbstate env LAPB_DISCONNECTED ((ss_cb ?p)\<lparr>cb_txq := [], cb_reason := LB_NEGOTIATION\<rparr>)\<rparr>"
    using age_keeps [OF r'] r prepare_route [of env se st] by (intro est_link_refuses [OF assms(2), of _ _ r']) (auto simp: r')
  have "freed (ss_cb st) (lapbstate env LAPB_DISCONNECTED ((ss_cb ?p)\<lparr>cb_txq := [], cb_reason := LB_NEGOTIATION\<rparr>))"
    using assms(3) p by (simp add: freed_def lapbstate_def event_def prepared_def Let_def stop1_def stop2_def stop3_def stop4_def stop5_def)
  then show "\<exists>st'. open_active env se openpid False st = Dangling st'"
    using assms by (auto simp: open_active_def e idle_def Let_def)
next
  let ?p = "est_prepare env se st"
  assume "\<exists>st'. open_active env se openpid False st = Dangling st'"
  then have f: "freed (ss_cb st) (ss_cb (est_link env se st))" by (auto simp: open_active_def Let_def split: if_splits)
  have p: "prepared (eax25_wanted env se (eax25_age (ss_rt st))) (ss_cb st) (ss_cb ?p)" by (rule est_prepared [OF assms(1)])
  have n: "est_link env se st \<noteq> est_link_xid env se ?p" "est_link env se st \<noteq> ?p\<lparr>ss_cb := est_link_sabm env (ss_cb ?p)\<rparr>"
    using f est_xid_sent(5) [OF assms(2) p, of se] est_sabm_sent(5) [OF assms(2) p] by auto
  have e: "est_link env se st = (if e_iface env \<and> (s_v2 se = K_INITIATE \<or> s_v2 se = K_ALWAYS)
     then (if map_option r_xid (ss_rt ?p) = Some R_NO \<and> xid_may_probe se (ss_rt ?p) then est_link_xid env se ?p
           else if map_option r_xid (ss_rt ?p) = Some R_NO \<and> ax25_v2_refused env se (ss_rt ?p)
           then ?p\<lparr>ss_cb := lapbstate env LAPB_DISCONNECTED ((ss_cb ?p)\<lparr>cb_txq := [], cb_reason := LB_NEGOTIATION\<rparr>)\<rparr>
           else if ss_rt ?p = None \<or> map_option r_xid (ss_rt ?p) = Some R_UNKNOWN \<and> xid_may_probe se (ss_rt ?p) then est_link_xid env se ?p
           else ?p\<lparr>ss_cb := est_link_sabm env (ss_cb ?p)\<rparr>)
     else ?p\<lparr>ss_cb := est_link_sabm env (ss_cb ?p)\<rparr>)"
    unfolding est_link_def est_prepare_def Let_def by (rule refl)
  have "ax25_v2_refused env se (ss_rt ?p)" using n e by (auto split: if_splits)
  then obtain r where r: "s_v2 se = K_ALWAYS" "eax25_age (ss_rt st) = Some r" "r_xid r = R_NO" "r_frmr r"
    unfolding prepare_route by (auto simp: ax25_v2_refused_def split: if_splits option.splits)
  moreover obtain r0 where "ss_rt st = Some r0" using r(2) by (cases "ss_rt st") (auto simp: eax25_age_def)
  ultimately show "s_v2 se = K_ALWAYS \<and> (\<exists>r. ss_rt st = Some r \<and> r_xid r = R_NO \<and> r_frmr r)" using age_keeps [of r0 r] by simp
qed

text \<open>A station that waits for UA hears a SABM itself.\<close>

lemma crossing_sabm:
  assumes mm: "good_mask mm'" and env: "accepts_link env mm'" and a: "waiting mm a"
  shows "waiting mm' (lapb_input env LAPB_COMMAND (snd (sabm_of mm')) a) \<and>
     sentfr (lapb_input env LAPB_COMMAND (snd (sabm_of mm')) a) = sentfr a @ [ua_frame]"
proof -
  let ?c = "(if mm' = EMMASK then SABME else SABM) OR PF"
  have c: "ftype ?c = (if mm' = EMMASK then SABME else SABM)" by (simp add: ftype_def ctl_defs)
  define a0 where "a0 = (let s = a\<lparr>cb_mmask := mm', cb_eax25_bit := (mm' = EMMASK)\<rparr>
      in if mm' = EMMASK then event Eax25_hint (event (Eax25_remember True) s) else s)"
  define a1 where "a1 = (if e_marked env then a0\<lparr>cb_dama_link := True\<rparr> else a0)"
  define f where "f = frame_ctl ?c None mm' LAPB_COMMAND"
  have f: "fc_type f = ftype ?c" "fc_pf f" by (simp_all add: f_def frame_ctl_def c Let_def) (simp add: ctl_defs)
  have in1: "lapb_input env LAPB_COMMAND [[?c]] a = lapb_frame env LAPB_COMMAND ?c None [] a0"
    using mm env a unfolding lapb_input_def pullchar_one Let_def a0_def accepts_link_def good_mask_def
    by (elim disjE) (simp_all add: ctl_defs ftype_def event_def)
  have a0: "cb_mmask a0 = mm'" by (simp add: a0_def event_def Let_def)
  have in2: "lapb_frame env LAPB_COMMAND ?c None [] a0 = (let (s, cont) = in_setup env f a1 in if cont then lapb_finish env s else s)"
  proof -
    have st: "cb_state a1 = LAPB_SETUP" using a by (simp add: waiting_def a1_def a0_def event_def Let_def)
    have ty: "fc_type f \<noteq> TEST" "fc_type f \<noteq> XID" unfolding f(1) c by (simp_all add: ctl_defs)
    show ?thesis
      unfolding lapb_frame_def a0 f_def [symmetric] a1_def [symmetric] Let_def using ty by (simp add: lapb_dispatch_def st)
  qed
  have "pfbit (fc_pf f) = PF" "fc_type f = SABM \<or> fc_type f = SABME" using f c by (auto simp: pfbit_def)
  then have i: "in_setup env f a1 = (sendctl env LAPB_RESPONSE (UA OR PF) (a1\<lparr>cb_neg_wait := False\<rparr>), True)"
    unfolding in_setup_def Let_def by presburger
  define s where "s = event (Raw LAPB_RESPONSE [[UA OR PF]]) (a1\<lparr>cb_neg_wait := False, cb_rnrsent := False\<rparr>)"
  have s: "waiting mm' s" "sentfr s = sentfr a @ [ua_frame]"
    using a by (simp_all add: s_def waiting_def a1_def a0_def event_def ua_frame_def Let_def)
  have "sendctl env LAPB_RESPONSE (UA OR PF) (a1\<lparr>cb_neg_wait := False\<rparr>) = s"
    using env by (simp add: sendctl_ua s_def accepts_link_def)
  then have "lapb_input env LAPB_COMMAND [[?c]] a = s"
    using in1 in2 i s(1) by (simp add: waiting_def lapb_finish_def lapb_output_def)
  then show ?thesis using s by (simp add: sabm_of_def)
qed

text \<open>C31: When both stations open the link at the same time, one with SABME and one with SABM, each takes over the modulus of
  the frame it hears and answers UA: they end up connected with different moduli, the one that asked for modulo 128 with
  modulo 8 and the other the other way round.\<close>
theorem crossed_open_differs:
  assumes "waiting EMMASK a" "waiting MMASK b" "accepts_link envA MMASK" "accepts_link envB EMMASK"
  shows "let a1 = hears envA [sabm_of MMASK] a; b1 = hears envB [sabm_of EMMASK] b
     in linked MMASK (hears envA (new_frames b b1) a1) \<and> linked EMMASK (hears envB (new_frames a a1) b1)"
proof -
  have g: "good_mask MMASK" "good_mask EMMASK" by (simp_all add: good_mask_def)
  define a1 where "a1 = hears envA [sabm_of MMASK] a"
  define b1 where "b1 = hears envB [sabm_of EMMASK] b"
  have h: "a1 = lapb_input envA LAPB_COMMAND (snd (sabm_of MMASK)) a" "b1 = lapb_input envB LAPB_COMMAND (snd (sabm_of EMMASK)) b"
    by (simp_all add: a1_def b1_def hears_def) (simp_all add: sabm_of_def)
  note a = crossing_sabm [OF g(1) assms(3,1), folded h] and b = crossing_sabm [OF g(2) assms(4,2), folded h]
  have n: "new_frames a a1 = [ua_frame]" "new_frames b b1 = [ua_frame]" using a b by (simp_all add: new_frames_def)
  have "hears e [ua_frame] s = lapb_input e LAPB_RESPONSE [[UA OR PF]] s" for e s by (simp add: hears_def ua_frame_def)
  then show ?thesis
    using hear_ua [of MMASK a1 envA] hear_ua [of EMMASK b1 envB] a b
    unfolding Let_def a1_def [symmetric] b1_def [symmetric] n by simp
qed

section \<open>The hypotheses hold\<close>

definition call_env :: lenv where "call_env = demo_env\<lparr>e_services := False\<rparr>"

definition call_senv :: "knob \<Rightarrow> senv" where
  "call_senv v2 =
     (let node = \<lparr>xp_paclen = 256, xp_maxframe = 7, xp_emaxframe = 32, xp_segmentation = 3\<rparr>
      in \<lparr>s_sec = 100000, s_eax25 = K_ACCEPT, s_v2 = v2, s_node = node, s_ifp = node, s_hop2hop = False, s_retries = 3,
          s_probe_time = 3600, s_expire_time = 129600\<rparr>)"

definition call_sess :: "xroute option \<Rightarrow> sess" where
  "call_sess rt = \<lparr>ss_cb = path_timing 5000 0 (cr_ax25 2048 256 V2 64 10 5000 900000 0 0), ss_rt = rt, ss_segment = 0\<rparr>"

lemma call_idle: "idle (ss_cb (call_sess rt))" "\<not> cb_neg_wait (ss_cb (call_sess rt))" "cb_maxframe (ss_cb (call_sess rt)) = 1"
  by (simp_all add: idle_def call_sess_def path_timing_def cr_ax25_def)

lemma call_accepts: "accepts_link call_env mm" "e_iface call_env" "\<not> e_services call_env" "\<not> e_refused call_env" "\<not> e_conn_block call_env"
  "\<not> e_eax25_off call_env"
  by (simp_all add: accepts_link_def call_env_def demo_env_def)

lemma call_opens:
  assumes "est_link call_env (call_senv v2) (call_sess rt) = st" "\<not> freed (ss_cb (call_sess rt)) (ss_cb st)"
  shows "open_active call_env (call_senv v2) 0 False (call_sess rt) = Opened (st\<lparr>ss_cb := lapbstate call_env LAPB_SETUP (ss_cb st)\<rparr>)"
  using assms call_idle(1) [of rt] call_accepts(3) by (simp add: open_active_def idle_def)

lemma call_plain: "\<exists>st. open_active call_env (call_senv K_OFF) 0 False (call_sess None) = Opened st \<and> \<not> cb_neg_wait (ss_cb st)"
proof -
  let ?p = "est_prepare call_env (call_senv K_OFF) (call_sess None)"
  note p = est_prepared [OF call_idle(1), of call_env "call_senv K_OFF" None]
  have "est_link call_env (call_senv K_OFF) (call_sess None) = ?p\<lparr>ss_cb := est_link_sabm call_env (ss_cb ?p)\<rparr>"
    by (simp add: est_link_def est_prepare_def call_senv_def Let_def)
  then show ?thesis
    using est_sabm_sent [OF call_accepts(2) p] call_idle(2) [of None] call_opens [of K_OFF None] by auto
qed

lemma call_asks: "\<exists>st. open_active call_env (call_senv K_INITIATE) 0 False (call_sess None) = Opened st \<and> cb_neg_wait (ss_cb st)"
proof -
  let ?p = "est_prepare call_env (call_senv K_INITIATE) (call_sess None)"
  note p = est_prepared [OF call_idle(1), of call_env "call_senv K_INITIATE" None]
  have "ss_rt ?p = None" by (simp add: prepare_route call_sess_def eax25_age_def)
  then have "est_link call_env (call_senv K_INITIATE) (call_sess None) = est_link_xid call_env (call_senv K_INITIATE) ?p"
    using call_accepts(2) by (simp add: est_link_def est_prepare_def call_senv_def Let_def)
  then show ?thesis
    using est_xid_sent [OF call_accepts(2) p] call_opens [of K_INITIATE None] by auto
qed

lemma sabm_sets_up_link_witness:
  "\<exists>st b1. open_active call_env (call_senv K_OFF) 0 False (call_sess None) = Opened st \<and>
     link_start 7 (cb_mmask (hears call_env (new_frames (ss_cb (call_sess None)) b1) (ss_cb st)))
       (new_link (hears call_env (new_frames (ss_cb (call_sess None)) b1) (ss_cb st)) b1)"
proof -
  obtain st where st: "open_active call_env (call_senv K_OFF) 0 False (call_sess None) = Opened st" "\<not> cb_neg_wait (ss_cb st)"
    using call_plain by blast
  show ?thesis
    using sabm_sets_up_link [where W = 7, OF call_idle(1,2) call_accepts(2) st call_idle(1) [of None] call_accepts(1)] st(1)
      call_idle(3) [of None]
    by (auto simp: Let_def)
qed

lemma xid_negotiates_link_witness: "\<exists>a b. link_start 127 EMMASK (new_link a b) \<and> cb_maxframe a \<le> 32"
proof -
  obtain st where st: "open_active call_env (call_senv K_INITIATE) 0 False (call_sess None) = Opened st" "cb_neg_wait (ss_cb st)"
    using call_asks by blast
  have "xid_krx (s_node (call_senv K_ACCEPT)) (s_ifp (call_senv K_ACCEPT)) True = 32"
    by (simp add: xid_krx_def call_senv_def Let_def)
  then show ?thesis
    using xid_negotiates_link [OF call_idle(1,2) st call_idle(1) call_accepts(2,4,5,2,4,5), of "call_senv K_ACCEPT" None]
      call_idle(3) [of None] call_accepts(6)
    by (simp add: call_senv_def Let_def EMMASK_def) blast
qed

lemma refused_open_dangles_witness:
  "\<exists>st'. open_active call_env (call_senv K_ALWAYS) 0 False (call_sess (Some (new_route\<lparr>r_xid := R_NO, r_frmr := True\<rparr>))) = Dangling st'"
  using refused_open_dangles [where st = "call_sess (Some (new_route\<lparr>r_xid := R_NO, r_frmr := True\<rparr>))" and openpid = 0
      and se = "call_senv K_ALWAYS", OF call_idle(1) call_accepts(2,3)]
  by (simp add: call_senv_def call_sess_def Let_def)

lemma crossed_open_differs_witness:
  "\<exists>a b a' b'. waiting EMMASK a \<and> waiting MMASK b \<and> a' = hears call_env [sabm_of MMASK] a \<and> b' = hears call_env [sabm_of EMMASK] b \<and>
     linked MMASK (hears call_env (new_frames b b') a') \<and> linked EMMASK (hears call_env (new_frames a a') b')"
proof -
  define a where "a = (ss_cb (call_sess None))\<lparr>cb_state := LAPB_SETUP, cb_mmask := EMMASK\<rparr>"
  define b where "b = (ss_cb (call_sess None))\<lparr>cb_state := LAPB_SETUP\<rparr>"
  have "waiting EMMASK a" "waiting MMASK b"
    by (simp_all add: a_def b_def waiting_def call_sess_def path_timing_def cr_ax25_def)
  then show ?thesis using crossed_open_differs [of a b call_env call_env] call_accepts(1) by (auto simp: Let_def)
qed

end
