(* ===== verification/Lapb_Alive.thy ===== *)
theory Lapb_Alive
  imports Lapb_Open
begin

text \<open>
  A link does not hang: whatever frames arrive and whenever the timers run out, while a station waits for its peer - for UA, for
  the acknowledgement of frames that are on the way, for the answer to a poll - T1 is running (\<open>alive\<close>), and when the peer
  stays silent T1 runs out only so often until the station gives the link up.
\<close>

section \<open>The invariant\<close>

definition waits :: "axcb \<Rightarrow> bool" where
  "waits s \<longleftrightarrow> cb_state s \<in> {LAPB_SETUP, LAPB_DISCPENDING, LAPB_RECOVERY} \<or> cb_state s = LAPB_CONNECTED \<and> cb_unack s \<noteq> 0"

text \<open>T1 can be started, and the frames that are counted as unacknowledged are there.\<close>

definition sound :: "axcb \<Rightarrow> bool" where
  "sound s \<longleftrightarrow> 0 < tm_dur (cb_t1 s) \<and> 0 < cb_mdev s \<and> (up s \<longrightarrow> unat (cb_unack s) \<le> length (cb_txq s))"

definition alive :: "axcb \<Rightarrow> bool" where
  "alive s \<longleftrightarrow> sound s \<and> (waits s \<longrightarrow> tm_run (cb_t1 s))"

text \<open>What the invariant is about.\<close>

definition vital :: "axcb \<Rightarrow> lapb_state \<times> pqueue \<times> byte \<times> tmr \<times> int" where
  "vital s = (cb_state s, cb_txq s, cb_unack s, cb_t1 s, cb_mdev s)"

lemma vitalD:
  assumes "vital s' = vital s"
  shows "cb_state s' = cb_state s" "cb_txq s' = cb_txq s" "cb_unack s' = cb_unack s" "cb_t1 s' = cb_t1 s" "cb_mdev s' = cb_mdev s"
  using assms by (simp_all add: vital_def)

lemma vital_cong: "vital s' = vital s \<Longrightarrow> alive s' = alive s" "vital s' = vital s \<Longrightarrow> sound s' = sound s"
  "vital s' = vital s \<Longrightarrow> up s' = up s" "vital s' = vital s \<Longrightarrow> waits s' = waits s"
  by (auto simp: vital_def alive_def sound_def up_def waits_def)

lemma vital_flags [simp]:
  "vital (cb_rejsent_update f1 s) = vital s" "vital (cb_remotebusy_update f2 s) = vital s" "vital (cb_retrans_update f3 s) = vital s"
  "vital (cb_retries_update f4 s) = vital s" "vital (cb_dama_rex_update f5 s) = vital s" "vital (cb_dama_ackpend_update f6 s) = vital s"
  "vital (cb_dama_link_update f7 s) = vital s" "vital (cb_peer_srej_update f8 s) = vital s" "vital (cb_proto_update f9 s) = vital s"
  "vital (cb_maxframe_update f10 s) = vital s" "vital (cb_rnrsent_update f11 s) = vital s" "vital (cb_closed_update f12 s) = vital s"
  "vital (cb_ev_update f13 s) = vital s" "vital (cb_rtt_run_update f14 s) = vital s" "vital (cb_rtt_seq_update f15 s) = vital s"
  "vital (cb_rtt_time_update f16 s) = vital s" "vital (cb_reason_update f17 s) = vital s" "vital (cb_vs_update f18 s) = vital s"
  "vital (cb_vr_update f19 s) = vital s" "vital (cb_reseq_update f20 s) = vital s" "vital (cb_rx_update f21 s) = vital s"
  "vital (cb_mmask_update f22 s) = vital s" "vital (cb_neg_wait_update f23 s) = vital s" "vital (cb_eax25_bit_update f24 s) = vital s"
  "vital (cb_eax25_probes_update f25 s) = vital s" "vital (cb_eax25_tried_update f26 s) = vital s" "vital (cb_eax25_dmed_update f27 s) = vital s"
  "vital (cb_peer_n1_update f28 s) = vital s" "vital (cb_peer_k_update f29 s) = vital s" "vital (cb_paclen_update f30 s) = vital s"
  "vital (cb_srt_update f31 s) = vital s" "vital (event e s) = vital s"
  by (simp_all add: vital_def event_def)

lemma vital_timers [simp]:
  "vital (start2 s) = vital s" "vital (stop2 s) = vital s" "vital (start3 s) = vital s" "vital (stop3 s) = vital s"
  "vital (start4 s) = vital s" "vital (stop4 s) = vital s" "vital (start5 s) = vital s" "vital (stop5 s) = vital s"
  by (simp_all add: vital_def start2_def stop2_def start3_def stop3_def start4_def stop4_def start5_def stop5_def)

lemma vital_send [simp]: "vital (sendframe env cr c x bp s) = vital s" "vital (sendctl env cr cmd s) = vital s"
proof -
  show f: "vital (sendframe env cr c x bp s) = vital s" for c x bp s by (simp add: sendframe_def Let_def)
  show "vital (sendctl env cr cmd s) = vital s" by (simp add: sendctl_def Let_def f)
qed

lemma vital_ops [simp]:
  "vital (enq_resp env s) = vital s" "vital (answer_poll env f s) = vital s" "vital (remote_busy env ty s) = vital s"
  "vital (clr_ex s) = vital s" "vital (lapb_ack_now env s) = vital s" "vital (eax25_mark s) = vital s"
  "vital (ax25_apply_peer_xid n k s) = vital s"
  by (simp_all add: enq_resp_def answer_poll_def remote_busy_def clr_ex_def lapb_ack_now_def eax25_mark_def ax25_apply_peer_xid_def Let_def)

lemma vital_srej [simp]: "vital (srej_answer env nr s) = vital s"
  by (simp add: srej_answer_def Let_def split: list.split prod.split)

lemma vital_receive [simp]: "vital (accept_frame ns bp s) = vital s" "vital (vr_loop n s) = vital s" "vital (deliver_loop n v s) = vital s"
proof -
  show "vital (accept_frame ns bp s) = vital s" by (simp add: accept_frame_def Let_def)
  show "vital (vr_loop n s) = vital s" by (induction n s rule: vr_loop.induct) auto
  show "vital (deliver_loop n v s) = vital s" by (induction n v s rule: deliver_loop.induct) (auto simp: Let_def)
qed

lemma vital_resequence [simp]: "vital (resequence env bp ns pf poll s) = vital s"
  by (simp add: resequence_def Let_def)

lemma up_not_free: "up s \<Longrightarrow> cb_state s \<noteq> LAPB_SETUP \<and> cb_state s \<noteq> LAPB_DISCPENDING"
  by (auto simp: up_def)

section \<open>T1\<close>

lemma sound_timer [simp]: "sound (start1 s) = sound s" "sound (stop1 s) = sound s"
  by (simp_all add: sound_def start1_def stop1_def start_t_def stop_t_def up_def)

lemma start1_alive: "sound s \<Longrightarrow> alive (start1 s)"
  by (simp add: alive_def) (simp add: sound_def start1_def start_t_def)

lemma alive_sound: "alive s \<Longrightarrow> sound s"
  by (simp add: alive_def)

lemma keep_t1_alive: "sound s \<Longrightarrow> alive (keep_t1 s)"
  by (auto simp: keep_t1_def start1_alive) (simp add: alive_def)

lemma start1_fields [simp]: "cb_txq (start1 s) = cb_txq s" "cb_unack (start1 s) = cb_unack s" "cb_mdev (start1 s) = cb_mdev s"
  "tm_dur (cb_t1 (start1 s)) = tm_dur (cb_t1 s)" "tm_run (cb_t1 (start1 s)) = (0 < tm_dur (cb_t1 s))"
  by (simp_all add: start1_def start_t_def)

lemma stop1_fields [simp]: "cb_txq (stop1 s) = cb_txq s" "cb_unack (stop1 s) = cb_unack s" "cb_mdev (stop1 s) = cb_mdev s"
  "tm_dur (cb_t1 (stop1 s)) = tm_dur (cb_t1 s)" "\<not> tm_run (cb_t1 (stop1 s))"
  by (simp_all add: stop1_def stop_t_def)

text \<open>State changes.\<close>

lemma lapbstate_fields:
  "new \<noteq> LAPB_DISCONNECTED \<Longrightarrow> vital (lapbstate env new s) = (new, snd (vital s))"
  "tm_dur (cb_t1 (lapbstate env new s)) = tm_dur (cb_t1 s)" "cb_mdev (lapbstate env new s) = cb_mdev s"
  by (simp_all add: lapbstate_def vital_def event_def stop1_def stop2_def stop3_def stop4_def stop5_def stop_t_def Let_def)

lemma disconnected_alive: "0 < tm_dur (cb_t1 s) \<Longrightarrow> 0 < cb_mdev s \<Longrightarrow> alive (lapbstate env LAPB_DISCONNECTED s)"
  by (simp add: alive_def sound_def waits_def up_def lapbstate_fields)

lemma lapbstate_alive:
  assumes "new \<noteq> LAPB_DISCONNECTED" "0 < tm_dur (cb_t1 s)" "0 < cb_mdev s"
    "new \<in> {LAPB_CONNECTED, LAPB_RECOVERY} \<Longrightarrow> unat (cb_unack s) \<le> length (cb_txq s)"
    "new \<noteq> LAPB_CONNECTED \<Longrightarrow> new \<noteq> LAPB_LISTEN \<Longrightarrow> tm_run (cb_t1 s)" "new = LAPB_CONNECTED \<Longrightarrow> cb_unack s \<noteq> 0 \<Longrightarrow> tm_run (cb_t1 s)"
  shows "alive (lapbstate env new s)"
  using lapbstate_fields(1) [OF assms(1), of env s] assms
  by (cases new) (auto simp: vital_def alive_def sound_def waits_def up_def)

lemma start_waiting:
  "0 < tm_dur (cb_t1 s) \<Longrightarrow> 0 < cb_mdev s \<Longrightarrow> new \<in> {LAPB_SETUP, LAPB_DISCPENDING} \<Longrightarrow> alive (lapbstate env new (start1 s))"
  by (rule lapbstate_alive) auto

lemma alive_send [simp]:
  "alive (sendctl env cr cmd s) = alive s" "sound (sendctl env cr cmd s) = sound s" "cb_mdev (sendctl env cr cmd s) = cb_mdev s"
  "cb_t1 (sendctl env cr cmd s) = cb_t1 s" "cb_unack (sendctl env cr cmd s) = cb_unack s" "cb_txq (sendctl env cr cmd s) = cb_txq s"
  "alive (sendframe env cr c x bp s) = alive s" "sound (sendframe env cr c x bp s) = sound s"
  "cb_mdev (sendframe env cr c x bp s) = cb_mdev s" "cb_t1 (sendframe env cr c x bp s) = cb_t1 s"
  "cb_unack (sendframe env cr c x bp s) = cb_unack s" "cb_txq (sendframe env cr c x bp s) = cb_txq s"
  by (rule vital_cong [OF vital_send(2)] vital_cong [OF vital_send(1)] vitalD [OF vital_send(2)] vitalD [OF vital_send(1)])+

lemma alive_event [simp]: "alive (event e s) = alive s" "sound (event e s) = sound s" "cb_t1 (event e s) = cb_t1 s"
  "cb_mdev (event e s) = cb_mdev s" "cb_unack (event e s) = cb_unack s" "cb_txq (event e s) = cb_txq s"
  by (rule vital_cong [OF vital_flags(32)] vitalD [OF vital_flags(32)])+

lemma alive_timers [simp]:
  "alive (start2 s) = alive s" "alive (stop2 s) = alive s" "alive (start3 s) = alive s" "alive (stop3 s) = alive s"
  "alive (start4 s) = alive s" "alive (stop4 s) = alive s" "alive (start5 s) = alive s" "alive (stop5 s) = alive s"
  "sound (start2 s) = sound s" "sound (stop2 s) = sound s" "sound (start3 s) = sound s" "sound (stop3 s) = sound s"
  "sound (start4 s) = sound s" "sound (stop4 s) = sound s" "sound (start5 s) = sound s" "sound (stop5 s) = sound s"
  by (rule vital_cong(1,2) [OF vital_timers(1)] vital_cong(1,2) [OF vital_timers(2)] vital_cong(1,2) [OF vital_timers(3)]
    vital_cong(1,2) [OF vital_timers(4)] vital_cong(1,2) [OF vital_timers(5)] vital_cong(1,2) [OF vital_timers(6)]
    vital_cong(1,2) [OF vital_timers(7)] vital_cong(1,2) [OF vital_timers(8)])+

lemma alive_update [simp]:
  "alive (cb_remotebusy_update f1 s) = alive s" "sound (cb_remotebusy_update f1 s) = sound s"
  "alive (cb_neg_wait_update f2 s) = alive s" "sound (cb_neg_wait_update f2 s) = sound s"
  "alive (cb_dama_link_update f3 s) = alive s" "sound (cb_dama_link_update f3 s) = sound s"
  "alive (cb_retries_update f4 s) = alive s" "sound (cb_retries_update f4 s) = sound s"
  "alive (cb_closed_update f5 s) = alive s" "sound (cb_closed_update f5 s) = sound s"
  "alive (cb_dama_ackpend_update f6 s) = alive s" "sound (cb_dama_ackpend_update f6 s) = sound s"
  "alive (cb_dama_rex_update f7 s) = alive s" "sound (cb_dama_rex_update f7 s) = sound s"
  "alive (cb_proto_update f8 s) = alive s" "sound (cb_proto_update f8 s) = sound s"
  "alive (cb_mmask_update f9 s) = alive s" "sound (cb_mmask_update f9 s) = sound s"
  "alive (cb_eax25_bit_update f10 s) = alive s" "sound (cb_eax25_bit_update f10 s) = sound s"
  "alive (cb_peer_srej_update f11 s) = alive s" "sound (cb_peer_srej_update f11 s) = sound s"
  "alive (cb_rejsent_update f12 s) = alive s" "alive (cb_eax25_probes_update f13 s) = alive s"
  "alive (cb_eax25_dmed_update f14 s) = alive s" "sound (cb_eax25_dmed_update f14 s) = sound s"
  by (rule vital_cong(1,2), simp)+

section \<open>Acknowledgements\<close>

lemma rtt_update_fields [simp]:
  "cb_state (rtt_update env s) = cb_state s" "tm_run (cb_t1 (rtt_update env s)) = tm_run (cb_t1 s)"
  unfolding rtt_update_def Let_def by (simp_all add: if_distrib [of cb_state] if_distrib [of cb_t1] if_distrib [of tm_run] cong: if_cong)

lemma rtt_update_timing: "0 < tm_dur (cb_t1 s) \<Longrightarrow> 0 < cb_mdev s \<Longrightarrow> 0 < tm_dur (cb_t1 (rtt_update env s)) \<and> 0 < cb_mdev (rtt_update env s)"
  by (auto simp: rtt_update_def Let_def)

lemma ack_loop_alive:
  assumes "ack_loop env n oldest s acked = (s', acked', ok)" "up s" "sound s"
  shows "sound s' \<and> ok \<and> cb_state s' = cb_state s \<and> tm_run (cb_t1 s') = tm_run (cb_t1 s) \<and> acked \<le> acked' \<and>
    (acked' = acked \<longrightarrow> cb_unack s' = cb_unack s) \<and> (cb_unack s = 0 \<longrightarrow> cb_unack s' = 0)"
  using assms
proof (induction "cb_txq s" arbitrary: s oldest acked)
  case Nil
  then have "cb_unack s = 0" by (auto simp: sound_def word_unat_eq_iff)
  then show ?case using Nil.prems ack_loop.simps [of env n oldest s acked] by simp
next
  case (Cons bp q)
  note q = Cons.hyps(2) [symmetric]
  show ?case
  proof (cases "cb_unack s = 0 \<or> oldest = n")
    case True
    then show ?thesis using Cons.prems ack_loop.simps [of env n oldest s acked] by (auto split: if_splits)
  next
    case c: False
    define t where "t = s\<lparr>cb_txq := q, cb_unack := cb_unack s - 1\<rparr>"
    define u where "u = (if cb_rtt_run t \<and> cb_rtt_seq t = oldest then rtt_update env t else t)"
    define v where "v = u\<lparr>cb_retries := 0\<rparr>"
    have t: "sound t" "cb_state t = cb_state s" "tm_run (cb_t1 t) = tm_run (cb_t1 s)" "up t"
      using Cons.prems(2,3) c q by (auto simp: t_def sound_def up_def unat_minus_one)
    have v: "sound v" "cb_state v = cb_state s" "tm_run (cb_t1 v) = tm_run (cb_t1 s)" "up v" "cb_txq v = q"
      using t rtt_update_timing [of t env] by (auto simp: v_def u_def sound_def up_def) (auto simp: t_def)
    have "ack_loop env n ((oldest + 1) AND cb_mmask v) v (acked + 1) = (s', acked', ok)"
      using Cons.prems(1) unfolding ack_loop.simps [of env n oldest s acked] q list.case Let_def if_not_P [OF c]
        t_def [symmetric] u_def [symmetric] v_def [symmetric] .
    from Cons.hyps(1) [OF _ this v(4,1)] v(2,3,5) c show ?thesis by auto
  qed
qed

text \<open>After the acknowledgement of \<open>ackours\<close> T1 runs unless nothing is on the way any more.\<close>

lemma ackours_alive:
  assumes "up s" "sound s" "waits s \<longrightarrow> tm_run (cb_t1 s) \<or> cb_state s = LAPB_RECOVERY"
  shows "sound (fst (ackours env n rex s)) \<and> cb_state (fst (ackours env n rex s)) = cb_state s \<and>
    (rex \<longrightarrow> cb_unack (fst (ackours env n rex s)) = 0) \<and>
    (cb_state s = LAPB_CONNECTED \<longrightarrow> alive (fst (ackours env n rex s)))"
proof -
  obtain t acked ok where l: "ack_loop env n ((cb_vs s - cb_unack s) AND cb_mmask s) s 0 = (t, acked, ok)"
    by (cases "ack_loop env n ((cb_vs s - cb_unack s) AND cb_mmask s) s 0") auto
  note a = ack_loop_alive [OF l assms(1,2)]
  define u where "u = (if cb_unack t = 0 then start3 (stop1 t) else if acked \<noteq> 0 then start1 t else t)"
  define v where "v = (if rex then u\<lparr>cb_retrans := True, cb_vs := (cb_vs u - cb_unack u) AND cb_mmask u, cb_unack := 0\<rparr> else u)"
  define w where "w = fst (ackours env n rex s)"
  have wv: "vital w = vital v"
    unfolding w_def ackours_def l prod.case Let_def u_def [symmetric] v_def [symmetric] using a by simp
  note w = vital_cong(1,2) [OF wv] vitalD(1,3) [OF wv]
  have u: "sound u" "cb_state u = cb_state s" "cb_unack u = cb_unack t"
    using a by (simp_all add: u_def vital_cong(2) [OF vital_timers(3)]) (simp add: start3_def)
  have run: "cb_unack u \<noteq> 0 \<longrightarrow> tm_run (cb_t1 u)" if "cb_state s = LAPB_CONNECTED"
  proof (cases "acked = 0")
    case True
    then show ?thesis using a assms(3) that by (auto simp: u_def waits_def start3_def)
  next
    case False
    then show ?thesis using a by (auto simp: u_def sound_def start3_def)
  qed
  have v: "sound v" "cb_state v = cb_state s" "rex \<longrightarrow> cb_unack v = 0"
    using u by (auto simp: v_def sound_def up_def)
  have "alive v" if "cb_state s = LAPB_CONNECTED"
    using v run [OF that] that by (auto simp: alive_def waits_def v_def)
  then show ?thesis using v w unfolding w_def [symmetric] by simp
qed

section \<open>Sending\<close>

lemma inv_rex_alive: "sound s \<Longrightarrow> sound (inv_rex s)" "alive s \<Longrightarrow> alive (inv_rex s)"
  by (auto simp: inv_rex_def alive_def sound_def waits_def up_def)

lemma unat_suc_le: "unat (u + 1) \<le> Suc (unat u)"
  using mod_less_eq_dividend [of "unat u + 1" 256] by (simp add: unat_word_ariths)

lemma out_loop_alive:
  assumes "alive s" "up s" "unat (cb_unack s) + length q \<le> length (cb_txq s)"
  shows "alive (out_loop env q s) \<and> cb_state (out_loop env q s) = cb_state s"
  using assms
proof (induction q arbitrary: s)
  case (Cons bp q)
  obtain control controlx where c: "i_ctl (cb_mmask s) (cb_vs s) (cb_vr s) False = (control, controlx)" by fastforce
  define s1 where "s1 = s\<lparr>cb_vs := (cb_vs s + 1) AND cb_mmask s\<rparr>"
  define tbp where "tbp = snd (dup_p (e_avail env) bp 0 (len_p bp))"
  define s2 where "s2 = (sendframe env LAPB_COMMAND control controlx tbp s1)\<lparr>cb_unack := cb_unack s + 1\<rparr>"
  define s3 where "s3 = (if tm_run (cb_t1 s2) then s2 else start1 (stop3 s2))"
  define s4 where "s4 = start5 s3"
  define s5 where "s5 = (if cb_rtt_run s4 then s4
      else s4\<lparr>cb_rtt_seq := drop_bit 1 control AND cb_mmask s4, cb_rtt_time := e_now env, cb_rtt_run := True\<rparr>)"
  have v1: "vital s1 = vital s" by (simp add: s1_def)
  have vsend: "vital (sendframe env LAPB_COMMAND control controlx tbp s1) = vital s" using v1 by simp
  have s2: "cb_state s2 = cb_state s" "cb_txq s2 = cb_txq s" "cb_unack s2 = cb_unack s + 1" "cb_t1 s2 = cb_t1 s" "cb_mdev s2 = cb_mdev s"
    using vitalD [OF vsend] by (simp_all add: s2_def)
  have "sound s2" using Cons.prems s2 unat_suc_le [of "cb_unack s"] by (auto simp: sound_def alive_def up_def)
  then have s3: "sound s3" "tm_run (cb_t1 s3)" "cb_state s3 = cb_state s" "cb_txq s3 = cb_txq s" "cb_unack s3 = cb_unack s + 1"
    using s2 by (auto simp: s3_def stop3_def sound_def up_def)
  have v5: "vital s5 = vital s3" by (simp add: s5_def s4_def)
  have s5: "alive s5" "up s5" "unat (cb_unack s5) + length q \<le> length (cb_txq s5)"
    using s3 Cons.prems unat_suc_le [of "cb_unack s"] unfolding vital_cong [OF v5] vitalD [OF v5] by (auto simp: alive_def up_def)
  have "out_loop env (bp # q) s = (if int (unat (cb_unack s)) < cb_maxframe s then if tbp = [] then s1 else out_loop env q s5 else s)"
  proof -
    have "cb_unack (sendframe env LAPB_COMMAND control controlx tbp s1) = cb_unack s" using vitalD(3) [OF vsend] .
    then show ?thesis
      unfolding out_loop.simps(2) c prod.case Let_def s1_def [symmetric] tbp_def [symmetric]
      by (simp add: s2_def s3_def s4_def s5_def del: vital_flags)
  qed
  then show ?case
    using Cons.IH [OF s5] Cons.prems(1) vital_cong(1) [OF v1] vitalD(1) [OF v1] vitalD(1) [OF v5] s3(3) by auto
qed simp

lemma lapb_output_alive:
  assumes "alive s"
  shows "alive (lapb_output env s) \<and> cb_state (lapb_output env s) = cb_state s"
proof (cases "up s \<and> cb_remotebusy s = 0 \<and> \<not> e_holds env")
  case False
  then show ?thesis using assms by (auto simp: lapb_output_def up_def)
next
  case True
  define s1 where "s1 = (if cb_dama_rex s then let s = s\<lparr>cb_dama_rex := False\<rparr> in if cb_unack s \<noteq> 0 then inv_rex s else s else s)"
  have s1: "alive s1" "cb_state s1 = cb_state s"
    using assms inv_rex_alive(2) [of "s\<lparr>cb_dama_rex := False\<rparr>"] by (simp_all add: s1_def Let_def)
  then have u: "up s1" "unat (cb_unack s1) + length (drop (unat (cb_unack s1)) (cb_txq s1)) \<le> length (cb_txq s1)"
    using True by (auto simp: up_def alive_def sound_def)
  have "lapb_output env s = out_loop env (drop (unat (cb_unack s1)) (cb_txq s1)) s1"
    using True unfolding lapb_output_def Let_def s1_def by (auto simp: up_def)
  then show ?thesis using out_loop_alive [OF s1(1) u] s1(2) by simp
qed

lemma lapb_finish_alive: "alive s \<Longrightarrow> alive (lapb_finish env s)"
proof -
  assume "alive s"
  define t where "t = lapb_output env s"
  have t: "alive t" using lapb_output_alive [OF \<open>alive s\<close>] by (simp add: t_def)
  have "alive (lapbstate env LAPB_DISCPENDING (start1 (sendctl env LAPB_COMMAND (DISC OR PF) t)))"
    using t by (intro start_waiting) (auto simp: alive_def sound_def)
  then show ?thesis
    using t unfolding lapb_finish_def t_def [symmetric] Let_def by auto
qed

section \<open>The handlers\<close>

lemma alive_if: "(b \<Longrightarrow> alive s) \<Longrightarrow> (\<not> b \<Longrightarrow> alive s') \<Longrightarrow> alive (if b then s else s')"
  by simp

lemma enter_connected: "0 < tm_dur (cb_t1 s) \<Longrightarrow> 0 < cb_mdev s \<Longrightarrow> cb_unack s = 0 \<Longrightarrow> alive (lapbstate env LAPB_CONNECTED s)"
  by (rule lapbstate_alive) auto

lemma alive_parts: "sound s \<Longrightarrow> 0 < tm_dur (cb_t1 s)" "sound s \<Longrightarrow> 0 < cb_mdev s" "alive s \<Longrightarrow> 0 < tm_dur (cb_t1 s)" "alive s \<Longrightarrow> 0 < cb_mdev s"
  by (simp_all add: sound_def alive_def)

lemma clr_ex_fields [simp]: "cb_t1 (clr_ex s) = cb_t1 s" "cb_mdev (clr_ex s) = cb_mdev s" "cb_unack (clr_ex s) = cb_unack s"
  "sound (clr_ex s) = sound s" "alive (clr_ex s) = alive s"
  by (rule vitalD [OF vital_ops(4)] vital_cong [OF vital_ops(4)])+

lemma timer_fields [simp]:
  "cb_t1 (start3 s) = cb_t1 s" "cb_t1 (start5 s) = cb_t1 s" "cb_mdev (start3 s) = cb_mdev s" "cb_mdev (start5 s) = cb_mdev s"
  "cb_unack (start3 s) = cb_unack s" "cb_unack (start5 s) = cb_unack s"
  by (simp_all add: start3_def start5_def)

lemma in_disconnected_alive: "alive s \<Longrightarrow> alive (fst (in_disconnected env f s))"
  by (auto simp: in_disconnected_def Let_def intro!: enter_connected dest: alive_parts)

lemma fallback_alive: "0 < cb_mdev s \<Longrightarrow> cb_state s = LAPB_SETUP \<Longrightarrow> alive (eax25_fallback env s)"
  by (auto simp: eax25_fallback_def Let_def eax25_mark_def sound_def up_def intro!: start1_alive)

lemma in_setup_alive: "alive s \<Longrightarrow> cb_state s = LAPB_SETUP \<Longrightarrow> alive (fst (in_setup env f s))"
  by (auto simp: in_setup_def Let_def intro!: enter_connected fallback_alive disconnected_alive dest: alive_parts)

lemma in_discpending_alive: "alive s \<Longrightarrow> alive (fst (in_discpending env f s))"
  by (auto simp: in_discpending_def intro!: disconnected_alive dest: alive_parts)

lemma in_established_alive: "alive s \<Longrightarrow> in_established env f s = Some r \<Longrightarrow> alive (fst r)"
proof -
  assume a: "alive s" and r: "in_established env f s = Some r"
  have reset: "alive (link_reset env f s)"
    using a by (auto simp: link_reset_def Let_def intro!: enter_connected dest: alive_parts)
  have frmr: "alive (link_frmr env s)"
    using a by (auto simp: link_frmr_def Let_def intro!: start_waiting dest: alive_parts)
  show ?thesis
    using r a reset frmr alive_parts(3,4) [OF a]
    by (auto simp: in_established_def stop3_def intro!: disconnected_alive split: if_splits)
qed

lemma answer_poll_alive [simp]: "alive (answer_poll env f s) = alive s" "sound (answer_poll env f s) = sound s"
  "cb_state (answer_poll env f s) = cb_state s" "up (answer_poll env f s) = up s" "waits (answer_poll env f s) = waits s"
  by (rule vital_cong [OF vital_ops(2)] vitalD(1) [OF vital_ops(2)])+

lemma remote_busy_alive [simp]: "alive (remote_busy env ty s) = alive s" "sound (remote_busy env ty s) = sound s"
  "cb_state (remote_busy env ty s) = cb_state s" "up (remote_busy env ty s) = up s"
  by (rule vital_cong [OF vital_ops(3)] vitalD(1) [OF vital_ops(3)])+

lemma receive_alive [simp]: "alive (resequence env bp ns pf poll s) = alive s" "alive (srej_answer env nr s) = alive s"
  "sound (srej_answer env nr s) = sound s" "cb_state (srej_answer env nr s) = cb_state s"
  by (rule vital_cong [OF vital_resequence] vital_cong [OF vital_srej] vitalD(1) [OF vital_srej])+

lemma ack_connected: "alive s \<Longrightarrow> cb_state s = LAPB_CONNECTED \<Longrightarrow> alive (fst (ackours env n rex s))"
  using ackours_alive [of s env n rex] by (auto simp: alive_def up_def waits_def)

lemma ack_recovery: "sound s \<Longrightarrow> cb_state s = LAPB_RECOVERY \<Longrightarrow>
   sound (fst (ackours env n rex s)) \<and> cb_state (fst (ackours env n rex s)) = LAPB_RECOVERY \<and> (rex \<longrightarrow> cb_unack (fst (ackours env n rex s)) = 0)"
  using ackours_alive [of s env n rex] by (auto simp: up_def)

lemma in_connected_alive: "alive s \<Longrightarrow> cb_state s = LAPB_CONNECTED \<Longrightarrow> alive (in_connected env f bp s)"
  by (auto simp: in_connected_def Let_def intro!: ack_connected)

lemma in_recovery_alive:
  assumes "alive s" "cb_state s = LAPB_RECOVERY"
  shows "alive (in_recovery env f bp s)"
proof -
  have final: "alive (let s = fst (ackours env (fc_nr f) True (stop1 t)) in if cb_unack s \<noteq> 0 then inv_rex s else lapbstate env LAPB_CONNECTED (start3 s))"
    if "sound t" "cb_state t = LAPB_RECOVERY" for t
    using ack_recovery [of "stop1 t" env "fc_nr f" True] that by (auto simp: Let_def intro!: enter_connected dest: alive_parts)
  have a: "sound (fst (ackours env n rex t)) \<and> cb_state (fst (ackours env n rex t)) = LAPB_RECOVERY"
    if "sound t" "cb_state t = LAPB_RECOVERY" for t n rex
    using ack_recovery [OF that] by blast
  have s: "sound s" using assms(1) by (rule alive_sound)
  let ?q = "stop4 (s\<lparr>cb_remotebusy := 0\<rparr>)" and ?p = "stop4 (s\<lparr>cb_peer_srej := True, cb_proto := V2_2, cb_remotebusy := 0\<rparr>)"
  have q: "sound ?q" "cb_state ?q = LAPB_RECOVERY" "sound ?p" "cb_state ?p = LAPB_RECOVERY" "sound (start5 s)" "cb_state (start5 s) = LAPB_RECOVERY"
    using s assms(2) by simp_all
  have rb: "sound (remote_busy env (fc_type f) s)" "cb_state (remote_busy env (fc_type f) s) = LAPB_RECOVERY" using s assms(2) by simp_all
  have rr: "alive (keep_t1 (fst (ackours env (fc_nr f) False (answer_poll env f (remote_busy env (fc_type f) s)))))"
    by (intro keep_t1_alive conjunct1 [OF a]) (simp_all add: s assms(2))
  have rej: "alive (keep_t1 (let t = fst (ackours env (fc_nr f) True (answer_poll env f ?q)) in if cb_unack t \<noteq> 0 then inv_rex t else t))"
    using a [of "answer_poll env f ?q" "fc_nr f" True] q by (intro keep_t1_alive) (simp add: Let_def inv_rex_alive)
  have srej: "alive (keep_t1 (srej_answer env (fc_nr f) (fst (ackours env (fc_nr f) False (answer_poll env f ?p)))))"
    using a [of "answer_poll env f ?p" "fc_nr f" False] q by (intro keep_t1_alive) simp
  have i: "alive (resequence env bp (fc_ns f) (fc_pf f) (fc_poll f) (keep_t1 (fst (ackours env (fc_nr f) False (start5 s)))))"
    using a [OF q(5,6)] by (simp add: keep_t1_alive)
  show ?thesis
    unfolding in_recovery_def
    using final [OF rb] final [OF q(1,2)] rr rej srej i assms(1) by (simp only: Let_def) (assumption | rule alive_if)+
qed

lemma lapb_dispatch_alive: "alive s \<Longrightarrow> alive (fst (lapb_dispatch env f bp s))"
  by (auto simp: lapb_dispatch_def in_disconnected_alive in_setup_alive in_discpending_alive in_connected_alive in_recovery_alive
      in_established_alive split: lapb_state.split option.split)

lemma lapb_frame_alive: "alive s \<Longrightarrow> alive (lapb_frame env cr c x bp s)"
  using lapb_dispatch_alive [of "s\<lparr>cb_dama_link := True\<rparr>"] lapb_dispatch_alive [of s]
  by (auto simp: lapb_frame_def Let_def split_def lapb_finish_alive)

lemma lapb_input_alive: "alive s \<Longrightarrow> alive (lapb_input env cr bp s)"
  by (auto simp: lapb_input_def Let_def lapb_frame_alive split: prod.split option.split)

subsection \<open>Timers\<close>

text \<open>What is needed of a block whose T1 has just run out.\<close>

lemma tx_enq_fields: "vital (tx_enq env s) = vital (start1 s)"
proof -
  have c: "vital (start1 (stop3 t)) = vital (start1 s)" if "vital t = vital s" for t
    using vitalD [OF that] by (simp add: vital_def start1_def stop3_def)
  show ?thesis by (auto simp: tx_enq_def Let_def c split: prod.split)
qed

lemma enter_recovery: "sound s \<Longrightarrow> up s \<Longrightarrow> alive (lapbstate env LAPB_RECOVERY (tx_enq env s))"
  using vitalD [OF tx_enq_fields [of env s]]
  by (intro lapbstate_alive) (auto simp: sound_def)

lemma give_up_alive: "0 < tm_dur (cb_t1 s) \<Longrightarrow> 0 < cb_mdev s \<Longrightarrow> alive (t1_give_up env s)"
  by (auto simp: t1_give_up_def intro!: disconnected_alive)

lemma recover_setup_alive:
  assumes "sound s" "cb_state s = LAPB_SETUP"
  shows "alive (recover_setup env s)"
  using assms by (auto simp: recover_setup_def Let_def give_up_alive intro!: disconnected_alive start1_alive fallback_alive give_up_alive
      dest: alive_parts(1,2)) (auto simp: sound_def up_def)

text \<open>T1 has run out: it is not running any more.\<close>

lemma recover_alive:
  assumes "sound s"
  shows "alive (recover env s)"
proof -
  define s1 where "s1 = s\<lparr>cb_retrans := True, cb_retries := cb_retries s + 1\<rparr>"
  define s2 where "s2 = (if cb_retries s1 < e_Blimit env
     then s1\<lparr>cb_t1 := (cb_t1 s1)\<lparr>tm_dur := (tm_dur (cb_t1 s1) * 5 + 2) div 4\<rparr>\<rparr> else s1)"
  define s3 where "s3 = (if cb_maxframe s2 > 1 then s2\<lparr>cb_maxframe := cb_maxframe s2 - 1\<rparr> else s2)"
  have s3: "sound s3" "cb_state s3 = cb_state s"
    using assms(1) by (auto simp: s3_def s2_def s1_def sound_def up_def)
  note p = alive_parts(1,2) [OF assms(1)] alive_parts(1,2) [OF s3(1)]
  have holds: "alive (if cb_unack s \<noteq> 0
      then let s = s\<lparr>cb_retries := cb_retries s + 1\<rparr>
           in if out_of_tries s then t1_give_up env (sendctl env LAPB_RESPONSE DM s) else start1 (s\<lparr>cb_dama_rex := True\<rparr>)
      else start1 s)"
    using assms(1) p by (auto simp: Let_def intro!: give_up_alive start1_alive)
  have "alive (case cb_state s3 of
                LAPB_SETUP \<Rightarrow> recover_setup env s3
              | LAPB_DISCPENDING \<Rightarrow>
                  if out_of_tries s3 then lapbstate env LAPB_DISCONNECTED (s3\<lparr>cb_reason := LB_TIMEOUT\<rparr>)
                  else start1 (sendctl env LAPB_COMMAND (DISC OR PF) s3)
              | LAPB_CONNECTED \<Rightarrow>
                  if out_of_tries s3 then t1_give_up env (sendctl env LAPB_RESPONSE DM s3)
                  else lapbstate env LAPB_RECOVERY (tx_enq env s3)
              | LAPB_RECOVERY \<Rightarrow>
                  if out_of_tries s3 then t1_give_up env (sendctl env LAPB_RESPONSE DM s3)
                  else lapbstate env LAPB_RECOVERY (tx_enq env s3)
              | _ \<Rightarrow> s3)"
    using s3 p
    by (cases "cb_state s3") (auto simp: up_def alive_def [of s3] waits_def intro!: recover_setup_alive give_up_alive disconnected_alive start1_alive enter_recovery)
  then show ?thesis
    using holds unfolding recover_def s1_def [symmetric] Let_def s2_def [symmetric] s3_def [symmetric] by (auto simp: Let_def)
qed

lemma pollthem_alive: "alive s \<Longrightarrow> alive (pollthem env s)"
  by (auto simp: pollthem_def alive_sound up_def intro!: enter_recovery)

lemma ack_now_alive [simp]: "alive (lapb_ack_now env s) = alive s"
  by (rule vital_cong [OF vital_ops(5)])

lemma t2_alive: "alive s \<Longrightarrow> alive (ax_t2_timeout env s)"
  by (auto simp: ax_t2_timeout_def)

lemma stop3_fields [simp]: "cb_t1 (stop3 s) = cb_t1 s" "cb_mdev (stop3 s) = cb_mdev s"
  by (simp_all add: stop3_def)

lemma start_waiting3:
  "0 < tm_dur (cb_t1 s) \<Longrightarrow> 0 < cb_mdev s \<Longrightarrow> alive (lapbstate env LAPB_DISCPENDING (start1 (stop3 s)))"
  by (rule start_waiting) simp_all

lemma t5_alive: "alive s \<Longrightarrow> alive (ax_t5_timeout env s)"
  by (auto simp: ax_t5_timeout_def intro!: start_waiting3 dest: alive_parts)

subsection \<open>The user\<close>

lemma disc_alive: "alive s \<Longrightarrow> alive (disc_ax25 env s)"
  by (auto simp: disc_ax25_def intro!: start_waiting3 disconnected_alive dest: alive_parts split: lapb_state.split)

lemma more_queued: "alive s \<Longrightarrow> alive (s\<lparr>cb_txq := cb_txq s @ q\<rparr>)"
  by (auto simp: alive_def sound_def waits_def up_def)

lemma enqueue_grows: "\<exists>q'. foldl enqueue q0 q = q0 @ q'"
proof (induction q arbitrary: q0)
  case (Cons bp q)
  have "\<exists>r. enqueue q0 bp = q0 @ r" by (simp add: enqueue_def)
  then show ?case using Cons [of "enqueue q0 bp"] by fastforce
qed simp

lemma queued_alive: "alive s \<Longrightarrow> alive (lapb_output env (s\<lparr>cb_txq := foldl enqueue (cb_txq s) q\<rparr>))"
  using enqueue_grows [of "cb_txq s" q] more_queued [of s] lapb_output_alive by fastforce

lemma send_alive: "alive s \<Longrightarrow> send_ax25 env blocked segs pid bpp s = Some (s', b) \<Longrightarrow> alive s'"
  by (auto simp: send_ax25_def queued_alive split: if_splits option.splits)

lemma send_queue_alive: "alive s \<Longrightarrow> alive (fst (send_queue env blocked any q s))"
  by (simp add: send_queue_def Let_def queued_alive)

subsection \<open>Setting up\<close>

lemma est_link_sabm_alive: "sound s \<Longrightarrow> alive (est_link_sabm env s)"
  by (simp add: est_link_sabm_def start1_alive)

lemma apply_peer_sound [simp]: "sound (ax25_apply_peer_xid n k s) = sound s" "alive (ax25_apply_peer_xid n k s) = alive s"
  by (rule vital_cong [OF vital_ops(7)])+

lemma eax25_mark_alive [simp]: "sound (eax25_mark s) = sound s" "alive (eax25_mark s) = alive s"
  by (rule vital_cong [OF vital_ops(6)])+

lemma xid_go_on_alive: "sound s \<Longrightarrow> alive (xid_go_on env se xi s)"
  by (auto simp: xid_go_on_def Let_def intro!: est_link_sabm_alive)

lemma xid_input_alive: "alive (ss_cb st) \<Longrightarrow> alive (ss_cb (xid_input env se cr pf bpp st))"
  by (auto simp: xid_input_def Let_def alive_sound intro!: xid_go_on_alive)

lemma session_event_alive: "alive (ss_cb st) \<Longrightarrow> alive (ss_cb (session_event env se e st))"
  by (auto simp: session_event_def xid_input_alive split: lapb_event.split)

lemma session_step_alive:
  assumes "alive (h (ss_cb st))"
  shows "alive (ss_cb (session_step env se h st))"
proof -
  have "alive (ss_cb (fold (session_event env se) es st))" if "alive (ss_cb st)" for es and st :: sess
    using that by (induction es arbitrary: st) (simp_all add: session_event_alive)
  then show ?thesis using assms by (simp add: session_step_def Let_def)
qed

lemma prepare_timing:
  "cb_t1 (ss_cb (est_prepare env se st)) = cb_t1 (ss_cb st)" "cb_mdev (ss_cb (est_prepare env se st)) = cb_mdev (ss_cb st)"
proof -
  define s where "s = eax25_mark ((clr_ex (ss_cb st))\<lparr>cb_retries := 0, cb_eax25_probes := 0, cb_eax25_dmed := False,
    cb_peer_n1 := 0, cb_peer_k := 0, cb_mmask := eax25_wanted env se (eax25_age (ss_rt st))\<rparr>)"
  define st2 where "st2 = st\<lparr>ss_cb := s, ss_rt := eax25_age (ss_rt st), ss_segment := 0\<rparr>"
  have e: "est_prepare env se st = known_peer se st2" by (simp add: est_prepare_def s_def st2_def Let_def)
  have "vital (ss_cb (known_peer se st2)) = vital s" by (simp add: known_peer_def st2_def Let_def split: option.split)
  moreover have "vital s = vital (ss_cb st)" by (simp add: s_def)
  ultimately have "vital (ss_cb (est_prepare env se st)) = vital (ss_cb st)" by (simp add: e)
  then show "cb_t1 (ss_cb (est_prepare env se st)) = cb_t1 (ss_cb st)" "cb_mdev (ss_cb (est_prepare env se st)) = cb_mdev (ss_cb st)"
    by (rule vitalD)+
qed

lemma est_link_cases:
  "est_link env se st \<in> {est_link_xid env se (est_prepare env se st), (est_prepare env se st)\<lparr>ss_cb := est_link_sabm env (ss_cb (est_prepare env se st))\<rparr>,
      (est_prepare env se st)\<lparr>ss_cb := lapbstate env LAPB_DISCONNECTED ((ss_cb (est_prepare env se st))\<lparr>cb_txq := [], cb_reason := LB_NEGOTIATION\<rparr>)\<rparr>}"
  by (simp add: est_link_def est_prepare_def Let_def)

lemma prepare_ev: "cb_ev (ss_cb (est_prepare env se st)) = cb_ev (ss_cb st)"
  by (auto simp: est_prepare_def known_peer_def clr_ex_def eax25_mark_def stop3_def stop4_def Let_def split: option.split)

lemma open_alive:
  assumes "alive (ss_cb st)" "open_active env se openpid blocks st = Opened st'"
  shows "alive (ss_cb st')"
proof -
  let ?p = "est_prepare env se st"
  note t = alive_parts(3,4) [OF assms(1)]
  have sv: "\<not> e_services env" using assms(2) by (simp add: open_active_def split: if_splits)
  have x: "ss_cb (est_link_xid env se ?p) = start1 (stop3 ((sendframe env LAPB_COMMAND (XID OR PF) None (our_info env se) (ss_cb ?p))\<lparr>cb_neg_wait := True, cb_retries := 0\<rparr>))"
    by (simp add: est_link_xid_def Let_def)
  have a1: "alive (lapbstate env LAPB_SETUP (ss_cb (est_link_xid env se ?p)))"
    unfolding x using t by (intro start_waiting) (simp_all add: prepare_timing)
  have a2: "alive (lapbstate env LAPB_SETUP (est_link_sabm env (ss_cb ?p)))"
    unfolding est_link_sabm_def using t by (intro start_waiting) (simp_all add: prepare_timing)
  have "freed (ss_cb st) (lapbstate env LAPB_DISCONNECTED ((ss_cb ?p)\<lparr>cb_txq := [], cb_reason := LB_NEGOTIATION\<rparr>))"
    using sv by (simp add: freed_def lapbstate_def event_def prepare_ev Let_def stop1_def stop2_def stop3_def stop4_def stop5_def)
  then show ?thesis
    using assms a1 a2 est_link_cases [of env se st] by (auto simp: open_active_def Let_def split: if_splits)
qed

section \<open>The life of a link\<close>

text \<open>Frames, timers and calls of the user, in any order and under any conditions outside.\<close>

inductive session_life :: "sess \<Rightarrow> sess \<Rightarrow> bool" where
  frame: "session_life st (session_input env se cr bpp st)"
| t1: "tm_run (cb_t1 (ss_cb st)) \<Longrightarrow> session_life st (session_step env se (\<lambda>s. recover env (stop1 s)) st)"
| t2: "session_life st (session_step env se (\<lambda>s. ax_t2_timeout env (stop2 s)) st)"
| t3: "session_life st (session_step env se (\<lambda>s. pollthem env (stop3 s)) st)"
| t4: "session_life st (session_step env se (\<lambda>s. pollthem env (stop4 s)) st)"
| t5: "session_life st (session_step env se (\<lambda>s. ax_t5_timeout env (stop5 s)) st)"
| send: "send_ax25 env blocked segs pid bpp (ss_cb st) = Some (s', b) \<Longrightarrow> session_life st (st\<lparr>ss_cb := s'\<rparr>)"
| send_queue: "session_life st (st\<lparr>ss_cb := fst (send_queue env blocked any q (ss_cb st))\<rparr>)"
| disc: "session_life st (st\<lparr>ss_cb := disc_ax25 env (ss_cb st)\<rparr>)"
| opened: "open_active env se openpid blocks st = Opened st' \<Longrightarrow> session_life st st'"

lemma session_life_alive: "session_life st st' \<Longrightarrow> alive (ss_cb st) \<Longrightarrow> alive (ss_cb st')"
proof (induction rule: session_life.induct)
  case (t1 st env se)
  then show ?case by (intro session_step_alive recover_alive) (simp add: alive_sound)
next
  case (send env blocked segs pid bpp st s' b)
  then show ?case using send_alive by simp
next
  case (opened env se openpid blocks st st')
  then show ?case using open_alive by simp
qed (auto simp: session_input_def send_queue_alive disc_alive intro!: session_step_alive lapb_input_alive t2_alive pollthem_alive t5_alive)

lemma life_alive: "session_life\<^sup>*\<^sup>* st st' \<Longrightarrow> alive (ss_cb st) \<Longrightarrow> alive (ss_cb st')"
  by (induction rule: rtranclp_induct) (auto intro: session_life_alive)

lemma new_block_alive:
  assumes "2 \<le> T1init" "0 \<le> hops"
  shows "alive (path_timing T1init hops (cr_ax25 Axwindow Paclen Axversion Pthresh N2 T2init T3init T4init T5init))"
proof -
  define P where "P = T1init * (1 + 2 * hops)"
  have "T1init * 1 \<le> P" unfolding P_def using assms by (intro mult_left_mono) auto
  then have "0 < (P + 2) div 4" using assms(1) by linarith
  then have "0 < (T1init * (1 + 2 * hops) + 2) div 4" by (simp only: P_def)
  then show ?thesis by (simp add: alive_def sound_def waits_def up_def path_timing_def cr_ax25_def Let_def)
qed



section \<open>A silent peer\<close>

definition expire :: "lenv \<Rightarrow> axcb \<Rightarrow> axcb" where
  "expire env s = recover env (stop1 s)"

text \<open>Nothing is heard: T1 runs out again and again, the \<open>k\<close>-th time under the conditions \<open>E k\<close>.\<close>

fun silent :: "(nat \<Rightarrow> lenv) \<Rightarrow> nat \<Rightarrow> axcb \<Rightarrow> axcb" where
  "silent E 0 s = s"
| "silent E (Suc k) s = expire (E k) (silent E k s)"

definition tally :: "axcb \<Rightarrow> nat \<times> nat" where
  "tally s = (cb_retries s, cb_n2 s)"

lemma tally_same [simp]:
  "tally (start1 s) = tally s" "tally (stop1 s) = tally s" "tally (stop2 s) = tally s" "tally (stop3 s) = tally s" "tally (event e s) = tally s"
  "tally (cb_rnrsent_update f s) = tally s" "tally (cb_maxframe_update f2 s) = tally s" "tally (cb_t1_update f3 s) = tally s"
  by (simp_all add: tally_def start1_def stop1_def stop2_def stop3_def event_def)

lemma tally_send [simp]: "tally (sendframe env cr c x bp s) = tally s" "tally (sendctl env cr cmd s) = tally s"
proof -
  show f: "tally (sendframe env cr c x bp s) = tally s" for c x bp s by (simp add: sendframe_def Let_def)
  show "tally (sendctl env cr cmd s) = tally s" by (simp add: sendctl_def Let_def f)
qed

lemma tally_enq [simp]: "tally (tx_enq env s) = tally s" "tally (lapbstate env LAPB_RECOVERY s) = tally s"
  by (simp_all add: tx_enq_def lapbstate_def Let_def split: prod.split) (simp_all add: tally_def event_def)

lemma expire_counts:
  assumes "cb_state s \<in> {LAPB_CONNECTED, LAPB_RECOVERY, LAPB_DISCPENDING}" "\<not> e_holds env"
  shows "if cb_n2 s \<noteq> 0 \<and> cb_retries s + 1 > cb_n2 s then cb_state (expire env s) = LAPB_DISCONNECTED
         else cb_state (expire env s) \<in> {LAPB_RECOVERY, LAPB_DISCPENDING} \<and> tally (expire env s) = (cb_retries s + 1, cb_n2 s)"
proof -
  define s0 where "s0 = (stop1 s)\<lparr>cb_retrans := True, cb_retries := cb_retries s + 1\<rparr>"
  define s2 where "s2 = (if cb_retries s0 < e_Blimit env
     then s0\<lparr>cb_t1 := (cb_t1 s0)\<lparr>tm_dur := (tm_dur (cb_t1 s0) * 5 + 2) div 4\<rparr>\<rparr> else s0)"
  define s3 where "s3 = (if cb_maxframe s2 > 1 then s2\<lparr>cb_maxframe := cb_maxframe s2 - 1\<rparr> else s2)"
  have r: "cb_retries (stop1 s) = cb_retries s" by (simp add: stop1_def)
  have t: "tally s3 = (cb_retries s + 1, cb_n2 s)" "cb_state s3 = cb_state s"
    by (simp_all add: s3_def s2_def s0_def) (simp_all add: tally_def stop1_def)
  have o: "out_of_tries s3 \<longleftrightarrow> cb_n2 s \<noteq> 0 \<and> cb_retries s + 1 > cb_n2 s"
    using t(1) by (simp add: out_of_tries_def tally_def)
  have e: "expire env s = (case cb_state s3 of
                LAPB_SETUP \<Rightarrow> recover_setup env s3
              | LAPB_DISCPENDING \<Rightarrow>
                  if out_of_tries s3 then lapbstate env LAPB_DISCONNECTED (s3\<lparr>cb_reason := LB_TIMEOUT\<rparr>)
                  else start1 (sendctl env LAPB_COMMAND (DISC OR PF) s3)
              | LAPB_CONNECTED \<Rightarrow>
                  if out_of_tries s3 then t1_give_up env (sendctl env LAPB_RESPONSE DM s3)
                  else lapbstate env LAPB_RECOVERY (tx_enq env s3)
              | LAPB_RECOVERY \<Rightarrow>
                  if out_of_tries s3 then t1_give_up env (sendctl env LAPB_RESPONSE DM s3)
                  else lapbstate env LAPB_RECOVERY (tx_enq env s3)
              | _ \<Rightarrow> s3)"
    using assms(2) unfolding expire_def recover_def r s0_def [symmetric] Let_def s2_def [symmetric] s3_def [symmetric] by simp
  show ?thesis
    using assms(1) t unfolding e o [symmetric] by (auto simp: t1_give_up_def)
qed

lemma silent_counts:
  assumes "cb_state s \<in> {LAPB_CONNECTED, LAPB_RECOVERY, LAPB_DISCPENDING}" "\<And>k. \<not> e_holds (E k)" "cb_retries s \<le> cb_n2 s"
  shows "k \<le> cb_n2 s - cb_retries s \<Longrightarrow> cb_state (silent E k s) \<in> {LAPB_CONNECTED, LAPB_RECOVERY, LAPB_DISCPENDING} \<and>
     tally (silent E k s) = (cb_retries s + k, cb_n2 s)"
proof (induction k)
  case 0
  then show ?case using assms(1) by (simp add: tally_def)
next
  case (Suc k)
  then have i: "cb_state (silent E k s) \<in> {LAPB_CONNECTED, LAPB_RECOVERY, LAPB_DISCPENDING}" "tally (silent E k s) = (cb_retries s + k, cb_n2 s)"
    by auto
  show ?case using expire_counts [OF i(1) assms(2), of k] i(2) Suc.prems assms(3) by (auto simp: tally_def split: if_splits)
qed



end
