(* ===== verification/Tcp_Hdr.thy ===== *)
theory Tcp_Hdr
  imports Inet_Hdr
begin

text \<open>
  The TCP header: \<^verbatim>\<open>struct tcp\<close> of \<^verbatim>\<open>src/src/tcp.h\<close> and its conversions \<^verbatim>\<open>htontcp\<close> and \<^verbatim>\<open>ntohtcp\<close>,
  \<^verbatim>\<open>src/src/tcphdr.c\<close>.  Shown: a header with any of its options is read back as it was written and its checksum
  verifies; the option loop, given any octets, reads none outside the option field; and what is left of a header in an
  ICMP message still gives ports and sequence number.
\<close>

record tcp =
  tcp_source :: u32
  tcp_dest :: u32
  tcp_seq :: u32
  tcp_ack :: u32
  tcp_wnd :: u32
  tcp_checksum :: u32
  tcp_up :: u32
  tcp_mss :: u32
  tcp_wsopt :: byte
  tcp_tsval :: u32
  tcp_tsecr :: u32
  f_congest :: bool
  f_urg :: bool
  f_ack :: bool
  f_psh :: bool
  f_rst :: bool
  f_syn :: bool
  f_fin :: bool
  f_mss :: bool
  f_wscale :: bool
  f_tstamp :: bool

definition TCPLEN :: nat where "TCPLEN = 20"
definition EOL_KIND :: byte where "EOL_KIND = 0"
definition NOOP_KIND :: byte where "NOOP_KIND = 1"
definition MSS_KIND :: byte where "MSS_KIND = 2"
definition MSS_LENGTH :: nat where "MSS_LENGTH = 4"
definition WSCALE_KIND :: byte where "WSCALE_KIND = 3"
definition WSCALE_LENGTH :: nat where "WSCALE_LENGTH = 3"
definition TSTAMP_KIND :: byte where "TSTAMP_KIND = 8"
definition TSTAMP_LENGTH :: nat where "TSTAMP_LENGTH = 10"

lemmas tcp_kinds = EOL_KIND_def NOOP_KIND_def MSS_KIND_def WSCALE_KIND_def TSTAMP_KIND_def
lemmas tcp_lengths = TCPLEN_def MSS_LENGTH_def WSCALE_LENGTH_def TSTAMP_LENGTH_def

definition tcp_zero :: tcp where
  "tcp_zero = \<lparr>tcp_source = 0, tcp_dest = 0, tcp_seq = 0, tcp_ack = 0, tcp_wnd = 0, tcp_checksum = 0, tcp_up = 0,
     tcp_mss = 0, tcp_wsopt = 0, tcp_tsval = 0, tcp_tsecr = 0, f_congest = False, f_urg = False, f_ack = False,
     f_psh = False, f_rst = False, f_syn = False, f_fin = False, f_mss = False, f_wscale = False, f_tstamp = False\<rparr>"

section \<open>Writing\<close>

definition tcp_hdrlen :: "tcp \<Rightarrow> nat" where
  "tcp_hdrlen t =
     (let hdrlen = TCPLEN;
          hdrlen = (if f_mss t then hdrlen + MSS_LENGTH else hdrlen);
          hdrlen = (if f_tstamp t then hdrlen + TSTAMP_LENGTH else hdrlen);
          hdrlen = (if f_wscale t then hdrlen + WSCALE_LENGTH else hdrlen)
      in (hdrlen + 3) div 4 * 4)"

definition tcp_flag_byte :: "tcp \<Rightarrow> byte" where
  "tcp_flag_byte t =
     (if f_congest t then 64 else 0) OR (if f_urg t then 32 else 0) OR (if f_ack t then 16 else 0) OR
     (if f_psh t then 8 else 0) OR (if f_rst t then 4 else 0) OR (if f_syn t then 2 else 0) OR (if f_fin t then 1 else 0)"

definition tcp_opt_bytes :: "tcp \<Rightarrow> byte list" where
  "tcp_opt_bytes t =
     (if f_mss t then [MSS_KIND, of_nat MSS_LENGTH] @ put16 (tcp_mss t) else []) @
     (if f_tstamp t then [TSTAMP_KIND, of_nat TSTAMP_LENGTH] @ put32 (tcp_tsval t) @ put32 (tcp_tsecr t) else []) @
     (if f_wscale t then [WSCALE_KIND, of_nat WSCALE_LENGTH, tcp_wsopt t] else [])"

text \<open>The octets of the header with \<open>c\<close> in the checksum field; \<^verbatim>\<open>memset\<close> has cleared what the options leave of it.\<close>

definition tcp_bytes :: "tcp \<Rightarrow> u32 \<Rightarrow> byte list" where
  "tcp_bytes t c =
     put16 (tcp_source t) @ put16 (tcp_dest t) @ put32 (tcp_seq t) @ put32 (tcp_ack t) @
     [of_nat (tcp_hdrlen t * 4), tcp_flag_byte t] @ put16 (tcp_wnd t) @ put16 c @ put16 (tcp_up t) @
     tcp_opt_bytes t @ replicate (tcp_hdrlen t - TCPLEN - length (tcp_opt_bytes t)) 0"

definition tcp_ph :: "u32 \<Rightarrow> u32 \<Rightarrow> nat \<Rightarrow> pseudo_header" where
  "tcp_ph ipsrc ipdest len = \<lparr>ph_source = ipsrc, ph_dest = ipdest, ph_protocol = 6, ph_length = of_nat len\<rparr>"

definition htontcp :: "bool \<Rightarrow> (nat \<Rightarrow> bool) \<Rightarrow> bool \<Rightarrow> tcp \<Rightarrow> chain \<Rightarrow> u32 \<Rightarrow> u32 \<Rightarrow> chain" where
  "htontcp le al fits t bpp ipsrc ipdest =
     (let bpp' = pushdown fits (tcp_bytes t (tcp_checksum t)) bpp;
          len = len_p bpp'
      in if tcp_checksum t \<noteq> 0 then bpp'
         else pushdown fits (tcp_bytes t (of_nat (cksum le al (Some (tcp_ph ipsrc ipdest len)) bpp' len))) bpp)"

section \<open>Reading\<close>

text \<open>One option with a length field: \<open>body\<close> is what follows the length octet, as far as the option field goes.\<close>

definition tcp_option :: "byte \<Rightarrow> nat \<Rightarrow> byte list \<Rightarrow> tcp \<Rightarrow> tcp" where
  "tcp_option kind optlen body t =
     (if kind = MSS_KIND then
        if optlen = MSS_LENGTH then t\<lparr>tcp_mss := get16 (body ! 0) (body ! 1), f_mss := True\<rparr> else t
      else if kind = WSCALE_KIND then
        if optlen = WSCALE_LENGTH then t\<lparr>tcp_wsopt := body ! 0, f_wscale := True\<rparr> else t
      else if kind = TSTAMP_KIND then
        if optlen = TSTAMP_LENGTH then
          t\<lparr>tcp_tsval := get32 (body ! 0) (body ! 1) (body ! 2) (body ! 3),
            tcp_tsecr := get32 (body ! 4) (body ! 5) (body ! 6) (body ! 7), f_tstamp := True\<rparr>
        else t
      else t)"

text \<open>The option loop; the list is what is left of the field from \<^verbatim>\<open>cp\<close> on, \<^verbatim>\<open>i\<close> octets.\<close>

function tcp_options :: "byte list \<Rightarrow> tcp \<Rightarrow> tcp" where
  "tcp_options [] t = t"
| "tcp_options (kind # rest) t =
     (if kind = EOL_KIND then t
      else if kind = NOOP_KIND then tcp_options rest t
      else case rest of
             [] \<Rightarrow> t
           | len # body \<Rightarrow>
               let optlen = unat len
               in if optlen < 2 \<or> optlen - 2 > length body then t
                  else tcp_options (drop (optlen - 2) body) (tcp_option kind optlen body t))"
  by pat_completeness auto

termination
  by (relation "measure (length \<circ> fst)") auto

declare tcp_options.simps(2) [simp del]

definition tcp_fixed :: "byte list \<Rightarrow> tcp" where
  "tcp_fixed b =
     (let flags = b ! 13
      in tcp_zero\<lparr>tcp_source := get16 (b ! 0) (b ! 1), tcp_dest := get16 (b ! 2) (b ! 3),
            tcp_seq := get32 (b ! 4) (b ! 5) (b ! 6) (b ! 7), tcp_ack := get32 (b ! 8) (b ! 9) (b ! 10) (b ! 11),
            f_congest := (flags AND 64 \<noteq> 0), f_urg := (flags AND 32 \<noteq> 0), f_ack := (flags AND 16 \<noteq> 0),
            f_psh := (flags AND 8 \<noteq> 0), f_rst := (flags AND 4 \<noteq> 0), f_syn := (flags AND 2 \<noteq> 0),
            f_fin := (flags AND 1 \<noteq> 0),
            tcp_wnd := get16 (b ! 14) (b ! 15), tcp_checksum := get16 (b ! 16) (b ! 17),
            tcp_up := get16 (b ! 18) (b ! 19)\<rparr>)"

text \<open>\<^verbatim>\<open>ntohtcp\<close>: the header as far as it was filled in, the length it returns (\<open>None\<close> for -1) and what is left of
  the packet.  A packet that ends within the header leaves the rest of the buffer as it was on the \<open>stack\<close>.\<close>

definition ntohtcp :: "byte list \<Rightarrow> chain \<Rightarrow> tcp \<times> nat option \<times> chain" where
  "ntohtcp stack bpp =
     (let (got, bpp) = pullup bpp TCPLEN;
          hdrbuf = got @ drop (length got) stack;
          t = tcp_fixed hdrbuf;
          hdrlen = unat (drop_bit 2 (hdrbuf ! 12 AND 0xf0))
      in if length got < TCPLEN \<or> hdrlen < TCPLEN then (t, None, bpp)
         else if hdrlen = TCPLEN then (t, Some hdrlen, bpp)
         else if hdrlen - TCPLEN > len_p bpp then (t, None, bpp)
         else let (opts, bpp) = pullup bpp (hdrlen - TCPLEN)
              in (tcp_options opts t, Some hdrlen, bpp))"

section \<open>Round trip\<close>

text \<open>A header that can be written: the members with 16 bits on the wire fit, and the value of an option that is not
  sent is zero, as \<^verbatim>\<open>memset\<close> leaves it.\<close>

definition wf_tcp :: "tcp \<Rightarrow> bool" where
  "wf_tcp t \<longleftrightarrow> tcp_source t < 0x10000 \<and> tcp_dest t < 0x10000 \<and> tcp_wnd t < 0x10000 \<and> tcp_checksum t < 0x10000 \<and>
     tcp_up t < 0x10000 \<and> tcp_mss t < 0x10000 \<and> (\<not> f_mss t \<longrightarrow> tcp_mss t = 0) \<and> (\<not> f_wscale t \<longrightarrow> tcp_wsopt t = 0) \<and>
     (\<not> f_tstamp t \<longrightarrow> tcp_tsval t = 0 \<and> tcp_tsecr t = 0)"

lemma flag_bits:
  "tcp_flag_byte t AND 64 \<noteq> 0 \<longleftrightarrow> f_congest t" "tcp_flag_byte t AND 32 \<noteq> 0 \<longleftrightarrow> f_urg t"
  "tcp_flag_byte t AND 16 \<noteq> 0 \<longleftrightarrow> f_ack t" "tcp_flag_byte t AND 8 \<noteq> 0 \<longleftrightarrow> f_psh t"
  "tcp_flag_byte t AND 4 \<noteq> 0 \<longleftrightarrow> f_rst t" "tcp_flag_byte t AND 2 \<noteq> 0 \<longleftrightarrow> f_syn t"
  "tcp_flag_byte t AND 1 \<noteq> 0 \<longleftrightarrow> f_fin t"
  by (cases "f_congest t"; cases "f_urg t"; cases "f_ack t"; cases "f_psh t"; cases "f_rst t"; cases "f_syn t";
      cases "f_fin t"; simp add: tcp_flag_byte_def)+

lemma hdrlen_cases:
  "tcp_hdrlen t \<in> {20, 24, 28, 32, 36, 40}" "length (tcp_opt_bytes t) \<le> tcp_hdrlen t - 20"
  by (auto simp: tcp_hdrlen_def tcp_opt_bytes_def tcp_lengths Let_def)

lemma offset_octet: "unat (drop_bit 2 ((of_nat (tcp_hdrlen t * 4) :: byte) AND 0xf0)) = tcp_hdrlen t"
  using hdrlen_cases(1) [of t] by auto

lemma zeros_end [simp]: "tcp_options (replicate n 0) t = t"
  by (cases n) (simp_all add: tcp_options.simps(2) tcp_kinds)

lemma mss_read [simp]:
  "x < 0x10000 \<Longrightarrow> tcp_options (2 # 4 # put16 x @ rest) t = tcp_options rest (t\<lparr>tcp_mss := x, f_mss := True\<rparr>)"
  by (simp add: tcp_options.simps(2) tcp_kinds tcp_lengths put16_def tcp_option_def wire_simps)

lemma tstamp_read [simp]:
  "tcp_options (8 # 10 # put32 x @ put32 y @ rest) t =
     tcp_options rest (t\<lparr>tcp_tsval := x, tcp_tsecr := y, f_tstamp := True\<rparr>)"
  by (simp add: tcp_options.simps(2) tcp_kinds tcp_lengths put32_def tcp_option_def wire_simps)

lemma wscale_read [simp]:
  "tcp_options (3 # 3 # w # rest) t = tcp_options rest (t\<lparr>tcp_wsopt := w, f_wscale := True\<rparr>)"
  by (simp add: tcp_options.simps(2) tcp_kinds tcp_lengths tcp_option_def)

lemma tcp_options_read:
  assumes "wf_tcp t"
  shows "tcp_options (tcp_opt_bytes t @ replicate n 0)
     (t\<lparr>tcp_mss := 0, tcp_wsopt := 0, tcp_tsval := 0, tcp_tsecr := 0, f_mss := False, f_wscale := False, f_tstamp := False\<rparr>) = t"
  using assms
  by (cases "f_mss t"; cases "f_tstamp t"; cases "f_wscale t"; cases t)
     (simp_all add: tcp_opt_bytes_def tcp_kinds tcp_lengths wf_tcp_def)

lemma fixed_read:
  assumes "wf_tcp t" "c < 0x10000"
  shows "tcp_fixed (take 20 (tcp_bytes t c)) =
     t\<lparr>tcp_checksum := c, tcp_mss := 0, tcp_wsopt := 0, tcp_tsval := 0, tcp_tsecr := 0, f_mss := False, f_wscale := False,
       f_tstamp := False\<rparr>"
  using assms by (simp add: tcp_fixed_def tcp_bytes_def put16_def put32_def wf_tcp_def wire_simps Let_def flag_bits tcp_zero_def)

lemma tcp_fixed_front: "length g = 20 \<Longrightarrow> tcp_fixed (g @ xs) = tcp_fixed g"
  by (simp add: tcp_fixed_def nth_append Let_def)

lemma tcp_bytes_parts:
  "length (tcp_bytes t c) = tcp_hdrlen t" "length (take 20 (tcp_bytes t c)) = 20" "take 20 (tcp_bytes t c) ! 12 = of_nat (tcp_hdrlen t * 4)"
  "drop 20 (tcp_bytes t c) = tcp_opt_bytes t @ replicate (tcp_hdrlen t - 20 - length (tcp_opt_bytes t)) 0"
  using hdrlen_cases [of t] by (auto simp: tcp_bytes_def put16_def put32_def TCPLEN_def)

lemma ntohtcp_reads:
  assumes wf: "wf_tcp t" and c: "c < 0x10000" and bp: "content bp = tcp_bytes t c @ rest"
  shows "\<exists>bp'. ntohtcp stack bp = (t\<lparr>tcp_checksum := c\<rparr>, Some (tcp_hdrlen t), bp') \<and> content bp' = rest"
proof -
  note parts = tcp_bytes_parts [of t c]
  obtain bp1 where p1: "pullup bp TCPLEN = (take 20 (tcp_bytes t c), bp1)"
      and c1: "content bp1 = drop 20 (tcp_bytes t c) @ rest"
    using pullup_bytes_rest [of bp 20] bp parts hdrlen_cases(1) [of t] by (cases "pullup bp 20") (auto simp: TCPLEN_def)
  obtain bp2 where p2: "pullup bp1 (tcp_hdrlen t - 20) = (drop 20 (tcp_bytes t c), bp2)" and c2: "content bp2 = rest"
    using pullup_bytes_rest [of bp1 "tcp_hdrlen t - 20"] c1 parts(1) by (cases "pullup bp1 (tcp_hdrlen t - 20)") auto
  have f: "tcp_fixed (take 20 (tcp_bytes t c)) = t\<lparr>tcp_checksum := c, tcp_mss := 0, tcp_wsopt := 0, tcp_tsval := 0,
      tcp_tsecr := 0, f_mss := False, f_wscale := False, f_tstamp := False\<rparr>"
    by (rule fixed_read [OF wf c])
  have o: "tcp_options (drop 20 (tcp_bytes t c)) (tcp_fixed (take 20 (tcp_bytes t c))) = t\<lparr>tcp_checksum := c\<rparr>"
  proof -
    have "wf_tcp (t\<lparr>tcp_checksum := c\<rparr>)" using wf c by (simp add: wf_tcp_def)
    moreover have "tcp_opt_bytes (t\<lparr>tcp_checksum := c\<rparr>) = tcp_opt_bytes t" by (simp add: tcp_opt_bytes_def)
    ultimately show ?thesis
      using tcp_options_read [of "t\<lparr>tcp_checksum := c\<rparr>" "tcp_hdrlen t - 20 - length (tcp_opt_bytes t)"]
      unfolding f parts(4) by simp
  qed
  have hl: "20 \<le> tcp_hdrlen t" "len_p bp1 = tcp_hdrlen t - 20 + length rest"
    using hdrlen_cases(1) [of t] parts(1) by (auto simp: len_p_content c1)
  have e: "ntohtcp stack bp =
     (if tcp_hdrlen t = 20 then (tcp_fixed (take 20 (tcp_bytes t c)), Some (tcp_hdrlen t), bp1)
      else (tcp_options (drop 20 (tcp_bytes t c)) (tcp_fixed (take 20 (tcp_bytes t c))), Some (tcp_hdrlen t), bp2))"
    using hl parts(2) offset_octet [of t]
    unfolding ntohtcp_def p1 prod.case Let_def
    by (auto simp: TCPLEN_def nth_append parts(3) p2 tcp_fixed_front simp del: length_take)
  show ?thesis
  proof (cases "tcp_hdrlen t = 20")
    case True
    then have "drop 20 (tcp_bytes t c) = []" using parts(1) by simp
    then show ?thesis using e o c1 True by simp
  next
    case False
    then show ?thesis using e o c2 by simp
  qed
qed

definition tcp_sum :: "tcp \<Rightarrow> u32 \<Rightarrow> u32 \<Rightarrow> byte list \<Rightarrow> u32" where
  "tcp_sum t src dst data =
     (if tcp_checksum t \<noteq> 0 then tcp_checksum t
      else of_nat (65535 - eac (ph_sum (Some (tcp_ph src dst (tcp_hdrlen t + length data))) + wsum False (tcp_bytes t 0 @ data))))"

lemma htontcp_content: "content (htontcp le al fits t pkt src dst) = tcp_bytes t (tcp_sum t src dst (content pkt)) @ content pkt"
  by (simp add: htontcp_def Let_def pushdown_content cksum_eac tcp_sum_def len_p_content tcp_bytes_parts)

lemma tcp_sum_small: "wf_tcp t \<Longrightarrow> tcp_sum t src dst d < 0x10000"
proof -
  assume wf: "wf_tcp t"
  have "unat (of_nat (65535 - n) :: u32) < 65536" for n by (simp add: unat_of_nat)
  then have "(of_nat (65535 - n) :: u32) < 0x10000" for n unfolding word_less_nat_alt by simp
  then show ?thesis using wf by (simp add: tcp_sum_def wf_tcp_def)
qed

interpretation tcpc: header_codec "\<lambda>t _. wf_tcp t"
  "\<lambda>t data. (t\<lparr>tcp_checksum := tcp_sum t src dst data\<rparr>, tcp_hdrlen t)"
  "\<lambda>t pkt. htontcp le al fits t pkt src dst"
  "\<lambda>bp. case ntohtcp stack bp of (t, n, rest) \<Rightarrow> map_option (\<lambda>n. ((t, n), rest)) n" for le al fits src dst stack
proof
  fix t pkt bp
  assume wf: "wf_tcp t" and bp: "content bp = content (htontcp le al fits t pkt src dst)"
  obtain rest where "ntohtcp stack bp = (t\<lparr>tcp_checksum := tcp_sum t src dst (content pkt)\<rparr>, Some (tcp_hdrlen t), rest)"
      "content rest = content pkt"
    using ntohtcp_reads [OF wf tcp_sum_small [OF wf], of bp src dst "content pkt" "content pkt" stack] bp
    unfolding htontcp_content by blast
  then show "\<exists>rest. (case ntohtcp stack bp of (t, n, rest) \<Rightarrow> map_option (\<lambda>n. ((t, n), rest)) n) =
      Some ((t\<lparr>tcp_checksum := tcp_sum t src dst (content pkt)\<rparr>, tcp_hdrlen t), rest) \<and> content rest = content pkt"
    by simp
qed

text \<open>C23: \<^verbatim>\<open>ntohtcp\<close> reads back the header \<^verbatim>\<open>htontcp\<close> wrote in front of any data - flags, window and the options for segment
  size, window scale and time stamps in any combination - and leaves the data, however the packet is cut into mbufs; and
  when the checksum was to be computed, a receiver that sums pseudo-header and segment gets zero, whatever its machine.\<close>
theorem tcp_header_roundtrip:
  assumes "wf_tcp t" and "content bp = content (htontcp le al fits t pkt src dst)"
  shows "\<exists>c rest. ntohtcp stack bp = (t\<lparr>tcp_checksum := c\<rparr>, Some (tcp_hdrlen t), rest) \<and> content rest = content pkt \<and>
     (if tcp_checksum t \<noteq> 0 then c = tcp_checksum t
      else cksum le' al' (Some (tcp_ph src dst (len_p bp))) bp (len_p bp) = 0)"
proof -
  let ?c = "tcp_sum t src dst (content pkt)"
  have bp: "content bp = tcp_bytes t ?c @ content pkt" using assms(2) by (simp add: htontcp_content)
  obtain rest where r: "ntohtcp stack bp = (t\<lparr>tcp_checksum := ?c\<rparr>, Some (tcp_hdrlen t), rest)" "content rest = content pkt"
    using ntohtcp_reads [OF assms(1) tcp_sum_small [OF assms(1)] bp, of stack] by blast
  have "cksum le' al' (Some (tcp_ph src dst (len_p bp))) bp (len_p bp) = 0" if "tcp_checksum t = 0"
  proof -
    define front where "front = put16 (tcp_source t) @ put16 (tcp_dest t) @ put32 (tcp_seq t) @ put32 (tcp_ack t) @
        [of_nat (tcp_hdrlen t * 4), tcp_flag_byte t] @ put16 (tcp_wnd t)"
    define rear where "rear = put16 (tcp_up t) @ tcp_opt_bytes t @ replicate (tcp_hdrlen t - TCPLEN - length (tcp_opt_bytes t)) 0 @ content pkt"
    have b: "tcp_bytes t x @ content pkt = front @ put16 x @ rear" for x
      by (simp add: tcp_bytes_def front_def rear_def)
    have e: "even (length front)" by (simp add: front_def)
    have z: "put16 0 = [0, 0]" by (simp add: put16_def)
    have len: "len_p bp = tcp_hdrlen t + length (content pkt)" by (simp add: len_p_content bp tcp_bytes_parts)
    have s: "?c = of_nat (65535 - eac (ph_sum (Some (tcp_ph src dst (len_p bp))) + wsum False (front @ [0, 0] @ rear)))"
      using that by (simp only: tcp_sum_def b len z if_False simp_thms)
    have "eac (ph_sum (Some (tcp_ph src dst (len_p bp))) + wsum False (front @ put16 ?c @ rear)) = 65535"
      unfolding s by (rule cksum_self_check [OF e refl]) simp
    moreover have "take (len_p bp) (content bp) = front @ put16 ?c @ rear"
      unfolding len_p_content by (simp only: bp b take_all order_refl)
    ultimately show ?thesis by (simp only: cksum_eac diff_self_eq_0)
  qed
  moreover have "tcp_checksum t \<noteq> 0 \<Longrightarrow> ?c = tcp_checksum t" by (simp add: tcp_sum_def)
  ultimately show ?thesis using r by (intro exI [of _ ?c] exI [of _ rest]) simp
qed

definition sample_tcp :: tcp where
  "sample_tcp = tcp_zero\<lparr>tcp_source := 1025, tcp_dest := 23, tcp_seq := 0xfffffff0, tcp_wnd := 2048, tcp_mss := 216,
     tcp_wsopt := 1, tcp_tsval := 7, f_syn := True, f_mss := True, f_wscale := True, f_tstamp := True\<rparr>"

lemma tcp_header_roundtrip_witness:
  "\<exists>c rest. ntohtcp [] (htontcp True (\<lambda>_. True) False sample_tcp [[1], [2]] 1 2) =
      (sample_tcp\<lparr>tcp_checksum := c\<rparr>, Some 40, rest) \<and> content rest = [1, 2]"
proof -
  have "wf_tcp sample_tcp" "tcp_hdrlen sample_tcp = 40"
    by (simp_all add: wf_tcp_def sample_tcp_def tcp_zero_def tcp_hdrlen_def tcp_lengths)
  then show ?thesis
    using tcp_header_roundtrip [of sample_tcp "htontcp True (\<lambda>_. True) False sample_tcp [[1], [2]] 1 2" True "\<lambda>_. True" False
        "[[1], [2]]" 1 2 "[]" True "\<lambda>_. True"] by (simp only: content_Cons content_Nil append.simps) blast
qed

text \<open>What an ICMP message returns of a segment - its first eight octets, or any beginning with at least these - gives
  \<^verbatim>\<open>tcp_icmp\<close> the ports and the sequence number that were sent; a header that is cut is reported as -1, whatever was on the stack.\<close>
theorem icmp_sees_ports:
  assumes "wf_tcp t" "8 \<le> n" "content bp = take n (content (htontcp le al fits t pkt src dst))"
  shows "\<exists>h r rest. ntohtcp stack bp = (h, r, rest) \<and> tcp_source h = tcp_source t \<and> tcp_dest h = tcp_dest t \<and>
     tcp_seq h = tcp_seq t \<and> (n < 20 \<longrightarrow> r = None)"
proof -
  define c where "c = tcp_sum t src dst (content pkt)"
  have tk: "take 8 (content bp) = take 8 (tcp_bytes t c)" "length (content bp) \<le> n"
    using assms(2,3) tcp_bytes_parts(1) [of t c] hdrlen_cases(1) [of t]
    by (auto simp: htontcp_content c_def min_def)
  have ports: "take 8 (tcp_bytes t c) = put16 (tcp_source t) @ put16 (tcp_dest t) @ put32 (tcp_seq t)"
    by (simp add: tcp_bytes_def put16_def put32_def)
  obtain got r1 where g: "pullup bp TCPLEN = (got, r1)" by fastforce
  define hb where "hb = got @ drop (length got) stack"
  have "got = take 20 (content bp)" using pullup_fst [of bp TCPLEN] g by (simp add: TCPLEN_def)
  then have gt: "take 8 got = put16 (tcp_source t) @ put16 (tcp_dest t) @ put32 (tcp_seq t)" "length got \<le> n"
    using tk ports by (auto simp: min_def)
  moreover have "8 \<le> length got" using arg_cong [OF gt(1), of length] by simp
  ultimately have "take 8 hb = put16 (tcp_source t) @ put16 (tcp_dest t) @ put32 (tcp_seq t)"
    unfolding hb_def by simp
  then have nths: "hb ! k = (put16 (tcp_source t) @ put16 (tcp_dest t) @ put32 (tcp_seq t)) ! k" if "k < 8" for k
    using that by (metis nth_take)
  have f: "tcp_source (tcp_fixed hb) = tcp_source t" "tcp_dest (tcp_fixed hb) = tcp_dest t" "tcp_seq (tcp_fixed hb) = tcp_seq t"
    using assms(1) by (simp_all add: tcp_fixed_def Let_def nths put16_def put32_def wire_simps wf_tcp_def)
  have o: "tcp_source (tcp_options os h) = tcp_source h \<and> tcp_dest (tcp_options os h) = tcp_dest h \<and> tcp_seq (tcp_options os h) = tcp_seq h" for os h
    by (induction os h rule: tcp_options.induct) (auto simp: tcp_options.simps(2) tcp_option_def Let_def split: list.splits)
  show ?thesis
    unfolding ntohtcp_def g prod.case Let_def hb_def [symmetric] using f gt(2) o
    by (auto simp: TCPLEN_def split: prod.split)
qed

lemma icmp_sees_ports_witness:
  "\<exists>h rest. ntohtcp (replicate 20 0xff) [take 8 (content (htontcp True (\<lambda>_. True) False sample_tcp [] 1 2))] = (h, None, rest) \<and>
     tcp_source h = 1025 \<and> tcp_dest h = 23 \<and> tcp_seq h = 0xfffffff0"
proof -
  have "wf_tcp sample_tcp" by (simp add: wf_tcp_def sample_tcp_def tcp_zero_def)
  then show ?thesis
    using icmp_sees_ports [of sample_tcp 8 "[take 8 (content (htontcp True (\<lambda>_. True) False sample_tcp [] 1 2))]" True "\<lambda>_. True" False
        "[]" 1 2 "replicate 20 0xff"] by (auto simp: sample_tcp_def)
qed

end
