(* ===== verification/Tcp.thy ===== *)
theory Tcp
  imports Tcp_Hdr "HOL-Library.Signed_Division"
begin

text \<open>
  The TCP engine: the control block of \<^verbatim>\<open>src/src/tcp.h\<close>, the subroutines of \<^verbatim>\<open>tcpsubr.c\<close>, output (\<^verbatim>\<open>tcpout.c\<close>), timeouts
  (\<^verbatim>\<open>tcptimer.c\<close>), input (\<^verbatim>\<open>tcpin.c\<close>) and the calls of the user (\<^verbatim>\<open>tcpuser.c\<close>).

  All counters and sequence numbers are words of 32 bits.  An \<^verbatim>\<open>int32\<close> is read through \<open>sint\<close> and compared with \<open><s\<close>;
  where the C code mixes \<^verbatim>\<open>uint\<close> and \<^verbatim>\<open>int32\<close> the comparison is unsigned, as the conversion rules have it.  The segments that
  are handed to \<^verbatim>\<open>ip_send\<close> are the log \<open>t_out\<close>; the data the user has handed over
  with \<^verbatim>\<open>send_tcp\<close> is the log \<open>t_given\<close>, what he has taken with \<^verbatim>\<open>recv_tcp\<close> the log \<open>t_taken\<close>.  The three upcalls of a
  block run user code that may call the engine again; they are functions on the block.  \<open>t_ub\<close> is set where the C code
  divides by zero, shifts by more than the width of the type or writes outside a buffer.  The MIB counters are left out.
\<close>

section \<open>The control block\<close>

datatype tcp_state = TCP_CLOSED | TCP_LISTEN | TCP_SYN_SENT | TCP_SYN_RECEIVED | TCP_ESTABLISHED | TCP_FINWAIT1
  | TCP_FINWAIT2 | TCP_CLOSE_WAIT | TCP_LAST_ACK | TCP_CLOSING | TCP_TIME_WAIT

datatype tcp_reason = NORMAL | RESET | TIMEOUT | NETWORK

record tconn =
  c_laddr :: u32
  c_lport :: u32
  c_raddr :: u32
  c_rport :: u32

record reseq =
  rs_seg :: tcp
  rs_bp :: chain
  rs_length :: u32
  rs_tos :: byte

record tcp_rtt =
  rt_addr :: u32
  rt_srtt :: u32
  rt_mdev :: u32

record ttimer =
  tt_dur :: u32
  tt_run :: bool

record tcb =
  t_conn :: tconn
  t_state :: tcp_state
  t_reason :: tcp_reason
  t_type :: byte
  t_code :: byte
  t_una :: u32
  t_nxt :: u32
  t_ptr :: u32
  t_wl1 :: u32
  t_wl2 :: u32
  t_swnd :: u32
  t_swscale :: byte
  t_iss :: u32
  t_resent :: u32
  t_cwind :: u32
  t_ssthresh :: u32
  t_dupacks :: nat
  t_rnxt :: u32
  t_rwnd :: u32
  t_rwscale :: byte
  t_last_ack_sent :: u32
  t_ts_recent :: u32
  t_irs :: u32
  t_rerecv :: u32
  t_mss :: u32
  t_window :: u32
  t_force :: bool
  t_clone :: bool
  t_retran :: bool
  t_active :: bool
  t_synack :: bool
  t_rtt_run :: bool
  t_congest :: bool
  t_ts_ok :: bool
  t_ws_ok :: bool
  t_tos :: byte
  t_backoff :: nat
  t_rcvq :: chain
  t_sndq :: chain
  t_rcvcnt :: u32
  t_sndcnt :: u32
  t_reseq :: "reseq list"
  t_timer :: ttimer
  t_rtt_time :: u32
  t_rttseq :: u32
  t_rttack :: u32
  t_srtt :: u32
  t_mdev :: u32
  t_rtt :: u32
  t_quench :: u32
  t_unreach :: u32
  t_timeouts :: u32
  t_lastack :: u32
  t_outlen :: u32
  t_outrate :: u32
  t_lastrx :: u32
  t_inlen :: u32
  t_inrate :: u32
  t_cache :: "tcp_rtt list"
  t_out :: "(u32 \<times> u32 \<times> tcp \<times> byte list) list"
  t_given :: "byte list"
  t_taken :: "byte list"
  t_ub :: bool

text \<open>What a handler asks of the rest of the node: the clock, the switches of \<^verbatim>\<open>tcpcmd.c\<close>, \<^verbatim>\<open>ip_mtu\<close>, and the upcalls.\<close>

record tenv =
  te_clock :: u32
  te_syndata :: bool
  te_tstamps :: bool
  te_mss :: u32
  te_window :: u32
  te_irtt :: u32
  te_mtu :: "u32 \<Rightarrow> u32"
  te_r_up :: "u32 \<Rightarrow> tcb \<Rightarrow> tcb"
  te_t_up :: "u32 \<Rightarrow> tcb \<Rightarrow> tcb"
  te_s_up :: "tcp_state \<Rightarrow> tcp_state \<Rightarrow> tcb \<Rightarrow> tcb"

section \<open>Arithmetic\<close>

definition smin :: "u32 \<Rightarrow> u32 \<Rightarrow> u32" where "smin x y = (if x <s y then x else y)"
definition smax :: "u32 \<Rightarrow> u32 \<Rightarrow> u32" where "smax x y = (if y <s x then x else y)"

text \<open>\<^verbatim>\<open>int32\<close> division.\<close>
definition sdiv32 :: "u32 \<Rightarrow> int \<Rightarrow> u32" where "sdiv32 x n = word_of_int (sint x sdiv n)"

definition TDIFF :: "u32 \<Rightarrow> u32 \<Rightarrow> u32" where "TDIFF a b = a - b"

definition seq_within :: "u32 \<Rightarrow> u32 \<Rightarrow> u32 \<Rightarrow> bool" where
  "seq_within x low high =
     (if low \<le>s high then low \<le>s x \<and> x \<le>s high
      else x \<le>s low \<and> high \<le>s x)"

definition seq_lt :: "u32 \<Rightarrow> u32 \<Rightarrow> bool" where "seq_lt x y = (x - y <s 0)"
definition seq_gt :: "u32 \<Rightarrow> u32 \<Rightarrow> bool" where "seq_gt x y = (0 <s x - y)"
definition seq_ge :: "u32 \<Rightarrow> u32 \<Rightarrow> bool" where "seq_ge x y = (0 \<le>s x - y)"

section \<open>Subroutines (tcpsubr.c)\<close>

definition start_tm :: "ttimer \<Rightarrow> ttimer" where "start_tm t = t\<lparr>tt_run := (0 <s tt_dur t)\<rparr>"
definition stop_tm :: "ttimer \<Rightarrow> ttimer" where "stop_tm t = t\<lparr>tt_run := False\<rparr>"

definition settcpstate :: "tenv \<Rightarrow> tcp_state \<Rightarrow> tcb \<Rightarrow> tcb" where
  "settcpstate env new t =
     (let old = t_state t;
          t = te_s_up env old new (t\<lparr>t_state := new\<rparr>)
      in if new \<in> {TCP_SYN_RECEIVED, TCP_ESTABLISHED} \<and> t_sndcnt t <s t_window t
         then te_t_up env (t_window t - t_sndcnt t) t else t)"

definition close_self :: "tenv \<Rightarrow> tcp_reason \<Rightarrow> tcb \<Rightarrow> tcb" where
  "close_self env reason t =
     settcpstate env TCP_CLOSED (t\<lparr>t_timer := stop_tm (t_timer t), t_reason := reason, t_reseq := []\<rparr>)"

text \<open>The smoothing of round trip times, (\<^verbatim>\<open>srtt\<close>, \<^verbatim>\<open>mdev\<close>); the shifts are arithmetic, of a \<^verbatim>\<open>long\<close>.\<close>

definition rtt_smooth :: "int \<Rightarrow> u32 \<Rightarrow> u32 \<Rightarrow> u32 \<times> u32" where
  "rtt_smooth rtt srtt mdev =
     (word_of_int ((7 * sint srtt + rtt + 4) div 8),
      word_of_int ((3 * sint mdev + \<bar>rtt - sint srtt\<bar> + 2) div 4))"

definition rtt_front :: "u32 \<Rightarrow> tcp_rtt list \<Rightarrow> (tcp_rtt \<times> tcp_rtt list) option" where
  "rtt_front addr c =
     (case dropWhile (\<lambda>r. rt_addr r \<noteq> addr) c of
        [] \<Rightarrow> None
      | r # rs \<Rightarrow> Some (r, takeWhile (\<lambda>r. rt_addr r \<noteq> addr) c @ rs))"

definition rtt_add :: "u32 \<Rightarrow> int \<Rightarrow> tcp_rtt list \<Rightarrow> tcp_rtt list" where
  "rtt_add addr rtt c =
     (if addr = 0 then c
      else case rtt_front addr c of
             None \<Rightarrow> \<lparr>rt_addr = addr, rt_srtt = word_of_int rtt, rt_mdev = 0\<rparr> # c
           | Some (r, rs) \<Rightarrow>
               let (srtt, mdev) = rtt_smooth rtt (rt_srtt r) (rt_mdev r)
               in r\<lparr>rt_srtt := srtt, rt_mdev := mdev\<rparr> # rs)"

definition rtt_get :: "u32 \<Rightarrow> tcp_rtt list \<Rightarrow> tcp_rtt option \<times> tcp_rtt list" where
  "rtt_get addr c =
     (if addr = 0 then (None, c)
      else case rtt_front addr c of
             None \<Rightarrow> (None, c)
           | Some (r, rs) \<Rightarrow> (Some r, r # rs))"

section \<open>Output (tcpout.c)\<close>

text \<open>\<^verbatim>\<open>mybackoff\<close> computes the powers of 1.25 in a \<^verbatim>\<open>double\<close>, exactly as long as they and the product have 53 bits.\<close>

definition rto_of :: "nat \<Rightarrow> u32 \<Rightarrow> u32 \<Rightarrow> int" where
  "rto_of n mdev srtt = ((sint (4 * mdev + srtt)) * 5 ^ n) sdiv 4 ^ n"

definition MIN_RTO :: int where "MIN_RTO = 500"

definition out_sent :: "tcb \<Rightarrow> u32" where "out_sent t = t_ptr t - t_una t"

definition out_usable :: "tcb \<Rightarrow> u32" where
  "out_usable t =
     (let sent = out_sent t;
          usable = smin (t_swnd t) (t_cwind t)
      in if sent <s usable then usable - sent
         else if usable = 0 \<and> sent = 0 then 1
         else 0)"

text \<open>\<^verbatim>\<open>ssize\<close>, after the rules of Nagle, of data on a SYN and of forced segments during a retransmission.\<close>

definition out_ssize :: "tenv \<Rightarrow> tcb \<Rightarrow> u32" where
  "out_ssize env t =
     (let sent = out_sent t;
          ssize = smin (t_sndcnt t - sent) (out_usable t);
          ssize = min ssize (t_mss t);
          ssize = (if \<not> t_force t \<and> sent \<noteq> 0 \<and> ssize < t_mss t
                      \<and> \<not> (t_state t = TCP_FINWAIT1 \<and> ssize = t_sndcnt t - sent) then 0 else ssize);
          ssize = (if \<not> t_synack t \<and> \<not> te_syndata env
                   then (if t_ptr t = t_iss t then min 1 ssize else 0) else ssize)
      in if t_force t \<and> t_ptr t \<noteq> t_nxt t
         then (if t_ptr t = t_iss t then 1 else 0) else ssize)"

definition out_syn :: "tcb \<Rightarrow> bool" where "out_syn t \<longleftrightarrow> \<not> t_synack t \<and> t_ptr t = t_iss t"

text \<open>The data octets the segment is to carry, a FIN counted in, and what \<^verbatim>\<open>extract\<close> finds of them on the send queue.\<close>

definition out_dsize :: "u32 \<Rightarrow> tcb \<Rightarrow> u32" where
  "out_dsize ssize t = (if out_syn t then ssize - 1 else ssize)"

definition out_data :: "u32 \<Rightarrow> tcb \<Rightarrow> byte list" where
  "out_data ssize t =
     (let sent = out_sent t;
          offset = (if \<not> t_synack t \<and> sent \<noteq> 0 then sent - 1 else sent)
      in if out_dsize ssize t = 0 then []
         else extract_p (t_sndq t) (unat offset) (unat (out_dsize ssize t)))"

definition out_fin :: "u32 \<Rightarrow> tcb \<Rightarrow> bool" where
  "out_fin ssize t \<longleftrightarrow> out_dsize ssize t \<noteq> 0 \<and> length (out_data ssize t) \<noteq> unat (out_dsize ssize t)"

definition out_seg :: "tenv \<Rightarrow> u32 \<Rightarrow> tcb \<Rightarrow> tcp" where
  "out_seg env ssize t =
     (let seg = tcp_zero\<lparr>tcp_source := c_lport (t_conn t), tcp_dest := c_rport (t_conn t),
                  f_ack := (t_state t \<noteq> TCP_SYN_SENT), f_congest := t_congest t\<rparr>;
          seg = (if out_syn t then seg\<lparr>f_syn := True, tcp_mss := te_mss env, f_mss := True\<rparr> else seg);
          seg = (if out_syn t \<and> te_tstamps env then seg\<lparr>f_tstamp := True, tcp_tsval := te_clock env\<rparr> else seg);
          seg = seg\<lparr>tcp_seq := (if ssize = 0 then t_nxt t else t_ptr t), tcp_ack := t_rnxt t,
                    tcp_wnd := (if f_syn seg \<or> \<not> t_ws_ok t then t_rwnd t
                                else signed_drop_bit (unat (t_rwscale t)) (t_rwnd t)),
                    f_fin := out_fin ssize t\<rparr>;
          dsize = (if out_fin ssize t then out_dsize ssize t - 1 else out_dsize ssize t);
          seg = seg\<lparr>f_psh := (dsize \<noteq> 0 \<and> out_sent t + ssize = t_sndcnt t)\<rparr>
      in if t_ts_ok t \<and> f_ack seg
         then seg\<lparr>f_tstamp := True, tcp_tsval := te_clock env, tcp_tsecr := t_ts_recent t\<rparr> else seg)"

definition out_timers :: "tenv \<Rightarrow> u32 \<Rightarrow> tcb \<Rightarrow> tcb" where
  "out_timers env ssize t =
     (if ssize = 0 then t
      else let rto = word_of_int (max MIN_RTO (sint (word_of_int (rto_of (t_backoff t) (t_mdev t) (t_srtt t)) :: u32)));
               t = t\<lparr>t_timer := (t_timer t)\<lparr>tt_dur := rto\<rparr>\<rparr>;
               t = (if tt_run (t_timer t) then t else t\<lparr>t_timer := start_tm (t_timer t)\<rparr>)
           in if t_ts_ok t \<or> \<not> t_rtt_run t
              then t\<lparr>t_rtt_run := True, t_rtt_time := te_clock env, t_rttseq := t_ptr t, t_rttack := t_una t\<rparr>
              else t)"

text \<open>One segment of \<open>ssize\<close> is sent.  A SYN of size zero makes \<^verbatim>\<open>dsize\<close> wrap; the buffer is then smaller than the room
  for headers that is left in front of its data.\<close>

definition out_emit :: "tenv \<Rightarrow> u32 \<Rightarrow> tcb \<Rightarrow> tcb" where
  "out_emit env ssize t =
     (let data = out_data ssize t;
          seg = out_seg env ssize t;
          ptr = t_ptr t + ssize;
          t' = t\<lparr>t_force := False, t_last_ack_sent := t_rnxt t,
                 t_ub := (t_ub t \<or> out_syn t \<and> ssize = 0 \<and> data \<noteq> []),
                 t_resent := (if t_ptr t <s t_nxt t then t_resent t + min (t_nxt t - t_ptr t) ssize else t_resent t),
                 t_ptr := ptr,
                 t_nxt := (if seq_gt ptr (t_nxt t) then ptr else t_nxt t)\<rparr>;
          t' = out_timers env ssize t'
      in t'\<lparr>t_out := t_out t @ [(c_laddr (t_conn t), c_raddr (t_conn t), seg, data)]\<rparr>)"

fun tcp_out_loop :: "nat \<Rightarrow> tenv \<Rightarrow> tcb \<Rightarrow> tcb" where
  "tcp_out_loop 0 env t = t"
| "tcp_out_loop (Suc fuel) env t =
     (let ssize = out_ssize env t
      in if ssize = 0 \<and> \<not> t_force t then t
         else tcp_out_loop fuel env (out_emit env ssize t))"

text \<open>The loop sends at most one forced segment without a sequence number, and every other one takes at least one of \<^verbatim>\<open>sndcnt\<close>.\<close>

definition tcp_output :: "tenv \<Rightarrow> tcb \<Rightarrow> tcb" where
  "tcp_output env t =
     (if t_state t \<in> {TCP_LISTEN, TCP_CLOSED} then t
      else tcp_out_loop (unat (t_sndcnt t) + 2) env t)"

section \<open>Timeouts (tcptimer.c)\<close>

definition cut_ssthresh :: "tcb \<Rightarrow> tcb" where
  "cut_ssthresh t = t\<lparr>t_ssthresh := smax (sdiv32 (t_cwind t) 2) (t_mss t)\<rparr>"

text \<open>Send the oldest segment again: the send pointer goes back for one call of \<^verbatim>\<open>tcp_output\<close>.\<close>

definition resend_oldest :: "tenv \<Rightarrow> tcb \<Rightarrow> tcb" where
  "resend_oldest env t =
     (let ptrsave = t_ptr t
      in (tcp_output env (t\<lparr>t_ptr := t_una t, t_cwind := t_mss t\<rparr>))\<lparr>t_ptr := ptrsave\<rparr>)"

definition tcp_timeout :: "tenv \<Rightarrow> tcb \<Rightarrow> tcb" where
  "tcp_timeout env t =
     (let t = t\<lparr>t_timer := stop_tm (t_timer t)\<rparr>
      in if t_state t = TCP_TIME_WAIT then close_self env NORMAL t
         else let t = t\<lparr>t_timeouts := t_timeouts t + 1, t_retran := True, t_backoff := t_backoff t + 1\<rparr>
              in if t_backoff t > 10 then close_self env TIMEOUT t
                 else resend_oldest env (cut_ssthresh t))"

end
