(* ===== verification/Tcp_In.thy ===== *)
theory Tcp_In
  imports Tcp
begin

text \<open>
  Input of TCP segments: \<^verbatim>\<open>src/src/tcpin.c\<close>.  \<open>update\<close> is the processing of acknowledgement and window, \<open>trim\<close> cuts a
  segment to the receive window, \<open>rx_seg\<close> is the body of the loop of \<^verbatim>\<open>tcp_input\<close> and \<open>rx_scan\<close> its search of the
  resequencing queue, \<open>tcp_segment\<close> what happens to a segment once its control block is found, and \<open>tcp_input\<close> the whole of it
  over the list of control blocks.
\<close>

section \<open>Acknowledgement and window\<close>

definition TCPDUPACKS :: nat where "TCPDUPACKS = 3"

definition upd_window :: "tcp \<Rightarrow> tcb \<Rightarrow> bool \<times> tcb" where
  "upd_window seg t =
     (if seq_gt (tcp_seq seg) (t_wl1 t) \<or> tcp_seq seg = t_wl1 t \<and> seq_ge (tcp_ack seg) (t_wl2 t)
      then let scaled = (\<not> f_syn seg \<and> t_ws_ok t);
               swind = (if scaled then push_bit (unat (t_swscale t)) (tcp_wnd seg) else tcp_wnd seg);
               winupd = (t_swnd t <s swind);
               t = (if winupd \<and> t_swnd t = 0 then t\<lparr>t_ptr := t_una t\<rparr> else t)
           in (winupd, t\<lparr>t_swnd := swind, t_wl1 := tcp_seq seg, t_wl2 := tcp_ack seg,
                         t_ub := (t_ub t \<or> scaled \<and> unat (t_swscale t) \<ge> 32)\<rparr>)
      else (False, t))"

definition clamp_cwind :: "tcb \<Rightarrow> tcb" where
  "clamp_cwind t = t\<lparr>t_cwind := smax (smin (t_cwind t) (t_sndcnt t)) (t_mss t)\<rparr>"

definition upd_dup :: "tenv \<Rightarrow> tcp \<Rightarrow> u32 \<Rightarrow> bool \<Rightarrow> tcb \<Rightarrow> tcb" where
  "upd_dup env seg dlen winupd t =
     (if t_sndcnt t = 0 \<or> winupd \<or> dlen \<noteq> 0 \<or> f_syn seg \<or> f_fin seg then t
      else let t = t\<lparr>t_dupacks := t_dupacks t + 1\<rparr>;
               t = (if t_dupacks t = TCPDUPACKS then
                      let t = resend_oldest env (cut_ssthresh t)
                      in t\<lparr>t_cwind := t_ssthresh t + of_nat TCPDUPACKS * t_mss t\<rparr>
                    else if t_dupacks t > TCPDUPACKS then t\<lparr>t_cwind := t_cwind t + t_mss t\<rparr>
                    else t)
           in clamp_cwind t)"

definition upd_cwind :: "u32 \<Rightarrow> tcb \<Rightarrow> tcb" where
  "upd_cwind acked t =
     (let t = (if t_dupacks t \<ge> TCPDUPACKS \<and> t_ssthresh t <s t_cwind t then t\<lparr>t_cwind := t_ssthresh t\<rparr> else t);
          t = t\<lparr>t_dupacks := 0\<rparr>;
          t = (if t_cwind t <s t_swnd t \<and> \<not> t_retran t then
                 let t = (if t_cwind t <s t_ssthresh t then t\<lparr>t_cwind := t_cwind t + smin acked (t_mss t)\<rparr>
                          else t\<lparr>t_cwind := t_cwind t + word_of_int ((sint (t_mss t) * sint (t_mss t)) sdiv sint (t_cwind t)),
                                 t_ub := (t_ub t \<or> t_cwind t = 0)\<rparr>)
                 in if t_swnd t <s t_cwind t then t\<lparr>t_cwind := t_swnd t\<rparr> else t
               else t)
      in clamp_cwind t)"

definition upd_rtt :: "tenv \<Rightarrow> tcp \<Rightarrow> tcb \<Rightarrow> tcb" where
  "upd_rtt env seg t =
     (let (rtt, t) =
            (if t_ts_ok t \<and> f_tstamp seg then (sint (TDIFF (te_clock env) (tcp_tsecr seg)), t)
             else if t_rtt_run t \<and> seq_ge (tcp_ack seg) (t_rttseq t) then
               (if \<not> t_retran t then sint (TDIFF (te_clock env) (t_rtt_time t)) else -1, t\<lparr>t_rtt_run := False\<rparr>)
             else (-1, t))
      in if rtt \<ge> 0 then
           let (srtt, mdev) = rtt_smooth rtt (t_srtt t) (t_mdev t)
           in t\<lparr>t_rtt := word_of_int rtt, t_srtt := srtt, t_mdev := mdev,
                t_cache := rtt_add (c_raddr (t_conn t)) rtt (t_cache t), t_backoff := 0,
                t_outlen := sdiv32 (7 * t_outlen t + tcp_ack seg - t_rttack t) 8,
                t_outrate := sdiv32 (7 * t_outrate t + TDIFF (te_clock env) (t_lastack t)) 8,
                t_lastack := te_clock env\<rparr>
         else t)"

text \<open>The queue after something new has been acknowledged: the octets of real data among it leave the send queue, the timer
  runs on if something is still on the way, the send pointer does not stay behind.\<close>

definition acked_data :: "tcp \<Rightarrow> tcb \<Rightarrow> u32" where
  "acked_data seg t =
     (let acked = tcp_ack seg - t_una t in if t_synack t then acked else acked - 1)"

definition ack_queue :: "tcp \<Rightarrow> tcb \<Rightarrow> tcb" where
  "ack_queue seg t =
     t\<lparr>t_sndcnt := t_sndcnt t - (tcp_ack seg - t_una t), t_una := tcp_ack seg, t_synack := True,
       t_sndq := snd (pullup (t_sndq t) (unat (acked_data seg t))),
       t_timer := (if tcp_ack seg \<noteq> t_nxt t then start_tm (stop_tm (t_timer t)) else stop_tm (t_timer t)),
       t_ptr := (if seq_lt (t_ptr t) (tcp_ack seg) then tcp_ack seg else t_ptr t),
       t_retran := False\<rparr>"

definition upd_queue :: "tenv \<Rightarrow> tcp \<Rightarrow> tcb \<Rightarrow> tcb" where
  "upd_queue env seg t =
     (let acked = acked_data seg t;
          t = ack_queue seg t
      in if acked \<noteq> 0 \<and> t_state t \<in> {TCP_ESTABLISHED, TCP_CLOSE_WAIT} \<and> t_sndcnt t <s t_window t
         then te_t_up env (t_window t - t_sndcnt t) t else t)"

definition update :: "tenv \<Rightarrow> tcp \<Rightarrow> u32 \<Rightarrow> tcb \<Rightarrow> tcb" where
  "update env seg dlen t =
     (if seq_gt (tcp_ack seg) (t_nxt t) then t\<lparr>t_force := True\<rparr>
      else let (winupd, t) = upd_window seg t
           in if seq_lt (tcp_ack seg) (t_una t) then t
              else if tcp_ack seg = t_una t then upd_dup env seg dlen winupd t
              else upd_queue env seg (upd_rtt env seg (upd_cwind (tcp_ack seg - t_una t) t)))"

section \<open>SYN and RST\<close>

definition PREC :: "byte \<Rightarrow> byte" where "PREC x = drop_bit 5 x AND 7"

definition proc_syn :: "tenv \<Rightarrow> byte \<Rightarrow> tcp \<Rightarrow> tcb \<Rightarrow> tcb" where
  "proc_syn env tos seg t =
     (let mss = (if f_mss seg then tcp_mss seg else t_mss t);
          stamp = (f_tstamp seg \<and> te_tstamps env);
          mtu = te_mtu env (c_raddr (t_conn t));
          room = min (mtu - (if stamp \<or> t_ts_ok t then 52 else 40)) mss;
          (tp, cache) = rtt_get (c_raddr (t_conn t)) (t_cache t)
      in t\<lparr>t_force := True, t_tos := (if PREC tos > PREC (t_tos t) then tos else t_tos t),
           t_rnxt := tcp_seq seg + 1, t_wl1 := tcp_seq seg, t_irs := tcp_seq seg, t_swnd := tcp_wnd seg,
           t_swscale := (if f_wscale seg then tcp_wsopt seg else t_swscale t),
           t_rwscale := (if f_wscale seg then 0 else t_rwscale t), t_ws_ok := (f_wscale seg \<or> t_ws_ok t),
           t_ts_ok := (stamp \<or> t_ts_ok t), t_ts_recent := (if stamp then tcp_tsval seg else t_ts_recent t),
           t_mss := (if mtu \<noteq> 0 then room else mss), t_cwind := (if mtu \<noteq> 0 then room else t_cwind t),
           t_cache := cache,
           t_srtt := (case tp of None \<Rightarrow> t_srtt t | Some r \<Rightarrow> rt_srtt r),
           t_mdev := (case tp of None \<Rightarrow> t_mdev t | Some r \<Rightarrow> rt_mdev r)\<rparr>)"

definition geniss :: "tenv \<Rightarrow> u32" where "geniss env = push_bit 12 (te_clock env)"

definition send_syn :: "tenv \<Rightarrow> tcb \<Rightarrow> tcb" where
  "send_syn env t =
     t\<lparr>t_iss := geniss env, t_rttseq := geniss env, t_wl2 := geniss env, t_una := geniss env, t_ptr := geniss env,
       t_nxt := geniss env, t_sndcnt := t_sndcnt t + 1, t_force := True\<rparr>"

definition reset_seg :: "tcp \<Rightarrow> tcp" where
  "reset_seg seg =
     (let seg = seg\<lparr>tcp_source := tcp_dest seg, tcp_dest := tcp_source seg\<rparr>;
          seg = (if f_ack seg then seg\<lparr>f_ack := False, tcp_seq := tcp_ack seg, tcp_ack := 0\<rparr>
                 else seg\<lparr>f_ack := True, tcp_ack := (if f_syn seg then tcp_seq seg + 1 else tcp_seq seg), tcp_seq := 0\<rparr>)
      in seg\<lparr>f_urg := False, f_psh := False, f_rst := True, f_syn := False, f_fin := False, f_mss := False,
             f_wscale := False, f_tstamp := False, tcp_wnd := 0, tcp_up := 0, tcp_checksum := 0\<rparr>)"

definition reset_out :: "ip \<Rightarrow> tcp \<Rightarrow> (u32 \<times> u32 \<times> tcp \<times> byte list) list" where
  "reset_out ip seg = (if f_rst seg then [] else [(ip_dest ip, ip_source ip, reset_seg seg, [])])"

definition reset :: "ip \<Rightarrow> tcp \<Rightarrow> tcb \<Rightarrow> tcb" where
  "reset ip seg t = t\<lparr>t_out := t_out t @ reset_out ip seg\<rparr>"

section \<open>The receive window\<close>

definition in_window :: "tcb \<Rightarrow> u32 \<Rightarrow> bool" where
  "in_window t seq = seq_within seq (t_rnxt t) (t_rnxt t + t_rwnd t - 1)"

text \<open>\<^verbatim>\<open>trim\<close> returns whether the segment is acceptable, with what the C code changes through its pointers.\<close>

definition trim_left :: "tcb \<Rightarrow> tcp \<Rightarrow> chain \<Rightarrow> u32 \<Rightarrow> tcb \<times> tcp \<times> chain \<times> u32" where
  "trim_left t seg bp dlen =
     (let dupcnt = t_rnxt t - tcp_seq seg
      in if 0 <s dupcnt then
           let t = t\<lparr>t_rerecv := t_rerecv t + dupcnt\<rparr>;
               (seg, dupcnt) = (if f_syn seg then (seg\<lparr>f_syn := False, tcp_seq := tcp_seq seg + 1\<rparr>, dupcnt - 1) else (seg, dupcnt))
           in if 0 <s dupcnt
              then (t, seg\<lparr>tcp_seq := tcp_seq seg + dupcnt\<rparr>, snd (pullup bp (unat dupcnt)), dlen - dupcnt)
              else (t, seg, bp, dlen)
         else (t, seg, bp, dlen))"

definition trim_right :: "tcb \<Rightarrow> tcp \<Rightarrow> chain \<Rightarrow> u32 \<Rightarrow> tcb \<times> tcp \<times> chain \<times> u32" where
  "trim_right t seg bp dlen =
     (let excess = tcp_seq seg + dlen - (t_rnxt t + t_rwnd t)
      in if 0 <s excess
         then (t\<lparr>t_rerecv := t_rerecv t + excess\<rparr>, seg\<lparr>f_fin := False\<rparr>, trim_mbuf bp (unat (dlen - excess)), dlen - excess)
         else (t, seg, bp, dlen))"

definition seg_len :: "tcp \<Rightarrow> u32 \<Rightarrow> u32" where
  "seg_len seg dlen = dlen + (if f_syn seg then 1 else 0) + (if f_fin seg then 1 else 0)"

definition acceptable :: "tcb \<Rightarrow> tcp \<Rightarrow> u32 \<Rightarrow> bool" where
  "acceptable t seg len \<longleftrightarrow>
     0 <s t_rwnd t \<and>
     (in_window t (tcp_seq seg) \<or>
      len \<noteq> 0 \<and> (in_window t (tcp_seq seg + len - 1) \<or> seq_within (t_rnxt t) (tcp_seq seg) (tcp_seq seg + len - 1)))"

definition trim :: "tcb \<Rightarrow> tcp \<Rightarrow> chain \<Rightarrow> u32 \<Rightarrow> bool \<times> tcb \<times> tcp \<times> chain \<times> u32" where
  "trim t seg bp dlen =
     (let len = seg_len seg dlen
      in if t_rwnd t = 0 then
           (len = 0 \<and> seq_within (tcp_seq seg) (t_rnxt t) (t_rnxt t + t_window t), t, seg, bp, dlen)
         else if \<not> acceptable t seg len then (False, t\<lparr>t_rerecv := t_rerecv t + len\<rparr>, seg, [], dlen)
         else case trim_left t seg bp dlen of
                (t, seg, bp, dlen) \<Rightarrow> (True, trim_right t seg bp dlen))"

section \<open>The resequencing queue\<close>

fun add_reseq_loop :: "reseq \<Rightarrow> reseq list \<Rightarrow> reseq list" where
  "add_reseq_loop r [] = [r]"
| "add_reseq_loop r (r1 # rs) =
     (if seq_lt (tcp_seq (rs_seg r)) (tcp_seq (rs_seg r1)) then r # r1 # rs else r1 # add_reseq_loop r rs)"

definition add_reseq :: "byte \<Rightarrow> tcp \<Rightarrow> chain \<Rightarrow> u32 \<Rightarrow> tcb \<Rightarrow> tcb" where
  "add_reseq tos seg bp dlen t =
     t\<lparr>t_reseq := add_reseq_loop \<lparr>rs_seg = seg, rs_bp = bp, rs_length = dlen, rs_tos = tos\<rparr> (t_reseq t)\<rparr>"

text \<open>The entries are taken off one by one, \<open>rs\<close> is what is left; \<^verbatim>\<open>get_reseq\<close> gives the first that \<^verbatim>\<open>trim\<close> accepts.\<close>

fun rx_scan :: "reseq list \<Rightarrow> tcb \<Rightarrow> tcb \<times> (byte \<times> tcp \<times> chain \<times> u32) option" where
  "rx_scan [] t = (t\<lparr>t_reseq := []\<rparr>, None)"
| "rx_scan (r # rs) t =
     (if seq_ge (t_rnxt t) (tcp_seq (rs_seg r)) then
        case trim (t\<lparr>t_reseq := rs\<rparr>) (rs_seg r) (rs_bp r) (rs_length r) of
          (ok, t, seg, bp, dlen) \<Rightarrow> if ok then (t, Some (rs_tos r, seg, bp, dlen)) else rx_scan rs t
      else (t\<lparr>t_reseq := r # rs\<rparr>, None))"

section \<open>Segments in sequence\<close>

definition MSL2_ms :: u32 where "MSL2_ms = 30000"

definition time_wait :: "tenv \<Rightarrow> tcb \<Rightarrow> tcb" where
  "time_wait env t =
     (let t = settcpstate env TCP_TIME_WAIT t
      in t\<lparr>t_timer := start_tm ((t_timer t)\<lparr>tt_dur := MSL2_ms\<rparr>)\<rparr>)"

text \<open>The acknowledgement; \<open>False\<close> where the C code returns.\<close>

definition rx_ack :: "tenv \<Rightarrow> ip \<Rightarrow> tcp \<Rightarrow> u32 \<Rightarrow> tcb \<Rightarrow> bool \<times> tcb" where
  "rx_ack env ip seg dlen t =
     (case t_state t of
        TCP_SYN_RECEIVED \<Rightarrow>
          if seq_within (tcp_ack seg) (t_una t + 1) (t_nxt t)
          then (True, settcpstate env TCP_ESTABLISHED (update env seg dlen t))
          else (False, reset ip seg t)
      | TCP_ESTABLISHED \<Rightarrow> (True, update env seg dlen t)
      | TCP_CLOSE_WAIT \<Rightarrow> (True, update env seg dlen t)
      | TCP_FINWAIT2 \<Rightarrow> (True, update env seg dlen t)
      | TCP_FINWAIT1 \<Rightarrow>
          let t = update env seg dlen t
          in (True, if t_sndcnt t = 0 then settcpstate env TCP_FINWAIT2 t else t)
      | TCP_CLOSING \<Rightarrow>
          let t = update env seg dlen t
          in (True, if t_sndcnt t = 0 then time_wait env t else t)
      | TCP_LAST_ACK \<Rightarrow>
          let t = update env seg dlen t
          in if t_sndcnt t = 0 then (False, close_self env NORMAL t) else (True, t)
      | TCP_TIME_WAIT \<Rightarrow> (True, t\<lparr>t_timer := start_tm (t_timer t)\<rparr>)
      | _ \<Rightarrow> (True, t))"

definition rx_text :: "tenv \<Rightarrow> chain \<Rightarrow> u32 \<Rightarrow> tcb \<Rightarrow> tcb" where
  "rx_text env bp dlen t =
     (if dlen \<noteq> 0 \<and> t_state t \<in> {TCP_SYN_RECEIVED, TCP_ESTABLISHED, TCP_FINWAIT1, TCP_FINWAIT2}
      then let t = t\<lparr>t_inrate := sdiv32 (7 * t_inrate t + TDIFF (te_clock env) (t_lastrx t)) 8,
                     t_lastrx := te_clock env, t_inlen := (7 * t_inlen t + dlen) div 8,
                     t_rcvq := append_p (t_rcvq t) bp, t_rcvcnt := t_rcvcnt t + dlen,
                     t_rnxt := t_rnxt t + dlen, t_rwnd := t_rwnd t - dlen, t_force := True\<rparr>
           in te_r_up env (t_rcvcnt t) t
      else t)"

definition rx_fin :: "tenv \<Rightarrow> tcp \<Rightarrow> tcb \<Rightarrow> tcb" where
  "rx_fin env seg t =
     (if f_fin seg then
        let t = t\<lparr>t_force := True\<rparr>;
            t = (case t_state t of
                   TCP_SYN_RECEIVED \<Rightarrow> settcpstate env TCP_CLOSE_WAIT (t\<lparr>t_rnxt := t_rnxt t + 1\<rparr>)
                 | TCP_ESTABLISHED \<Rightarrow> settcpstate env TCP_CLOSE_WAIT (t\<lparr>t_rnxt := t_rnxt t + 1\<rparr>)
                 | TCP_FINWAIT1 \<Rightarrow>
                     let t = t\<lparr>t_rnxt := t_rnxt t + 1\<rparr>
                     in if t_sndcnt t = 0 then time_wait env t else settcpstate env TCP_CLOSING t
                 | TCP_FINWAIT2 \<Rightarrow> time_wait env (t\<lparr>t_rnxt := t_rnxt t + 1\<rparr>)
                 | TCP_TIME_WAIT \<Rightarrow> t\<lparr>t_timer := start_tm (t_timer t)\<rparr>
                 | _ \<Rightarrow> t)
        in te_r_up env (t_rcvcnt t) t
      else t)"

text \<open>One turn of the loop, up to the scan of the resequencing queue.\<close>

definition rx_seg :: "tenv \<Rightarrow> ip \<Rightarrow> tcp \<Rightarrow> chain \<Rightarrow> u32 \<Rightarrow> tcb \<Rightarrow> bool \<times> tcb" where
  "rx_seg env ip seg bp dlen t =
     (if f_rst seg then
        (False, if t_state t = TCP_SYN_RECEIVED \<and> \<not> t_clone t \<and> \<not> t_active t then settcpstate env TCP_LISTEN t
                else close_self env RESET t)
      else if f_syn seg then (False, reset ip seg t)
      else let t = (if f_tstamp seg \<and> seq_within (t_last_ack_sent t) (tcp_seq seg) (tcp_seq seg + dlen)
                    then t\<lparr>t_ts_recent := tcp_tsval seg\<rparr> else t)
           in if \<not> f_ack seg then (False, t)
              else case rx_ack env ip seg dlen t of
                     (False, t) \<Rightarrow> (False, t)
                   | (True, t) \<Rightarrow> (True, rx_fin env seg (rx_text env bp dlen t)))"

fun rx_loop :: "nat \<Rightarrow> tenv \<Rightarrow> ip \<Rightarrow> tcp \<Rightarrow> chain \<Rightarrow> u32 \<Rightarrow> tcb \<Rightarrow> tcb" where
  "rx_loop 0 env ip seg bp dlen t = t"
| "rx_loop (Suc fuel) env ip seg bp dlen t =
     (case rx_seg env ip seg bp dlen t of
        (False, t) \<Rightarrow> t
      | (True, t) \<Rightarrow>
          (case rx_scan (t_reseq t) t of
             (t, None) \<Rightarrow> tcp_output env t
           | (t, Some (tos, seg, bp, dlen)) \<Rightarrow> rx_loop fuel env (ip\<lparr>ip_tos := tos\<rparr>) seg bp dlen t))"

text \<open>From the trimming on: every turn of the loop but the first takes an entry off the resequencing queue.\<close>

definition rx_sync :: "tenv \<Rightarrow> ip \<Rightarrow> tcp \<Rightarrow> chain \<Rightarrow> u32 \<Rightarrow> tcb \<Rightarrow> tcb" where
  "rx_sync env ip seg bp dlen t =
     (case trim t seg bp dlen of
        (False, t, seg, bp, dlen) \<Rightarrow>
          if f_rst seg then t
          else let t = (if t_state t = TCP_SYN_RECEIVED then t\<lparr>t_ptr := t_una t\<rparr> else t)
               in tcp_output env (t\<lparr>t_force := True\<rparr>)
      | (True, t, seg, bp, dlen) \<Rightarrow>
          if tcp_seq seg \<noteq> t_rnxt t \<and> (dlen \<noteq> 0 \<or> f_syn seg \<or> f_fin seg) then
            let t = add_reseq (ip_tos ip) seg bp dlen t;
                t = (if f_ack seg \<and> \<not> f_rst seg then t\<lparr>t_force := True\<rparr> else t)
            in rx_loop (Suc (length (t_reseq t))) env ip (seg\<lparr>f_syn := False, f_fin := False\<rparr>) [] 0 t
          else rx_loop (Suc (length (t_reseq t))) env ip seg bp dlen t)"

text \<open>A segment for a block.\<close>

definition tcp_segment :: "tenv \<Rightarrow> ip \<Rightarrow> tcp \<Rightarrow> chain \<Rightarrow> u32 \<Rightarrow> tcb \<Rightarrow> tcb" where
  "tcp_segment env ip seg bp dlen t =
     (let t = t\<lparr>t_congest := ip_congest ip\<rparr>
      in case t_state t of
           TCP_CLOSED \<Rightarrow> reset ip seg t
         | TCP_LISTEN \<Rightarrow>
             if f_rst seg then t
             else if f_ack seg then reset ip seg t
             else if f_syn seg then
               let t = settcpstate env TCP_SYN_RECEIVED (send_syn env (proc_syn env (ip_tos ip) seg t))
               in if dlen \<noteq> 0 \<or> f_fin seg then rx_sync env ip seg bp dlen t else tcp_output env t
             else t
         | TCP_SYN_SENT \<Rightarrow>
             if f_ack seg \<and> \<not> seq_within (tcp_ack seg) (t_iss t + 1) (t_nxt t) then reset ip seg t
             else if f_rst seg then (if f_ack seg then close_self env RESET t else t)
             else if f_syn seg then
               let t = proc_syn env (ip_tos ip) seg t;
                   t = (if f_ack seg then settcpstate env TCP_ESTABLISHED (update env seg dlen t)
                        else settcpstate env TCP_SYN_RECEIVED t)
               in if dlen \<noteq> 0 \<or> f_fin seg then rx_sync env ip seg bp dlen t else tcp_output env t
             else t
         | _ \<Rightarrow> rx_sync env ip seg bp dlen t)"

section \<open>The control blocks of the node\<close>

record tnode =
  n_tcbs :: "tcb list"
  n_cache :: "tcp_rtt list"
  n_out :: "(u32 \<times> u32 \<times> tcp \<times> byte list) list"

text \<open>\<^verbatim>\<open>lookup_tcb\<close> moves the block it finds to the front.\<close>

definition lookup_tcb :: "tconn \<Rightarrow> tcb list \<Rightarrow> (tcb \<times> tcb list) option" where
  "lookup_tcb conn ts =
     (case dropWhile (\<lambda>t. t_conn t \<noteq> conn) ts of
        [] \<Rightarrow> None
      | t # rs \<Rightarrow> Some (t, takeWhile (\<lambda>t. t_conn t \<noteq> conn) ts @ rs))"

text \<open>A handler runs on the block at the front, with the cache and the log of the node.\<close>

definition on_front :: "(tcb \<Rightarrow> tcb) \<Rightarrow> tcb \<Rightarrow> tcb list \<Rightarrow> tnode \<Rightarrow> tnode" where
  "on_front f t ts nd =
     (let t' = f (t\<lparr>t_cache := n_cache nd, t_out := n_out nd\<rparr>)
      in nd\<lparr>n_tcbs := t' # ts, n_cache := t_cache t', n_out := t_out t'\<rparr>)"

definition find_tcb :: "ip \<Rightarrow> tcp \<Rightarrow> tcb list \<Rightarrow> (tcb \<times> tcb list) option" where
  "find_tcb ip seg ts =
     (let conn = \<lparr>c_laddr = ip_dest ip, c_lport = tcp_dest seg, c_raddr = ip_source ip, c_rport = tcp_source seg\<rparr>;
          own = (\<lambda>(t, rs). let (t, rs) = (if t_clone t then (t, t # rs) else (t, rs))
                           in (t\<lparr>t_conn := (t_conn t)\<lparr>c_laddr := ip_dest ip, c_raddr := ip_source ip, c_rport := tcp_source seg\<rparr>\<rparr>, rs))
      in case lookup_tcb conn ts of
           Some r \<Rightarrow> Some r
         | None \<Rightarrow>
             if \<not> f_syn seg then None
             else case lookup_tcb (conn\<lparr>c_raddr := 0, c_rport := 0\<rparr>) ts of
                    Some r \<Rightarrow> Some (own r)
                  | None \<Rightarrow> map_option own (lookup_tcb (conn\<lparr>c_raddr := 0, c_rport := 0, c_laddr := 0\<rparr>) ts))"

definition tcp_input :: "bool \<Rightarrow> (nat \<Rightarrow> bool) \<Rightarrow> byte list \<Rightarrow> tenv \<Rightarrow> ip \<Rightarrow> chain \<Rightarrow> bool \<Rightarrow> tnode \<Rightarrow> tnode" where
  "tcp_input le al stack env ip bpp rxbroadcast nd =
     (if bpp = [] \<or> rxbroadcast then nd
      else let dlen = ip_len ip - of_nat IPLEN - ucast (ip_optlen ip);
               ph = \<lparr>ph_source = ip_source ip, ph_dest = ip_dest ip, ph_protocol = ip_protocol ip, ph_length = dlen\<rparr>
           in if cksum le al (Some ph) bpp (unat dlen) \<noteq> 0 then nd
              else case ntohtcp stack bpp of
                     (seg, None, _) \<Rightarrow> nd
                   | (seg, Some hdrlen, bpp) \<Rightarrow>
                       (case find_tcb ip seg (n_tcbs nd) of
                          None \<Rightarrow> nd\<lparr>n_out := n_out nd @ reset_out ip seg\<rparr>
                        | Some (t, ts) \<Rightarrow> on_front (tcp_segment env ip seg bpp (dlen - of_nat hdrlen)) t ts nd))"

section \<open>ICMP\<close>

definition icmp_for_tcb :: "byte \<Rightarrow> byte \<Rightarrow> tcp \<Rightarrow> tcb \<Rightarrow> tcb" where
  "icmp_for_tcb type code seg t =
     (if \<not> seq_within (tcp_seq seg) (t_una t) (t_nxt t) then t
      else if type = 3 \<or> type = 11 then t\<lparr>t_type := type, t_code := code, t_unreach := t_unreach t + 1\<rparr>
      else if type = 4 then (cut_ssthresh t)\<lparr>t_cwind := t_mss t, t_quench := t_quench t + 1\<rparr>
      else t)"

definition tcp_icmp :: "byte list \<Rightarrow> u32 \<Rightarrow> u32 \<Rightarrow> byte \<Rightarrow> byte \<Rightarrow> chain \<Rightarrow> tnode \<Rightarrow> tnode" where
  "tcp_icmp stack source dest type code bpp nd =
     (let seg = fst (ntohtcp stack bpp)
      in case lookup_tcb \<lparr>c_laddr = source, c_lport = tcp_source seg, c_raddr = dest, c_rport = tcp_dest seg\<rparr> (n_tcbs nd) of
           None \<Rightarrow> nd
         | Some (t, ts) \<Rightarrow> nd\<lparr>n_tcbs := icmp_for_tcb type code seg t # ts\<rparr>)"

end
