(* ===== verification/Tcp_User.thy ===== *)
theory Tcp_User
  imports Tcp_In
begin

text \<open>
  The calls of the user, \<^verbatim>\<open>src/src/tcpuser.c\<close>, with \<^verbatim>\<open>create_tcb\<close> and \<^verbatim>\<open>tcp_garbage\<close> of \<^verbatim>\<open>tcpsubr.c\<close>.  A call on one block is
  a function on it, with the result the user gets; \<^verbatim>\<open>open_tcp\<close> and \<^verbatim>\<open>del_tcp\<close> work on the list of blocks.
\<close>

datatype net_error = INVALID | NO_CONN | CON_CLOS | WOULDBLK | CON_EXISTS

datatype 'a net_result = Done 'a | Failed net_error

definition send_tcp :: "tenv \<Rightarrow> chain \<Rightarrow> tcb \<Rightarrow> u32 net_result \<times> tcb" where
  "send_tcp env bpp t =
     (if bpp = [] then (Failed INVALID, t)
      else let cnt = of_nat (len_p bpp);
               queue = (\<lambda>t. t\<lparr>t_sndq := append_p (t_sndq t) bpp, t_sndcnt := t_sndcnt t + cnt,
                             t_given := t_given t @ content bpp\<rparr>)
           in case t_state t of
                TCP_CLOSED \<Rightarrow> (Failed NO_CONN, t)
              | TCP_LISTEN \<Rightarrow>
                  if c_raddr (t_conn t) = 0 \<and> c_rport (t_conn t) = 0 then (Done cnt, queue t)
                  else (Done cnt, tcp_output env (queue (settcpstate env TCP_SYN_SENT (send_syn env (t\<lparr>t_active := True\<rparr>)))))
              | TCP_SYN_SENT \<Rightarrow> (Done cnt, tcp_output env (queue t))
              | TCP_SYN_RECEIVED \<Rightarrow> (Done cnt, tcp_output env (queue t))
              | TCP_ESTABLISHED \<Rightarrow> (Done cnt, tcp_output env (queue t))
              | TCP_CLOSE_WAIT \<Rightarrow> (Done cnt, tcp_output env (queue t))
              | _ \<Rightarrow> (Failed CON_CLOS, t))"

definition space_tcp :: "tcb \<Rightarrow> u32 net_result" where
  "space_tcp t =
     (case t_state t of
        TCP_CLOSED \<Rightarrow> Failed NO_CONN
      | TCP_FINWAIT1 \<Rightarrow> Failed CON_CLOS
      | TCP_FINWAIT2 \<Rightarrow> Failed CON_CLOS
      | TCP_CLOSING \<Rightarrow> Failed CON_CLOS
      | TCP_LAST_ACK \<Rightarrow> Failed CON_CLOS
      | TCP_TIME_WAIT \<Rightarrow> Failed CON_CLOS
      | _ \<Rightarrow> (let cnt = t_window t - t_sndcnt t in Done (if 0 <s cnt then cnt else 0)))"

text \<open>\<^verbatim>\<open>recv_tcp\<close>; \<open>Done []\<close> with an empty queue is the end of the stream.\<close>

definition recv_tcp :: "tenv \<Rightarrow> u32 \<Rightarrow> tcb \<Rightarrow> byte list net_result \<times> tcb" where
  "recv_tcp env cnt t =
     (if t_rcvcnt t = 0 then
        (if t_state t \<in> {TCP_LISTEN, TCP_SYN_SENT, TCP_SYN_RECEIVED, TCP_ESTABLISHED, TCP_FINWAIT1, TCP_FINWAIT2}
         then (Failed WOULDBLK, t) else (Done [], t))
      else let cnt = (if cnt = 0 then t_rcvcnt t else cnt);
               all = (t_rcvcnt t \<le>s cnt);
               cnt = (if all then t_rcvcnt t else cnt);
               got = (if all then content (t_rcvq t) else fst (pullup (t_rcvq t) (unat cnt)));
               t = t\<lparr>t_rcvq := (if all then [] else snd (pullup (t_rcvq t) (unat cnt))), t_taken := t_taken t @ got,
                     t_rcvcnt := t_rcvcnt t - cnt, t_rwnd := t_rwnd t + cnt\<rparr>
           in (Done got, if t_mss t <s t_rwnd t \<and> t_rwnd t - cnt <s t_mss t
                         then tcp_output env (t\<lparr>t_force := True\<rparr>) else t))"

definition close_fin :: "tenv \<Rightarrow> tcp_state \<Rightarrow> tcb \<Rightarrow> tcb" where
  "close_fin env new t =
     tcp_output env (settcpstate env new (t\<lparr>t_sndcnt := t_sndcnt t + 1, t_nxt := t_nxt t + 1\<rparr>))"

definition close_tcp :: "tenv \<Rightarrow> tcb \<Rightarrow> unit net_result \<times> tcb" where
  "close_tcp env t =
     (case t_state t of
        TCP_CLOSED \<Rightarrow> (Done (), t)
      | TCP_LISTEN \<Rightarrow> (Done (), close_self env NORMAL t)
      | TCP_SYN_SENT \<Rightarrow> (Done (), close_self env NORMAL t)
      | TCP_SYN_RECEIVED \<Rightarrow> (Done (), close_fin env TCP_FINWAIT1 t)
      | TCP_ESTABLISHED \<Rightarrow> (Done (), close_fin env TCP_FINWAIT1 t)
      | TCP_CLOSE_WAIT \<Rightarrow> (Done (), close_fin env TCP_LAST_ACK t)
      | _ \<Rightarrow> (Failed CON_CLOS, t))"

definition kick_tcp :: "tenv \<Rightarrow> tcb \<Rightarrow> tcb" where
  "kick_tcp env t = tcp_timeout env (t\<lparr>t_force := True, t_backoff := 0\<rparr>)"

text \<open>\<^verbatim>\<open>reset_tcp\<close> composes the segment \<^verbatim>\<open>reset\<close> is to answer.\<close>

definition reset_tcp :: "tenv \<Rightarrow> tcb \<Rightarrow> tcb" where
  "reset_tcp env t =
     (let fakeseg = tcp_zero\<lparr>tcp_dest := c_lport (t_conn t), tcp_source := c_rport (t_conn t), f_ack := True,
                             tcp_ack := t_nxt t + t_swnd t - 1\<rparr>;
          t = (if t_state t \<noteq> TCP_LISTEN
               then t\<lparr>t_out := t_out t @ [(c_laddr (t_conn t), c_raddr (t_conn t), reset_seg fakeseg, [])]\<rparr> else t)
      in close_self env RESET t)"

definition tcp_garbage :: "bool \<Rightarrow> tcb list \<Rightarrow> tcb list" where
  "tcp_garbage red ts = (if red then map (\<lambda>t. t\<lparr>t_reseq := []\<rparr>) ts else ts)"

section \<open>Creating and deleting blocks\<close>

definition new_tcb :: "tenv \<Rightarrow> tconn \<Rightarrow> tcp_rtt option \<Rightarrow> tcb" where
  "new_tcb env conn tp =
     \<lparr>t_conn = conn, t_state = TCP_CLOSED, t_reason = NORMAL, t_type = 0, t_code = 0, t_una = 0, t_nxt = 0, t_ptr = 0,
      t_wl1 = 0, t_wl2 = 0, t_swnd = 0, t_swscale = 0, t_iss = 0, t_resent = 0, t_cwind = te_mss env, t_ssthresh = 65535,
      t_dupacks = 0, t_rnxt = 0, t_rwnd = 0, t_rwscale = 0, t_last_ack_sent = 0, t_ts_recent = 0, t_irs = 0, t_rerecv = 0,
      t_mss = te_mss env, t_window = 0, t_force = False, t_clone = False, t_retran = False, t_active = False,
      t_synack = False, t_rtt_run = False, t_congest = False, t_ts_ok = False, t_ws_ok = False, t_tos = 0, t_backoff = 0,
      t_rcvq = [], t_sndq = [], t_rcvcnt = 0, t_sndcnt = 0, t_reseq = [],
      t_timer = \<lparr>tt_dur = (case tp of Some r \<Rightarrow> rt_srtt r | None \<Rightarrow> te_irtt env), tt_run = False\<rparr>,
      t_rtt_time = 0, t_rttseq = 0, t_rttack = 0,
      t_srtt = (case tp of Some r \<Rightarrow> rt_srtt r | None \<Rightarrow> te_irtt env),
      t_mdev = (case tp of Some r \<Rightarrow> rt_mdev r | None \<Rightarrow> 0),
      t_rtt = 0, t_quench = 0, t_unreach = 0, t_timeouts = 0, t_lastack = te_clock env, t_outlen = 0, t_outrate = 0,
      t_lastrx = te_clock env, t_inlen = 0, t_inrate = 0, t_cache = [], t_out = [], t_given = [], t_taken = [], t_ub = False\<rparr>"

definition create_tcb :: "tenv \<Rightarrow> tconn \<Rightarrow> tnode \<Rightarrow> tcb \<times> tcb list \<times> tnode" where
  "create_tcb env conn nd =
     (case lookup_tcb conn (n_tcbs nd) of
        Some (t, ts) \<Rightarrow> (t, ts, nd)
      | None \<Rightarrow> let (tp, c) = rtt_get (c_raddr conn) (n_cache nd)
                in (new_tcb env conn tp, n_tcbs nd, nd\<lparr>n_cache := c\<rparr>))"

datatype tcp_mode = TCP_PASSIVE | TCP_ACTIVE | TCP_SERVER

definition open_block :: "tenv \<Rightarrow> tcp_mode \<Rightarrow> u32 \<Rightarrow> byte \<Rightarrow> tcb \<Rightarrow> tcb" where
  "open_block env mode window tos t =
     (let w = (if window \<noteq> 0 then window else te_window env);
          t = t\<lparr>t_window := w, t_rwnd := w, t_swnd := 1, t_tos := tos\<rparr>
      in case mode of
           TCP_SERVER \<Rightarrow> settcpstate env TCP_LISTEN (t\<lparr>t_clone := True\<rparr>)
         | TCP_PASSIVE \<Rightarrow> settcpstate env TCP_LISTEN t
         | TCP_ACTIVE \<Rightarrow> tcp_output env (settcpstate env TCP_SYN_SENT (send_syn env (t\<lparr>t_active := True\<rparr>))))"

text \<open>\<^verbatim>\<open>open_tcp\<close>; \<open>locaddr\<close> is the address of the interface towards the peer, which an active open takes as its own.\<close>

definition open_tcp :: "tenv \<Rightarrow> (u32 \<Rightarrow> u32) \<Rightarrow> tconn \<Rightarrow> tcp_mode \<Rightarrow> u32 \<Rightarrow> byte \<Rightarrow> tnode \<Rightarrow> unit net_result \<times> tnode" where
  "open_tcp env locaddr conn mode window tos nd =
     (let conn = (if mode = TCP_ACTIVE then conn\<lparr>c_laddr := locaddr (c_raddr conn)\<rparr> else conn)
      in case lookup_tcb conn (n_tcbs nd) of
           Some (t, ts) \<Rightarrow>
             if t_state t \<noteq> TCP_LISTEN then (Failed CON_EXISTS, nd\<lparr>n_tcbs := t # ts\<rparr>)
             else (Done (), on_front (open_block env mode window tos) t ts nd)
         | None \<Rightarrow>
             (case create_tcb env conn nd of (t, ts, nd) \<Rightarrow>
                (Done (), on_front (open_block env mode window tos) t ts nd)))"

text \<open>\<^verbatim>\<open>del_tcp\<close>; the block is named by its place in the list.\<close>

definition del_tcp :: "nat \<Rightarrow> tcb list \<Rightarrow> unit net_result \<times> tcb list" where
  "del_tcp k ts = (if k < length ts then (Done (), take k ts @ drop (Suc k) ts) else (Failed INVALID, ts))"

text \<open>\<^verbatim>\<open>kick\<close> goes through the list; \<open>out\<close> is the log of the node.\<close>

fun kick :: "tenv \<Rightarrow> u32 \<Rightarrow> (u32 \<times> u32 \<times> tcp \<times> byte list) list \<Rightarrow> tcb list \<Rightarrow> nat \<times> tcb list \<times> (u32 \<times> u32 \<times> tcp \<times> byte list) list" where
  "kick env addr out [] = (0, [], out)"
| "kick env addr out (t # ts) =
     (if c_raddr (t_conn t) = addr then
        let t' = kick_tcp env (t\<lparr>t_out := out\<rparr>);
            (n, ts', out') = kick env addr (t_out t') ts
        in (Suc n, t' # ts', out')
      else let (n, ts', out') = kick env addr out ts in (n, t # ts', out'))"

section \<open>A node to try things on\<close>

definition demo_tenv :: tenv where
  "demo_tenv = \<lparr>te_clock = 5000, te_syndata = False, te_tstamps = False, te_mss = 512, te_window = 2048, te_irtt = 5000,
     te_mtu = (\<lambda>_. 256), te_r_up = (\<lambda>_ t. t), te_t_up = (\<lambda>_ t. t), te_s_up = (\<lambda>_ _ t. t)\<rparr>"

end
