(* ===== verification/Tcp_Tx.thy ===== *)
theory Tcp_Tx
  imports Tcp_User
begin

text \<open>
  The sender's side of a connection: whatever arrives, every segment that is sent carries the octets the user has handed over
  at the place its sequence number names, and a FIN only after the last of them (\<open>honest\<close>).  \<open>tx_inv\<close> is the invariant: send queue,
  counter and pointers cut the sequence space of the connection - SYN, data, FIN - in the same places.
\<close>

section \<open>Sequence numbers as distances\<close>

lemma uint_unat: "uint (x :: u32) = int (unat x)"
  by simp

lemma uint_less_unat:
  fixes x y :: u32
  shows "uint x < uint y \<longleftrightarrow> unat x < unat y" "uint x \<le> uint y \<longleftrightarrow> unat x \<le> unat y"
  using of_nat_less_iff [of "unat x" "unat y", where 'a = int] of_nat_le_iff [of "unat x" "unat y", where 'a = int] by simp_all

lemma sint_small: "unat (x :: u32) < 2 ^ 31 \<Longrightarrow> sint x = int (unat x)"
proof -
  assume a: "unat x < 2 ^ 31"
  obtain n where n: "uint x = int n" "unat x = n" using uint_unat by blast
  have "signed_take_bit 31 (int n) = int n" using a n by (intro signed_take_bit_int_eq_self) auto
  then show "sint x = int (unat x)" using n by (simp add: sint_uint)
qed

lemma unat_add_small: "unat (x :: u32) + n < 2 ^ 32 \<Longrightarrow> unat (x + of_nat n) = unat x + n"
  by (simp add: unat_word_ariths unat_of_nat)

lemma sint_diff_small:
  assumes "unat (x :: u32) < 2 ^ 31" "unat y < 2 ^ 31"
  shows "sint (x - y) = int (unat x) - int (unat y)"
proof -
  obtain m n where m: "uint x = int m" "unat x = m" and n: "uint y = int n" "unat y = n" using uint_unat by blast
  define d where "d = int m - int n"
  have "x - y = word_of_int (uint x - uint y)" by simp
  then have "x - y = word_of_int d" by (simp only: d_def m n)
  moreover have "- (2 ^ 31) \<le> d \<and> d < 2 ^ 31" unfolding d_def using assms m n by auto
  then have "signed_take_bit 31 d = d" by (intro signed_take_bit_int_eq_self) auto
  ultimately have "sint (x - y) = d" by (simp add: signed_of_int)
  then show ?thesis by (simp only: d_def m n)
qed

lemma seq_off:
  fixes i :: u32
  assumes "unat (a - i) < 2 ^ 31" "unat (b - i) < 2 ^ 31"
  shows "seq_gt a b \<longleftrightarrow> unat (b - i) < unat (a - i)" "seq_lt a b \<longleftrightarrow> unat (a - i) < unat (b - i)"
    "seq_ge a b \<longleftrightarrow> unat (b - i) \<le> unat (a - i)"
proof -
  have "a - b = (a - i) - (b - i)" by simp
  then have "sint (a - b) = int (unat (a - i)) - int (unat (b - i))"
    using sint_diff_small [OF assms] by simp
  then show "seq_gt a b \<longleftrightarrow> unat (b - i) < unat (a - i)" "seq_lt a b \<longleftrightarrow> unat (a - i) < unat (b - i)"
    "seq_ge a b \<longleftrightarrow> unat (b - i) \<le> unat (a - i)"
    by (auto simp: seq_gt_def seq_lt_def seq_ge_def word_sless_alt word_sle_eq uint_less_unat)
qed

lemma unat_diff_off:
  fixes i :: u32
  assumes "unat (b - i) \<le> unat (a - i)"
  shows "unat (a - b) = unat (a - i) - unat (b - i)"
proof -
  have "a - b = (a - i) - (b - i)" by simp
  then show ?thesis using assms by (metis unat_sub word_le_nat_alt)
qed

lemma sless_small: "unat (x :: u32) < 2 ^ 31 \<Longrightarrow> unat y < 2 ^ 31 \<Longrightarrow> (x <s y) = (unat x < unat y)"
  by (simp add: word_sless_alt sint_small uint_less_unat)

section \<open>Honest segments\<close>

text \<open>A segment for the stream \<open>G\<close> whose first octet has the sequence number \<open>b\<close>; \<open>c\<close> says that the stream is complete.\<close>

definition honest :: "byte list \<Rightarrow> bool \<Rightarrow> u32 \<Rightarrow> tcp \<Rightarrow> byte list \<Rightarrow> bool" where
  "honest G c b seg data \<longleftrightarrow>
     data = [] \<and> \<not> f_syn seg \<and> \<not> f_fin seg \<or>
     (let off = unat (tcp_seq seg + (if f_syn seg then 1 else 0) - b)
      in off + length data \<le> length G \<and> take (length data) (drop off G) = data \<and>
         (f_fin seg \<longrightarrow> c \<and> off + length data = length G) \<and> (f_syn seg \<longrightarrow> off = 0))"

lemma honest_more: "honest G False b seg data \<Longrightarrow> honest (G @ X) c b seg data"
  by (auto simp: honest_def Let_def)

lemma honest_closed: "honest G c b seg data \<Longrightarrow> honest G True b seg data"
  by (auto simp: honest_def Let_def)

definition closing :: "tcp_state \<Rightarrow> bool" where
  "closing st \<longleftrightarrow> st \<in> {TCP_FINWAIT1, TCP_FINWAIT2, TCP_CLOSING, TCP_LAST_ACK, TCP_TIME_WAIT}"

section \<open>The invariant\<close>

text \<open>\<open>T\<close> numbers of sequence space, counted from the SYN: \<open>U\<close> acknowledged, up to \<open>P\<close> the send pointer, up to \<open>N\<close> sent once.\<close>

definition tx_core :: "tcb \<Rightarrow> bool" where
  "tx_core t \<longleftrightarrow>
     (let T = 1 + length (t_given t) + (if closing (t_state t) then 1 else 0);
          U = unat (t_una t - t_iss t);
          P = unat (t_ptr t - t_iss t);
          N = unat (t_nxt t - t_iss t)
      in U \<le> P \<and> P \<le> N \<and> N \<le> T \<and> unat (t_sndcnt t) + U = T \<and>
         content (t_sndq t) = drop (U - 1) (t_given t) \<and> (t_synack t \<longleftrightarrow> U \<noteq> 0))"

definition tx_room :: "tcb \<Rightarrow> bool" where
  "tx_room t \<longleftrightarrow> 0 < unat (t_mss t) \<and> unat (t_mss t) < 2 ^ 16 \<and> 0 <s t_cwind t \<and> 0 <s t_ssthresh t \<and> 0 \<le>s t_swnd t \<and> (t_ws_ok t \<longrightarrow> unat (t_swscale t) \<le> 14)"

definition out_ok :: "tcb \<Rightarrow> bool" where
  "out_ok t \<longleftrightarrow> (\<forall>(src, dst, seg, data) \<in> set (t_out t).
     honest (t_given t) (closing (t_state t) \<or> t_state t = TCP_CLOSED) (t_iss t + 1) seg data)"

text \<open>What the sender relies on in a segment: \<^verbatim>\<open>ntohtcp\<close> gives a window of 16 bits; a segment size of zero, or a window scale
  above the 14 of RFC 1323, which the code takes as they come, are excluded; \<open>Tcp_Props\<close> shows what the first does.\<close>

definition sane :: "tcp \<Rightarrow> bool" where
  "sane seg \<longleftrightarrow> unat (tcp_wnd seg) < 2 ^ 16 \<and> (f_mss seg \<longrightarrow> 0 < unat (tcp_mss seg) \<and> unat (tcp_mss seg) < 2 ^ 16) \<and>
     (f_wscale seg \<longrightarrow> unat (tcp_wsopt seg) \<le> 14)"

definition all_sane :: "reseq list \<Rightarrow> bool" where "all_sane rs \<longleftrightarrow> (\<forall>r \<in> set rs. sane (rs_seg r))"

text \<open>\<open>M\<close> bounds what the user hands over in the life of the connection; half of the sequence space is never exceeded.\<close>

definition tx_inv :: "nat \<Rightarrow> tcb \<Rightarrow> bool" where
  "tx_inv M t \<longleftrightarrow> (t_clone t \<or> t_active t) \<and> t_state t \<noteq> TCP_LISTEN \<and> length (t_given t) \<le> M \<and> out_ok t \<and> all_sane (t_reseq t) \<and>
     \<not> t_ub t \<and> (t_state t \<noteq> TCP_CLOSED \<longrightarrow> tx_core t \<and> tx_room t)"

section \<open>One segment is sent\<close>

lemma smin_le:
  assumes "unat x < 2 ^ 31" "unat y < 2 ^ 31"
  shows "unat (smin x y) = min (unat x) (unat y)"
  using assms by (auto simp: smin_def sless_small min_def)

lemma unat_min: "unat (min x y :: u32) = min (unat x) (unat y)"
  by (auto simp: min_def word_le_nat_alt)

lemma spos: "0 <s (x :: u32) \<longleftrightarrow> 0 < unat x \<and> unat x < 2 ^ 31" "0 \<le>s (x :: u32) \<longleftrightarrow> unat x < 2 ^ 31"
proof -
  show "0 \<le>s (x :: u32) \<longleftrightarrow> unat x < 2 ^ 31"
  proof -
    define u where "u = uint x"
    have u: "u < 4294967296" "0 \<le> u" using uint_lt2p [of x] by (simp_all add: u_def)
    obtain n where "uint x = int n" "unat x = n" using uint_unat by blast
    then have u31: "u < 2147483648 \<longleftrightarrow> unat x < 2 ^ 31" by (simp add: u_def)
    have "u div 2147483648 = (if u < 2147483648 then 0 else 1)"
    proof (cases "u < 2147483648")
      case False
      then show ?thesis using u(1) by (simp add: div_eq_0_iff div_pos_geq)
    qed (use u in simp)
    then have "bit u 31 \<longleftrightarrow> \<not> u < 2147483648" by (simp add: bit_iff_odd)
    moreover have "0 \<le>s x \<longleftrightarrow> \<not> bit u 31" by (simp add: word_sle_eq sint_uint u_def not_less [symmetric])
    ultimately show ?thesis using u31 by simp
  qed
  then show "0 <s (x :: u32) \<longleftrightarrow> 0 < unat x \<and> unat x < 2 ^ 31"
    by (auto simp: word_sless_eq unat_gt_0)
qed


text \<open>\<open>placed T U P N t\<close>: the places of \<open>tx_core\<close>, named.\<close>

definition placed :: "nat \<Rightarrow> nat \<Rightarrow> nat \<Rightarrow> nat \<Rightarrow> tcb \<Rightarrow> bool" where
  "placed T U P N t \<longleftrightarrow>
     T = 1 + length (t_given t) + (if closing (t_state t) then 1 else 0) \<and> U = unat (t_una t - t_iss t) \<and>
     P = unat (t_ptr t - t_iss t) \<and> N = unat (t_nxt t - t_iss t) \<and> U \<le> P \<and> P \<le> N \<and> N \<le> T \<and>
     unat (t_sndcnt t) + U = T \<and> content (t_sndq t) = drop (U - 1) (t_given t) \<and> (t_synack t \<longleftrightarrow> U \<noteq> 0)"

lemma tx_core_cut: "tx_core t \<longleftrightarrow> (\<exists>T U P N. placed T U P N t)"
  by (auto simp: tx_core_def placed_def Let_def)

lemma cut_sent:
  assumes "placed T U P N t" "T < 2 ^ 31"
  shows "unat (out_sent t) = P - U" "unat (t_sndcnt t - out_sent t) = T - P" "out_syn t \<longleftrightarrow> P = 0"
proof -
  note c = assms(1) [unfolded placed_def]
  show s: "unat (out_sent t) = P - U"
    unfolding out_sent_def using unat_diff_off [of "t_una t" "t_iss t" "t_ptr t"] c by simp
  have "unat (t_sndcnt t - out_sent t) = unat (t_sndcnt t) - unat (out_sent t)"
    by (rule unat_sub) (use c s in \<open>auto simp: word_le_nat_alt\<close>)
  moreover have "unat (t_sndcnt t) = T - U" "U \<le> P" using c by linarith+
  ultimately show "unat (t_sndcnt t - out_sent t) = T - P" using s by simp
  have "P = 0 \<longleftrightarrow> t_ptr t = t_iss t" using c by (simp add: unat_eq_0)
  then show "out_syn t \<longleftrightarrow> P = 0" using c by (auto simp: out_syn_def)
qed

lemma cut_usable:
  assumes "placed T U P N t" "T < 2 ^ 31" "tx_room t"
  shows "unat (out_usable t) < 2 ^ 31" "P = 0 \<Longrightarrow> 0 < unat (out_usable t)"
proof -
  define w where "w = smin (t_swnd t) (t_cwind t)"
  have w: "unat w < 2 ^ 31" "w = 0 \<or> 0 < unat w"
    using assms(3) by (auto simp: w_def tx_room_def smin_def spos unat_gt_0)
  have s: "unat (out_sent t) < 2 ^ 31" "P = 0 \<Longrightarrow> out_sent t = 0"
    using cut_sent [OF assms(1,2)] assms(1,2) by (auto simp: placed_def unat_eq_0 [symmetric])
  show "unat (out_usable t) < 2 ^ 31"
  proof (cases "out_sent t <s w")
    case True
    then have "unat (w - out_sent t) = unat w - unat (out_sent t)"
      using s(1) w(1) by (intro unat_sub) (simp add: sless_small word_le_nat_alt)
    then show ?thesis using True w(1) by (simp add: out_usable_def w_def [symmetric] Let_def)
  qed (simp add: out_usable_def w_def [symmetric] Let_def)
  show "0 < unat (out_usable t)" if "P = 0"
    using s(2) [OF that] w by (auto simp: out_usable_def w_def [symmetric] Let_def sless_small unat_gt_0)
qed

lemma cut_ssize:
  assumes "placed T U P N t" "T < 2 ^ 31" "tx_room t"
  shows "unat (out_ssize env t) \<le> T - P" "P = 0 \<Longrightarrow> 0 < unat (out_ssize env t)"
proof -
  note c = assms(1) [unfolded placed_def] and u = cut_usable [OF assms] and s = cut_sent [OF assms(1,2)]
  define s1 where "s1 = min (smin (t_sndcnt t - out_sent t) (out_usable t)) (t_mss t)"
  have s1: "unat s1 = min (min (T - P) (unat (out_usable t))) (unat (t_mss t))"
    using s(2) u(1) assms(2) by (simp add: s1_def unat_min smin_le)
  define s2 where "s2 = (if \<not> t_force t \<and> out_sent t \<noteq> 0 \<and> s1 < t_mss t
                      \<and> \<not> (t_state t = TCP_FINWAIT1 \<and> s1 = t_sndcnt t - out_sent t) then 0 else s1)"
  define s3 where "s3 = (if \<not> t_synack t \<and> \<not> te_syndata env
                   then (if t_ptr t = t_iss t then min 1 s2 else 0) else s2)"
  have e: "out_ssize env t = (if t_force t \<and> t_ptr t \<noteq> t_nxt t then (if t_ptr t = t_iss t then 1 else 0) else s3)"
    unfolding out_ssize_def Let_def s3_def s2_def s1_def by (rule refl)
  have p0: "t_ptr t = t_iss t \<longleftrightarrow> P = 0" using c by (simp add: unat_eq_0)
  have T: "0 < T" using c by auto
  have s3: "unat s3 \<le> unat s1" by (simp add: s3_def s2_def unat_min)
  show "unat (out_ssize env t) \<le> T - P" using s3 s1 T p0 by (auto simp: e)
  show "0 < unat (out_ssize env t)" if "P = 0"
  proof -
    have "0 < unat s1" using s1 u(2) [OF that] T that assms(3) by (simp add: tx_room_def)
    moreover have "s2 = s1" using s(1) that by (simp add: s2_def unat_eq_0 [symmetric])
    ultimately show ?thesis using p0 that by (auto simp: e s3_def unat_min)
  qed
qed

text \<open>What is in the segment.\<close>

lemma cut_data:
  assumes "placed T U P N t" "T < 2 ^ 31" "unat ssize \<le> T - P" "P = 0 \<Longrightarrow> 0 < unat ssize"
  shows "unat (out_dsize ssize t) = unat ssize - (if P = 0 then 1 else 0)"
    "out_data ssize t = take (unat (out_dsize ssize t)) (drop (P - 1) (t_given t))"
proof -
  note c = assms(1) [unfolded placed_def] and s = cut_sent [OF assms(1,2)]
  have "unat (ssize - 1) = unat ssize - 1" if "P = 0"
    using assms(4) [OF that] by (simp add: unat_minus_one unat_gt_0)
  then show "unat (out_dsize ssize t) = unat ssize - (if P = 0 then 1 else 0)"
    using s(3) by (simp add: out_dsize_def)
  define off where "off = (if \<not> t_synack t \<and> out_sent t \<noteq> 0 then out_sent t - 1 else out_sent t)"
  have off: "unat off = (if U = 0 then P - 1 else P - U)"
  proof -
    have "unat (out_sent t - 1) = P - U - 1" if "out_sent t \<noteq> 0"
      using that s(1) by (simp add: unat_minus_one)
    moreover have "out_sent t = 0 \<longleftrightarrow> P - U = 0" using s(1) by (simp add: unat_eq_0 [symmetric])
    ultimately show ?thesis using c s(1) by (auto simp: off_def)
  qed
  have "drop (unat off) (content (t_sndq t)) = drop (P - 1) (t_given t)"
    using c unfolding off by (cases "U = 0") auto
  then show "out_data ssize t = take (unat (out_dsize ssize t)) (drop (P - 1) (t_given t))"
    by (simp add: out_data_def Let_def off_def [symmetric] extract_p_content)
qed

lemma out_seg_fields [simp]:
  "f_syn (out_seg env ssize t) = out_syn t" "f_fin (out_seg env ssize t) = out_fin ssize t"
  "tcp_seq (out_seg env ssize t) = (if ssize = 0 then t_nxt t else t_ptr t)" "\<not> f_rst (out_seg env ssize t)"
  by (simp_all add: out_seg_def Let_def tcp_zero_def)

lemma cut_honest:
  assumes "placed T U P N t" "T < 2 ^ 31" "unat ssize \<le> T - P" "P = 0 \<Longrightarrow> 0 < unat ssize" "closing (t_state t) \<Longrightarrow> c"
  shows "honest (t_given t) c (t_iss t + 1) (out_seg env ssize t) (out_data ssize t)"
proof (cases "ssize = 0")
  case True
  then have "P \<noteq> 0" "out_dsize ssize t = 0"
    using assms(4) cut_data(1) [OF assms(1-4)] by (auto simp: unat_eq_0)
  then show ?thesis
    using cut_sent(3) [OF assms(1,2)] by (simp add: honest_def out_fin_def out_data_def Let_def)
next
  case False
  note k = assms(1) [unfolded placed_def] and d = cut_data [OF assms(1-4)] and s = cut_sent(3) [OF assms(1,2)]
  let ?G = "t_given t"
  have o: "unat (t_ptr t + (if P = 0 then 1 else 0) - (t_iss t + 1)) = P - 1"
  proof (cases "P = 0")
    case True
    then show ?thesis using k by (simp add: unat_eq_0)
  next
    case False
    have "t_ptr t + (if P = 0 then 1 else 0) - (t_iss t + 1) = (t_ptr t - t_iss t) - 1" using False by simp
    moreover have "unat ((t_ptr t - t_iss t) - 1) = P - 1"
      using False k unat_minus_one [of "t_ptr t - t_iss t"] by (auto simp: unat_eq_0)
    ultimately show ?thesis by (simp only:)
  qed
  define D where "D = unat (out_dsize ssize t)"
  have pd: "P - 1 + D \<le> T - 1" using d(1) assms(3) k unfolding D_def by auto
  have sz: "0 < unat ssize" using False by (simp add: unat_gt_0)
  have len: "length (out_data ssize t) = min D (length ?G - (P - 1))" by (simp add: d(2) D_def)
  have P1: "P - 1 \<le> length ?G" using assms(3) sz k by (auto split: if_splits)
  have fin: "out_fin ssize t \<longleftrightarrow> length ?G < P - 1 + D"
    using P1 unfolding out_fin_def len D_def [symmetric] by (auto simp: D_def unat_eq_0 [symmetric])
  have "out_fin ssize t \<Longrightarrow> closing (t_state t)" using pd fin k by (auto split: if_splits)
  then have "out_fin ssize t \<Longrightarrow> c" using assms(5) by simp
  moreover have "take (length (out_data ssize t)) (drop (P - 1) ?G) = out_data ssize t"
    unfolding len length_drop [symmetric] take_min_length by (simp only: d(2) D_def)
  moreover have "P - 1 + length (out_data ssize t) \<le> length ?G" using P1 len by auto
  moreover have "out_fin ssize t \<Longrightarrow> P - 1 + length (out_data ssize t) = length ?G" using P1 len fin by auto
  ultimately show ?thesis using False s o by (simp add: honest_def Let_def split: if_splits)
qed

section \<open>Output keeps the invariant\<close>

text \<open>What the invariant looks at.\<close>

definition txv :: "tcb \<Rightarrow> _" where
  "txv t = (t_state t, t_iss t, t_una t, t_nxt t, t_ptr t, t_synack t, t_sndcnt t, t_sndq t, t_given t, t_out t,
     t_mss t, t_cwind t, t_swnd t, t_clone t, t_active t, t_ws_ok t, t_swscale t, t_reseq t, t_ssthresh t, t_ub t)"

lemma tx_cong: "txv t = txv t' \<Longrightarrow> tx_inv M t = tx_inv M t'"
  by (simp add: txv_def tx_inv_def tx_core_def tx_room_def out_ok_def)

lemma timers_txv [simp]: "txv (out_timers env ssize t) = txv t"
  by (simp add: out_timers_def Let_def txv_def)

lemma timers_out [simp]: "t_out (out_timers env ssize t) = t_out t"
  by (simp add: out_timers_def Let_def)

lemma txv_out: "txv t = txv t' \<Longrightarrow> txv (t\<lparr>t_out := x\<rparr>) = txv (t'\<lparr>t_out := x\<rparr>)"
  by (simp add: txv_def)

lemma emit_view:
  "(out_syn t \<Longrightarrow> ssize \<noteq> 0) \<Longrightarrow> txv (out_emit env ssize t) = txv (t\<lparr>t_ptr := t_ptr t + ssize,
     t_nxt := (if seq_gt (t_ptr t + ssize) (t_nxt t) then t_ptr t + ssize else t_nxt t),
     t_out := t_out t @ [(c_laddr (t_conn t), c_raddr (t_conn t), out_seg env ssize t, out_data ssize t)]\<rparr>)"
  by (auto simp: out_emit_def Let_def txv_def out_timers_def)

lemma cut_emit:
  assumes "placed T U P N t" "T < 2 ^ 31" "unat ssize \<le> T - P"
  shows "placed T U (P + unat ssize) (max N (P + unat ssize)) (t\<lparr>t_ptr := t_ptr t + ssize,
     t_nxt := (if seq_gt (t_ptr t + ssize) (t_nxt t) then t_ptr t + ssize else t_nxt t), t_out := x\<rparr>)"
proof -
  note c = assms(1) [unfolded placed_def]
  have e: "t_ptr t + ssize - t_iss t = (t_ptr t - t_iss t) + ssize" by simp
  have "unat ((t_ptr t - t_iss t) + ssize) = unat (t_ptr t - t_iss t) + unat ssize"
    using unat_add_small [of "t_ptr t - t_iss t" "unat ssize"] c assms(2,3) by auto
  then have p: "unat (t_ptr t + ssize - t_iss t) = P + unat ssize" unfolding e using c by simp
  have n: "unat (t_nxt t - t_iss t) = N" using c by simp
  have lt: "P + unat ssize \<le> T" using c assms(3) by linarith
  have lt31: "P + unat ssize < 2 ^ 31" "N < 2 ^ 31" using lt c assms(2) by (linarith, linarith)
  have g: "seq_gt (t_ptr t + ssize) (t_nxt t) \<longleftrightarrow> N < P + unat ssize"
    by (rule seq_off(1) [of "t_ptr t + ssize" "t_iss t" "t_nxt t", unfolded p n, OF lt31])
  have nx: "unat ((if seq_gt (t_ptr t + ssize) (t_nxt t) then t_ptr t + ssize else t_nxt t) - t_iss t) = max N (P + unat ssize)"
    unfolding g using p n by (auto simp: max_def)
  define t' where "t' = t\<lparr>t_ptr := t_ptr t + ssize,
     t_nxt := (if seq_gt (t_ptr t + ssize) (t_nxt t) then t_ptr t + ssize else t_nxt t), t_out := x\<rparr>"
  have "t_given t' = t_given t" "t_state t' = t_state t" "t_una t' = t_una t" "t_iss t' = t_iss t" "t_sndcnt t' = t_sndcnt t"
    "t_sndq t' = t_sndq t" "t_synack t' = t_synack t" "unat (t_ptr t' - t_iss t) = P + unat ssize"
    "unat (t_nxt t' - t_iss t) = max N (P + unat ssize)"
    using p nx by (simp_all add: t'_def)
  moreover have "U \<le> P + unat ssize" "P + unat ssize \<le> max N (P + unat ssize)" "max N (P + unat ssize) \<le> T"
    using c lt by (linarith, simp, simp)
  ultimately have "placed T U (P + unat ssize) (max N (P + unat ssize)) t'"
    using c unfolding placed_def by (intro conjI) simp_all
  then show ?thesis by (simp only: t'_def)
qed

lemma out_ok_snoc:
  "out_ok (t\<lparr>t_out := t_out t @ [(src, dst, seg, data)]\<rparr>) \<longleftrightarrow>
     out_ok t \<and> honest (t_given t) (closing (t_state t) \<or> t_state t = TCP_CLOSED) (t_iss t + 1) seg data"
  by (auto simp: out_ok_def)

lemma emit_inv:
  assumes "tx_inv M t" "M + 2 < 2 ^ 31" "t_state t \<noteq> TCP_CLOSED"
  shows "tx_inv M (out_emit env (out_ssize env t) t)" "t_state (out_emit env ssize t) = t_state t"
proof -
  obtain T U P N where c: "placed T U P N t" using assms(1,3) by (auto simp: tx_inv_def tx_core_cut)
  have T: "T < 2 ^ 31" using c assms(1,2) by (auto simp: placed_def tx_inv_def)
  have r: "tx_room t" "out_ok t" using assms(1,3) by (auto simp: tx_inv_def)
  note z = cut_ssize [OF c T r(1), of env]
  have h: "honest (t_given t) (closing (t_state t) \<or> t_state t = TCP_CLOSED) (t_iss t + 1)
      (out_seg env (out_ssize env t) t) (out_data (out_ssize env t) t)"
    by (rule cut_honest [OF c T z]) auto
  let ?t = "t\<lparr>t_ptr := t_ptr t + out_ssize env t,
     t_nxt := (if seq_gt (t_ptr t + out_ssize env t) (t_nxt t) then t_ptr t + out_ssize env t else t_nxt t),
     t_out := t_out t @ [(c_laddr (t_conn t), c_raddr (t_conn t), out_seg env (out_ssize env t) t, out_data (out_ssize env t) t)]\<rparr>"
  have "tx_core ?t" unfolding tx_core_cut using cut_emit [OF c T z(1)] by blast
  moreover have "out_ok ?t" using out_ok_snoc [of t] h r(2) by (auto simp: out_ok_def)
  ultimately have "tx_inv M ?t" using assms(1) r(1) by (simp add: tx_inv_def tx_room_def)
  moreover have nz: "out_syn t \<Longrightarrow> out_ssize env t \<noteq> 0" using z(2) cut_sent(3) [OF c T] by auto
  ultimately show "tx_inv M (out_emit env (out_ssize env t) t)" using tx_cong [OF emit_view [OF nz]] by blast
  show "t_state (out_emit env ssize t) = t_state t" by (simp add: out_emit_def out_timers_def Let_def)
qed

lemma out_loop_inv:
  assumes "M + 2 < 2 ^ 31" "tx_inv M t" "t_state t \<noteq> TCP_CLOSED"
  shows "tx_inv M (tcp_out_loop fuel env t) \<and> t_state (tcp_out_loop fuel env t) = t_state t"
  using assms(2,3)
proof (induction fuel arbitrary: t)
  case (Suc fuel)
  show ?case using Suc.IH [of "out_emit env (out_ssize env t) t"] Suc.prems emit_inv [OF Suc.prems(1) assms(1) Suc.prems(2)]
    by (simp add: Let_def)
qed simp

lemma output_inv: "M + 2 < 2 ^ 31 \<Longrightarrow> tx_inv M t \<Longrightarrow> tx_inv M (tcp_output env t)"
  using out_loop_inv [of M t] by (auto simp: tcp_output_def simp del: tcp_out_loop.simps)

text \<open>What output leaves alone.\<close>

lemma emit_keeps:
  "t_una (out_emit env ssize t) = t_una t" "t_iss (out_emit env ssize t) = t_iss t"
  "t_sndcnt (out_emit env ssize t) = t_sndcnt t" "t_given (out_emit env ssize t) = t_given t"
  "t_sndq (out_emit env ssize t) = t_sndq t" "t_synack (out_emit env ssize t) = t_synack t"
  "t_mss (out_emit env ssize t) = t_mss t" "t_cwind (out_emit env ssize t) = t_cwind t"
  "t_ssthresh (out_emit env ssize t) = t_ssthresh t" "t_state (out_emit env ssize t) = t_state t"
  by (simp_all add: out_emit_def out_timers_def Let_def)

lemma output_keeps:
  "t_una (tcp_output env t) = t_una t" "t_iss (tcp_output env t) = t_iss t"
  "t_sndcnt (tcp_output env t) = t_sndcnt t" "t_given (tcp_output env t) = t_given t"
  "t_sndq (tcp_output env t) = t_sndq t" "t_synack (tcp_output env t) = t_synack t"
  "t_mss (tcp_output env t) = t_mss t" "t_cwind (tcp_output env t) = t_cwind t"
  "t_ssthresh (tcp_output env t) = t_ssthresh t" "t_state (tcp_output env t) = t_state t"
proof -
  have "t_una (tcp_out_loop n env t) = t_una t \<and> t_iss (tcp_out_loop n env t) = t_iss t \<and> t_sndcnt (tcp_out_loop n env t) = t_sndcnt t \<and>
     t_given (tcp_out_loop n env t) = t_given t \<and> t_sndq (tcp_out_loop n env t) = t_sndq t \<and> t_synack (tcp_out_loop n env t) = t_synack t \<and>
     t_mss (tcp_out_loop n env t) = t_mss t \<and> t_cwind (tcp_out_loop n env t) = t_cwind t \<and> t_ssthresh (tcp_out_loop n env t) = t_ssthresh t \<and>
     t_state (tcp_out_loop n env t) = t_state t" for n
    by (induction n arbitrary: t) (simp_all add: Let_def emit_keeps)
  then show "t_una (tcp_output env t) = t_una t" "t_iss (tcp_output env t) = t_iss t"
    "t_sndcnt (tcp_output env t) = t_sndcnt t" "t_given (tcp_output env t) = t_given t"
    "t_sndq (tcp_output env t) = t_sndq t" "t_synack (tcp_output env t) = t_synack t"
    "t_mss (tcp_output env t) = t_mss t" "t_cwind (tcp_output env t) = t_cwind t"
    "t_ssthresh (tcp_output env t) = t_ssthresh t" "t_state (tcp_output env t) = t_state t"
    by (simp_all add: tcp_output_def del: tcp_out_loop.simps)
qed

text \<open>The places of a cut can be moved within their order.\<close>

lemma core_ptr:
  assumes "tx_core t" "tx_core s" "t_una s = t_una t" "t_iss s = t_iss t" "unat (t_nxt t - t_iss t) \<le> unat (t_nxt s - t_iss s)"
  shows "tx_core (s\<lparr>t_ptr := t_ptr t\<rparr>)"
  using assms by (auto simp: tx_core_def Let_def)

lemma core_back: "tx_core t \<Longrightarrow> tx_core (t\<lparr>t_ptr := t_una t\<rparr>)"
  by (auto simp: tx_core_def Let_def)

lemma tx_back: "tx_inv M t \<Longrightarrow> tx_inv M (t\<lparr>t_ptr := t_una t\<rparr>)"
  using core_back [of t] by (auto simp: tx_inv_def tx_room_def out_ok_def)

lemma loop_nxt:
  assumes "M + 2 < 2 ^ 31" "tx_inv M t" "t_state t \<noteq> TCP_CLOSED"
  shows "unat (t_nxt t - t_iss t) \<le> unat (t_nxt (tcp_out_loop n env t) - t_iss t)"
  using assms(2,3)
proof (induction n arbitrary: t)
  case (Suc n)
  let ?s = "out_ssize env t"
  let ?e = "out_emit env ?s t"
  obtain T U P N where c: "placed T U P N t" using Suc.prems by (auto simp: tx_inv_def tx_core_cut)
  have T: "T < 2 ^ 31" using c assms(1) Suc.prems by (auto simp: placed_def tx_inv_def)
  have r: "tx_room t" using Suc.prems by (auto simp: tx_inv_def)
  note z = cut_ssize(1) [OF c T r, of env]
  have "t_iss ?e = t_iss t" "t_nxt ?e = (if seq_gt (t_ptr t + ?s) (t_nxt t) then t_ptr t + ?s else t_nxt t)"
    by (simp_all add: out_emit_def out_timers_def Let_def)
  then have "unat (t_nxt ?e - t_iss t) = max N (P + unat ?s)"
    using cut_emit [OF c T z, of undefined] by (auto simp: placed_def split: if_splits)
  then have "unat (t_nxt t - t_iss t) \<le> unat (t_nxt ?e - t_iss t)" using c by (simp add: placed_def)
  then show ?case
    using Suc.IH [of ?e] Suc.prems emit_inv [OF Suc.prems(1) assms(1) Suc.prems(2)] emit_keeps(2) [of env ?s t]
    by (auto simp: Let_def)
qed simp

lemma resend_inv:
  assumes "M + 2 < 2 ^ 31" "tx_inv M t"
  shows "tx_inv M (resend_oldest env t)" "t_state (resend_oldest env t) = t_state t"
proof -
  let ?b = "t\<lparr>t_ptr := t_una t, t_cwind := t_mss t\<rparr>"
  let ?o = "tcp_output env ?b"
  show "t_state (resend_oldest env t) = t_state t" by (simp add: resend_oldest_def Let_def output_keeps)
  show "tx_inv M (resend_oldest env t)"
  proof (cases "t_state t = TCP_CLOSED")
    case True
    then show ?thesis using assms(2) by (simp add: resend_oldest_def Let_def tcp_output_def tx_inv_def out_ok_def)
  next
    case False
    have "tx_core t" "tx_room t" using assms(2) False by (auto simp: tx_inv_def)
    then have "tx_core ?b" "tx_room ?b" using core_back [of t] by (auto simp: tx_core_def tx_room_def spos Let_def)
    then have b: "tx_inv M ?b" using assms(2) by (auto simp: tx_inv_def out_ok_def)
    then have o: "tx_inv M ?o" by (rule output_inv [OF assms(1)])
    have "unat (t_nxt t - t_iss t) \<le> unat (t_nxt ?o - t_iss t)"
      using loop_nxt [OF assms(1) b] False by (auto simp: tcp_output_def simp del: tcp_out_loop.simps)
    then have "tx_core (?o\<lparr>t_ptr := t_ptr t\<rparr>)"
      using core_ptr [of t ?o] o False \<open>tx_core t\<close> by (auto simp: tx_inv_def output_keeps)
    then show ?thesis using o by (auto simp: tx_inv_def tx_room_def out_ok_def resend_oldest_def Let_def)
  qed
qed

section \<open>Acknowledgements keep the invariant\<close>

text \<open>Upcalls that keep a predicate.\<close>

definition ups_keep :: "(tcb \<Rightarrow> bool) \<Rightarrow> tenv \<Rightarrow> bool" where
  "ups_keep I env \<longleftrightarrow> (\<forall>c t. I t \<longrightarrow> I (te_r_up env c t)) \<and> (\<forall>c t. I t \<longrightarrow> I (te_t_up env c t)) \<and>
     (\<forall>old new t. I t \<longrightarrow> I (te_s_up env old new t))"

lemma ups_keepD:
  assumes "ups_keep I env" "I t"
  shows "I (te_r_up env c t)" "I (te_t_up env c t)" "I (te_s_up env old new t)"
  using assms by (auto simp: ups_keep_def)

lemma settcpstate_keeps: "ups_keep I env \<Longrightarrow> I (t\<lparr>t_state := new\<rparr>) \<Longrightarrow> I (settcpstate env new t)"
  by (auto simp: settcpstate_def Let_def intro: ups_keepD)

lemma scaled_small: "unat (w :: u32) < 2 ^ 16 \<Longrightarrow> k \<le> 14 \<Longrightarrow> unat (push_bit k w) < 2 ^ 31"
proof -
  assume a: "unat w < 2 ^ 16" "k \<le> 14"
  have "push_bit k w = of_nat (2 ^ k * unat w)" by (simp add: push_bit_eq_mult mult.commute)
  then have "unat (push_bit k w) \<le> 2 ^ k * unat w" by (simp only: unat_of_nat mod_less_eq_dividend)
  also have "\<dots> \<le> 2 ^ 14 * unat w" using a(2) by (intro mult_le_mono1 power_increasing) auto
  finally show "unat (push_bit k w) < 2 ^ 31" using a(1) by simp
qed

lemma window_inv:
  assumes "tx_inv M t" "unat (tcp_wnd seg) < 2 ^ 16" "t_state t \<noteq> TCP_CLOSED"
  shows "tx_inv M (snd (upd_window seg t))" "t_state (snd (upd_window seg t)) = t_state t"
    "t_una (snd (upd_window seg t)) = t_una t" "t_nxt (snd (upd_window seg t)) = t_nxt t" "t_iss (snd (upd_window seg t)) = t_iss t"
proof -
  define w where "w = (if \<not> f_syn seg \<and> t_ws_ok t then push_bit (unat (t_swscale t)) (tcp_wnd seg) else tcp_wnd seg)"
  have w: "tx_room t \<Longrightarrow> 0 \<le>s w"
    using assms(2) scaled_small [OF assms(2), of "unat (t_swscale t)"] by (auto simp: w_def spos tx_room_def)
  show "t_state (snd (upd_window seg t)) = t_state t" "t_una (snd (upd_window seg t)) = t_una t"
    "t_nxt (snd (upd_window seg t)) = t_nxt t" "t_iss (snd (upd_window seg t)) = t_iss t"
    by (simp_all add: upd_window_def Let_def)
  have sh: "t_ws_ok t \<Longrightarrow> \<not> 32 \<le> unat (t_swscale t)" using assms(1,3) by (simp add: tx_inv_def tx_room_def)
  have k: "tx_inv M s \<Longrightarrow> s \<in> {t, t\<lparr>t_ptr := t_una t\<rparr>} \<Longrightarrow>
      tx_inv M (s\<lparr>t_swnd := w, t_wl1 := a, t_wl2 := b, t_ub := (t_ub s \<or> (\<not> f_syn seg \<and> t_ws_ok s) \<and> 32 \<le> unat (t_swscale s))\<rparr>)" for s a b
    using w sh by (auto simp: tx_inv_def tx_core_def tx_room_def out_ok_def Let_def)
  show "tx_inv M (snd (upd_window seg t))"
  proof (cases "seq_gt (tcp_seq seg) (t_wl1 t) \<or> tcp_seq seg = t_wl1 t \<and> seq_ge (tcp_ack seg) (t_wl2 t)")
    case True
    define s where "s = (if t_swnd t <s w \<and> t_swnd t = 0 then t\<lparr>t_ptr := t_una t\<rparr> else t)"
    have "snd (upd_window seg t) = s\<lparr>t_swnd := w, t_wl1 := tcp_seq seg, t_wl2 := tcp_ack seg,
        t_ub := (t_ub s \<or> (\<not> f_syn seg \<and> t_ws_ok s) \<and> 32 \<le> unat (t_swscale s))\<rparr>"
      using True unfolding upd_window_def Let_def w_def [symmetric] s_def by auto
    moreover have "tx_inv M s" "s \<in> {t, t\<lparr>t_ptr := t_una t\<rparr>}" using assms(1) tx_back [OF assms(1)] by (simp_all add: s_def)
    ultimately show ?thesis using k by simp
  next
    case False
    then show ?thesis using assms(1) unfolding upd_window_def by auto
  qed
qed

lemma clamp_inv:
  assumes "tx_inv M t" "txv (s\<lparr>t_cwind := t_cwind t\<rparr>) = txv t"
  shows "tx_inv M (clamp_cwind s)"
proof -
  define x where "x = t_cwind (clamp_cwind s)"
  have m: "t_mss s = t_mss t" using assms(2) by (simp add: txv_def)
  have "0 <s k \<Longrightarrow> 0 <s smax y k" for y k by (auto simp: smax_def word_sless_alt)
  then have "tx_room t \<Longrightarrow> 0 <s x" by (simp add: x_def clamp_cwind_def m tx_room_def spos(1))
  then have "tx_inv M (t\<lparr>t_cwind := x\<rparr>)"
    using assms(1) by (auto simp: tx_inv_def tx_core_def tx_room_def out_ok_def Let_def)
  moreover have "txv (clamp_cwind s) = txv (t\<lparr>t_cwind := x\<rparr>)"
    using assms(2) by (simp add: txv_def x_def clamp_cwind_def)
  ultimately show ?thesis using tx_cong by blast
qed

lemma tx_dup [simp]: "tx_inv M (t\<lparr>t_dupacks := d\<rparr>) = tx_inv M t"
  by (rule tx_cong, simp add: txv_def)

lemma cut_positive: "0 < unat (t_mss t) \<Longrightarrow> unat (t_mss t) < 2 ^ 16 \<Longrightarrow> 0 <s t_ssthresh (cut_ssthresh t)"
proof -
  assume a: "0 < unat (t_mss t)" "unat (t_mss t) < 2 ^ 16"
  have "0 <s k \<Longrightarrow> 0 <s smax y k" for y k by (auto simp: smax_def word_sless_alt)
  then show ?thesis using a by (simp add: cut_ssthresh_def spos(1))
qed

lemma tx_cut: "tx_inv M t \<Longrightarrow> tx_inv M (cut_ssthresh t)"
proof -
  assume i: "tx_inv M t"
  obtain x where x: "cut_ssthresh t = t\<lparr>t_ssthresh := x\<rparr>" by (simp add: cut_ssthresh_def)
  have "tx_room t \<Longrightarrow> 0 <s x" using cut_positive [of t] unfolding x by (simp add: tx_room_def)
  then show ?thesis using i unfolding x by (auto simp: tx_inv_def tx_core_def tx_room_def out_ok_def)
qed

lemma dup_inv:
  assumes "M + 2 < 2 ^ 31" "tx_inv M t"
  shows "tx_inv M (upd_dup env seg dlen winupd t)" "t_state (upd_dup env seg dlen winupd t) = t_state t"
proof -
  define d where "d = t\<lparr>t_dupacks := t_dupacks t + 1\<rparr>"
  let ?r = "resend_oldest env (cut_ssthresh d)"
  have d: "tx_inv M d" "t_state d = t_state t" using assms(2) by (simp_all add: d_def)
  then have "tx_inv M (cut_ssthresh d)" by (simp add: tx_cut)
  note r0 = resend_inv [OF assms(1) this, of env]
  have r: "tx_inv M ?r" "t_state ?r = t_state t" using r0 d(2) by (simp_all add: cut_ssthresh_def)
  have "tx_inv M (clamp_cwind (?r\<lparr>t_cwind := x\<rparr>))" "tx_inv M (clamp_cwind (d\<lparr>t_cwind := x\<rparr>))" "tx_inv M (clamp_cwind d)" for x
    by (rule clamp_inv [OF r(1)], simp add: txv_def, rule clamp_inv [OF d(1)], simp add: txv_def, rule clamp_inv [OF d(1)], simp)
  then show "tx_inv M (upd_dup env seg dlen winupd t)"
    using assms(2) unfolding upd_dup_def Let_def d_def [symmetric] by simp
  show "t_state (upd_dup env seg dlen winupd t) = t_state t"
    using r(2) d(2) unfolding upd_dup_def Let_def d_def [symmetric] by (simp add: clamp_cwind_def)
qed

lemma cwind_inv:
  assumes "tx_inv M t" "t_state t \<noteq> TCP_CLOSED"
  shows "tx_inv M (upd_cwind a t)" "t_state (upd_cwind a t) = t_state t" "t_una (upd_cwind a t) = t_una t"
    "t_nxt (upd_cwind a t) = t_nxt t" "t_iss (upd_cwind a t) = t_iss t"
proof -
  show "tx_inv M (upd_cwind a t)"
    unfolding upd_cwind_def Let_def
    by (rule clamp_inv [OF assms(1)]) (use assms in \<open>auto simp: txv_def tx_inv_def tx_room_def\<close>)
  show "t_state (upd_cwind a t) = t_state t" "t_una (upd_cwind a t) = t_una t"
    "t_nxt (upd_cwind a t) = t_nxt t" "t_iss (upd_cwind a t) = t_iss t"
    by (simp_all add: upd_cwind_def Let_def clamp_cwind_def)
qed

lemma rtt_txv: "txv (upd_rtt env seg t) = txv t"
  by (simp add: upd_rtt_def Let_def txv_def split: prod.split)

text \<open>The queue after an acknowledgement of more than before.\<close>

lemma queue_core:
  assumes "placed T U P N t" "T < 2 ^ 31" "U < unat (tcp_ack seg - t_iss t)" "unat (tcp_ack seg - t_iss t) \<le> N"
  shows "placed T (unat (tcp_ack seg - t_iss t)) (max P (unat (tcp_ack seg - t_iss t))) N (ack_queue seg t)"
proof -
  define X where "X = unat (tcp_ack seg - t_iss t)"
  define A where "A = tcp_ack seg - t_una t"
  define t' where "t' = ack_queue seg t"
  have t': "t' = t\<lparr>t_sndcnt := t_sndcnt t - A, t_una := tcp_ack seg, t_synack := True,
      t_sndq := snd (pullup (t_sndq t) (unat (if t_synack t then A else A - 1))),
      t_timer := (if tcp_ack seg \<noteq> t_nxt t then start_tm (stop_tm (t_timer t)) else stop_tm (t_timer t)),
      t_ptr := (if seq_lt (t_ptr t) (tcp_ack seg) then tcp_ack seg else t_ptr t), t_retran := False\<rparr>"
    by (simp add: t'_def ack_queue_def acked_data_def A_def Let_def)
  note c = assms(1) [unfolded placed_def]
  have u: "unat (t_una t - t_iss t) = U" "unat (t_ptr t - t_iss t) = P" using c by simp_all
  have A: "unat A = X - U"
    unfolding A_def X_def using unat_diff_off [of "t_una t" "t_iss t" "tcp_ack seg"] u assms(3) by simp
  have x: "U < X" "X \<le> N" "X < 2 ^ 31" "P < 2 ^ 31" using assms(2-4) c by (auto simp: X_def)
  have cnt: "unat (t_sndcnt t) + U = T" "N \<le> T" using c by simp_all
  have "unat (t_sndcnt t - A) = unat (t_sndcnt t) - unat A"
    by (rule unat_sub) (use A x cnt in \<open>simp add: word_le_nat_alt\<close>)
  then have s: "unat (t_sndcnt t - A) + X = T" using A x cnt by simp
  have a: "unat (if t_synack t then A else A - 1) = X - 1 - (U - 1)"
  proof -
    have "A \<noteq> 0" using A x by (auto simp: unat_eq_0 [symmetric])
    then have "unat (A - 1) = X - U - 1" using A by (simp add: unat_minus_one)
    moreover have "t_synack t \<longleftrightarrow> U \<noteq> 0" using c by simp
    ultimately show ?thesis using A by auto
  qed
  have q0: "content (t_sndq t) = drop (U - 1) (t_given t)" using c by simp
  have q: "content (t_sndq t') = drop (X - 1) (t_given t)"
    using x(1) unfolding t' by (simp add: pullup_snd a q0)
  have g: "seq_lt (t_ptr t) (tcp_ack seg) \<longleftrightarrow> P < X"
    using seq_off(2) [of "t_ptr t" "t_iss t" "tcp_ack seg"] x u by (simp add: X_def [symmetric])
  have p: "unat (t_ptr t' - t_iss t) = max P X" using u by (simp add: t' g X_def max_def)
  have "t_given t' = t_given t" "t_state t' = t_state t" "unat (t_una t' - t_iss t) = X" "t_iss t' = t_iss t" "t_nxt t' = t_nxt t"
    "unat (t_sndcnt t') + X = T" "t_synack t'"
    using s by (simp_all add: t' X_def)
  then show ?thesis
    using c x q p unfolding placed_def X_def [symmetric] t'_def [symmetric] by (intro conjI) simp_all
qed

lemma queue_inv:
  assumes "tx_inv M t" "M + 2 < 2 ^ 31" "t_state t \<noteq> TCP_CLOSED" "ups_keep (tx_inv M) env"
    and "seq_gt (tcp_ack seg) (t_una t)" "\<not> seq_gt (tcp_ack seg) (t_nxt t)"
  shows "tx_inv M (upd_queue env seg t)"
    "t_state t \<notin> {TCP_ESTABLISHED, TCP_CLOSE_WAIT} \<Longrightarrow> t_state (upd_queue env seg t) = t_state t"
proof -
  obtain T U P N where c: "placed T U P N t" using assms(1,3) by (auto simp: tx_inv_def tx_core_cut)
  have T: "T < 2 ^ 31" using c assms(1,2) by (auto simp: placed_def tx_inv_def)
  define X where "X = unat (tcp_ack seg - t_iss t)"
  have UN: "unat (t_una t - t_iss t) = U" "unat (t_nxt t - t_iss t) = N" "U \<le> N" "N < 2 ^ 31"
    using c T by (auto simp: placed_def)
  have X: "U < X \<and> X \<le> N"
  proof -
    define d where "d = tcp_ack seg - t_una t"
    have d: "0 < unat d" "unat d < 2 ^ 31" using assms(5) by (simp_all add: seq_gt_def spos d_def)
    have n: "unat (t_nxt t - t_una t) = N - U" using unat_diff_off [of "t_una t" "t_iss t" "t_nxt t"] UN by simp
    have eq: "tcp_ack seg - t_nxt t = d - (t_nxt t - t_una t)" by (simp add: d_def)
    have "sint (d - (t_nxt t - t_una t)) = int (unat d) - int (unat (t_nxt t - t_una t))"
      using d(2) n UN by (intro sint_diff_small) auto
    moreover have "\<not> 0 < sint (d - (t_nxt t - t_una t))" using assms(6) unfolding seq_gt_def eq word_sless_alt by simp
    ultimately have le: "unat d \<le> N - U" unfolding n by linarith
    have e: "tcp_ack seg - t_iss t = (t_una t - t_iss t) + d" by (simp add: d_def)
    have "X = U + unat d" unfolding X_def e using unat_add_small [of "t_una t - t_iss t" "unat d"] UN d le by simp
    then show ?thesis using d le UN by simp
  qed
  have "placed T X (max P X) N (ack_queue seg t)"
    unfolding X_def by (rule queue_core [OF c T]) (use X in \<open>simp_all add: X_def\<close>)
  then have "tx_core (ack_queue seg t)" by (auto simp: tx_core_cut)
  then have i: "tx_inv M (ack_queue seg t)" using assms(1) by (auto simp: tx_inv_def tx_room_def out_ok_def ack_queue_def)
  have s: "t_state (ack_queue seg t) = t_state t" by (simp add: ack_queue_def)
  show "tx_inv M (upd_queue env seg t)" using i assms(4) by (auto simp: upd_queue_def Let_def intro: ups_keepD)
  show "t_state t \<notin> {TCP_ESTABLISHED, TCP_CLOSE_WAIT} \<Longrightarrow> t_state (upd_queue env seg t) = t_state t"
    using s by (simp add: upd_queue_def Let_def)
qed

lemma newer: "\<not> seq_lt a b \<Longrightarrow> a \<noteq> b \<Longrightarrow> seq_gt a b"
  by (auto simp: seq_lt_def seq_gt_def word_sless_alt not_less order_le_less signed_eq_0_iff)

lemma update_inv:
  assumes "tx_inv M t" "M + 2 < 2 ^ 31" "t_state t \<noteq> TCP_CLOSED" "ups_keep (tx_inv M) env" "sane seg"
  shows "tx_inv M (update env seg dlen t)"
    "t_state t \<notin> {TCP_ESTABLISHED, TCP_CLOSE_WAIT} \<Longrightarrow> t_state (update env seg dlen t) = t_state t"
proof -
  define w where "w = snd (upd_window seg t)"
  define wu where "wu = fst (upd_window seg t)"
  have w: "tx_inv M w" "t_state w = t_state t" "t_una w = t_una t" "t_nxt w = t_nxt t"
    using window_inv [OF assms(1) _ assms(3), of seg] assms(5) by (simp_all add: w_def sane_def)
  define k where "k = upd_rtt env seg (upd_cwind (tcp_ack seg - t_una w) w)"
  have kv: "txv k = txv (upd_cwind (tcp_ack seg - t_una w) w)" by (simp add: k_def rtt_txv)
  then have k: "tx_inv M k" "t_state k = t_state t" "t_una k = t_una t" "t_nxt k = t_nxt t"
    using tx_cong [OF kv] cwind_inv [OF w(1)] w assms(3) by (simp_all add: txv_def)
  have e: "update env seg dlen t =
     (if seq_gt (tcp_ack seg) (t_nxt t) then t\<lparr>t_force := True\<rparr>
      else if seq_lt (tcp_ack seg) (t_una w) then w
      else if tcp_ack seg = t_una w then upd_dup env seg dlen wu w
      else upd_queue env seg k)"
    by (simp add: update_def w_def wu_def k_def split: prod.split)
  have f: "tx_inv M (t\<lparr>t_force := True\<rparr>)" using assms(1) tx_cong [of "t\<lparr>t_force := True\<rparr>" t] by (simp add: txv_def)
  have d: "tx_inv M (upd_dup env seg dlen wu w)" "t_state (upd_dup env seg dlen wu w) = t_state t"
    using dup_inv [OF assms(2) w(1)] w(2) by simp_all
  have q: "tx_inv M (upd_queue env seg k)"
      "t_state t \<notin> {TCP_ESTABLISHED, TCP_CLOSE_WAIT} \<Longrightarrow> t_state (upd_queue env seg k) = t_state t"
    if "\<not> seq_gt (tcp_ack seg) (t_nxt t)" "\<not> seq_lt (tcp_ack seg) (t_una w)" "tcp_ack seg \<noteq> t_una w"
    using queue_inv [OF k(1) assms(2) _ assms(4), of seg] newer [OF that(2,3)] that(1) k w assms(3) by simp_all
  show "tx_inv M (update env seg dlen t)" unfolding e using f w(1) d(1) q(1) by auto
  show "t_state t \<notin> {TCP_ESTABLISHED, TCP_CLOSE_WAIT} \<Longrightarrow> t_state (update env seg dlen t) = t_state t"
    unfolding e using w(2) d(2) q(2) by auto
qed

section \<open>Input keeps the invariant\<close>

lemma out_ok_reset [simp]: "out_ok (reset ip seg t) = out_ok t"
  by (auto simp: out_ok_def reset_def reset_out_def honest_def reset_seg_def Let_def)

lemma reset_inv [simp]: "tx_inv M (reset ip seg t) = tx_inv M t"
proof -
  have "tx_core (reset ip seg t) = tx_core t" "tx_room (reset ip seg t) = tx_room t"
    by (simp_all add: reset_def tx_core_def tx_room_def)
  moreover have "t_clone (reset ip seg t) = t_clone t" "t_active (reset ip seg t) = t_active t"
    "t_state (reset ip seg t) = t_state t" "t_given (reset ip seg t) = t_given t"
    "t_reseq (reset ip seg t) = t_reseq t" "t_ub (reset ip seg t) = t_ub t"
    by (simp_all add: reset_def)
  ultimately show ?thesis by (simp add: tx_inv_def)
qed

lemma tx_state:
  assumes "tx_inv M t" "t_state t \<noteq> TCP_CLOSED" "closing new = closing (t_state t)" "new \<notin> {TCP_LISTEN, TCP_CLOSED}"
  shows "tx_inv M (t\<lparr>t_state := new\<rparr>)"
  using assms by (auto simp: tx_inv_def tx_core_def tx_room_def out_ok_def)

lemma tx_closed: "tx_inv M t \<Longrightarrow> tx_inv M (t\<lparr>t_state := TCP_CLOSED\<rparr>)"
  by (auto simp: tx_inv_def out_ok_def dest: honest_closed)

lemma set_inv:
  assumes "tx_inv M t" "ups_keep (tx_inv M) env" "t_state t \<noteq> TCP_CLOSED" "closing new = closing (t_state t)"
    "new \<notin> {TCP_LISTEN, TCP_CLOSED}"
  shows "tx_inv M (settcpstate env new t)"
  using settcpstate_keeps [OF assms(2) tx_state [OF assms(1,3,4,5)]] .

lemma close_inv:
  assumes "tx_inv M t" "ups_keep (tx_inv M) env"
  shows "tx_inv M (close_self env r t)"
  unfolding close_self_def
proof (rule settcpstate_keeps [OF assms(2)])
  let ?s = "t\<lparr>t_timer := stop_tm (t_timer t), t_reason := r\<rparr>"
  let ?t = "t\<lparr>t_timer := stop_tm (t_timer t), t_reason := r, t_reseq := []\<rparr>"
  have "txv ?s = txv t" by (simp add: txv_def)
  then have "tx_inv M ?s" using assms(1) tx_cong by blast
  then have "tx_inv M ?t" by (simp add: tx_inv_def tx_core_def tx_room_def out_ok_def all_sane_def)
  then show "tx_inv M (?t\<lparr>t_state := TCP_CLOSED\<rparr>)" by (rule tx_closed)
qed

lemma timer_inv [simp]: "tx_inv M (t\<lparr>t_timer := x\<rparr>) = tx_inv M t"
  by (rule tx_cong) (simp add: txv_def)

lemma force_inv [simp]: "tx_inv M (t\<lparr>t_force := x\<rparr>) = tx_inv M t"
  by (rule tx_cong) (simp add: txv_def)

lemma rnxt_inv [simp]: "tx_inv M (t\<lparr>t_rnxt := x\<rparr>) = tx_inv M t"
  by (rule tx_cong) (simp add: txv_def)

lemma time_wait_inv:
  assumes "tx_inv M t" "ups_keep (tx_inv M) env" "closing (t_state t)"
  shows "tx_inv M (time_wait env t)"
  using set_inv [OF assms(1,2), of TCP_TIME_WAIT] assms(3) by (auto simp: time_wait_def Let_def closing_def)

lemma rx_ack_inv:
  assumes "tx_inv M t" "M + 2 < 2 ^ 31" "ups_keep (tx_inv M) env" "sane seg"
  shows "tx_inv M (snd (rx_ack env ip seg dlen t))"
proof -
  let ?u = "update env seg dlen t"
  have u: "t_state t \<noteq> TCP_CLOSED \<Longrightarrow> tx_inv M ?u"
    "t_state t \<noteq> TCP_CLOSED \<Longrightarrow> t_state t \<notin> {TCP_ESTABLISHED, TCP_CLOSE_WAIT} \<Longrightarrow> t_state ?u = t_state t"
    using update_inv [OF assms(1,2) _ assms(3,4)] by auto
  show ?thesis
    using assms(1) u set_inv [OF u(1) assms(3)] time_wait_inv [OF u(1) assms(3)] close_inv [OF u(1) assms(3)]
    by (cases "t_state t") (simp_all add: rx_ack_def Let_def closing_def)
qed

lemma rx_text_inv:
  assumes "tx_inv M t" "ups_keep (tx_inv M) env"
  shows "tx_inv M (rx_text env bp dlen t)"
proof -
  define s where "s = t\<lparr>t_inrate := sdiv32 (7 * t_inrate t + TDIFF (te_clock env) (t_lastrx t)) 8,
                     t_lastrx := te_clock env, t_inlen := (7 * t_inlen t + dlen) div 8,
                     t_rcvq := append_p (t_rcvq t) bp, t_rcvcnt := t_rcvcnt t + dlen,
                     t_rnxt := t_rnxt t + dlen, t_rwnd := t_rwnd t - dlen, t_force := True\<rparr>"
  have "txv s = txv t" by (simp add: txv_def s_def)
  then have "tx_inv M s" using assms(1) tx_cong by blast
  then show ?thesis using assms unfolding rx_text_def Let_def s_def [symmetric] by (simp add: ups_keepD)
qed

lemma rx_fin_inv:
  assumes "tx_inv M t" "ups_keep (tx_inv M) env"
  shows "tx_inv M (rx_fin env seg t)"
proof -
  define s where "s = t\<lparr>t_force := True\<rparr>"
  define n where "n = s\<lparr>t_rnxt := t_rnxt s + 1\<rparr>"
  have s: "tx_inv M s" "t_state s = t_state t" using assms(1) by (simp_all add: s_def)
  have n: "tx_inv M n" "t_state n = t_state t" using s by (simp_all add: n_def)
  have "tx_inv M (case t_state s of
                   TCP_SYN_RECEIVED \<Rightarrow> settcpstate env TCP_CLOSE_WAIT n
                 | TCP_ESTABLISHED \<Rightarrow> settcpstate env TCP_CLOSE_WAIT n
                 | TCP_FINWAIT1 \<Rightarrow> if t_sndcnt n = 0 then time_wait env n else settcpstate env TCP_CLOSING n
                 | TCP_FINWAIT2 \<Rightarrow> time_wait env n
                 | TCP_TIME_WAIT \<Rightarrow> s\<lparr>t_timer := start_tm (t_timer s)\<rparr>
                 | _ \<Rightarrow> s)"
    using s n set_inv [OF n(1) assms(2)] time_wait_inv [OF n(1) assms(2)]
    by (cases "t_state t") (simp_all add: closing_def)
  then show ?thesis
    using assms unfolding rx_fin_def Let_def s_def [symmetric] n_def [symmetric] by (simp add: ups_keepD)
qed

lemma rx_seg_inv:
  assumes "tx_inv M t" "M + 2 < 2 ^ 31" "ups_keep (tx_inv M) env" "sane seg"
  shows "tx_inv M (snd (rx_seg env ip seg bp dlen t))"
proof (cases "f_rst seg \<or> f_syn seg")
  case True
  have "t_clone t \<or> t_active t" using assms(1) by (simp add: tx_inv_def)
  then show ?thesis using True assms(1) close_inv [OF assms(1,3)] by (auto simp: rx_seg_def)
next
  case False
  define s where "s = (if f_tstamp seg \<and> seq_within (t_last_ack_sent t) (tcp_seq seg) (tcp_seq seg + dlen)
                    then t\<lparr>t_ts_recent := tcp_tsval seg\<rparr> else t)"
  have "txv s = txv t" by (simp add: txv_def s_def)
  then have s: "tx_inv M s" using assms(1) tx_cong by blast
  note a = rx_ack_inv [OF s assms(2-4), of ip dlen]
  show ?thesis
    using False s a rx_fin_inv [OF rx_text_inv [OF a assms(3)] assms(3)]
    unfolding rx_seg_def Let_def s_def [symmetric] by (auto split: prod.split bool.split)
qed

lemma trim_txv: "trim t seg bp dlen = (ok, t', seg', bp', dlen') \<Longrightarrow> txv t' = txv t \<and> (sane seg \<longrightarrow> sane seg')"
  by (auto simp: trim_def trim_left_def trim_right_def Let_def txv_def sane_def split: if_splits prod.splits)

lemma tx_reseq: "tx_inv M t \<Longrightarrow> all_sane rs \<Longrightarrow> tx_inv M (t\<lparr>t_reseq := rs\<rparr>)"
  by (auto simp: tx_inv_def tx_core_def tx_room_def out_ok_def)

lemma scan_inv:
  "tx_inv M t \<Longrightarrow> all_sane rs \<Longrightarrow> tx_inv M (fst (rx_scan rs t)) \<and>
     (case snd (rx_scan rs t) of None \<Rightarrow> True | Some (tos, seg, bp, dlen) \<Rightarrow> sane seg)"
proof (induction rs arbitrary: t)
  case Nil
  then show ?case by (simp add: tx_reseq)
next
  case (Cons r rs)
  obtain ok t' seg' bp' dlen' where tr: "trim (t\<lparr>t_reseq := rs\<rparr>) (rs_seg r) (rs_bp r) (rs_length r) = (ok, t', seg', bp', dlen')"
    by (cases "trim (t\<lparr>t_reseq := rs\<rparr>) (rs_seg r) (rs_bp r) (rs_length r)") auto
  have s: "all_sane rs" "sane (rs_seg r)" using Cons.prems(2) by (simp_all add: all_sane_def)
  have "tx_inv M (t\<lparr>t_reseq := rs\<rparr>)" using Cons.prems(1) s(1) by (rule tx_reseq)
  then have t': "tx_inv M t'" "sane seg'" using trim_txv [OF tr] s(2) tx_cong by blast+
  show ?case
    using t' Cons.IH [OF t'(1) s(1)] Cons.prems by (simp add: tr tx_reseq)
qed

lemma rx_loop_inv:
  assumes "M + 2 < 2 ^ 31" "ups_keep (tx_inv M) env"
  shows "tx_inv M t \<Longrightarrow> sane seg \<Longrightarrow> tx_inv M (rx_loop n env ip seg bp dlen t)"
proof (induction n arbitrary: ip seg bp dlen t)
  case (Suc n)
  obtain go t1 where s: "rx_seg env ip seg bp dlen t = (go, t1)" by fastforce
  have t1: "tx_inv M t1" using rx_seg_inv [OF Suc.prems(1) assms Suc.prems(2), of ip bp dlen] s by simp
  have "all_sane (t_reseq t1)" using t1 by (simp add: tx_inv_def)
  note sc = scan_inv [OF t1 this]
  show ?case
    using t1 sc Suc.IH output_inv [OF assms(1)] by (auto simp: s split: bool.split prod.split option.split)
qed simp

lemma reseq_sane: "all_sane (add_reseq_loop r rs) \<longleftrightarrow> sane (rs_seg r) \<and> all_sane rs"
  by (induction rs) (auto simp: all_sane_def)

lemma add_reseq_inv: "tx_inv M t \<Longrightarrow> sane seg \<Longrightarrow> tx_inv M (add_reseq tos seg bp dlen t)"
  unfolding add_reseq_def by (rule tx_reseq) (simp_all add: reseq_sane tx_inv_def)

lemma rx_sync_inv:
  assumes "tx_inv M t" "M + 2 < 2 ^ 31" "ups_keep (tx_inv M) env" "sane seg"
  shows "tx_inv M (rx_sync env ip seg bp dlen t)"
proof -
  obtain ok t1 seg1 bp1 dlen1 where tr: "trim t seg bp dlen = (ok, t1, seg1, bp1, dlen1)"
    by (cases "trim t seg bp dlen") auto
  have t1: "tx_inv M t1" "sane seg1" using trim_txv [OF tr] assms(1,4) tx_cong by blast+
  define t2 where "t2 = add_reseq (ip_tos ip) seg1 bp1 dlen1 t1"
  have t2: "tx_inv M t2" using add_reseq_inv [OF t1] by (simp add: t2_def)
  have s2: "sane (seg1\<lparr>f_syn := False, f_fin := False\<rparr>)" using t1(2) by (simp add: sane_def)
  show ?thesis
    unfolding rx_sync_def tr prod.case Let_def t2_def [symmetric]
    using t1 t2 s2 tx_back [OF t1(1)]
    by (auto intro!: output_inv rx_loop_inv assms(2,3) simp del: rx_loop.simps split: bool.split)
qed

text \<open>\<^verbatim>\<open>te_mss\<close> and the MTU leave room for data.\<close>

definition env_ok :: "tenv \<Rightarrow> bool" where
  "env_ok env \<longleftrightarrow> 0 < unat (te_mss env) \<and> unat (te_mss env) < 2 ^ 16 \<and>
     (\<forall>a. te_mtu env a \<noteq> 40 \<and> te_mtu env a \<noteq> 52)"

lemma proc_syn_keeps:
  "t_state (proc_syn env tos seg t) = t_state t" "t_iss (proc_syn env tos seg t) = t_iss t"
  "t_una (proc_syn env tos seg t) = t_una t" "t_nxt (proc_syn env tos seg t) = t_nxt t" "t_ptr (proc_syn env tos seg t) = t_ptr t"
  "t_synack (proc_syn env tos seg t) = t_synack t" "t_sndcnt (proc_syn env tos seg t) = t_sndcnt t"
  "t_sndq (proc_syn env tos seg t) = t_sndq t" "t_given (proc_syn env tos seg t) = t_given t"
  "t_out (proc_syn env tos seg t) = t_out t" "t_clone (proc_syn env tos seg t) = t_clone t"
  "t_active (proc_syn env tos seg t) = t_active t" "t_reseq (proc_syn env tos seg t) = t_reseq t"
  "t_ssthresh (proc_syn env tos seg t) = t_ssthresh t" "t_ub (proc_syn env tos seg t) = t_ub t"
  by (simp_all add: proc_syn_def Let_def split: prod.split)

lemma proc_syn_room:
  assumes "tx_room t" "env_ok env" "sane seg"
  shows "tx_room (proc_syn env tos seg t)"
proof -
  define m0 where "m0 = (if f_mss seg then tcp_mss seg else t_mss t)"
  define ts where "ts \<longleftrightarrow> (f_tstamp seg \<and> te_tstamps env) \<or> t_ts_ok t"
  define mtu where "mtu = te_mtu env (c_raddr (t_conn t))"
  define m :: u32 where "m = min (mtu - (if ts then 52 else 40)) m0"
  have m0: "0 < unat m0" "unat m0 < 2 ^ 16" using assms(1,3) by (auto simp: m0_def tx_room_def sane_def)
  have "mtu - (if ts then 52 else 40) \<noteq> 0" using assms(2) by (auto simp: env_ok_def mtu_def)
  then have m: "0 < unat m" "unat m < 2 ^ 16" using m0 by (auto simp: m_def unat_min unat_gt_0)
  have "t_mss (proc_syn env tos seg t) = (if mtu \<noteq> 0 then m else m0)"
    "t_cwind (proc_syn env tos seg t) = (if mtu \<noteq> 0 then m else t_cwind t)"
    "t_swnd (proc_syn env tos seg t) = tcp_wnd seg"
    "t_ws_ok (proc_syn env tos seg t) = (f_wscale seg \<or> t_ws_ok t)"
    "t_swscale (proc_syn env tos seg t) = (if f_wscale seg then tcp_wsopt seg else t_swscale t)"
    by (auto simp: proc_syn_def Let_def m_def m0_def ts_def mtu_def split: prod.split)
  then show ?thesis using m m0 assms(1,3) proc_syn_keeps(14) [of env tos seg t] by (auto simp: tx_room_def sane_def spos)
qed

lemma proc_syn_inv:
  assumes "tx_inv M t" "env_ok env" "sane seg"
  shows "tx_inv M (proc_syn env tos seg t)"
  using assms proc_syn_room [of t env seg tos] unfolding tx_inv_def tx_core_def out_ok_def proc_syn_keeps by simp

lemma segment_inv:
  assumes "tx_inv M t" "M + 2 < 2 ^ 31" "ups_keep (tx_inv M) env" "env_ok env" "sane seg"
  shows "tx_inv M (tcp_segment env ip seg bp dlen t)"
proof -
  define s where "s = t\<lparr>t_congest := ip_congest ip\<rparr>"
  have "txv s = txv t" by (simp add: txv_def s_def)
  then have s: "tx_inv M s" "t_state s = t_state t" using assms(1) tx_cong [of s t M] by (simp_all add: s_def)
  define q where "q = proc_syn env (ip_tos ip) seg s"
  have q: "tx_inv M q" "t_state q = t_state t"
    using proc_syn_inv [OF s(1) assms(4,5)] s(2) by (simp_all add: q_def proc_syn_keeps)
  define u where "u = update env seg dlen q"
  have u: "t_state t = TCP_SYN_SENT \<Longrightarrow> tx_inv M u \<and> t_state u = TCP_SYN_SENT"
    using update_inv [OF q(1) assms(2) _ assms(3,5), of dlen] q(2) by (simp add: u_def)
  have y: "t_state t = TCP_SYN_SENT \<Longrightarrow>
      tx_inv M (if f_ack seg then settcpstate env TCP_ESTABLISHED u else settcpstate env TCP_SYN_RECEIVED q)"
    using u q set_inv [OF _ assms(3)] by (simp add: closing_def)
  have nl: "t_state s \<noteq> TCP_LISTEN" using s(1) by (simp add: tx_inv_def)
  have e: "tcp_segment env ip seg bp dlen t =
     (case t_state s of
        TCP_CLOSED \<Rightarrow> reset ip seg s
      | TCP_SYN_SENT \<Rightarrow>
             if f_ack seg \<and> \<not> seq_within (tcp_ack seg) (t_iss s + 1) (t_nxt s) then reset ip seg s
             else if f_rst seg then (if f_ack seg then close_self env RESET s else s)
             else if f_syn seg then
               let t = (if f_ack seg then settcpstate env TCP_ESTABLISHED u else settcpstate env TCP_SYN_RECEIVED q)
               in if dlen \<noteq> 0 \<or> f_fin seg then rx_sync env ip seg bp dlen t else tcp_output env t
             else s
      | _ \<Rightarrow> rx_sync env ip seg bp dlen s)"
    using nl unfolding tcp_segment_def Let_def s_def [symmetric] q_def [symmetric] u_def [symmetric]
    by (cases "t_state s") simp_all
  show ?thesis
    unfolding e Let_def
    using s(1) y s(2) close_inv [OF s(1) assms(3)]
    by (cases "t_state s") (auto intro!: rx_sync_inv output_inv assms(2,3,5))
qed

section \<open>Timeouts and calls keep the invariant\<close>

lemma timeout_inv:
  assumes "tx_inv M t" "M + 2 < 2 ^ 31" "ups_keep (tx_inv M) env"
  shows "tx_inv M (tcp_timeout env t)"
proof -
  define s where "s = t\<lparr>t_timer := stop_tm (t_timer t)\<rparr>"
  define r where "r = s\<lparr>t_timeouts := t_timeouts s + 1, t_retran := True, t_backoff := t_backoff s + 1\<rparr>"
  have s: "tx_inv M s" using assms(1) by (simp add: s_def)
  have "txv r = txv s" by (simp add: r_def txv_def)
  then have r: "tx_inv M r" using s tx_cong by blast
  show ?thesis
    using close_inv [OF s assms(3)] close_inv [OF r assms(3)] resend_inv(1) [OF assms(2) tx_cut [OF r]]
    unfolding tcp_timeout_def Let_def s_def [symmetric] r_def [symmetric] by simp
qed

lemma kick_inv:
  assumes "tx_inv M t" "M + 2 < 2 ^ 31" "ups_keep (tx_inv M) env"
  shows "tx_inv M (kick_tcp env t)"
  unfolding kick_tcp_def
  by (rule timeout_inv [OF _ assms(2,3)]) (use assms(1) tx_cong [of "t\<lparr>t_force := True, t_backoff := 0\<rparr>" t M] in \<open>simp add: txv_def\<close>)

lemma given_more:
  assumes "tx_inv M t" "t_state t \<notin> {TCP_CLOSED, TCP_LISTEN}" "\<not> closing (t_state t)" "M + 2 < 2 ^ 31"
    and "length (t_given t) + length (content bp) \<le> M"
  shows "tx_inv M (t\<lparr>t_sndq := append_p (t_sndq t) bp, t_sndcnt := t_sndcnt t + of_nat (len_p bp),
       t_given := t_given t @ content bp\<rparr>)"
proof -
  let ?q = "t\<lparr>t_sndq := append_p (t_sndq t) bp, t_sndcnt := t_sndcnt t + of_nat (len_p bp), t_given := t_given t @ content bp\<rparr>"
  have core: "tx_core t" "tx_room t" "out_ok t" using assms(1,2) by (auto simp: tx_inv_def)
  define U where "U = unat (t_una t - t_iss t)"
  have u: "unat (t_sndcnt t) + U = 1 + length (t_given t)" "U \<le> 1 + length (t_given t)"
    "content (t_sndq t) = drop (U - 1) (t_given t)"
    using core(1) assms(3) by (auto simp: tx_core_def U_def Let_def)
  have "unat (t_sndcnt t + of_nat (length (content bp))) = unat (t_sndcnt t) + length (content bp)"
    by (rule unat_add_small) (use u(1) assms(4,5) in simp)
  moreover have "U - 1 \<le> length (t_given t)" using u(2) by linarith
  ultimately have "tx_core ?q"
    using core(1) assms(3) u unfolding tx_core_def Let_def U_def by (auto simp: len_p_content append_p_content)
  moreover have "out_ok ?q"
    using core(3) assms(2,3) by (auto simp: out_ok_def intro: honest_more)
  ultimately show ?thesis using assms(1,5) core(2) by (simp add: tx_inv_def tx_room_def)
qed

lemma send_inv:
  assumes "tx_inv M t" "M + 2 < 2 ^ 31" "length (t_given t) + length (content bp) \<le> M"
  shows "tx_inv M (snd (send_tcp env bp t))"
proof -
  have "t_state t \<noteq> TCP_LISTEN" using assms(1) by (simp add: tx_inv_def)
  then show ?thesis
    using assms(1) output_inv [OF assms(2) given_more [OF assms(1) _ _ assms(2,3)]]
    by (cases "t_state t") (simp_all add: send_tcp_def Let_def closing_def)
qed

lemma recv_inv:
  assumes "tx_inv M t" "M + 2 < 2 ^ 31"
  shows "tx_inv M (snd (recv_tcp env n t))"
proof -
  have "tx_inv M (t\<lparr>t_rcvq := a, t_taken := b, t_rcvcnt := c, t_rwnd := d\<rparr>)" for a b c d
    using assms(1) tx_cong [of "t\<lparr>t_rcvq := a, t_taken := b, t_rcvcnt := c, t_rwnd := d\<rparr>" t M] by (simp add: txv_def)
  then show ?thesis using assms(1) output_inv [OF assms(2)] unfolding recv_tcp_def Let_def by simp
qed

lemma close_fin_inv:
  assumes "tx_inv M t" "M + 2 < 2 ^ 31" "ups_keep (tx_inv M) env" "t_state t \<notin> {TCP_CLOSED, TCP_LISTEN}" "\<not> closing (t_state t)"
    "closing new"
  shows "tx_inv M (close_fin env new t)"
proof -
  let ?f = "t\<lparr>t_sndcnt := t_sndcnt t + 1, t_nxt := t_nxt t + 1, t_state := new\<rparr>"
  have core: "tx_core t" "tx_room t" "out_ok t" "length (t_given t) \<le> M" using assms(1,4) by (auto simp: tx_inv_def)
  define U where "U = unat (t_una t - t_iss t)"
  define N where "N = unat (t_nxt t - t_iss t)"
  have u: "unat (t_sndcnt t) + U = 1 + length (t_given t)" "N \<le> 1 + length (t_given t)"
    using core(1) assms(5) by (auto simp: tx_core_def U_def N_def Let_def)
  have c: "unat (t_sndcnt t + 1) = unat (t_sndcnt t) + 1"
    using unat_add_small [of "t_sndcnt t" 1] u assms(2) core(4) by simp
  have e: "t_nxt t + 1 - t_iss t = (t_nxt t - t_iss t) + 1" by simp
  have n: "unat (t_nxt t + 1 - t_iss t) = N + 1"
    unfolding e using unat_add_small [of "t_nxt t - t_iss t" 1] u assms(2) core(4) by (simp add: N_def)
  have "tx_core ?f" using core(1) assms(5,6) c n unfolding tx_core_def Let_def N_def by auto
  moreover have "out_ok ?f" using core(3) assms(4,5,6) by (auto simp: out_ok_def intro: honest_closed)
  moreover have "new \<noteq> TCP_LISTEN" "new \<noteq> TCP_CLOSED" using assms(6) by (auto simp: closing_def)
  ultimately have "tx_inv M ?f" using assms(1) core(2) by (simp add: tx_inv_def tx_room_def)
  then have "tx_inv M (settcpstate env new (t\<lparr>t_sndcnt := t_sndcnt t + 1, t_nxt := t_nxt t + 1\<rparr>))"
    by (intro settcpstate_keeps [OF assms(3)]) simp
  then show ?thesis unfolding close_fin_def by (rule output_inv [OF assms(2)])
qed

lemma close_tcp_inv:
  assumes "tx_inv M t" "M + 2 < 2 ^ 31" "ups_keep (tx_inv M) env"
  shows "tx_inv M (snd (close_tcp env t))"
  using assms(1) close_inv [OF assms(1,3)] close_fin_inv [OF assms]
  by (cases "t_state t") (simp_all add: close_tcp_def closing_def)

lemma reset_tcp_inv:
  assumes "tx_inv M t" "ups_keep (tx_inv M) env"
  shows "tx_inv M (reset_tcp env t)"
proof -
  let ?f = "tcp_zero\<lparr>tcp_dest := c_lport (t_conn t), tcp_source := c_rport (t_conn t), f_ack := True, tcp_ack := t_nxt t + t_swnd t - 1\<rparr>"
  define s where "s = t\<lparr>t_out := t_out t @ [(c_laddr (t_conn t), c_raddr (t_conn t), reset_seg ?f, [])]\<rparr>"
  have "honest G c b (reset_seg ?f) []" for G c b by (simp add: honest_def reset_seg_def)
  then have "out_ok s" if "out_ok t" using that by (auto simp: out_ok_def s_def)
  then have "tx_inv M s" using assms(1) by (auto simp: tx_inv_def s_def tx_core_def tx_room_def)
  then show ?thesis
    using assms close_inv [OF _ assms(2)] unfolding reset_tcp_def Let_def s_def [symmetric] by simp
qed

lemma icmp_inv: "tx_inv M t \<Longrightarrow> tx_inv M (icmp_for_tcb type code seg t)"
proof -
  assume i: "tx_inv M t"
  have 1: "tx_inv M (t\<lparr>t_type := a, t_code := b, t_unreach := c\<rparr>)" for a b c
    using i tx_cong [of "t\<lparr>t_type := a, t_code := b, t_unreach := c\<rparr>" t M] by (simp add: txv_def)
  have "tx_room (t\<lparr>t_cwind := t_mss t\<rparr>)" if "tx_room t" using that by (simp add: tx_room_def spos)
  then have "tx_inv M s \<Longrightarrow> tx_inv M (s\<lparr>t_cwind := t_mss s\<rparr>)" for s
    by (auto simp: tx_inv_def tx_core_def tx_room_def out_ok_def spos)
  from this [OF tx_cut [OF i]] have 2: "tx_inv M ((cut_ssthresh t)\<lparr>t_cwind := t_mss t, t_quench := c\<rparr>)" for c
    using tx_cong [of "(cut_ssthresh t)\<lparr>t_cwind := t_mss t, t_quench := c\<rparr>" "(cut_ssthresh t)\<lparr>t_cwind := t_mss t\<rparr>" M]
    by (simp add: txv_def cut_ssthresh_def)
  show ?thesis using i 1 2 by (simp add: icmp_for_tcb_def)
qed

end
