(* ===== verification/Tcp_Life.thy ===== *)
theory Tcp_Life
  imports Tcp_Tx
begin

text \<open>
  The life of a control block: segments, expiries of its timer, ICMP messages, garbage collection and the calls of its user.  The
  upcalls are user code, that is, calls of the engine; these may make upcalls again, to any finite depth (\<open>user_env\<close>).  The
  locales are the interface of an invariant: what has to be shown of the calls (\<open>user_law\<close>) and of each handler (\<open>block_law\<close>), and what
  follows for the upcalls and for the whole life.
\<close>

text \<open>Calls one after the other; no more than \<open>M\<close> octets are handed over.  A user who sends on a listening block that has a peer
  opens it actively, with an upcall in the middle of the call; that way of opening a connection is left out.\<close>

definition may_send :: "nat \<Rightarrow> tcb \<Rightarrow> chain \<Rightarrow> bool" where
  "may_send M t bp \<longleftrightarrow> length (t_given t) + length (content bp) \<le> M \<and>
     (t_state t = TCP_LISTEN \<longrightarrow> c_raddr (t_conn t) = 0 \<and> c_rport (t_conn t) = 0)"

inductive user_run :: "nat \<Rightarrow> tenv \<Rightarrow> tcb \<Rightarrow> tcb \<Rightarrow> bool" for M env t where
  nothing: "user_run M env t t"
| sends: "user_run M env t u \<Longrightarrow> may_send M u bp \<Longrightarrow> user_run M env t (snd (send_tcp env bp u))"
| takes: "user_run M env t u \<Longrightarrow> 0 \<le>s n \<Longrightarrow> user_run M env t (snd (recv_tcp env n u))"
| closes: "user_run M env t u \<Longrightarrow> user_run M env t (snd (close_tcp env u))"
| kicks: "user_run M env t u \<Longrightarrow> user_run M env t (kick_tcp env u)"
| resets: "user_run M env t u \<Longrightarrow> user_run M env t (reset_tcp env u)"

inductive user_env :: "nat \<Rightarrow> tenv \<Rightarrow> bool" for M where
  quiet: "env_ok env \<Longrightarrow> (\<And>c t. te_r_up env c t = t) \<Longrightarrow> (\<And>c t. te_t_up env c t = t) \<Longrightarrow>
     (\<And>old new t. te_s_up env old new t = t) \<Longrightarrow> user_env M env"
| calls: "env_ok env \<Longrightarrow> user_env M e \<Longrightarrow> (\<And>c t. user_run M e t (te_r_up env c t)) \<Longrightarrow>
     (\<And>c t. user_run M e t (te_t_up env c t)) \<Longrightarrow> (\<And>old new t. user_run M e t (te_s_up env old new t)) \<Longrightarrow> user_env M env"

text \<open>The events of a block; \<open>P\<close> says which segments can arrive.  A listening block gets its peer from \<open>find_tcb\<close>.\<close>

inductive tcp_event :: "nat \<Rightarrow> (tcp \<Rightarrow> byte list \<Rightarrow> bool) \<Rightarrow> tcb \<Rightarrow> tcb \<Rightarrow> bool" for M P where
  segment: "user_env M env \<Longrightarrow> P seg (content bp) \<Longrightarrow> length (content bp) < 2 ^ 16 \<Longrightarrow>
     tcp_event M P t (tcp_segment env ip seg bp (of_nat (length (content bp))) t)"
| timeout: "user_env M env \<Longrightarrow> tcp_event M P t (tcp_timeout env t)"
| call: "user_env M env \<Longrightarrow> user_run M env t u \<Longrightarrow> tcp_event M P t u"
| icmp: "tcp_event M P t (icmp_for_tcb type code seg t)"
| garbage: "tcp_event M P t (t\<lparr>t_reseq := []\<rparr>)"
| adopted: "t_state t = TCP_LISTEN \<Longrightarrow> tcp_event M P t (t\<lparr>t_conn := conn\<rparr>)"

lemma env_fine: "user_env M env \<Longrightarrow> env_ok env"
  by (auto elim: user_env.cases)

locale user_law =
  fixes M :: nat and I :: "tcb \<Rightarrow> bool"
  assumes send_law: "user_env M env \<Longrightarrow> ups_keep I env \<Longrightarrow> I t \<Longrightarrow> may_send M t bp \<Longrightarrow> I (snd (send_tcp env bp t))"
    and recv_law: "user_env M env \<Longrightarrow> ups_keep I env \<Longrightarrow> I t \<Longrightarrow> 0 \<le>s n \<Longrightarrow> I (snd (recv_tcp env n t))"
    and close_law: "user_env M env \<Longrightarrow> ups_keep I env \<Longrightarrow> I t \<Longrightarrow> I (snd (close_tcp env t))"
    and kick_law: "user_env M env \<Longrightarrow> ups_keep I env \<Longrightarrow> I t \<Longrightarrow> I (kick_tcp env t)"
    and reset_law: "user_env M env \<Longrightarrow> ups_keep I env \<Longrightarrow> I t \<Longrightarrow> I (reset_tcp env t)"
begin

lemma run_keeps: "user_run M env t u \<Longrightarrow> user_env M env \<Longrightarrow> ups_keep I env \<Longrightarrow> I t \<Longrightarrow> I u"
  by (induction rule: user_run.induct) (auto intro: send_law recv_law close_law kick_law reset_law)

lemma env_keeps: "user_env M env \<Longrightarrow> ups_keep I env"
proof (induction rule: user_env.induct)
  case (calls env e)
  then have k: "user_run M e t u \<Longrightarrow> I t \<Longrightarrow> I u" for t u using run_keeps by blast
  show ?case unfolding ups_keep_def using k calls.hyps(3-5) by blast
qed (simp add: ups_keep_def)

end

locale block_law = user_law M I for M :: nat and I :: "tcb \<Rightarrow> bool" +
  fixes P :: "tcp \<Rightarrow> byte list \<Rightarrow> bool"
  assumes timeout_law: "user_env M env \<Longrightarrow> ups_keep I env \<Longrightarrow> I t \<Longrightarrow> I (tcp_timeout env t)"
    and segment_law: "user_env M env \<Longrightarrow> ups_keep I env \<Longrightarrow> I t \<Longrightarrow> P seg (content bp) \<Longrightarrow> length (content bp) < 2 ^ 16 \<Longrightarrow>
      I (tcp_segment env ip seg bp (of_nat (length (content bp))) t)"
    and icmp_law: "I t \<Longrightarrow> I (icmp_for_tcb type code seg t)"
    and garbage_law: "I t \<Longrightarrow> I (t\<lparr>t_reseq := []\<rparr>)"
    and conn_law: "I t \<Longrightarrow> I (t\<lparr>t_conn := conn\<rparr>)"
begin

lemma event_keeps: "tcp_event M P t u \<Longrightarrow> I t \<Longrightarrow> I u"
  by (induction rule: tcp_event.induct)
    (auto intro: segment_law timeout_law run_keeps icmp_law garbage_law conn_law env_keeps)

lemma life_keeps: "(tcp_event M P)\<^sup>*\<^sup>* t u \<Longrightarrow> I t \<Longrightarrow> I u"
  by (induction rule: rtranclp_induct) (auto intro: event_keeps)

end

text \<open>The sender's invariant obeys it for sane segments.\<close>

lemma garbage_tx: "tx_inv M t \<Longrightarrow> tx_inv M (t\<lparr>t_reseq := []\<rparr>)"
  by (rule tx_reseq) (simp_all add: all_sane_def)

interpretation tx: block_law M "\<lambda>t. M + 2 < 2 ^ 31 \<longrightarrow> tx_inv M t" "\<lambda>seg data. sane seg" for M
proof
  let ?I = "\<lambda>t. M + 2 < 2 ^ 31 \<longrightarrow> tx_inv M t"
  have u: "ups_keep ?I env \<Longrightarrow> M + 2 < 2 ^ 31 \<Longrightarrow> ups_keep (tx_inv M) env" for env by (simp add: ups_keep_def)
  fix env t bp n ip seg type code conn
  assume i: "?I t"
  show "?I (t\<lparr>t_conn := conn\<rparr>)" using i tx_cong [of "t\<lparr>t_conn := conn\<rparr>" t M] by (simp add: txv_def)
  show "?I (icmp_for_tcb type code seg t)" using i icmp_inv by blast
  show "?I (t\<lparr>t_reseq := []\<rparr>)" using i garbage_tx by blast
  show "may_send M t bp \<Longrightarrow> ?I (snd (send_tcp env bp t))" using i send_inv by (simp add: may_send_def)
  show "?I (snd (recv_tcp env n t))" using i recv_inv by blast
  assume e: "user_env M env" "ups_keep ?I env"
  show "?I (snd (close_tcp env t))" using i e close_tcp_inv u by blast
  show "?I (tcp_timeout env t)" using i e timeout_inv u by blast
  show "?I (kick_tcp env t)" using i e kick_inv u by blast
  show "?I (reset_tcp env t)" using i e reset_tcp_inv u by blast
  show "sane seg \<Longrightarrow> ?I (tcp_segment env ip seg bp (of_nat (length (content bp))) t)"
    using i e segment_inv u env_fine by blast
qed

end
