(* ===== verification/Tcp_Rx.thy ===== *)
theory Tcp_Rx
  imports Tcp_Life
begin

text \<open>
  The receiver's side: segments of an honest sender, in any order, repeated, overlapping or lost, are put together to a first part
  of his stream.  \<open>trim_honest\<close> is what \<^verbatim>\<open>trim\<close> does to such a segment; \<open>rx_inv\<close> is the invariant.  It holds as long as the numbers of the
  stream and of the window do not pass from the largest \<^verbatim>\<open>int32\<close> to the smallest: \<^verbatim>\<open>seq_within\<close> compares them as they are.
\<close>

section \<open>Signed differences\<close>

lemma sint_range: "- (2 ^ 31) \<le> sint (x :: u32)" "sint (x :: u32) < 2 ^ 31"
  using sint_ge [of x] sint_lt [of x] by simp_all

lemma sint_word: "- (2 ^ 31) \<le> k \<Longrightarrow> k < 2 ^ 31 \<Longrightarrow> sint (word_of_int k :: u32) = k"
  by (simp add: signed_of_int signed_take_bit_int_eq_self)

lemma sint_sub: "- (2 ^ 31) \<le> sint (x :: u32) - sint y \<Longrightarrow> sint x - sint y < 2 ^ 31 \<Longrightarrow> sint (x - y) = sint x - sint y"
  using sint_word [of "sint x - sint y"] by simp

lemma sint_add_nat: "sint (x :: u32) + int n < 2 ^ 31 \<Longrightarrow> sint (x + of_nat n) = sint x + int n"
  using sint_word [of "sint x + int n"] sint_range(1) [of x] by simp

lemma sint_add_word: "unat (y :: u32) = n \<Longrightarrow> sint (x :: u32) + int n < 2 ^ 31 \<Longrightarrow> sint (x + y) = sint x + int n"
proof -
  assume a: "unat y = n" "sint x + int n < 2 ^ 31"
  have "y = of_nat (unat y)" by simp
  then have "y = of_nat n" by (simp only: a(1))
  then show "sint (x + y) = sint x + int n" using a(2) by (simp only: sint_add_nat)
qed

lemma unat_sint: "0 \<le> sint (x :: u32) \<Longrightarrow> int (unat x) = sint x"
proof -
  assume "0 \<le> sint x"
  then have "unat x < 2 ^ 31" using spos(2) [of x] by (simp add: word_sle_eq)
  then show ?thesis by (simp only: sint_small)
qed

lemma within_sint:
  "sint low \<le> sint high \<Longrightarrow> seq_within x low high \<longleftrightarrow> sint low \<le> sint x \<and> sint x \<le> sint high"
  by (simp add: seq_within_def word_sle_eq)

section \<open>The invariant\<close>

definition finished :: "tcp_state \<Rightarrow> bool" where
  "finished st \<longleftrightarrow> st \<in> {TCP_CLOSE_WAIT, TCP_LAST_ACK, TCP_CLOSING, TCP_TIME_WAIT}"

text \<open>What the user has taken and what waits for him.\<close>

definition arrived :: "tcb \<Rightarrow> byte list" where "arrived t = t_taken t @ content (t_rcvq t)"

definition rx_base :: "byte list \<Rightarrow> tcb \<Rightarrow> bool" where
  "rx_base S t \<longleftrightarrow> (t_clone t \<or> t_active t) \<and> arrived t = take (length (arrived t)) S \<and> length (arrived t) \<le> length S \<and>
     unat (t_rcvcnt t) = length (content (t_rcvq t)) \<and> unat (t_rwnd t) + unat (t_rcvcnt t) = unat (t_window t)"

definition rx_room :: "nat \<Rightarrow> byte list \<Rightarrow> u32 \<Rightarrow> tcb \<Rightarrow> bool" where
  "rx_room M S b t \<longleftrightarrow> length S \<le> M \<and> - (2 ^ 31) < sint b \<and> sint b + int M + int (unat (t_window t)) + 2 < 2 ^ 31 \<and>
     M + unat (t_window t) + 2 < 2 ^ 31"

text \<open>Segments that wait: honest, without SYN, their length counted right.\<close>

definition good_seg :: "byte list \<Rightarrow> bool \<Rightarrow> u32 \<Rightarrow> tcp \<Rightarrow> chain \<Rightarrow> u32 \<Rightarrow> bool" where
  "good_seg S c b seg bp dlen \<longleftrightarrow> honest S c b seg (content bp) \<and> unat dlen = length (content bp) \<and> unat dlen < 2 ^ 16"

definition rx_live :: "nat \<Rightarrow> byte list \<Rightarrow> bool \<Rightarrow> u32 \<Rightarrow> tcb \<Rightarrow> bool" where
  "rx_live M S c b t \<longleftrightarrow> rx_room M S b t \<and>
     (\<forall>r \<in> set (t_reseq t). good_seg S c b (rs_seg r) (rs_bp r) (rs_length r) \<and> \<not> f_syn (rs_seg r)) \<and>
     t_rnxt t = b + of_nat (length (arrived t) + (if finished (t_state t) then 1 else 0)) \<and>
     (finished (t_state t) \<longrightarrow> length (arrived t) = length S \<and> c) \<and>
     (t_state t = TCP_SYN_RECEIVED \<longrightarrow> arrived t = [])"

definition rx_inv :: "nat \<Rightarrow> byte list \<Rightarrow> bool \<Rightarrow> u32 \<Rightarrow> tcb \<Rightarrow> bool" where
  "rx_inv M S c b t \<longleftrightarrow> rx_base S t \<and> t_state t \<notin> {TCP_LISTEN, TCP_SYN_SENT} \<and> (t_state t \<noteq> TCP_CLOSED \<longrightarrow> rx_live M S c b t)"

section \<open>Trimming\<close>

text \<open>The place of the window: \<open>R\<close> is the distance of the next octet expected, \<open>w\<close> the octets of the window.\<close>

definition window_at :: "nat \<Rightarrow> nat \<Rightarrow> u32 \<Rightarrow> nat \<Rightarrow> nat \<Rightarrow> tcb \<Rightarrow> bool" where
  "window_at M W b R w t \<longleftrightarrow> R \<le> M + 1 \<and> t_rnxt t = b + of_nat R \<and> unat (t_rwnd t) = w \<and> w \<le> W \<and> unat (t_window t) = W \<and>
     - (2 ^ 31) < sint b \<and> sint b + int M + int W + 2 < 2 ^ 31 \<and> M + W + 2 < 2 ^ 31"

lemma window_sint:
  assumes "window_at M W b R w t"
  shows "sint (t_rnxt t) = sint b + int R" "sint (t_rnxt t + t_rwnd t) = sint b + int R + int w"
    "0 < w \<Longrightarrow> sint (t_rnxt t + t_rwnd t - 1) = sint b + int R + int w - 1"
    "sint (t_rnxt t + t_window t) = sint b + int R + int W"
proof -
  have k: "R \<le> M + 1" "t_rnxt t = b + of_nat R" "unat (t_rwnd t) = w" "w \<le> W" "unat (t_window t) = W"
     "- (2 ^ 31) < sint b" "sint b + int M + int W + 2 < 2 ^ 31"
    using assms by (simp_all add: window_at_def)
  show r: "sint (t_rnxt t) = sint b + int R" unfolding k(2) by (rule sint_add_nat) (use k in linarith)
  show e: "sint (t_rnxt t + t_rwnd t) = sint b + int R + int w"
    unfolding r [symmetric] by (rule sint_add_word [OF k(3)]) (use k r in linarith)
  show "sint (t_rnxt t + t_window t) = sint b + int R + int W"
    unfolding r [symmetric] by (rule sint_add_word [OF k(5)]) (use k r in linarith)
  show "sint (t_rnxt t + t_rwnd t - 1) = sint b + int R + int w - 1" if "0 < w"
    using that e k sint_sub [of "t_rnxt t + t_rwnd t" 1] by simp
qed

lemma in_window_sint:
  assumes "window_at M W b R w t" "0 < w"
  shows "in_window t x \<longleftrightarrow> sint b + int R \<le> sint x \<and> sint x < sint b + int R + int w"
proof -
  have "sint (t_rnxt t) \<le> sint (t_rnxt t + t_rwnd t - 1)"
    using window_sint(1) [OF assms(1)] window_sint(3) [OF assms] assms(2) by linarith
  then show ?thesis
    unfolding in_window_def using within_sint window_sint(1) [OF assms(1)] window_sint(3) [OF assms] by simp
qed

text \<open>Where an honest segment with data or flags lies: from \<open>q\<close> to before \<open>q + D\<close>.\<close>

lemma honest_place:
  assumes "honest S c b seg data" "\<not> (data = [] \<and> \<not> f_syn seg \<and> \<not> f_fin seg)" "unat dlen = length data" "unat dlen < 2 ^ 16"
    and "length S \<le> M" "- (2 ^ 31) < sint b" "sint b + int M + 2 < 2 ^ 31"
  shows "\<exists>off. sint (tcp_seq seg) = sint b + int off - (if f_syn seg then 1 else 0) \<and> tcp_seq seg + (if f_syn seg then 1 else 0) = b + of_nat off \<and>
     off + length data \<le> length S \<and> take (length data) (drop off S) = data \<and> (f_fin seg \<longrightarrow> c \<and> off + length data = length S) \<and>
     (f_syn seg \<longrightarrow> off = 0) \<and> unat (seg_len seg dlen) = length data + (if f_syn seg then 1 else 0) + (if f_fin seg then 1 else 0) \<and>
     sint (tcp_seq seg + seg_len seg dlen - 1) = sint b + int off + int (length data) + (if f_fin seg then 1 else 0) - 1"
proof -
  define sy :: nat where "sy = (if f_syn seg then 1 else 0)"
  define fi :: nat where "fi = (if f_fin seg then 1 else 0)"
  define q where "q = tcp_seq seg + of_nat sy"
  define off where "off = unat (q - b)"
  have w: "(if f_syn seg then 1 else 0 :: u32) = of_nat sy" "(if f_fin seg then 1 else 0 :: u32) = of_nat fi"
    by (simp_all add: sy_def fi_def)
  have h: "off + length data \<le> length S" "take (length data) (drop off S) = data" "f_fin seg \<longrightarrow> c \<and> off + length data = length S"
    "f_syn seg \<longrightarrow> off = 0"
    using assms(1,2) unfolding honest_def Let_def w off_def q_def by auto
  have qb: "q = b + of_nat off" by (simp add: off_def)
  have sq: "sint q = sint b + int off" unfolding qb by (rule sint_add_nat) (use h(1) assms(5,7) in linarith)
  have "tcp_seq seg = q - of_nat sy" by (simp add: q_def)
  moreover have "sint (of_nat sy :: u32) = int sy" by (simp add: sy_def)
  ultimately have ss: "sint (tcp_seq seg) = sint b + int off - int sy"
    using sint_sub [of q "of_nat sy"] sq assms(6) h(1) assms(5,7) by (simp add: sy_def)
  have sl: "seg_len seg dlen = dlen + of_nat (sy + fi)" by (simp add: seg_len_def w)
  have ul: "unat (seg_len seg dlen) = length data + sy + fi"
    unfolding sl using unat_add_small [of dlen "sy + fi"] assms(3,4) by (simp add: sy_def fi_def)
  have e: "tcp_seq seg + seg_len seg dlen = q + of_nat (length data + fi)"
    unfolding sl q_def using assms(3) by (simp flip: assms(3))
  have "sint (q + of_nat (length data + fi)) = sint q + int (length data + fi)"
    by (rule sint_add_nat) (use sq h(1) assms(5,7) in \<open>simp add: fi_def\<close>)
  then have "sint (tcp_seq seg + seg_len seg dlen) = sint b + int off + int (length data) + int fi" by (simp add: e sq)
  then have "sint (tcp_seq seg + seg_len seg dlen - 1) = sint b + int off + int (length data) + int fi - 1"
    using sint_sub [of "tcp_seq seg + seg_len seg dlen" 1] assms(6) h(1) assms(5,7) by (simp add: fi_def)
  then show ?thesis
    using ss qb h ul unfolding q_def w by (intro exI [of _ off]) (auto simp: sy_def fi_def)
qed

lemma sint_unat_eq: "sint (x :: u32) = int n \<Longrightarrow> unat x = n"
  using unat_sint [of x] by (metis of_nat_0_le_iff of_nat_eq_iff)

lemma small_sub: "unat (y :: u32) \<le> unat x \<Longrightarrow> unat (x - y) = unat x - unat y"
  by (simp add: unat_sub word_le_nat_alt)

lemma left_honest:
  assumes w: "window_at M W b R w t" and S: "length S \<le> M" "off + length data \<le> length S" "content bp = data" "unat dlen = length data"
    and q: "tcp_seq seg + (if f_syn seg then 1 else 0) = b + of_nat off" "f_syn seg \<longrightarrow> off = 0"
    and R: "R - off \<le> length data"
  shows "\<exists>t1 seg1 bp1 d1. trim_left t seg bp dlen = (t1, seg1, bp1, d1) \<and> t1 = t\<lparr>t_rerecv := t_rerecv t1\<rparr> \<and>
     tcp_seq seg1 = b + of_nat (max R off) \<and> \<not> f_syn seg1 \<and> f_fin seg1 = f_fin seg \<and>
     content bp1 = drop (max R off - off) data \<and> unat d1 = length data - (max R off - off)"
proof -
  have k: "R \<le> M + 1" "t_rnxt t = b + of_nat R" "- (2 ^ 31) < sint b" "sint b + int M + int W + 2 < 2 ^ 31" "M + W + 2 < 2 ^ 31"
    using w by (simp_all add: window_at_def)
  define q' where "q' = b + of_nat off"
  have sq: "sint q' = sint b + int off" unfolding q'_def by (rule sint_add_nat) (use k S in linarith)
  have sr: "sint (t_rnxt t) = sint b + int R" by (rule window_sint(1) [OF w])
  define d0 where "d0 = t_rnxt t - q'"
  have d0: "sint d0 = int R - int off" unfolding d0_def using sint_sub [of "t_rnxt t" q'] sq sr k S by simp
  have pos: "0 <s d0 \<longleftrightarrow> off < R" using d0 by (simp add: word_sless_alt)
  have ud: "off < R \<Longrightarrow> unat d0 = R - off" using d0 by (intro sint_unat_eq) simp
  have end0: "off < R \<Longrightarrow> q' + d0 = b + of_nat R" using k(2) by (simp add: d0_def)
  have ul: "off < R \<Longrightarrow> unat (dlen - d0) = length data - (R - off)"
    using ud R S(4) small_sub [of d0 dlen] by simp
  show ?thesis
  proof (cases "f_syn seg")
    case True
    then have o: "off = 0" "q' = tcp_seq seg + 1" using q by (simp_all add: q'_def)
    have e: "t_rnxt t - tcp_seq seg = d0 + 1" by (simp add: d0_def o(2))
    have "sint (d0 + 1) = int R + 1" using sint_add_nat [of d0 1] d0 o k by simp
    then have p: "0 <s d0 + 1" by (simp add: word_sless_alt)
    have m: "max R off = R" using o by simp
    show ?thesis
    proof (cases "0 < R")
      case True
      then have r: "0 <s d0" "unat d0 = R" "unat (dlen - d0) = length data - R" using pos ud ul o by auto
      have s: "tcp_seq seg + 1 + d0 = b + of_nat R" using end0 True o by simp
      have tl: "trim_left t seg bp dlen = (t\<lparr>t_rerecv := t_rerecv t + (d0 + 1)\<rparr>,
          seg\<lparr>f_syn := False, tcp_seq := tcp_seq seg + 1 + d0\<rparr>, snd (pullup bp R), dlen - d0)"
        using \<open>f_syn seg\<close> p r unfolding trim_left_def Let_def e by simp
      show ?thesis unfolding tl m using r s o S by (simp add: pullup_snd)
    next
      case False
      then have r: "\<not> 0 <s d0" "R = 0" using pos o by auto
      have tl: "trim_left t seg bp dlen = (t\<lparr>t_rerecv := t_rerecv t + (d0 + 1)\<rparr>,
          seg\<lparr>f_syn := False, tcp_seq := tcp_seq seg + 1\<rparr>, bp, dlen)"
        using \<open>f_syn seg\<close> p r unfolding trim_left_def Let_def e by simp
      show ?thesis unfolding tl m using r o S q \<open>f_syn seg\<close> by simp
    qed
  next
    case False
    then have o: "tcp_seq seg = q'" using q by (simp add: q'_def)
    show ?thesis
    proof (cases "off < R")
      case True
      then have tl: "trim_left t seg bp dlen = (t\<lparr>t_rerecv := t_rerecv t + d0\<rparr>,
          seg\<lparr>tcp_seq := q' + d0\<rparr>, snd (pullup bp (R - off)), dlen - d0)"
        using False pos ud unfolding trim_left_def Let_def o d0_def [symmetric] by (simp add: o)
      show ?thesis unfolding tl using True False end0 ul S by (simp add: pullup_snd max_def)
    next
      case nb: False
      then have tl: "trim_left t seg bp dlen = (t, seg, bp, dlen)"
        using pos unfolding trim_left_def Let_def o d0_def [symmetric] by simp
      show ?thesis unfolding tl using nb False S o by (simp add: max_def q'_def)
    qed
  qed
qed

lemma right_honest:
  assumes w: "window_at M W b R w t" and S: "length S \<le> M" "off + length data \<le> length S" "content bp = data" "unat dlen = length data"
    and q: "tcp_seq seg = b + of_nat off" "off \<le> R + w"
  shows "\<exists>t1 seg1 bp1 d1 k. trim_right t seg bp dlen = (t1, seg1, bp1, d1) \<and> t1 = t\<lparr>t_rerecv := t_rerecv t1\<rparr> \<and>
     seg1 = seg\<lparr>f_fin := f_fin seg1\<rparr> \<and> (f_fin seg1 \<longrightarrow> f_fin seg \<and> k = length data) \<and>
     k \<le> length data \<and> content bp1 = take k data \<and> unat d1 = k \<and> off + k \<le> R + w"
proof -
  have k: "R \<le> M + 1" "- (2 ^ 31) < sint b" "sint b + int M + int W + 2 < 2 ^ 31" "w \<le> W" "M + W + 2 < 2 ^ 31"
    using w by (simp_all add: window_at_def)
  have sq: "sint (tcp_seq seg) = sint b + int off" unfolding q(1) by (rule sint_add_nat) (use k S in linarith)
  have se: "sint (tcp_seq seg + dlen) = sint b + int off + int (length data)"
    unfolding sq [symmetric] by (rule sint_add_word [OF S(4)]) (use sq k S in linarith)
  define x where "x = tcp_seq seg + dlen - (t_rnxt t + t_rwnd t)"
  have x: "sint x = int off + int (length data) - int R - int w"
    unfolding x_def using sint_sub [of "tcp_seq seg + dlen" "t_rnxt t + t_rwnd t"] se window_sint(2) [OF w] k S by simp
  have "0 <s x \<longleftrightarrow> 0 < sint x" by (simp add: word_sless_alt)
  then have pos: "0 <s x \<longleftrightarrow> R + w < off + length data" unfolding x by linarith
  show ?thesis
  proof (cases "R + w < off + length data")
    case True
    have ux: "unat x = off + length data - R - w" using x True by (intro sint_unat_eq) simp
    then have d: "unat (dlen - x) = R + w - off" using small_sub [of x dlen] S(4) q(2) True by simp
    have tr: "trim_right t seg bp dlen = (t\<lparr>t_rerecv := t_rerecv t + x\<rparr>, seg\<lparr>f_fin := False\<rparr>, trim_mbuf bp (R + w - off), dlen - x)"
      using True pos d unfolding trim_right_def Let_def x_def [symmetric] by simp
    show ?thesis unfolding tr using True q(2) S d by (auto simp: trim_mbuf_content intro!: exI [of _ "R + w - off"])
  next
    case False
    then have tr: "trim_right t seg bp dlen = (t, seg, bp, dlen)"
      using pos unfolding trim_right_def Let_def x_def [symmetric] by simp
    show ?thesis unfolding tr using False S by (auto intro!: exI [of _ "length data"])
  qed
qed

text \<open>\<^verbatim>\<open>trim\<close> on a segment of an honest sender: what is left is honest, lies in the window, and begins with the next octet
  expected if the segment began there or before.\<close>

definition in_place :: "nat \<Rightarrow> nat \<Rightarrow> u32 \<Rightarrow> tcp \<Rightarrow> u32 \<Rightarrow> bool" where
  "in_place R w b seg dlen \<longleftrightarrow> \<not> f_syn seg \<and> (dlen = 0 \<and> \<not> f_fin seg \<or>
     (\<exists>off. tcp_seq seg = b + of_nat off \<and> R \<le> off \<and> off + unat dlen \<le> R + w))"

lemma trim_honest:
  assumes w: "window_at M W b R w t" and S: "length S \<le> M" and g: "good_seg S c b seg bp dlen"
    and tr: "trim t seg bp dlen = (ok, t', seg', bp', dlen')"
  shows "t' = t\<lparr>t_rerecv := t_rerecv t'\<rparr>"
    "ok \<Longrightarrow> good_seg S c b seg' bp' dlen' \<and> in_place R w b seg' dlen' \<and>
       (seq_ge (t_rnxt t) (tcp_seq seg) \<longrightarrow> dlen' = 0 \<and> \<not> f_fin seg' \<or> tcp_seq seg' = t_rnxt t)"
proof -
  have k: "R \<le> M + 1" "t_rnxt t = b + of_nat R" "unat (t_rwnd t) = w" "- (2 ^ 31) < sint b" "sint b + int M + int W + 2 < 2 ^ 31"
    "w \<le> W" "M + W + 2 < 2 ^ 31"
    using w by (simp_all add: window_at_def)
  define data where "data = content bp"
  have gd: "honest S c b seg data" "unat dlen = length data" "unat dlen < 2 ^ 16"
    using g by (simp_all add: good_seg_def data_def)
  let ?plain = "data = [] \<and> \<not> f_syn seg \<and> \<not> f_fin seg"
  have "t' = t\<lparr>t_rerecv := t_rerecv t'\<rparr> \<and> (ok \<longrightarrow> good_seg S c b seg' bp' dlen' \<and> in_place R w b seg' dlen' \<and>
       (seq_ge (t_rnxt t) (tcp_seq seg) \<longrightarrow> dlen' = 0 \<and> \<not> f_fin seg' \<or> tcp_seq seg' = t_rnxt t))"
  proof (cases ?plain)
    case True
    then have d0: "dlen = 0" "seg_len seg dlen = 0" using gd(2) by (simp_all add: seg_len_def unat_eq_0)
    show ?thesis
    proof (cases "w = 0")
      case True
      then have "t_rwnd t = 0" using k(3) by (simp add: unat_eq_0)
      then show ?thesis using tr \<open>?plain\<close> d0 g by (auto simp: trim_def in_place_def)
    next
      case False
      then have w0: "t_rwnd t \<noteq> 0" "0 < w" using k(3) by auto
      show ?thesis
      proof (cases "acceptable t seg 0")
        case False
        then show ?thesis using tr w0 d0 by (auto simp: trim_def)
      next
        case True
        then have "in_window t (tcp_seq seg)" by (simp add: acceptable_def)
        then have i: "sint b + int R \<le> sint (tcp_seq seg)" "sint (tcp_seq seg) < sint b + int R + int w"
          using in_window_sint [OF w w0(2)] by simp_all
        have l: "\<not> 0 <s t_rnxt t - tcp_seq seg"
          using sint_sub [of "t_rnxt t" "tcp_seq seg"] window_sint(1) [OF w] i k by (simp add: word_sless_alt)
        have r: "\<not> 0 <s tcp_seq seg - (t_rnxt t + t_rwnd t)"
          using sint_sub [of "tcp_seq seg" "t_rnxt t + t_rwnd t"] window_sint(2) [OF w] i k by (simp add: word_sless_alt)
        have "trim t seg bp dlen = (True, t, seg, bp, dlen)"
          using w0 d0 True l r by (simp add: trim_def trim_left_def trim_right_def Let_def)
        then show ?thesis using tr \<open>?plain\<close> d0 g by (auto simp: in_place_def)
      qed
    qed
  next
    case np: False
    obtain off where off: "sint (tcp_seq seg) = sint b + int off - (if f_syn seg then 1 else 0)"
        "tcp_seq seg + (if f_syn seg then 1 else 0) = b + of_nat off" "off + length data \<le> length S"
        "take (length data) (drop off S) = data" "f_fin seg \<longrightarrow> c \<and> off + length data = length S" "f_syn seg \<longrightarrow> off = 0"
        "unat (seg_len seg dlen) = length data + (if f_syn seg then 1 else 0) + (if f_fin seg then 1 else 0)"
        "sint (tcp_seq seg + seg_len seg dlen - 1) = sint b + int off + int (length data) + (if f_fin seg then 1 else 0) - 1"
      using honest_place [OF gd(1) np gd(2,3) S k(4)] k(5) by auto
    have sl: "seg_len seg dlen \<noteq> 0" using off(7) np by (auto simp: unat_eq_0 [symmetric])
    show ?thesis
    proof (cases "t_rwnd t \<noteq> 0 \<and> acceptable t seg (seg_len seg dlen)")
      case False
      then show ?thesis using tr sl by (auto simp: trim_def Let_def split: if_splits)
    next
      case True
      then have w0: "0 < w" "t_rwnd t \<noteq> 0" using k(3) by (auto simp: unat_gt_0 [symmetric])
      let ?last = "int off + int (length data) + (if f_fin seg then 1 else 0) - 1"
      let ?first = "int off - (if f_syn seg then 1 else 0)"
      have fl: "sint (tcp_seq seg) \<le> sint (tcp_seq seg + seg_len seg dlen - 1)" using off(1,8) np by auto
      have over: "?first < int R + int w" "int R \<le> ?last"
      proof -
        have "in_window t (tcp_seq seg) \<or> in_window t (tcp_seq seg + seg_len seg dlen - 1) \<or>
            seq_within (t_rnxt t) (tcp_seq seg) (tcp_seq seg + seg_len seg dlen - 1)"
          using True by (auto simp: acceptable_def)
        then have "sint (tcp_seq seg) < sint b + int R + int w \<and> sint b + int R \<le> sint (tcp_seq seg + seg_len seg dlen - 1)"
          unfolding in_window_sint [OF w w0(1)] within_sint [OF fl] window_sint(1) [OF w] using fl w0(1) by linarith
        then show "?first < int R + int w" "int R \<le> ?last" using off(1,8) by auto
      qed
      have R: "R - off \<le> length data" using over(2) by (auto split: if_splits)
      obtain t1 seg1 bp1 d1 where l: "trim_left t seg bp dlen = (t1, seg1, bp1, d1)" "t1 = t\<lparr>t_rerecv := t_rerecv t1\<rparr>"
          "tcp_seq seg1 = b + of_nat (max R off)" "\<not> f_syn seg1" "f_fin seg1 = f_fin seg"
          "content bp1 = drop (max R off - off) data" "unat d1 = length data - (max R off - off)"
        using left_honest [OF w S off(3) data_def [symmetric] gd(2) off(2,6) R] by blast
      have w1: "window_at M W b R w t1" using w by (subst l(2)) (simp add: window_at_def)
      have b1: "max R off + length (content bp1) \<le> length S" "unat d1 = length (content bp1)" "max R off \<le> R + w"
        using off(3) R l(6,7) over(1) off(6) by (auto split: if_splits)
      obtain t2 seg2 bp2 d2 j where r: "trim_right t1 seg1 bp1 d1 = (t2, seg2, bp2, d2)" "t2 = t1\<lparr>t_rerecv := t_rerecv t2\<rparr>"
          "seg2 = seg1\<lparr>f_fin := f_fin seg2\<rparr>" "f_fin seg2 \<longrightarrow> f_fin seg1 \<and> j = length (content bp1)"
          "j \<le> length (content bp1)" "content bp2 = take j (content bp1)" "unat d2 = j" "max R off + j \<le> R + w"
        using right_honest [OF w1 S b1(1) refl b1(2) l(3) b1(3)] by blast
      have res: "trim t seg bp dlen = (True, t2, seg2, bp2, d2)"
        using True by (simp add: trim_def Let_def l(1) r(1))
      then have out: "ok = True" "t' = t2" "seg' = seg2" "bp' = bp2" "dlen' = d2" using tr by simp_all
      have q2: "tcp_seq seg2 = b + of_nat (max R off)" "\<not> f_syn seg2" 
        using arg_cong [OF r(3), of tcp_seq] arg_cong [OF r(3), of f_syn] l(3,4) by simp_all
      have c2: "content bp2 = take j (drop (max R off) S)"
      proof -
        have "content bp1 = drop (max R off - off) (take (length data) (drop off S))" using l(6) off(4) by simp
        also have "\<dots> = take (length data - (max R off - off)) (drop (max R off) S)" by (simp add: drop_take)
        finally have e: "content bp1 = take (length data - (max R off - off)) (drop (max R off) S)" .
        have "j \<le> length data - (max R off - off)" using r(5) b1(2) l(7) by linarith
        then show ?thesis unfolding r(6) e take_take by (simp only: min_absorb1)
      qed
      have len2: "length (content bp2) = j" using r(5,6) by simp
      have "honest S c b seg2 (content bp2)"
      proof -
        have "unat (tcp_seq seg2 + (if f_syn seg2 then 1 else 0) - b) = max R off"
        proof -
          define m where "m = max R off"
          have "m < 4294967296" using b1(1) [folded m_def] S k(7) by simp
          then show ?thesis using q2 unfolding m_def [symmetric] by (simp add: unat_of_nat)
        qed
        moreover have "max R off + j \<le> length S" using b1(1) r(5) by simp
        moreover have "f_fin seg2 \<longrightarrow> c \<and> max R off + j = length S" using r(4) l(5,6) off(3,5) R by auto
        ultimately show ?thesis using q2(2) c2 len2 unfolding honest_def Let_def by simp
      qed
      then have "good_seg S c b seg2 bp2 d2"
        using r(5,7) len2 b1(2) l(7) gd(2,3) by (simp add: good_seg_def)
      moreover have "in_place R w b seg2 d2" using q2 r(7,8) unfolding in_place_def by (intro conjI disjI2 exI [of _ "max R off"]) simp_all
      moreover have "tcp_seq seg2 = t_rnxt t" if "seq_ge (t_rnxt t) (tcp_seq seg)"
      proof -
        have "sint (t_rnxt t - tcp_seq seg) = int R - int off + (if f_syn seg then 1 else 0)"
          using sint_sub [of "t_rnxt t" "tcp_seq seg"] window_sint(1) [OF w] off(1,3) S k by auto
        then have "int off \<le> int R + (if f_syn seg then 1 else 0)" using that by (simp add: seq_ge_def word_sle_eq)
        then have "off \<le> R" using off(6) by (auto split: if_splits)
        then show ?thesis using q2(1) k(2) by (simp add: max_def)
      qed
      moreover have "t2 = t\<lparr>t_rerecv := t_rerecv t2\<rparr>"
      proof -
        obtain x where x: "t1 = t\<lparr>t_rerecv := x\<rparr>" using l(2) by blast
        obtain y where y: "t2 = t1\<lparr>t_rerecv := y\<rparr>" using r(2) by blast
        show ?thesis by (simp add: x y)
      qed
      ultimately show ?thesis unfolding out by blast
    qed
  qed
  then show "t' = t\<lparr>t_rerecv := t_rerecv t'\<rparr>"
    "ok \<Longrightarrow> good_seg S c b seg' bp' dlen' \<and> in_place R w b seg' dlen' \<and>
       (seq_ge (t_rnxt t) (tcp_seq seg) \<longrightarrow> dlen' = 0 \<and> \<not> f_fin seg' \<or> tcp_seq seg' = t_rnxt t)"
    by blast+
qed

section \<open>What leaves the receiver alone\<close>

definition rxv :: "tcb \<Rightarrow> _" where
  "rxv t = (t_state t, t_clone t, t_active t, t_taken t, t_rcvq t, t_rcvcnt t, t_rwnd t, t_window t, t_rnxt t, t_reseq t)"

lemma rx_cong: "rxv t = rxv t' \<Longrightarrow> rx_inv M S c b t = rx_inv M S c b t'"
  by (simp add: rxv_def rx_inv_def rx_base_def rx_live_def rx_room_def arrived_def)

lemma rxv_emit [simp]: "rxv (out_emit env ssize t) = rxv t"
  by (simp add: out_emit_def out_timers_def Let_def rxv_def)

lemma rxv_loop [simp]: "rxv (tcp_out_loop n env t) = rxv t"
  by (induction n arbitrary: t) (simp_all add: Let_def)

lemma rxv_output [simp]: "rxv (tcp_output env t) = rxv t"
  by (simp add: tcp_output_def del: tcp_out_loop.simps)

lemma rxv_fields [simp]:
  "rxv (t\<lparr>t_ptr := a\<rparr>) = rxv t" "rxv (t\<lparr>t_cwind := w\<rparr>) = rxv t" "rxv (t\<lparr>t_force := f\<rparr>) = rxv t" "rxv (t\<lparr>t_dupacks := d\<rparr>) = rxv t"
  "rxv (t\<lparr>t_timer := x\<rparr>) = rxv t" "rxv (t\<lparr>t_congest := f\<rparr>) = rxv t" "rxv (t\<lparr>t_ts_recent := w\<rparr>) = rxv t"
  "rxv (cut_ssthresh t) = rxv t" "rxv (clamp_cwind t) = rxv t" "rxv (ack_queue seg t) = rxv t" "rxv (reset ip seg t) = rxv t"
  by (simp_all add: rxv_def cut_ssthresh_def clamp_cwind_def ack_queue_def reset_def)

lemma rxv_resend [simp]: "rxv (resend_oldest env t) = rxv t"
proof -
  have "rxv (t\<lparr>t_ptr := a, t_cwind := c\<rparr>) = rxv t" for a c by (simp add: rxv_def)
  then show ?thesis by (simp add: resend_oldest_def Let_def)
qed

lemma rxv_window [simp]: "rxv (snd (upd_window seg t)) = rxv t"
  by (simp add: upd_window_def Let_def rxv_def)

lemma rxv_dup [simp]: "rxv (upd_dup env seg dlen wu t) = rxv t"
  unfolding upd_dup_def Let_def by simp

lemma rxv_cwind [simp]: "rxv (upd_cwind a t) = rxv t"
  unfolding upd_cwind_def Let_def by (simp add: rxv_def clamp_cwind_def)

lemma rxv_rtt [simp]: "rxv (upd_rtt env seg t) = rxv t"
  by (simp add: upd_rtt_def Let_def rxv_def split: prod.split)

text \<open>An acknowledgement leaves it alone but for the upcall.\<close>

lemma update_rxv:
  "rxv (update env seg dlen t) = rxv t \<or>
     t_state t \<in> {TCP_ESTABLISHED, TCP_CLOSE_WAIT} \<and> (\<exists>k s. rxv s = rxv t \<and> update env seg dlen t = te_t_up env k s)"
proof -
  define w where "w = snd (upd_window seg t)"
  have w: "rxv w = rxv t" by (simp add: w_def)
  define k where "k = upd_rtt env seg (upd_cwind (tcp_ack seg - t_una w) w)"
  have k: "rxv k = rxv t" by (simp add: k_def w)
  then have st: "t_state (ack_queue seg k) = t_state t" by (simp add: rxv_def ack_queue_def)
  have q: "rxv (upd_queue env seg k) = rxv t \<or> t_state t \<in> {TCP_ESTABLISHED, TCP_CLOSE_WAIT} \<and>
      (\<exists>n s. rxv s = rxv t \<and> upd_queue env seg k = te_t_up env n s)"
  proof (cases "acked_data seg k \<noteq> 0 \<and> t_state t \<in> {TCP_ESTABLISHED, TCP_CLOSE_WAIT} \<and> t_sndcnt (ack_queue seg k) <s t_window (ack_queue seg k)")
    case True
    then have "upd_queue env seg k = te_t_up env (t_window (ack_queue seg k) - t_sndcnt (ack_queue seg k)) (ack_queue seg k)"
      unfolding upd_queue_def Let_def st by simp
    moreover have "rxv (ack_queue seg k) = rxv t" using k by simp
    ultimately show ?thesis using True by blast
  next
    case False
    then have "upd_queue env seg k = ack_queue seg k" unfolding upd_queue_def Let_def st by auto
    then show ?thesis using k by simp
  qed
  have e: "update env seg dlen t =
     (if seq_gt (tcp_ack seg) (t_nxt t) then t\<lparr>t_force := True\<rparr>
      else if seq_lt (tcp_ack seg) (t_una w) then w
      else if tcp_ack seg = t_una w then upd_dup env seg dlen (fst (upd_window seg t)) w
      else upd_queue env seg k)"
    by (simp add: update_def w_def k_def split: prod.split)
  show ?thesis unfolding e using q w by simp
qed

lemma trim_rxv: "trim t seg bp dlen = (ok, t', seg', bp', dlen') \<Longrightarrow> rxv t' = rxv t"
  by (auto simp: trim_def trim_left_def trim_right_def Let_def rxv_def split: if_splits prod.splits)

section \<open>What the user cannot change\<close>

text \<open>The next octet expected and, downwards, the window; a block that is established does not go back.\<close>

definition steady :: "byte list \<Rightarrow> u32 \<Rightarrow> nat \<Rightarrow> tcb \<Rightarrow> bool" where
  "steady S k w t \<longleftrightarrow> rx_base S t \<and> t_rnxt t = k \<and> w \<le> unat (t_rwnd t) \<and> t_state t \<notin> {TCP_LISTEN, TCP_SYN_SENT, TCP_SYN_RECEIVED}"

lemma steady_cong: "rxv t = rxv t' \<Longrightarrow> steady S k w t = steady S k w t'"
  by (simp add: rxv_def steady_def rx_base_def arrived_def)

text \<open>Taking data.\<close>

lemma recv_view:
  assumes "rx_base S t" "0 \<le>s n"
  shows "\<exists>m q. rxv (snd (recv_tcp env n t)) = rxv (t\<lparr>t_rcvq := q, t_taken := t_taken t @ take m (content (t_rcvq t)),
      t_rcvcnt := t_rcvcnt t - of_nat m, t_rwnd := t_rwnd t + of_nat m\<rparr>) \<and>
     content q = drop m (content (t_rcvq t)) \<and> m \<le> length (content (t_rcvq t))"
proof (cases "t_rcvcnt t = 0")
  case True
  then have "content (t_rcvq t) = []" using assms by (simp add: rx_base_def)
  then show ?thesis using True by (intro exI [of _ 0] exI [of _ "t_rcvq t"]) (simp add: recv_tcp_def rxv_def)
next
  case False
  define n' where "n' = (if n = 0 then t_rcvcnt t else n)"
  define all where "all = (t_rcvcnt t \<le>s n')"
  define cnt where "cnt = (if all then t_rcvcnt t else n')"
  define q where "q = (if all then [] else snd (pullup (t_rcvq t) (unat cnt)))"
  define m where "m = unat cnt"
  have rc: "unat (t_rcvcnt t) = length (content (t_rcvq t))" using assms(1) by (simp add: rx_base_def)
  have le: "m \<le> length (content (t_rcvq t))"
  proof (cases all)
    case True
    then show ?thesis using rc by (simp add: m_def cnt_def)
  next
    case nall: False
    then have n: "n' = n" by (auto simp: all_def n'_def word_sle_eq)
    have "sint n < sint (t_rcvcnt t)" using nall n by (simp add: all_def word_sle_eq)
    moreover have "0 \<le> sint n" using assms(2) by (simp add: word_sle_eq)
    ultimately have "int (unat n) < int (unat (t_rcvcnt t))" using unat_sint [of n] unat_sint [of "t_rcvcnt t"] by linarith
    then have "unat n < unat (t_rcvcnt t)" by (simp only: of_nat_less_iff)
    then show ?thesis using nall n rc by (simp add: m_def cnt_def)
  qed
  have got: "(if all then content (t_rcvq t) else fst (pullup (t_rcvq t) (unat cnt))) = take m (content (t_rcvq t))"
    using rc by (simp add: m_def cnt_def pullup_fst)
  have cq: "content q = drop m (content (t_rcvq t))" using rc by (simp add: q_def m_def cnt_def pullup_snd)
  have cm: "of_nat m = cnt" by (simp add: m_def)
  define s where "s = t\<lparr>t_rcvq := q, t_taken := t_taken t @ take m (content (t_rcvq t)), t_rcvcnt := t_rcvcnt t - cnt, t_rwnd := t_rwnd t + cnt\<rparr>"
  have e: "snd (recv_tcp env n t) = (if t_mss s <s t_rwnd s \<and> t_rwnd s - cnt <s t_mss s then tcp_output env (s\<lparr>t_force := True\<rparr>) else s)"
    using False unfolding recv_tcp_def Let_def n'_def [symmetric] all_def [symmetric] cnt_def [symmetric] q_def [symmetric] got s_def [symmetric]
    by simp
  have "rxv (snd (recv_tcp env n t)) = rxv s" unfolding e by simp
  then show ?thesis using cq le unfolding cm [symmetric] s_def by blast
qed

lemma recv_base:
  assumes "rx_base S t" "0 \<le>s n"
  shows "\<exists>m \<le> length (content (t_rcvq t)). rx_base S (snd (recv_tcp env n t)) \<and> arrived (snd (recv_tcp env n t)) = arrived t \<and>
     unat (t_rwnd (snd (recv_tcp env n t))) = unat (t_rwnd t) + m \<and> t_rnxt (snd (recv_tcp env n t)) = t_rnxt t \<and>
     t_state (snd (recv_tcp env n t)) = t_state t \<and> t_window (snd (recv_tcp env n t)) = t_window t \<and>
     t_reseq (snd (recv_tcp env n t)) = t_reseq t"
proof -
  define u where "u = snd (recv_tcp env n t)"
  obtain m q where v: "rxv u = rxv (t\<lparr>t_rcvq := q, t_taken := t_taken t @ take m (content (t_rcvq t)),
      t_rcvcnt := t_rcvcnt t - of_nat m, t_rwnd := t_rwnd t + of_nat m\<rparr>)"
     "content q = drop m (content (t_rcvq t))" "m \<le> length (content (t_rcvq t))"
    using recv_view [OF assms, of env] by (auto simp: u_def)
  note f = v(1) [unfolded rxv_def, simplified]
  have k: "unat (t_rcvcnt t) = length (content (t_rcvq t))" "unat (t_rwnd t) + unat (t_rcvcnt t) = unat (t_window t)"
    using assms(1) by (simp_all add: rx_base_def)
  have a: "arrived u = arrived t" using f v(2) by (simp add: arrived_def)
  have lt: "unat (t_rcvcnt t) < 2 ^ 32" "unat (t_window t) < 2 ^ 32"
    using unsigned_less [of "t_rcvcnt t"] unsigned_less [of "t_window t"] by simp_all
  have um: "unat (of_nat m :: u32) = m" using k(1) v(3) lt(1) by (simp add: unat_of_nat)
  have c: "unat (t_rcvcnt u) = unat (t_rcvcnt t) - m" using f small_sub [of "of_nat m" "t_rcvcnt t"] um k(1) v(3) by simp
  have w: "unat (t_rwnd u) = unat (t_rwnd t) + m"
    using f unat_add_small [of "t_rwnd t" m] k v(3) lt(2) by simp
  have "rx_base S u" using assms(1) a c w f v(2,3) k unfolding rx_base_def by auto
  then show ?thesis using a w f v(3) unfolding u_def by blast
qed

lemma steady_set:
  assumes "steady S k w t" "ups_keep (steady S k w) env" "new \<notin> {TCP_LISTEN, TCP_SYN_SENT, TCP_SYN_RECEIVED}"
  shows "steady S k w (settcpstate env new t)"
  by (rule settcpstate_keeps [OF assms(2)]) (use assms(1,3) in \<open>simp add: steady_def rx_base_def arrived_def\<close>)

lemma steady_close:
  assumes "steady S k w t" "ups_keep (steady S k w) env"
  shows "steady S k w (close_self env r t)"
  unfolding close_self_def
  by (rule steady_set [OF _ assms(2)]) (use assms(1) in \<open>simp_all add: steady_def rx_base_def arrived_def\<close>)

lemma steady_timeout:
  assumes "steady S k w t" "ups_keep (steady S k w) env"
  shows "steady S k w (tcp_timeout env t)"
proof -
  define s where "s = t\<lparr>t_timer := stop_tm (t_timer t)\<rparr>"
  define r where "r = s\<lparr>t_timeouts := t_timeouts s + 1, t_retran := True, t_backoff := t_backoff s + 1\<rparr>"
  have "rxv s = rxv t" "rxv r = rxv t" by (simp_all add: s_def r_def rxv_def)
  then have i: "steady S k w s" "steady S k w r" using assms(1) steady_cong by blast+
  have "rxv (resend_oldest env (cut_ssthresh r)) = rxv r" by simp
  then have "steady S k w (resend_oldest env (cut_ssthresh r))" using i(2) steady_cong by blast
  then show ?thesis
    using steady_close [OF i(1) assms(2)] steady_close [OF i(2) assms(2)]
    unfolding tcp_timeout_def Let_def s_def [symmetric] r_def [symmetric] by simp
qed

lemma send_rxv:
  assumes "t_state t \<notin> {TCP_LISTEN}"
  shows "rxv (snd (send_tcp env bp t)) = rxv t"
proof -
  have "rxv (t\<lparr>t_sndq := a, t_sndcnt := d, t_given := g\<rparr>) = rxv t" for a d g by (simp add: rxv_def)
  then show ?thesis using assms by (cases "t_state t") (simp_all add: send_tcp_def Let_def)
qed

interpretation sd: user_law M "steady S k w" for M S k w
proof
  fix env t bp n
  assume e: "user_env M env" "ups_keep (steady S k w) env" and i: "steady S k w t"
  have st: "t_state t \<notin> {TCP_LISTEN, TCP_SYN_SENT, TCP_SYN_RECEIVED}" using i by (simp add: steady_def)
  show "steady S k w (snd (send_tcp env bp t))"
    using i st steady_cong [OF send_rxv [of t env bp]] by simp
  show "0 \<le>s n \<Longrightarrow> steady S k w (snd (recv_tcp env n t))"
    using recv_base [of S t n env] i by (auto simp: steady_def)
  show "steady S k w (snd (close_tcp env t))"
  proof -
    have f: "steady S k w (close_fin env new t)" if "new \<notin> {TCP_LISTEN, TCP_SYN_SENT, TCP_SYN_RECEIVED}" for new
    proof -
      have "steady S k w (settcpstate env new (t\<lparr>t_sndcnt := t_sndcnt t + 1, t_nxt := t_nxt t + 1\<rparr>))"
        by (rule steady_set [OF _ e(2) that]) (use i in \<open>simp add: steady_def rx_base_def arrived_def\<close>)
      then show ?thesis unfolding close_fin_def using steady_cong [OF rxv_output] by blast
    qed
    show ?thesis using i st f by (cases "t_state t") (simp_all add: close_tcp_def)
  qed
  show "steady S k w (kick_tcp env t)"
    unfolding kick_tcp_def by (rule steady_timeout [OF _ e(2)]) (use i in \<open>simp add: steady_def rx_base_def arrived_def\<close>)
  show "steady S k w (reset_tcp env t)"
    unfolding reset_tcp_def Let_def
    by (rule steady_close [OF _ e(2)]) (use i in \<open>simp add: steady_def rx_base_def arrived_def\<close>)
qed

section \<open>The handlers keep the invariant\<close>

lemma rx_state:
  assumes "rx_inv M S c b t" "t_state t \<noteq> TCP_CLOSED" "finished new = finished (t_state t)"
    "new \<notin> {TCP_LISTEN, TCP_SYN_SENT, TCP_SYN_RECEIVED, TCP_CLOSED}"
  shows "rx_inv M S c b (t\<lparr>t_state := new\<rparr>)"
  using assms by (auto simp: rx_inv_def rx_base_def rx_live_def rx_room_def arrived_def)

lemma rx_closed: "rx_inv M S c b t \<Longrightarrow> rx_inv M S c b (t\<lparr>t_reseq := rs, t_state := TCP_CLOSED\<rparr>)"
  by (auto simp: rx_inv_def rx_base_def arrived_def)

lemma rx_set:
  assumes "rx_inv M S c b t" "ups_keep (rx_inv M S c b) env" "t_state t \<noteq> TCP_CLOSED" "finished new = finished (t_state t)"
    "new \<notin> {TCP_LISTEN, TCP_SYN_SENT, TCP_SYN_RECEIVED, TCP_CLOSED}"
  shows "rx_inv M S c b (settcpstate env new t)"
  using settcpstate_keeps [OF assms(2) rx_state [OF assms(1,3,4,5)]] .

lemma rx_close:
  assumes "rx_inv M S c b t" "ups_keep (rx_inv M S c b) env"
  shows "rx_inv M S c b (close_self env r t)"
  unfolding close_self_def
proof (rule settcpstate_keeps [OF assms(2)])
  let ?s = "t\<lparr>t_timer := stop_tm (t_timer t), t_reason := r\<rparr>"
  have "rxv ?s = rxv t" by (simp add: rxv_def)
  then have "rx_inv M S c b ?s" using assms(1) rx_cong by blast
  then show "rx_inv M S c b (t\<lparr>t_timer := stop_tm (t_timer t), t_reason := r, t_reseq := []\<rparr>\<lparr>t_state := TCP_CLOSED\<rparr>)"
    using rx_closed [of M S c b ?s "[]"] by simp
qed

lemma rx_timeout:
  assumes "rx_inv M S c b t" "ups_keep (rx_inv M S c b) env"
  shows "rx_inv M S c b (tcp_timeout env t)"
proof -
  define s where "s = t\<lparr>t_timer := stop_tm (t_timer t)\<rparr>"
  define r where "r = s\<lparr>t_timeouts := t_timeouts s + 1, t_retran := True, t_backoff := t_backoff s + 1\<rparr>"
  have "rxv s = rxv t" "rxv r = rxv t" by (simp_all add: s_def r_def rxv_def)
  then have i: "rx_inv M S c b s" "rx_inv M S c b r" using assms(1) rx_cong by blast+
  have "rxv (resend_oldest env (cut_ssthresh r)) = rxv r" by simp
  then have "rx_inv M S c b (resend_oldest env (cut_ssthresh r))" using i(2) rx_cong by blast
  then show ?thesis
    using rx_close [OF i(1) assms(2)] rx_close [OF i(2) assms(2)]
    unfolding tcp_timeout_def Let_def s_def [symmetric] r_def [symmetric] by simp
qed

lemma rx_close_tcp:
  assumes "rx_inv M S c b t" "ups_keep (rx_inv M S c b) env"
  shows "rx_inv M S c b (snd (close_tcp env t))"
proof -
  have st: "t_state t \<notin> {TCP_LISTEN, TCP_SYN_SENT}" using assms(1) by (simp add: rx_inv_def)
  have f: "rx_inv M S c b (close_fin env new t)"
    if "t_state t \<noteq> TCP_CLOSED" "finished new = finished (t_state t)" "new \<notin> {TCP_LISTEN, TCP_SYN_SENT, TCP_SYN_RECEIVED, TCP_CLOSED}" for new
  proof -
    let ?f = "t\<lparr>t_sndcnt := t_sndcnt t + 1, t_nxt := t_nxt t + 1\<rparr>"
    have "rxv ?f = rxv t" by (simp add: rxv_def)
    then have "rx_inv M S c b ?f" using assms(1) rx_cong by blast
    then have "rx_inv M S c b (settcpstate env new ?f)" by (rule rx_set [OF _ assms(2)]) (use that in simp_all)
    then show ?thesis unfolding close_fin_def using rx_cong [OF rxv_output] by blast
  qed
  show ?thesis using assms(1) st f by (cases "t_state t") (simp_all add: close_tcp_def finished_def)
qed

lemma rx_recv:
  assumes "rx_inv M S c b t" "0 \<le>s n"
  shows "rx_inv M S c b (snd (recv_tcp env n t))"
proof -
  have "rx_base S t" using assms(1) by (simp add: rx_inv_def)
  from recv_base [OF this assms(2), of env] show ?thesis
    using assms(1) by (auto simp: rx_inv_def rx_live_def rx_room_def)
qed

interpretation rxu: user_law M "rx_inv N S c b" for M N S c b
proof
  fix env t bp n
  assume e: "user_env M env" "ups_keep (rx_inv N S c b) env" and i: "rx_inv N S c b t"
  have st: "t_state t \<notin> {TCP_LISTEN, TCP_SYN_SENT}" using i by (simp add: rx_inv_def)
  show "rx_inv N S c b (snd (send_tcp env bp t))" using i st rx_cong [OF send_rxv [of t env bp]] by simp
  show "0 \<le>s n \<Longrightarrow> rx_inv N S c b (snd (recv_tcp env n t))" using i by (rule rx_recv)
  show "rx_inv N S c b (snd (close_tcp env t))" by (rule rx_close_tcp [OF i e(2)])
  show "rx_inv N S c b (kick_tcp env t)"
    unfolding kick_tcp_def
    by (rule rx_timeout [OF _ e(2)]) (use i rx_cong [of "t\<lparr>t_force := True, t_backoff := 0\<rparr>" t] in \<open>simp add: rxv_def\<close>)
  define s where "s = (if t_state t \<noteq> TCP_LISTEN
      then t\<lparr>t_out := t_out t @ [(c_laddr (t_conn t), c_raddr (t_conn t), reset_seg (tcp_zero\<lparr>tcp_dest := c_lport (t_conn t),
        tcp_source := c_rport (t_conn t), f_ack := True, tcp_ack := t_nxt t + t_swnd t - 1\<rparr>), [])]\<rparr> else t)"
  have "rxv s = rxv t" by (simp add: s_def rxv_def)
  then have "rx_inv N S c b s" using i rx_cong by blast
  then have "rx_inv N S c b (close_self env RESET s)" by (rule rx_close [OF _ e(2)])
  then show "rx_inv N S c b (reset_tcp env t)" unfolding reset_tcp_def Let_def s_def .
qed

lemma rx_steady: "rx_inv M S c b t \<Longrightarrow> t_state t \<noteq> TCP_SYN_RECEIVED \<Longrightarrow> steady S (t_rnxt t) (unat (t_rwnd t)) t"
  by (simp add: rx_inv_def steady_def)

lemma rx_update:
  assumes "rx_inv M S c b t" "ups_keep (rx_inv M S c b) env" "\<And>k w. ups_keep (steady S k w) env"
  shows "rx_inv M S c b (update env seg dlen t)"
    "t_state t \<noteq> TCP_SYN_RECEIVED \<Longrightarrow> steady S (t_rnxt t) (unat (t_rwnd t)) (update env seg dlen t)"
    "t_state t \<notin> {TCP_ESTABLISHED, TCP_CLOSE_WAIT} \<Longrightarrow> rxv (update env seg dlen t) = rxv t"
proof -
  note u = update_rxv [of env seg dlen t]
  have s: "rx_inv M S c b s" "t_state t \<noteq> TCP_SYN_RECEIVED \<Longrightarrow> steady S (t_rnxt t) (unat (t_rwnd t)) s" if "rxv s = rxv t" for s
    using rx_cong [OF that] steady_cong [OF that] assms(1) rx_steady [OF assms(1)] by simp_all
  show "rx_inv M S c b (update env seg dlen t)" 
    using u s(1) ups_keepD(2) [where I = "rx_inv M S c b", OF assms(2)] by metis
  show "steady S (t_rnxt t) (unat (t_rwnd t)) (update env seg dlen t)" if "t_state t \<noteq> TCP_SYN_RECEIVED"
    using u s(2) [OF _ that] ups_keepD(2) [where I = "steady S (t_rnxt t) (unat (t_rwnd t))", OF assms(3)] by metis
  show "t_state t \<notin> {TCP_ESTABLISHED, TCP_CLOSE_WAIT} \<Longrightarrow> rxv (update env seg dlen t) = rxv t" using u by auto
qed

lemma rx_time_wait:
  assumes "rx_inv M S c b t" "ups_keep (rx_inv M S c b) env" "t_state t \<noteq> TCP_CLOSED" "finished (t_state t)"
  shows "rx_inv M S c b (time_wait env t)"
  unfolding time_wait_def Let_def
  using rx_set [OF assms(1-3), of TCP_TIME_WAIT] assms(4) rx_cong [OF rxv_fields(5)] by (simp add: finished_def)

lemma steady_time_wait:
  assumes "steady S k w t" "ups_keep (steady S k w) env"
  shows "steady S k w (time_wait env t)"
  unfolding time_wait_def Let_def
  using steady_set [OF assms, of TCP_TIME_WAIT] steady_cong [OF rxv_fields(5)] by simp

lemma rx_ack_rx:
  assumes "rx_inv M S c b t" "ups_keep (rx_inv M S c b) env" "\<And>k w. ups_keep (steady S k w) env"
  shows "rx_inv M S c b (snd (rx_ack env ip seg dlen t)) \<and>
     (fst (rx_ack env ip seg dlen t) \<longrightarrow> steady S (t_rnxt t) (unat (t_rwnd t)) (snd (rx_ack env ip seg dlen t)))"
proof -
  define u where "u = update env seg dlen t"
  note up = rx_update [OF assms, of seg dlen, folded u_def]
  have ust: "t_state t \<notin> {TCP_ESTABLISHED, TCP_CLOSE_WAIT} \<Longrightarrow> t_state u = t_state t \<and> t_rnxt u = t_rnxt t \<and> t_rwnd u = t_rwnd t"
    using up(3) by (simp add: rxv_def)
  have r: "rx_inv M S c b (reset ip seg t)" using assms(1) rx_cong [OF rxv_fields(11)] by blast
  show ?thesis
  proof (cases "t_state t")
    case TCP_SYN_RECEIVED
    have i: "rx_inv M S c b (settcpstate env TCP_ESTABLISHED u)"
      by (rule rx_set [OF up(1) assms(2)]) (use ust TCP_SYN_RECEIVED in \<open>simp_all add: finished_def\<close>)
    have "steady S (t_rnxt t) (unat (t_rwnd t)) (u\<lparr>t_state := TCP_ESTABLISHED\<rparr>)"
      using up(1) ust TCP_SYN_RECEIVED by (simp add: steady_def rx_inv_def rx_base_def arrived_def)
    then have "steady S (t_rnxt t) (unat (t_rwnd t)) (settcpstate env TCP_ESTABLISHED u)"
      by (rule settcpstate_keeps [OF assms(3)])
    then show ?thesis using i r TCP_SYN_RECEIVED by (simp add: rx_ack_def u_def [symmetric])
  next
    case TCP_FINWAIT1
    have "rx_inv M S c b (settcpstate env TCP_FINWAIT2 u)" "steady S (t_rnxt t) (unat (t_rwnd t)) (settcpstate env TCP_FINWAIT2 u)"
      by (rule rx_set [OF up(1) assms(2)], use ust TCP_FINWAIT1 in \<open>simp_all add: finished_def\<close>)
        (rule steady_set [OF up(2) assms(3)], use TCP_FINWAIT1 in simp_all)
    then show ?thesis using up(1,2) TCP_FINWAIT1 by (simp add: rx_ack_def u_def [symmetric] Let_def)
  next
    case TCP_CLOSING
    have "rx_inv M S c b (time_wait env u)" "steady S (t_rnxt t) (unat (t_rwnd t)) (time_wait env u)"
      by (rule rx_time_wait [OF up(1) assms(2)], use ust TCP_CLOSING in \<open>simp_all add: finished_def\<close>)
        (rule steady_time_wait [OF up(2) assms(3)], use TCP_CLOSING in simp)
    then show ?thesis using up(1,2) TCP_CLOSING by (simp add: rx_ack_def u_def [symmetric] Let_def)
  next
    case TCP_LAST_ACK
    then show ?thesis using up(1,2) rx_close [OF up(1) assms(2)] by (simp add: rx_ack_def u_def [symmetric] Let_def)
  next
    case TCP_TIME_WAIT
    then show ?thesis
      using assms(1) rx_steady [OF assms(1)] rx_cong [OF rxv_fields(5)] steady_cong [OF rxv_fields(5)] by (simp add: rx_ack_def)
  next
    case TCP_CLOSED
    then show ?thesis using assms(1) rx_steady [OF assms(1)] by (simp add: rx_ack_def)
  next
    case TCP_LISTEN
    then show ?thesis using assms(1) by (simp add: rx_inv_def)
  next
    case TCP_SYN_SENT
    then show ?thesis using assms(1) by (simp add: rx_inv_def)
  qed (use up(1,2) in \<open>simp_all add: rx_ack_def u_def [symmetric]\<close>)
qed

text \<open>A segment that continues the stream.\<close>

definition next_seg :: "byte list \<Rightarrow> bool \<Rightarrow> u32 \<Rightarrow> u32 \<Rightarrow> nat \<Rightarrow> tcp \<Rightarrow> chain \<Rightarrow> u32 \<Rightarrow> bool" where
  "next_seg S c b k w seg bp dlen \<longleftrightarrow> good_seg S c b seg bp dlen \<and> \<not> f_syn seg \<and>
     (dlen = 0 \<and> \<not> f_fin seg \<or> tcp_seq seg = k \<and> unat dlen \<le> w)"

lemma next_segD:
  assumes "next_seg S c b k w seg bp dlen" "\<not> (dlen = 0 \<and> \<not> f_fin seg)"
  shows "unat (k - b) + unat dlen \<le> length S" "content bp = take (unat dlen) (drop (unat (k - b)) S)" "unat dlen \<le> w"
    "f_fin seg \<Longrightarrow> c \<and> unat (k - b) + unat dlen = length S" "unat dlen = length (content bp)"
proof -
  have k: "tcp_seq seg = k" "\<not> f_syn seg" "unat dlen = length (content bp)" "honest S c b seg (content bp)" "unat dlen \<le> w"
    using assms by (auto simp: next_seg_def good_seg_def)
  moreover have "content bp \<noteq> [] \<or> f_fin seg" using assms(2) k(3) by (auto simp: unat_eq_0)
  ultimately show "unat (k - b) + unat dlen \<le> length S" "content bp = take (unat dlen) (drop (unat (k - b)) S)" "unat dlen \<le> w"
    "f_fin seg \<Longrightarrow> c \<and> unat (k - b) + unat dlen = length S" "unat dlen = length (content bp)"
    by (auto simp: honest_def Let_def)
qed

definition takes_text :: "tcp_state \<Rightarrow> bool" where
  "takes_text st \<longleftrightarrow> st \<in> {TCP_SYN_RECEIVED, TCP_ESTABLISHED, TCP_FINWAIT1, TCP_FINWAIT2}"

lemma live_at:
  assumes "rx_inv M S c b t" "t_state t \<noteq> TCP_CLOSED"
  shows "unat (t_rnxt t - b) = length (arrived t) + (if finished (t_state t) then 1 else 0)"
    "finished (t_state t) \<Longrightarrow> length (arrived t) = length S" "length (arrived t) \<le> length S" "length S \<le> M" "M + 2 < 2 ^ 31"
proof -
  have l: "rx_live M S c b t" "rx_base S t" using assms by (simp_all add: rx_inv_def)
  show m: "length (arrived t) \<le> length S" "length S \<le> M" "M + 2 < 2 ^ 31" "finished (t_state t) \<Longrightarrow> length (arrived t) = length S"
    using l by (auto simp: rx_live_def rx_base_def rx_room_def)
  have "t_rnxt t - b = of_nat (length (arrived t) + (if finished (t_state t) then 1 else 0))"
    using l(1) unfolding rx_live_def by simp
  moreover have "length (arrived t) + (if finished (t_state t) then 1 else 0) < 2 ^ 32" using m by simp
  ultimately show "unat (t_rnxt t - b) = length (arrived t) + (if finished (t_state t) then 1 else 0)"
    by (simp only: unat_of_nat) (simp add: unat_of_nat)
qed

lemma rx_text_rx:
  assumes "rx_inv M S c b t" "ups_keep (rx_inv M S c b) env" "\<And>k w. ups_keep (steady S k w) env"
    and "steady S k w t" "t_state t \<noteq> TCP_CLOSED \<longrightarrow> next_seg S c b k w seg bp dlen"
  shows "rx_inv M S c b (rx_text env bp dlen t) \<and>
     steady S (if dlen \<noteq> 0 \<and> takes_text (t_state t) then k + dlen else k) 0 (rx_text env bp dlen t)"
proof (cases "dlen \<noteq> 0 \<and> takes_text (t_state t)")
  case False
  then have "rx_text env bp dlen t = t" by (auto simp: rx_text_def takes_text_def)
  then show ?thesis using False assms(1,4) by (auto simp: steady_def)
next
  case True
  then have st: "t_state t \<noteq> TCP_CLOSED" "\<not> finished (t_state t)" by (auto simp: takes_text_def finished_def)
  define n where "n = length (arrived t)"
  have k: "t_rnxt t = k" "w \<le> unat (t_rwnd t)" "t_state t \<noteq> TCP_SYN_RECEIVED" "t_state t \<noteq> TCP_LISTEN" "t_state t \<noteq> TCP_SYN_SENT"
    using assms(4) by (simp_all add: steady_def)
  have base: "rx_base S t" and live: "rx_live M S c b t" using assms(1) st by (simp_all add: rx_inv_def)
  have kn: "unat (k - b) = n" using live_at(1) [OF assms(1) st(1)] st(2) k(1) by (simp add: n_def)
  have ns: "next_seg S c b k w seg bp dlen" "\<not> (dlen = 0 \<and> \<not> f_fin seg)" using assms(5) st True by auto
  note d = next_segD [OF ns, unfolded kn]
  define s where "s = t\<lparr>t_inrate := sdiv32 (7 * t_inrate t + TDIFF (te_clock env) (t_lastrx t)) 8,
                     t_lastrx := te_clock env, t_inlen := (7 * t_inlen t + dlen) div 8,
                     t_rcvq := append_p (t_rcvq t) bp, t_rcvcnt := t_rcvcnt t + dlen,
                     t_rnxt := t_rnxt t + dlen, t_rwnd := t_rwnd t - dlen, t_force := True\<rparr>"
  have sf: "arrived s = arrived t @ content bp" "t_state s = t_state t" "t_rnxt s = k + dlen" "t_window s = t_window t"
    "t_reseq s = t_reseq t" "t_rwnd s = t_rwnd t - dlen" "t_rcvcnt s = t_rcvcnt t + dlen"
    "content (t_rcvq s) = content (t_rcvq t) @ content bp" "t_clone s = t_clone t" "t_active s = t_active t"
    using k(1) by (simp_all add: s_def arrived_def append_p_content)
  have ar: "arrived s = take (n + unat dlen) S" "length (arrived s) = n + unat dlen"
  proof -
    have "arrived t = take n S" using base by (simp add: rx_base_def n_def)
    then have "arrived s = take n S @ take (unat dlen) (drop n S)" using sf(1) d(2) by simp
    then show "arrived s = take (n + unat dlen) S" by (simp only: take_add)
    then show "length (arrived s) = n + unat dlen" using d(1) by simp
  qed
  have cnt: "unat (t_rcvcnt s) = unat (t_rcvcnt t) + unat dlen" "unat (t_rwnd s) = unat (t_rwnd t) - unat dlen"
    "unat dlen \<le> unat (t_rwnd t)"
  proof -
    show le: "unat dlen \<le> unat (t_rwnd t)" using d(3) k(2) by simp
    have "unat (t_rwnd t) + unat (t_rcvcnt t) = unat (t_window t)" using base by (simp add: rx_base_def)
    moreover have "unat (t_window t) < 2 ^ 32" using unsigned_less [of "t_window t"] by simp
    ultimately show "unat (t_rcvcnt s) = unat (t_rcvcnt t) + unat dlen"
      using unat_add_small [of "t_rcvcnt t" "unat dlen"] le sf(7) by simp
    show "unat (t_rwnd s) = unat (t_rwnd t) - unat dlen" using small_sub [OF le] sf(6) by simp
  qed
  have "rx_base S s" using base ar d(1,5) cnt sf unfolding rx_base_def by auto
  moreover have "rx_live M S c b s"
  proof -
    have "k + dlen = b + of_nat (n + unat dlen)"
      using live st(2) k(1) by (simp add: rx_live_def n_def)
    then show ?thesis using live st(2) k(3) ar(2) unfolding rx_live_def rx_room_def sf(2-5) by simp
  qed
  ultimately have "rx_inv M S c b s" "steady S (k + dlen) 0 s"
    using st k(3-5) sf(2,3) by (auto simp: rx_inv_def steady_def)
  then have "rx_inv M S c b (te_r_up env (t_rcvcnt s) s)" "steady S (k + dlen) 0 (te_r_up env (t_rcvcnt s) s)"
    using ups_keepD(1) [where I = "rx_inv M S c b", OF assms(2)] ups_keepD(1) [where I = "steady S (k + dlen) 0", OF assms(3)] by blast+
  then show ?thesis
    using True unfolding rx_text_def Let_def s_def [symmetric] takes_text_def by auto
qed

text \<open>The FIN is taken when everything before it has been.\<close>

lemma fin_place:
  assumes "rx_inv M S c b t" "t_state t \<noteq> TCP_CLOSED" "\<not> finished (t_state t)" "length (arrived t) = length S" "c"
    and "finished new" "new \<noteq> TCP_SYN_RECEIVED" "s = t\<lparr>t_force := True, t_rnxt := t_rnxt t + 1\<rparr>"
  shows "rx_inv M S c b (s\<lparr>t_state := new\<rparr>)"
proof -
  have l: "rx_live M S c b t" "rx_base S t" using assms(1,2) by (simp_all add: rx_inv_def)
  have "t_rnxt s = b + of_nat (length (arrived t) + 1)" using l(1) assms(3) by (simp add: rx_live_def assms(8))
  moreover define s' where "s' = s\<lparr>t_state := new\<rparr>"
  moreover have "arrived s' = arrived t" "t_rnxt s' = t_rnxt s" "t_state s' = new" "t_reseq s' = t_reseq t" "t_window s' = t_window t"
    by (simp_all add: s'_def assms(8) arrived_def)
  ultimately have "rx_live M S c b s'"
    using l(1) assms(3-7) unfolding rx_live_def rx_room_def by simp
  then have "rx_live M S c b (s\<lparr>t_state := new\<rparr>)" by (simp only: s'_def)
  moreover have "rx_base S (s\<lparr>t_state := new\<rparr>)" using l(2) by (simp add: rx_base_def arrived_def assms(8))
  ultimately show ?thesis using assms(6) by (auto simp: rx_inv_def finished_def)
qed

lemma rx_fin_rx:
  assumes "rx_inv M S c b t" "ups_keep (rx_inv M S c b) env" "f_fin seg" "t_state t \<noteq> TCP_SYN_RECEIVED"
    and "t_state t \<noteq> TCP_CLOSED \<Longrightarrow> \<not> finished (t_state t) \<Longrightarrow> length (arrived t) = length S \<and> c"
  shows "rx_inv M S c b (rx_fin env seg t)"
proof -
  define s where "s = t\<lparr>t_force := True\<rparr>"
  define n where "n = s\<lparr>t_rnxt := t_rnxt s + 1\<rparr>"
  have n: "n = t\<lparr>t_force := True, t_rnxt := t_rnxt t + 1\<rparr>" by (simp add: n_def s_def)
  have s: "rx_inv M S c b s" "t_state s = t_state t" using assms(1) rx_cong [OF rxv_fields(3)] by (auto simp: s_def)
  have ns: "t_state t \<notin> {TCP_LISTEN, TCP_SYN_SENT}" using assms(1) by (simp add: rx_inv_def)
  have f: "rx_inv M S c b (settcpstate env new n)"
    if "t_state t \<noteq> TCP_CLOSED" "\<not> finished (t_state t)" "finished new" "new \<noteq> TCP_SYN_RECEIVED" for new
    using settcpstate_keeps [OF assms(2) fin_place [OF assms(1) that(1,2) _ _ that(3,4) n]] assms(5) [OF that(1,2)] by simp
  have tw: "rx_inv M S c b (time_wait env n)" if "t_state t \<noteq> TCP_CLOSED" "\<not> finished (t_state t)"
    unfolding time_wait_def Let_def using f [OF that, of TCP_TIME_WAIT] rx_cong [OF rxv_fields(5)] by (simp add: finished_def)
  have "rx_inv M S c b (case t_state s of
                   TCP_SYN_RECEIVED \<Rightarrow> settcpstate env TCP_CLOSE_WAIT n
                 | TCP_ESTABLISHED \<Rightarrow> settcpstate env TCP_CLOSE_WAIT n
                 | TCP_FINWAIT1 \<Rightarrow> if t_sndcnt n = 0 then time_wait env n else settcpstate env TCP_CLOSING n
                 | TCP_FINWAIT2 \<Rightarrow> time_wait env n
                 | TCP_TIME_WAIT \<Rightarrow> s\<lparr>t_timer := start_tm (t_timer s)\<rparr>
                 | _ \<Rightarrow> s)"
    using s f tw ns assms(4) rx_cong [OF rxv_fields(5)] by (cases "t_state t") (simp_all add: finished_def)
  then show ?thesis
    using assms(3) ups_keepD(1) [where I = "rx_inv M S c b", OF assms(2)]
    unfolding rx_fin_def Let_def s_def [symmetric] n_def [symmetric] by simp
qed

lemma rx_seg_rx:
  assumes "rx_inv M S c b t" "ups_keep (rx_inv M S c b) env" "\<And>k w. ups_keep (steady S k w) env"
    and "t_state t \<noteq> TCP_CLOSED \<longrightarrow> next_seg S c b (t_rnxt t) (unat (t_rwnd t)) seg bp dlen"
  shows "rx_inv M S c b (snd (rx_seg env ip seg bp dlen t))"
proof (cases "f_rst seg \<or> f_syn seg")
  case True
  have "t_clone t \<or> t_active t" using assms(1) by (simp add: rx_inv_def rx_base_def)
  then show ?thesis using True assms(1) rx_close [OF assms(1,2)] rx_cong [OF rxv_fields(11)] by (auto simp: rx_seg_def)
next
  case False
  define s where "s = (if f_tstamp seg \<and> seq_within (t_last_ack_sent t) (tcp_seq seg) (tcp_seq seg + dlen)
                    then t\<lparr>t_ts_recent := tcp_tsval seg\<rparr> else t)"
  have sv: "rxv s = rxv t" by (simp add: s_def)
  then have s: "rx_inv M S c b s" "t_rnxt s = t_rnxt t" "t_rwnd s = t_rwnd t" "t_state s = t_state t"
    using assms(1) rx_cong [OF sv] by (simp_all add: rxv_def)
  define a where "a = snd (rx_ack env ip seg dlen s)"
  note A = rx_ack_rx [OF s(1) assms(2,3), of ip seg dlen, folded a_def, unfolded s(2,3)]
  have e: "rx_seg env ip seg bp dlen t =
     (if \<not> f_ack seg then (False, s)
      else if fst (rx_ack env ip seg dlen s) then (True, rx_fin env seg (rx_text env bp dlen a)) else (False, a))"
    using False unfolding rx_seg_def Let_def s_def [symmetric] by (auto simp: a_def split: prod.split bool.split)
  have fin: "rx_inv M S c b (rx_fin env seg (rx_text env bp dlen a))" if go: "fst (rx_ack env ip seg dlen s)"
  proof -
    let ?k = "t_rnxt t" and ?w = "unat (t_rwnd t)"
    have st: "steady S ?k ?w a" using A go by simp
    have nx: "t_state a \<noteq> TCP_CLOSED \<longrightarrow> next_seg S c b ?k ?w seg bp dlen"
    proof (cases "t_state t = TCP_CLOSED")
      case True
      then have "a = s" by (simp add: a_def rx_ack_def s(4))
      then show ?thesis using True s(4) by simp
    qed (use assms(4) in simp)
    define r where "r = rx_text env bp dlen a"
    have R: "rx_inv M S c b r" "steady S (if dlen \<noteq> 0 \<and> takes_text (t_state a) then ?k + dlen else ?k) 0 r"
      using rx_text_rx [OF _ assms(2,3) st nx] A by (simp_all add: r_def)
    show ?thesis
    proof (cases "f_fin seg")
      case False
      then show ?thesis using R(1) by (simp add: rx_fin_def r_def [symmetric])
    next
      case True
      have rs: "t_state r \<noteq> TCP_SYN_RECEIVED" using R(2) by (simp add: steady_def)
      have "length (arrived r) = length S \<and> c" if o: "t_state r \<noteq> TCP_CLOSED" "\<not> finished (t_state r)"
      proof -
        have ac: "t_state a \<noteq> TCP_CLOSED"
        proof
          assume "t_state a = TCP_CLOSED"
          then have "r = a" by (auto simp: r_def rx_text_def)
          with \<open>t_state a = TCP_CLOSED\<close> o(1) show False by simp
        qed
        have ns: "next_seg S c b ?k ?w seg bp dlen" using nx ac by simp
        have d: "unat (?k - b) + unat dlen = length S" "c" using next_segD(4) [OF ns _ True] True by simp_all
        note la = live_at(1,3-5) [OF R(1) o(1)]
        show ?thesis
        proof (cases "dlen \<noteq> 0 \<and> takes_text (t_state a)")
          case True
          then have "t_rnxt r = ?k + dlen" using R(2) by (simp add: steady_def)
          then have "t_rnxt r - b = (?k - b) + dlen" by simp
          moreover have "unat ((?k - b) + dlen) = unat (?k - b) + unat dlen"
            using unat_add_small [of "?k - b" "unat dlen"] d(1) la(3,4) by simp
          ultimately show ?thesis using la(1) o(2) d by (simp only: if_False) simp
        next
          case skip: False
          then have k: "t_rnxt r = ?k" using R(2) by (simp add: steady_def del: de_Morgan_conj)
          show ?thesis
          proof (cases "dlen = 0")
            case True
            then show ?thesis using la(1) o(2) d k by simp
          next
            case nz: False
            then have "r = a" using skip by (auto simp: r_def rx_text_def takes_text_def)
            then have "takes_text (t_state a)"
              using o rs R(1) by (cases "t_state a") (simp_all add: takes_text_def finished_def rx_inv_def)
            then show ?thesis using skip nz by simp
          qed
        qed
      qed
      then show ?thesis unfolding r_def [symmetric] using rx_fin_rx [OF R(1) assms(2) True rs] by blast
    qed
  qed
  show ?thesis unfolding e using s(1) fin A by simp
qed

section \<open>The loop\<close>

lemma window_here:
  assumes "rx_inv M S c b t" "t_state t \<noteq> TCP_CLOSED"
  shows "\<exists>R. window_at M (unat (t_window t)) b R (unat (t_rwnd t)) t" "length S \<le> M"
proof -
  have l: "rx_live M S c b t" "rx_base S t" using assms by (simp_all add: rx_inv_def)
  show "length S \<le> M" using l(1) by (simp add: rx_live_def rx_room_def)
  have "window_at M (unat (t_window t)) b (length (arrived t) + (if finished (t_state t) then 1 else 0)) (unat (t_rwnd t)) t"
    using l by (auto simp: window_at_def rx_live_def rx_room_def rx_base_def)
  then show "\<exists>R. window_at M (unat (t_window t)) b R (unat (t_rwnd t)) t" by blast
qed

lemma place_next:
  assumes "good_seg S c b seg bp dlen" "in_place R w b seg dlen" "window_at M W b R w t"
    and "dlen = 0 \<and> \<not> f_fin seg \<or> tcp_seq seg = t_rnxt t"
  shows "next_seg S c b (t_rnxt t) (unat (t_rwnd t)) seg bp dlen"
proof -
  have k: "t_rnxt t = b + of_nat R" "unat (t_rwnd t) = w" "R \<le> M + 1" "M + W + 2 < 2 ^ 31" "w \<le> W"
    using assms(3) by (simp_all add: window_at_def)
  show ?thesis
  proof (cases "dlen = 0 \<and> \<not> f_fin seg")
    case True
    then show ?thesis using assms(1,2) by (simp add: next_seg_def in_place_def)
  next
    case False
    obtain off where off: "tcp_seq seg = b + of_nat off" "R \<le> off" "off + unat dlen \<le> R + w"
      using assms(2) False by (auto simp: in_place_def)
    have "of_nat off = (of_nat R :: u32)" using off(1) k(1) assms(4) False by simp
    then have "unat (of_nat off :: u32) = unat (of_nat R :: u32)" by simp
    then have "off = R" using off(2,3) k(3-5) by (simp add: unat_of_nat)
    then show ?thesis using assms(1,2,4) False off(3) k(2) by (auto simp: next_seg_def in_place_def)
  qed
qed

lemma rx_reseq:
  assumes "rx_inv M S c b t" "\<And>r. r \<in> set rs \<Longrightarrow> good_seg S c b (rs_seg r) (rs_bp r) (rs_length r) \<and> \<not> f_syn (rs_seg r)"
  shows "rx_inv M S c b (t\<lparr>t_reseq := rs\<rparr>)"
  using assms by (auto simp: rx_inv_def rx_base_def rx_live_def rx_room_def arrived_def)

lemma rx_scan_rx:
  "rx_inv M S c b t \<Longrightarrow>
     (t_state t \<noteq> TCP_CLOSED \<Longrightarrow> \<forall>r \<in> set rs. good_seg S c b (rs_seg r) (rs_bp r) (rs_length r) \<and> \<not> f_syn (rs_seg r)) \<Longrightarrow>
     rx_inv M S c b (fst (rx_scan rs t)) \<and>
     (case snd (rx_scan rs t) of None \<Rightarrow> True | Some (tos, seg, bp, dlen) \<Rightarrow> t_state (fst (rx_scan rs t)) \<noteq> TCP_CLOSED \<longrightarrow>
        next_seg S c b (t_rnxt (fst (rx_scan rs t))) (unat (t_rwnd (fst (rx_scan rs t)))) seg bp dlen)"
proof (induction rs arbitrary: t)
  case Nil
  then show ?case using rx_reseq [of M S c b t "[]"] by simp
next
  case (Cons r rs)
  let ?t = "t\<lparr>t_reseq := rs\<rparr>"
  obtain ok t' seg' bp' dlen' where tr: "trim ?t (rs_seg r) (rs_bp r) (rs_length r) = (ok, t', seg', bp', dlen')"
    by (cases "trim ?t (rs_seg r) (rs_bp r) (rs_length r)") auto
  have same: "rx_inv M S c b (t\<lparr>t_reseq := qs\<rparr>)" if "set qs \<subseteq> set (r # rs)" for qs
  proof (cases "t_state t = TCP_CLOSED")
    case True
    then show ?thesis using Cons.prems(1) by (simp add: rx_inv_def rx_base_def arrived_def)
  qed (use Cons.prems rx_reseq [OF Cons.prems(1), of qs] that in blast)
  have i: "rx_inv M S c b ?t" by (rule same) auto
  have v: "rxv t' = rxv ?t" by (rule trim_rxv [OF tr])
  have i': "rx_inv M S c b t'" using i rx_cong [OF v] by simp
  have f: "t_state t' = t_state t" "t_rnxt t' = t_rnxt t" "t_rwnd t' = t_rwnd t" using v by (simp_all add: rxv_def)
  have n: "next_seg S c b (t_rnxt t') (unat (t_rwnd t')) seg' bp' dlen'"
    if o: "ok" and ns: "t_state t \<noteq> TCP_CLOSED" and ge: "seq_ge (t_rnxt t) (tcp_seq (rs_seg r))"
  proof -
    have st: "t_state ?t \<noteq> TCP_CLOSED" using ns by simp
    obtain R where w: "window_at M (unat (t_window ?t)) b R (unat (t_rwnd ?t)) ?t"
      using window_here(1) [OF i st] by blast
    have g: "good_seg S c b (rs_seg r) (rs_bp r) (rs_length r)" using Cons.prems(2) ns by simp
    have h: "good_seg S c b seg' bp' dlen'" "in_place R (unat (t_rwnd ?t)) b seg' dlen'"
        "dlen' = 0 \<and> \<not> f_fin seg' \<or> tcp_seq seg' = t_rnxt ?t"
      using trim_honest(2) [OF w window_here(2) [OF i st] g tr o] ge by simp_all
    have "next_seg S c b (t_rnxt ?t) (unat (t_rwnd ?t)) seg' bp' dlen'"
      by (rule place_next [OF h(1,2) w h(3)])
    then show ?thesis using f by simp
  qed
  show ?case
  proof (cases "seq_ge (t_rnxt t) (tcp_seq (rs_seg r))")
    case True
    have "rx_inv M S c b (fst (rx_scan rs t')) \<and> (case snd (rx_scan rs t') of None \<Rightarrow> True
      | Some (tos, seg, bp, dlen) \<Rightarrow> t_state (fst (rx_scan rs t')) \<noteq> TCP_CLOSED \<longrightarrow>
        next_seg S c b (t_rnxt (fst (rx_scan rs t'))) (unat (t_rwnd (fst (rx_scan rs t')))) seg bp dlen)"
      by (rule Cons.IH [OF i']) (use Cons.prems(2) f(1) in auto)
    moreover have e: "rx_scan (r # rs) t = (if ok then (t', Some (rs_tos r, seg', bp', dlen')) else rx_scan rs t')"
      using True tr by simp
    ultimately show ?thesis unfolding e using n [OF _ _ True] i' f(1) by (cases ok) simp_all
  next
    case False
    then show ?thesis using same [of "r # rs"] by simp
  qed
qed

lemma rx_loop_rx:
  assumes "ups_keep (rx_inv M S c b) env" "\<And>k w. ups_keep (steady S k w) env"
  shows "rx_inv M S c b t \<Longrightarrow> (t_state t \<noteq> TCP_CLOSED \<longrightarrow> next_seg S c b (t_rnxt t) (unat (t_rwnd t)) seg bp dlen) \<Longrightarrow>
     rx_inv M S c b (rx_loop n env ip seg bp dlen t)"
proof (induction n arbitrary: ip seg bp dlen t)
  case (Suc n)
  obtain go t1 where s: "rx_seg env ip seg bp dlen t = (go, t1)" by fastforce
  have t1: "rx_inv M S c b t1" using rx_seg_rx [OF Suc.prems(1) assms Suc.prems(2), of ip] s by simp
  have "t_state t1 \<noteq> TCP_CLOSED \<Longrightarrow> \<forall>r \<in> set (t_reseq t1). good_seg S c b (rs_seg r) (rs_bp r) (rs_length r) \<and> \<not> f_syn (rs_seg r)"
    using t1 by (simp add: rx_inv_def rx_live_def)
  note sc = rx_scan_rx [OF t1 this]
  show ?case
    using t1 sc Suc.IH rx_cong [OF rxv_output] by (auto simp: s split: bool.split prod.split option.split)
qed simp

lemma set_reseq_loop: "set (add_reseq_loop r rs) = insert r (set rs)"
  by (induction rs) auto

lemma rx_add:
  assumes "rx_inv M S c b t" "t_state t \<noteq> TCP_CLOSED \<Longrightarrow> good_seg S c b seg bp dlen \<and> \<not> f_syn seg"
  shows "rx_inv M S c b (add_reseq tos seg bp dlen t)"
proof (cases "t_state t = TCP_CLOSED")
  case True
  then show ?thesis using assms(1) by (simp add: add_reseq_def rx_inv_def rx_base_def arrived_def)
next
  case False
  then have "\<forall>r \<in> set (t_reseq t). good_seg S c b (rs_seg r) (rs_bp r) (rs_length r) \<and> \<not> f_syn (rs_seg r)"
    using assms(1) by (simp add: rx_inv_def rx_live_def)
  then show ?thesis
    using assms(2) [OF False] unfolding add_reseq_def by (intro rx_reseq [OF assms(1)]) (auto simp: set_reseq_loop)
qed

lemma rx_sync_rx:
  assumes "rx_inv M S c b t" "ups_keep (rx_inv M S c b) env" "\<And>k w. ups_keep (steady S k w) env"
    and "good_seg S c b seg bp dlen"
  shows "rx_inv M S c b (rx_sync env ip seg bp dlen t)"
proof -
  obtain ok t1 seg1 bp1 dlen1 where tr: "trim t seg bp dlen = (ok, t1, seg1, bp1, dlen1)"
    by (cases "trim t seg bp dlen") auto
  have v: "rxv t1 = rxv t" by (rule trim_rxv [OF tr])
  have i1: "rx_inv M S c b t1" using assms(1) rx_cong [OF v] by simp
  have f: "t_state t1 = t_state t" "t_rnxt t1 = t_rnxt t" "t_rwnd t1 = t_rwnd t" using v by (simp_all add: rxv_def)
  have h: "\<exists>R W. window_at M W b R (unat (t_rwnd t)) t \<and> good_seg S c b seg1 bp1 dlen1 \<and> in_place R (unat (t_rwnd t)) b seg1 dlen1"
    if o: "ok" and n: "t_state t \<noteq> TCP_CLOSED"
  proof -
    obtain R where w: "window_at M (unat (t_window t)) b R (unat (t_rwnd t)) t"
      using window_here(1) [OF assms(1) n] by blast
    then show ?thesis using trim_honest(2) [OF w window_here(2) [OF assms(1) n] assms(4) tr o] by blast
  qed
  define t2 where "t2 = add_reseq (ip_tos ip) seg1 bp1 dlen1 t1"
  have i2: "rx_inv M S c b t2" if "ok"
    unfolding t2_def by (rule rx_add [OF i1]) (use h [OF that] f in \<open>auto simp: in_place_def\<close>)
  have i3: "rx_inv M S c b (t2\<lparr>t_force := True\<rparr>)" if "ok"
    using i2 [OF that] rx_cong [OF rxv_fields(3)] by auto
  have n0: "next_seg S c b k w (seg1\<lparr>f_syn := False, f_fin := False\<rparr>) [] 0" for k w
    by (simp add: next_seg_def good_seg_def honest_def)
  have n1: "next_seg S c b (t_rnxt t1) (unat (t_rwnd t1)) seg1 bp1 dlen1"
    if o: "ok" and n: "t_state t1 \<noteq> TCP_CLOSED" and q: "\<not> (tcp_seq seg1 \<noteq> t_rnxt t1 \<and> (dlen1 \<noteq> 0 \<or> f_syn seg1 \<or> f_fin seg1))"
  proof -
    obtain R W where "window_at M W b R (unat (t_rwnd t)) t" "good_seg S c b seg1 bp1 dlen1" "in_place R (unat (t_rwnd t)) b seg1 dlen1"
      using h o n f by auto
    then show ?thesis unfolding f using place_next q f by auto
  qed
  have o1: "rx_inv M S c b (tcp_output env (s\<lparr>t_force := True\<rparr>))" if "rxv s = rxv t1" for s
  proof -
    have "rxv (tcp_output env (s\<lparr>t_force := True\<rparr>)) = rxv t1" using that by simp
    then show ?thesis using i1 rx_cong by blast
  qed
  show ?thesis
  proof (cases ok)
    case True
    then show ?thesis
      unfolding rx_sync_def tr prod.case Let_def t2_def [symmetric]
      using i1 i2 i3 n0 n1 by (auto intro!: rx_loop_rx assms(2,3) simp del: rx_loop.simps)
  next
    case False
    then show ?thesis unfolding rx_sync_def tr prod.case Let_def using i1 o1 by auto
  qed
qed

end
