(* ===== verification/Tcp_Stream.thy ===== *)
theory Tcp_Stream
  imports Tcp_Rx "HOL-Library.Sublist"
begin

text \<open>
  The two ends together.  A block is followed from \<^verbatim>\<open>open_tcp\<close> on, the time before its first SYN included, as sender and as receiver; then
  what one end's user has taken is a first part of what the other end's user has handed over, whatever the network between them
  loses, repeats, delays or forges without data.
\<close>

section \<open>The sender from the start\<close>

definition tx_pre :: "nat \<Rightarrow> tcb \<Rightarrow> bool" where
  "tx_pre M t \<longleftrightarrow> t_state t = TCP_LISTEN \<and> (t_clone t \<or> t_active t) \<and> tx_room t \<and> \<not> t_synack t \<and> \<not> t_ub t \<and> length (t_given t) \<le> M \<and>
     content (t_sndq t) = t_given t \<and> unat (t_sndcnt t) = length (t_given t) \<and> t_reseq t = [] \<and>
     (\<forall>(src, dst, seg, data) \<in> set (t_out t). data = [] \<and> \<not> f_syn seg \<and> \<not> f_fin seg)"

definition tx_life :: "nat \<Rightarrow> tcb \<Rightarrow> bool" where
  "tx_life M t \<longleftrightarrow> (M + 2 < 2 ^ 31 \<longrightarrow> tx_pre M t \<or> tx_inv M t)"

lemma pre_cong: "txv t = txv t' \<Longrightarrow> tx_pre M t = tx_pre M t'"
  by (simp add: txv_def tx_pre_def tx_room_def)

lemma tx_ups: "user_env M env \<Longrightarrow> M + 2 < 2 ^ 31 \<Longrightarrow> ups_keep (tx_inv M) env"
  using tx.env_keeps [of M env] by (simp add: ups_keep_def)

lemma pre_syn:
  assumes "tx_pre M t" "M + 2 < 2 ^ 31" "new \<noteq> TCP_LISTEN" "\<not> closing new"
  shows "tx_inv M ((send_syn env t)\<lparr>t_state := new\<rparr>)"
proof -
  have p: "tx_room t" "\<not> t_synack t" "length (t_given t) \<le> M" "content (t_sndq t) = t_given t"
      "unat (t_sndcnt t) = length (t_given t)" "t_reseq t = []" "t_clone t \<or> t_active t" "\<not> t_ub t"
    using assms(1) by (simp_all add: tx_pre_def)
  have "unat (t_sndcnt t + 1) = unat (t_sndcnt t) + 1"
    using unat_add_small [of "t_sndcnt t" 1] p(3,5) assms(2) by simp
  then have "tx_core ((send_syn env t)\<lparr>t_state := new\<rparr>)" using p assms(4) by (simp add: tx_core_def send_syn_def)
  moreover have "out_ok ((send_syn env t)\<lparr>t_state := new\<rparr>)"
    using assms(1) by (fastforce simp: tx_pre_def out_ok_def send_syn_def honest_def)
  ultimately show ?thesis using p assms(3) by (simp add: tx_inv_def tx_room_def send_syn_def all_sane_def)
qed

lemma pre_set:
  assumes "tx_pre M t" "user_env M env" "M + 2 < 2 ^ 31" "new \<noteq> TCP_LISTEN" "\<not> closing new"
  shows "tx_inv M (settcpstate env new (send_syn env t))"
  by (rule settcpstate_keeps [OF tx_ups [OF assms(2,3)] pre_syn [OF assms(1,3,4,5)]])

lemma pre_close:
  assumes "tx_pre M t" "user_env M env" "M + 2 < 2 ^ 31"
  shows "tx_inv M (close_self env r t)"
  unfolding close_self_def
proof (rule settcpstate_keeps [OF tx_ups [OF assms(2,3)]])
  show "tx_inv M (t\<lparr>t_timer := stop_tm (t_timer t), t_reason := r, t_reseq := []\<rparr>\<lparr>t_state := TCP_CLOSED\<rparr>)"
    using assms(1) by (fastforce simp: tx_inv_def tx_pre_def out_ok_def all_sane_def honest_def)
qed

lemma pre_out:
  assumes "tx_pre M t" "\<not> f_syn seg" "\<not> f_fin seg"
  shows "tx_pre M (t\<lparr>t_out := t_out t @ [(a, b, seg, [])]\<rparr>)"
  using assms by (auto simp: tx_pre_def tx_room_def)

lemma pre_reset: "tx_pre M t \<Longrightarrow> tx_pre M (reset ip seg t)"
  using pre_out [of M t "reset_seg seg"]
  by (simp add: reset_def reset_out_def reset_seg_def Let_def)

lemma pre_queue:
  assumes "tx_pre M t" "M + 2 < 2 ^ 31" "length (t_given t) + length (content bp) \<le> M"
  shows "tx_pre M (t\<lparr>t_sndq := append_p (t_sndq t) bp, t_sndcnt := t_sndcnt t + of_nat (len_p bp),
       t_given := t_given t @ content bp\<rparr>)"
proof -
  have "unat (t_sndcnt t + of_nat (length (content bp))) = unat (t_sndcnt t) + length (content bp)"
    by (rule unat_add_small) (use assms in \<open>simp add: tx_pre_def\<close>)
  then show ?thesis using assms by (simp add: tx_pre_def tx_room_def len_p_content append_p_content)
qed

lemma pre_cut: "tx_pre M t \<Longrightarrow> tx_pre M (cut_ssthresh t)"
  using cut_positive [of t] by (simp add: tx_pre_def tx_room_def) (simp add: cut_ssthresh_def)

lemma pre_timeout:
  assumes "tx_pre M t" "user_env M env" "M + 2 < 2 ^ 31"
  shows "tx_life M (tcp_timeout env t)"
proof -
  define r where "r = t\<lparr>t_timer := stop_tm (t_timer t), t_timeouts := t_timeouts t + 1, t_retran := True, t_backoff := t_backoff t + 1\<rparr>"
  have "txv r = txv t" by (simp add: r_def txv_def)
  then have i: "tx_pre M r" using assms(1) pre_cong by blast
  have st: "t_state t = TCP_LISTEN" using assms(1) by (simp add: tx_pre_def)
  have "0 <s t_mss t" using assms(1) by (simp add: tx_pre_def tx_room_def spos)
  then have "tx_pre M (resend_oldest env (cut_ssthresh r))"
    using pre_cut [OF i] st by (simp add: tx_pre_def tx_room_def resend_oldest_def tcp_output_def cut_ssthresh_def r_def)
  moreover have "tcp_timeout env t = (if t_backoff r > 10 then close_self env TIMEOUT r else resend_oldest env (cut_ssthresh r))"
    using st by (simp add: tcp_timeout_def r_def)
  ultimately show ?thesis using pre_close [OF i assms(2,3)] by (simp add: tx_life_def)
qed

lemma pre_segment:
  assumes "tx_pre M t" "user_env M env" "M + 2 < 2 ^ 31" "sane seg"
  shows "tx_life M (tcp_segment env ip seg bp dlen t)"
proof -
  define s where "s = t\<lparr>t_congest := ip_congest ip\<rparr>"
  have "txv s = txv t" by (simp add: txv_def s_def)
  then have s: "tx_pre M s" using assms(1) pre_cong by blast
  have st: "t_state s = TCP_LISTEN" using s by (simp add: tx_pre_def)
  define q where "q = proc_syn env (ip_tos ip) seg s"
  have "tx_pre M q"
    using s proc_syn_room [OF _ env_fine [OF assms(2)] assms(4)] unfolding q_def tx_pre_def proc_syn_keeps by simp
  then have y: "tx_inv M (settcpstate env TCP_SYN_RECEIVED (send_syn env q))"
    by (rule pre_set [OF _ assms(2,3)]) (simp_all add: closing_def)
  have "tcp_segment env ip seg bp dlen t =
      (if f_rst seg then s else if f_ack seg then reset ip seg s
       else if f_syn seg then
         (if dlen \<noteq> 0 \<or> f_fin seg then rx_sync env ip seg bp dlen (settcpstate env TCP_SYN_RECEIVED (send_syn env q))
          else tcp_output env (settcpstate env TCP_SYN_RECEIVED (send_syn env q)))
       else s)"
    unfolding tcp_segment_def Let_def s_def [symmetric] q_def [symmetric] using st by simp
  then show ?thesis
    using s pre_reset [OF s] rx_sync_inv [OF y assms(3) tx_ups [OF assms(2,3)] assms(4)] output_inv [OF assms(3) y]
    by (simp add: tx_life_def)
qed

lemma pre_send:
  assumes "tx_pre M t" "M + 2 < 2 ^ 31" "may_send M t bp"
  shows "tx_pre M (snd (send_tcp env bp t))"
proof -
  have "t_state t = TCP_LISTEN" using assms(1) by (simp add: tx_pre_def)
  then show ?thesis using assms pre_queue [OF assms(1,2), of bp] by (simp add: send_tcp_def may_send_def Let_def)
qed

lemma pre_recv:
  assumes "tx_pre M t"
  shows "tx_pre M (snd (recv_tcp env n t))"
proof -
  have "tx_pre M (t\<lparr>t_rcvq := a, t_taken := b, t_rcvcnt := c, t_rwnd := d\<rparr>)" for a b c d
    using assms pre_cong [of "t\<lparr>t_rcvq := a, t_taken := b, t_rcvcnt := c, t_rwnd := d\<rparr>" t M] by (simp add: txv_def)
  moreover have "tcp_output env (t\<lparr>t_rcvq := a, t_taken := b, t_rcvcnt := c, t_rwnd := d\<rparr>\<lparr>t_force := True\<rparr>) =
     t\<lparr>t_rcvq := a, t_taken := b, t_rcvcnt := c, t_rwnd := d, t_force := True\<rparr>" for a b c d
    using assms by (simp add: tx_pre_def tcp_output_def)
  moreover have "tx_pre M (t\<lparr>t_rcvq := a, t_taken := b, t_rcvcnt := c, t_rwnd := d, t_force := True\<rparr>)" for a b c d
    using assms pre_cong [of "t\<lparr>t_rcvq := a, t_taken := b, t_rcvcnt := c, t_rwnd := d, t_force := True\<rparr>" t M] by (simp add: txv_def)
  ultimately show ?thesis using assms unfolding recv_tcp_def Let_def by simp
qed

lemma pre_icmp: "tx_pre M t \<Longrightarrow> tx_pre M (icmp_for_tcb type code seg t)"
proof -
  assume i: "tx_pre M t"
  have "tx_pre M (s\<lparr>t_cwind := m, t_quench := q\<rparr>)" if "tx_pre M s" "m = t_mss s" for s q m
    using that by (auto simp: tx_pre_def tx_room_def spos)
  from this [OF pre_cut [OF i]]
  have "tx_pre M ((cut_ssthresh t)\<lparr>t_cwind := t_mss t, t_quench := q\<rparr>)" for q by (simp add: cut_ssthresh_def)
  moreover have "tx_pre M (t\<lparr>t_type := a, t_code := b, t_unreach := c\<rparr>)" for a b c
    using i by (simp add: tx_pre_def tx_room_def)
  ultimately show ?thesis using i by (simp add: icmp_for_tcb_def)
qed

lemma pre_reset_tcp: "tx_pre M t \<Longrightarrow> user_env M env \<Longrightarrow> M + 2 < 2 ^ 31 \<Longrightarrow> tx_inv M (reset_tcp env t)"
  using pre_close [of M t env RESET] by (simp add: reset_tcp_def tx_pre_def)

interpretation tl: block_law M "tx_life M" "\<lambda>seg data. sane seg" for M
proof
  fix env t bp n ip seg type code conn
  assume i: "tx_life M t"
  show "tx_life M (t\<lparr>t_conn := conn\<rparr>)"
    using i tx_cong [of "t\<lparr>t_conn := conn\<rparr>" t M] pre_cong [of "t\<lparr>t_conn := conn\<rparr>" t M] by (simp add: tx_life_def txv_def)
  show "tx_life M (t\<lparr>t_reseq := []\<rparr>)" using i garbage_tx by (auto simp: tx_life_def) (simp add: tx_pre_def tx_room_def)
  show "tx_life M (icmp_for_tcb type code seg t)"
    using i icmp_inv pre_icmp by (auto simp: tx_life_def)
  show "tx_life M (snd (recv_tcp env n t))" using i pre_recv recv_inv by (auto simp: tx_life_def)
  assume u: "user_env M env"
  note pre = pre_close [OF _ u] pre_timeout [OF _ u] pre_segment [OF _ u]
  show "may_send M t bp \<Longrightarrow> tx_life M (snd (send_tcp env bp t))"
    using i pre_send send_inv by (auto simp: tx_life_def may_send_def)
  show "tx_life M (snd (close_tcp env t))" 
    using i u close_tcp_inv tx_ups pre(1) by (auto simp: tx_life_def close_tcp_def tx_pre_def)
  show "tx_life M (tcp_timeout env t)" using i u timeout_inv tx_ups pre(2) unfolding tx_life_def by blast
  show "tx_life M (kick_tcp env t)" 
  proof -
    have "txv (t\<lparr>t_force := True, t_backoff := 0\<rparr>) = txv t" by (simp add: txv_def)
    then have "tx_pre M (t\<lparr>t_force := True, t_backoff := 0\<rparr>) = tx_pre M t" by (rule pre_cong)
    then show ?thesis using i u kick_inv tx_ups pre(2) unfolding tx_life_def kick_tcp_def by blast
  qed
  show "tx_life M (reset_tcp env t)"
    using i u reset_tcp_inv tx_ups pre_reset_tcp unfolding tx_life_def by blast
  show "sane seg \<Longrightarrow> tx_life M (tcp_segment env ip seg bp (of_nat (length (content bp))) t)"
    using i u segment_inv tx_ups env_fine pre(3) unfolding tx_life_def by blast
qed

text \<open>A block as \<^verbatim>\<open>open_tcp\<close> makes it.  The passive open of a single connection is left out: such a block can go back to LISTEN,
  and then counts its SYN twice.\<close>

lemma new_pre:
  assumes "env_ok env" "a \<or> c"
  shows "tx_pre M ((new_tcb env conn tp)\<lparr>t_window := w, t_rwnd := w, t_swnd := 1, t_tos := tos, t_clone := c, t_active := a,
      t_state := TCP_LISTEN\<rparr>)"
  using assms by (auto simp: tx_pre_def tx_room_def new_tcb_def env_ok_def spos)

lemma open_tx:
  assumes "user_env M env" "mode \<noteq> TCP_PASSIVE"
  shows "tx_life M (open_block env mode w tos (new_tcb env conn tp))"
  unfolding tx_life_def
proof
  assume m: "M + 2 < 2 ^ 31"
  define W where "W = (if w \<noteq> 0 then w else te_window env)"
  define n where "n = (new_tcb env conn tp)\<lparr>t_window := W, t_rwnd := W, t_swnd := 1, t_tos := tos\<rparr>"
  have e: "t_clone n = False" "t_active n = False" by (simp_all add: n_def new_tcb_def)
  have p: "tx_pre M (n\<lparr>t_clone := c, t_active := a, t_state := TCP_LISTEN\<rparr>)" if "a \<or> c" for a c
    using new_pre [OF env_fine [OF assms(1)] that] by (simp add: n_def)
  show "tx_pre M (open_block env mode w tos (new_tcb env conn tp)) \<or> tx_inv M (open_block env mode w tos (new_tcb env conn tp))"
  proof (cases mode)
    case TCP_SERVER
    have "n\<lparr>t_clone := True\<rparr>\<lparr>t_state := TCP_LISTEN\<rparr> = n\<lparr>t_clone := True, t_active := False, t_state := TCP_LISTEN\<rparr>"
      using e by simp
    then have "tx_pre M (n\<lparr>t_clone := True\<rparr>\<lparr>t_state := TCP_LISTEN\<rparr>)" using p [of False True] by simp
    then have "tx_life M (n\<lparr>t_clone := True\<rparr>\<lparr>t_state := TCP_LISTEN\<rparr>)" by (simp add: tx_life_def)
    from settcpstate_keeps [OF tl.env_keeps [OF assms(1)] this] show ?thesis
      using TCP_SERVER m by (simp add: open_block_def Let_def W_def [symmetric] n_def [symmetric] tx_life_def)
  next
    case TCP_ACTIVE
    have "send_syn env (n\<lparr>t_active := True\<rparr>)\<lparr>t_state := TCP_SYN_SENT\<rparr> =
        send_syn env (n\<lparr>t_clone := False, t_active := True, t_state := TCP_LISTEN\<rparr>)\<lparr>t_state := TCP_SYN_SENT\<rparr>"
      using e by (simp add: send_syn_def)
    then have "tx_inv M (send_syn env (n\<lparr>t_active := True\<rparr>)\<lparr>t_state := TCP_SYN_SENT\<rparr>)"
      using pre_syn [OF p m, of True False TCP_SYN_SENT] by (simp add: closing_def)
    from output_inv [OF m settcpstate_keeps [OF tx_ups [OF assms(1) m] this]] show ?thesis
      using TCP_ACTIVE by (simp add: open_block_def Let_def W_def [symmetric] n_def [symmetric])
  qed (use assms(2) in simp)
qed

section \<open>The receiver from the start\<close>

definition rx_pre :: "nat \<Rightarrow> byte list \<Rightarrow> u32 \<Rightarrow> tcb \<Rightarrow> bool" where
  "rx_pre M S b t \<longleftrightarrow> t_state t \<in> {TCP_LISTEN, TCP_SYN_SENT} \<and> rx_base S t \<and> arrived t = [] \<and> t_reseq t = [] \<and> rx_room M S b t"

definition rx_life :: "nat \<Rightarrow> byte list \<Rightarrow> bool \<Rightarrow> u32 \<Rightarrow> tcb \<Rightarrow> bool" where
  "rx_life M S c b t \<longleftrightarrow> rx_pre M S b t \<or> rx_inv M S c b t"

lemma life_cong: "rxv t = rxv t' \<Longrightarrow> rx_life M S c b t = rx_life M S c b t'" "rxv t = rxv t' \<Longrightarrow> rx_pre M S b t = rx_pre M S b t'"
  using rx_cong [of t t' M S c b] by (simp_all add: rx_life_def rx_pre_def rxv_def rx_base_def arrived_def rx_room_def)

lemma rx_syn:
  assumes "rx_pre M S b t" "rxv s = rxv (t\<lparr>t_rnxt := b, t_state := new\<rparr>)" "new \<in> {TCP_SYN_RECEIVED, TCP_ESTABLISHED}"
  shows "rx_inv M S c b s"
proof -
  have "rx_inv M S c b (t\<lparr>t_rnxt := b, t_state := new\<rparr>)"
    using assms(1,3) by (auto simp: rx_pre_def rx_inv_def rx_live_def rx_base_def rx_room_def arrived_def finished_def)
  then show ?thesis using rx_cong [OF assms(2)] by simp
qed

lemma pre_rx_close:
  assumes "rx_pre M S b t" "user_env K env"
  shows "rx_inv M S c b (close_self env r t)"
  unfolding close_self_def
  by (rule settcpstate_keeps [OF rxu.env_keeps [OF assms(2)]])
    (use assms(1) in \<open>auto simp: rx_pre_def rx_inv_def rx_base_def arrived_def\<close>)

lemma pre_rx_timeout:
  assumes "rx_pre M S b t" "user_env K env"
  shows "rx_life M S c b (tcp_timeout env t)"
proof -
  define r where "r = t\<lparr>t_timer := stop_tm (t_timer t), t_timeouts := t_timeouts t + 1, t_retran := True, t_backoff := t_backoff t + 1\<rparr>"
  have v: "rxv r = rxv t" by (simp add: r_def rxv_def)
  have i: "rx_pre M S b r" using assms(1) life_cong(2) [OF v] by simp
  have "rxv (resend_oldest env (cut_ssthresh r)) = rxv t" using v by simp
  then have "rx_pre M S b (resend_oldest env (cut_ssthresh r))" using assms(1) life_cong(2) by blast
  moreover have "t_state t \<noteq> TCP_TIME_WAIT" using assms(1) by (auto simp: rx_pre_def)
  then have "tcp_timeout env t = (if t_backoff r > 10 then close_self env TIMEOUT r else resend_oldest env (cut_ssthresh r))"
    by (simp add: tcp_timeout_def r_def)
  ultimately show ?thesis using pre_rx_close [OF i assms(2)] by (simp add: rx_life_def)
qed

lemma rxv_syn: "rxv (proc_syn env tos seg t) = rxv (t\<lparr>t_rnxt := tcp_seq seg + 1\<rparr>)" "rxv (send_syn env t) = rxv t"
  by (simp_all add: proc_syn_def send_syn_def Let_def rxv_def split: prod.split)

lemma honest_syn: "honest S c b seg data \<Longrightarrow> f_syn seg \<Longrightarrow> tcp_seq seg + 1 = b"
  by (auto simp: honest_def Let_def unat_eq_0)

lemma rx_segment:
  assumes "rx_inv M S c b t" "user_env K env" "honest S c b seg (content bp)" "length (content bp) < 2 ^ 16"
  shows "rx_inv M S c b (tcp_segment env ip seg bp (of_nat (length (content bp))) t)"
proof -
  define s where "s = t\<lparr>t_congest := ip_congest ip\<rparr>"
  have v: "rxv s = rxv t" by (simp add: s_def)
  have s: "rx_inv M S c b s" using assms(1) rx_cong [OF v] by simp
  have st: "t_state s \<notin> {TCP_LISTEN, TCP_SYN_SENT}" using s by (simp add: rx_inv_def)
  have "good_seg S c b seg bp (of_nat (length (content bp)))"
    using assms(3,4) by (simp add: good_seg_def unat_of_nat)
  from rx_sync_rx [OF s rxu.env_keeps [OF assms(2)] sd.env_keeps [OF assms(2)] this, of ip]
  show ?thesis
    using st s rx_cong [OF rxv_fields(11), of M S c b ip seg s] unfolding tcp_segment_def Let_def s_def [symmetric]
    by (cases "t_state s") simp_all
qed

lemma pre_rx_segment:
  assumes "rx_pre M S b t" "user_env K env" "honest S c b seg (content bp)" "length (content bp) < 2 ^ 16"
  shows "rx_life M S c b (tcp_segment env ip seg bp (of_nat (length (content bp))) t)"
proof -
  define n where "n = (of_nat (length (content bp)) :: u32)"
  define s where "s = t\<lparr>t_congest := ip_congest ip\<rparr>"
  have "rxv s = rxv t" by (simp add: s_def)
  then have s: "rx_pre M S b s" using assms(1) life_cong(2) by blast
  have st: "t_state s \<in> {TCP_LISTEN, TCP_SYN_SENT}" using s by (simp add: rx_pre_def)
  have g: "good_seg S c b seg bp n" using assms(3,4) by (simp add: good_seg_def unat_of_nat n_def)
  define q where "q = proc_syn env (ip_tos ip) seg s"
  have q: "rxv q = rxv (s\<lparr>t_rnxt := b\<rparr>)" "rxv (send_syn env q) = rxv (s\<lparr>t_rnxt := b\<rparr>)" if "f_syn seg"
    using honest_syn [OF assms(3) that] by (simp_all add: q_def rxv_syn)
  have go: "rx_inv M S c b (settcpstate env new z)" if "rxv z = rxv (s\<lparr>t_rnxt := b\<rparr>)" "new \<in> {TCP_SYN_RECEIVED, TCP_ESTABLISHED}" for z new
    by (rule settcpstate_keeps [OF rxu.env_keeps [OF assms(2)] rx_syn [OF s _ that(2)]]) (use that(1) in \<open>simp add: rxv_def\<close>)
  have fin: "rx_inv M S c b (if n \<noteq> 0 \<or> f_fin seg then rx_sync env ip seg bp n z else tcp_output env z)" if "rx_inv M S c b z" for z
    using rx_sync_rx [OF that rxu.env_keeps [OF assms(2)] sd.env_keeps [OF assms(2)] g] that rx_cong [OF rxv_output] by simp
  have life: "rx_life M S c b s" "rx_life M S c b (reset ip seg s)" "rx_life M S c b (close_self env RESET s)"
    using s life_cong [OF rxv_fields(11)] pre_rx_close [OF s assms(2)] by (simp_all add: rx_life_def)
  show ?thesis
  proof (cases "t_state s = TCP_LISTEN")
    case True
    have "tcp_segment env ip seg bp n t = (if f_rst seg then s else if f_ack seg then reset ip seg s
       else if f_syn seg then (if n \<noteq> 0 \<or> f_fin seg then rx_sync env ip seg bp n (settcpstate env TCP_SYN_RECEIVED (send_syn env q))
          else tcp_output env (settcpstate env TCP_SYN_RECEIVED (send_syn env q))) else s)"
      unfolding tcp_segment_def Let_def s_def [symmetric] q_def [symmetric] using True by simp
    moreover have "f_syn seg \<Longrightarrow> rx_inv M S c b (settcpstate env TCP_SYN_RECEIVED (send_syn env q))"
      by (rule go) (use q in simp_all)
    ultimately show ?thesis using life fin unfolding n_def [symmetric] by (simp add: rx_life_def)
  next
    case False
    then have sent: "t_state s = TCP_SYN_SENT" using st by simp
    define z where "z = (if f_ack seg then settcpstate env TCP_ESTABLISHED (update env seg n q) else settcpstate env TCP_SYN_RECEIVED q)"
    have e: "tcp_segment env ip seg bp n t =
       (if f_ack seg \<and> \<not> seq_within (tcp_ack seg) (t_iss s + 1) (t_nxt s) then reset ip seg s
        else if f_rst seg then (if f_ack seg then close_self env RESET s else s)
        else if f_syn seg then (if n \<noteq> 0 \<or> f_fin seg then rx_sync env ip seg bp n z else tcp_output env z)
        else s)"
      unfolding tcp_segment_def Let_def s_def [symmetric] q_def [symmetric] z_def [symmetric] using sent by simp
    have "rx_inv M S c b z" if y: "f_syn seg"
    proof -
      have "t_state q = TCP_SYN_SENT" using q(1) [OF y] sent by (simp add: rxv_def)
      then have "rxv (update env seg n q) = rxv q" using update_rxv [of env seg n q] by auto
      then have "rxv (update env seg n q) = rxv (s\<lparr>t_rnxt := b\<rparr>)" using q(1) [OF y] by simp
      then show ?thesis using go q(1) [OF y] by (simp add: z_def)
    qed
    then show ?thesis using life fin unfolding n_def [symmetric] e by (simp add: rx_life_def)
  qed
qed

lemma pre_rx_send:
  assumes "rx_pre M S b t" "may_send K t bp"
  shows "rx_pre M S b (snd (send_tcp env bp t))"
proof (cases "t_state t = TCP_LISTEN")
  case True
  have "rxv (t\<lparr>t_sndq := a, t_sndcnt := d, t_given := g\<rparr>) = rxv t" for a d g by (simp add: rxv_def)
  then have "rxv (snd (send_tcp env bp t)) = rxv t" using True assms(2) by (simp add: send_tcp_def may_send_def Let_def)
  then show ?thesis using assms(1) life_cong(2) by blast
next
  case False
  then show ?thesis using assms(1) life_cong(2) [OF send_rxv] by simp
qed

interpretation rl: block_law K "rx_life M S c b" "honest S c b" for K M S c b
proof
  fix env t bp n ip seg type code conn
  assume i: "rx_life M S c b t"
  have v: "rx_life M S c b t'" if "rxv t' = rxv t" for t' using i life_cong(1) [OF that] by simp
  show "rx_life M S c b (t\<lparr>t_conn := conn\<rparr>)" by (rule v) (simp add: rxv_def)
  show "rx_life M S c b (icmp_for_tcb type code seg t)" by (rule v) (simp add: icmp_for_tcb_def cut_ssthresh_def rxv_def)
  show "rx_life M S c b (t\<lparr>t_reseq := []\<rparr>)"
    using i rx_reseq [of M S c b t "[]"] by (auto simp: rx_life_def rx_pre_def rx_base_def arrived_def rx_room_def)
  assume u: "user_env K env"
  note k = rxu.env_keeps [OF u, of M S c b]
  show "may_send K t bp \<Longrightarrow> rx_life M S c b (snd (send_tcp env bp t))"
    using i pre_rx_send rxu.send_law [OF u k] by (auto simp: rx_life_def)
  show "0 \<le>s n \<Longrightarrow> rx_life M S c b (snd (recv_tcp env n t))"
  proof -
    assume n: "0 \<le>s n"
    have "rx_pre M S b t \<Longrightarrow> recv_tcp env n t = (Failed WOULDBLK, t)"
      by (auto simp: rx_pre_def rx_base_def arrived_def recv_tcp_def unat_eq_0)
    then show ?thesis using i rxu.recv_law [OF u k _ n] by (auto simp: rx_life_def)
  qed
  show "rx_life M S c b (snd (close_tcp env t))"
    using i rxu.close_law [OF u k] pre_rx_close [OF _ u] by (auto simp: rx_life_def close_tcp_def rx_pre_def)
  show "rx_life M S c b (tcp_timeout env t)" using i rx_timeout [OF _ k] pre_rx_timeout [OF _ u] unfolding rx_life_def by blast
  show "rx_life M S c b (kick_tcp env t)"
  proof -
    have "rxv (t\<lparr>t_force := True, t_backoff := 0\<rparr>) = rxv t" by (simp add: rxv_def)
    from v [OF this] show ?thesis
      using rx_timeout [OF _ k] pre_rx_timeout [OF _ u] unfolding rx_life_def kick_tcp_def by blast
  qed
  show "rx_life M S c b (reset_tcp env t)"
  proof -
    have "rxv (t\<lparr>t_out := x\<rparr>) = rxv t" for x by (simp add: rxv_def)
    then have o: "rx_life M S c b (t\<lparr>t_out := x\<rparr>)" for x using v by blast
    have "rx_life M S c b s \<Longrightarrow> rx_life M S c b (close_self env RESET s)" for s
      using rx_close [OF _ k] pre_rx_close [OF _ u] unfolding rx_life_def by blast
    then show ?thesis using i o unfolding reset_tcp_def Let_def by (cases "t_state t = TCP_LISTEN") simp_all
  qed
  show "honest S c b seg (content bp) \<Longrightarrow> length (content bp) < 2 ^ 16 \<Longrightarrow>
      rx_life M S c b (tcp_segment env ip seg bp (of_nat (length (content bp))) t)"
    using i rx_segment [OF _ u] pre_rx_segment [OF _ u] unfolding rx_life_def by blast
qed

lemma open_rx:
  assumes "user_env K env" "mode \<noteq> TCP_PASSIVE" "w' = (if w \<noteq> 0 then w else te_window env)"
    and "length S \<le> M" "- (2 ^ 31) < sint b" "sint b + int M + int (unat w') + 2 < 2 ^ 31" "M + unat w' + 2 < 2 ^ 31"
  shows "rx_life M S c b (open_block env mode w tos (new_tcb env conn tp))"
proof -
  define n where "n = (new_tcb env conn tp)\<lparr>t_window := w', t_rwnd := w', t_swnd := 1, t_tos := tos\<rparr>"
  have p: "rx_life M S c b s" if "rxv s = rxv (n\<lparr>t_clone := x, t_active := y, t_state := new\<rparr>)" "x \<or> y" "new \<in> {TCP_LISTEN, TCP_SYN_SENT}" for s x y new
  proof -
    have "rx_pre M S b (n\<lparr>t_clone := x, t_active := y, t_state := new\<rparr>)"
      using assms(4-7) that(2,3) by (auto simp: n_def new_tcb_def rx_pre_def rx_base_def arrived_def rx_room_def)
    then show ?thesis using life_cong(2) [OF that(1)] by (simp add: rx_life_def)
  qed
  have e: "t_clone n = False" "t_active n = False" by (simp_all add: n_def new_tcb_def)
  have k: "rx_life M S c b (z\<lparr>t_state := new\<rparr>) \<Longrightarrow> rx_life M S c b (settcpstate env new z)" for z new
    by (rule settcpstate_keeps [OF rl.env_keeps [OF assms(1)]])
  show ?thesis
  proof (cases mode)
    case TCP_SERVER
    have "rx_life M S c b (n\<lparr>t_clone := True\<rparr>\<lparr>t_state := TCP_LISTEN\<rparr>)"
      by (rule p [where x = True and y = False and new = TCP_LISTEN]) (simp_all add: rxv_def e)
    from k [OF this] show ?thesis
      using TCP_SERVER by (simp add: open_block_def Let_def n_def [symmetric] assms(3) [symmetric])
  next
    case TCP_ACTIVE
    have "rx_life M S c b ((send_syn env (n\<lparr>t_active := True\<rparr>))\<lparr>t_state := TCP_SYN_SENT\<rparr>)"
      by (rule p [where x = False and y = True and new = TCP_SYN_SENT]) (simp_all add: rxv_def send_syn_def e)
    from k [OF this] have "rx_life M S c b (tcp_output env (settcpstate env TCP_SYN_SENT (send_syn env (n\<lparr>t_active := True\<rparr>))))"
      using life_cong(1) [OF rxv_output] by blast
    then show ?thesis
      using TCP_ACTIVE by (simp add: open_block_def Let_def n_def [symmetric] assms(3) [symmetric])
  qed (use assms(2) in simp)
qed

section \<open>The stream\<close>

text \<open>Segments of a log as they can arrive: anything without data, SYN and FIN; for the others, numbers, flags and data are those of a segment that
  was sent.\<close>

definition delivered :: "(u32 \<times> u32 \<times> tcp \<times> byte list) list \<Rightarrow> tcp \<Rightarrow> byte list \<Rightarrow> bool" where
  "delivered log seg data \<longleftrightarrow> data = [] \<and> \<not> f_syn seg \<and> \<not> f_fin seg \<or>
     (\<exists>(src, dst, s, d) \<in> set log. tcp_seq seg = tcp_seq s \<and> f_syn seg = f_syn s \<and> f_fin seg = f_fin s \<and> data = d)"

lemma sent_honest:
  assumes "user_env M env" "mode \<noteq> TCP_PASSIVE" "M + 2 < 2 ^ 31"
    and "(tcp_event M (\<lambda>seg data. sane seg))\<^sup>*\<^sup>* (open_block env mode w tos (new_tcb env conn tp)) t"
  shows "length (t_given t) \<le> M"
    "(src, dst, seg, data) \<in> set (t_out t) \<Longrightarrow>
       honest (t_given t) (closing (t_state t) \<or> t_state t = TCP_CLOSED) (t_iss t + 1) seg data"
proof -
  have l: "tx_pre M t \<or> tx_inv M t"
    using tl.life_keeps [OF assms(4) open_tx [OF assms(1,2)]] assms(3) by (simp add: tx_life_def)
  then show "length (t_given t) \<le> M" by (auto simp: tx_pre_def tx_inv_def)
  show "honest (t_given t) (closing (t_state t) \<or> t_state t = TCP_CLOSED) (t_iss t + 1) seg data"
    if "(src, dst, seg, data) \<in> set (t_out t)"
    using l that by (fastforce simp: tx_pre_def tx_inv_def out_ok_def honest_def)
qed

lemma delivered_honest:
  assumes "delivered log seg data" "\<And>src dst s d. (src, dst, s, d) \<in> set log \<Longrightarrow> honest S c b s d"
  shows "honest S c b seg data"
proof (cases "data = [] \<and> \<not> f_syn seg \<and> \<not> f_fin seg")
  case False
  then obtain src dst s d where s: "(src, dst, s, d) \<in> set log" "tcp_seq seg = tcp_seq s" "f_syn seg = f_syn s" "f_fin seg = f_fin s" "data = d"
    using assms(1) by (auto simp: delivered_def)
  then show ?thesis using assms(2) [OF s(1)] by (simp add: honest_def)
qed (simp add: honest_def)

lemma event_mono: "(tcp_event K P)\<^sup>*\<^sup>* t u \<Longrightarrow> (\<And>seg data. P seg data \<Longrightarrow> Q seg data) \<Longrightarrow> (tcp_event K Q)\<^sup>*\<^sup>* t u"
proof -
  assume l: "(tcp_event K P)\<^sup>*\<^sup>* t u" and m: "\<And>seg data. P seg data \<Longrightarrow> Q seg data"
  have "tcp_event K P x y \<Longrightarrow> tcp_event K Q x y" for x y
    by (induction rule: tcp_event.induct) (auto intro: tcp_event.intros m)
  then have "tcp_event K P \<le> tcp_event K Q" by blast
  then show "(tcp_event K Q)\<^sup>*\<^sup>* t u" using l rtranclp_mono by blast
qed

lemma life_arrived:
  assumes "rx_life M S c b t"
  shows "prefix (t_taken t) S \<and> (finished (t_state t) \<longrightarrow> t_taken t @ content (t_rcvq t) = S)"
proof -
  have b: "rx_base S t" "finished (t_state t) \<Longrightarrow> length (arrived t) = length S"
    using assms by (auto simp: rx_life_def rx_pre_def rx_inv_def rx_live_def finished_def)
  then have p: "arrived t = take (length (arrived t)) S" by (simp add: rx_base_def)
  then have "prefix (arrived t) S" by (metis take_is_prefix)
  moreover have "prefix (t_taken t) (arrived t)" by (simp add: arrived_def)
  ultimately have "prefix (t_taken t) S" using prefix_order.trans by blast
  moreover have "finished (t_state t) \<Longrightarrow> arrived t = S" using p b(2) by simp
  ultimately show ?thesis by (simp add: arrived_def)
qed


definition demo_syn :: tcp where
  "demo_syn = tcp_zero\<lparr>tcp_source := 20, tcp_dest := 10, tcp_seq := 20480000, tcp_ack := 20480001, f_ack := True, f_syn := True,
     tcp_wnd := 2048\<rparr>"

definition demo_seg :: "nat \<Rightarrow> tcb \<Rightarrow> tcp" where "demo_seg k t = (case t_out t ! k of (src, dst, seg, data) \<Rightarrow> seg)"

definition demo_a :: tcb where
  "demo_a = snd (send_tcp demo_tenv [[104, 105]] (tcp_segment demo_tenv sample_ip demo_syn [] 0
     (open_block demo_tenv TCP_ACTIVE 0 0 (new_tcb demo_tenv \<lparr>c_laddr = 1, c_lport = 10, c_raddr = 2, c_rport = 20\<rparr> None))))"

definition demo_b :: tcb where
  "demo_b = snd (recv_tcp demo_tenv 0
     (tcp_segment demo_tenv sample_ip (demo_seg 2 demo_a) [[104, 105]] 2
        (tcp_segment demo_tenv sample_ip (demo_seg 0 demo_a) [] 0
         (open_block demo_tenv TCP_SERVER 0 0 (new_tcb demo_tenv \<lparr>c_laddr = 2, c_lport = 20, c_raddr = 0, c_rport = 0\<rparr> None)))))"

lemma demo_env: "user_env M demo_tenv"
  by (rule user_env.quiet) (simp_all add: env_ok_def demo_tenv_def)

lemma demo_sender:
  "(tcp_event 2 (\<lambda>seg data. sane seg))\<^sup>*\<^sup>*
     (open_block demo_tenv TCP_ACTIVE 0 0 (new_tcb demo_tenv \<lparr>c_laddr = 1, c_lport = 10, c_raddr = 2, c_rport = 20\<rparr> None)) demo_a"
proof -
  define a0 where "a0 = open_block demo_tenv TCP_ACTIVE 0 0 (new_tcb demo_tenv \<lparr>c_laddr = 1, c_lport = 10, c_raddr = 2, c_rport = 20\<rparr> None)"
  define a1 where "a1 = tcp_segment demo_tenv sample_ip demo_syn [] 0 a0"
  have "tcp_event 2 (\<lambda>seg data. sane seg) a0 a1"
    using tcp_event.segment [of 2 demo_tenv "\<lambda>seg data. sane seg" demo_syn "[]" a0 sample_ip] demo_env
    by (simp add: a1_def sane_def demo_syn_def tcp_zero_def)
  moreover have "t_given a1 = []" "t_state a1 = TCP_ESTABLISHED" unfolding a1_def a0_def by code_simp+
  then have "may_send 2 a1 [[104, 105]]" by (simp add: may_send_def)
  then have "user_run 2 demo_tenv a1 demo_a"
    using user_run.sends [OF user_run.nothing] by (simp add: demo_a_def a1_def a0_def)
  then have "tcp_event 2 (\<lambda>seg data. sane seg) a1 demo_a" by (rule tcp_event.call [OF demo_env])
  ultimately show ?thesis unfolding a0_def [symmetric] by (meson converse_rtranclp_into_rtranclp r_into_rtranclp)
qed

lemma demo_receiver:
  "(tcp_event 0 (delivered (t_out demo_a)))\<^sup>*\<^sup>*
     (open_block demo_tenv TCP_SERVER 0 0 (new_tcb demo_tenv \<lparr>c_laddr = 2, c_lport = 20, c_raddr = 0, c_rport = 0\<rparr> None)) demo_b"
proof -
  let ?E = "tcp_event 0 (delivered (t_out demo_a))"
  define b0 where "b0 = open_block demo_tenv TCP_SERVER 0 0 (new_tcb demo_tenv \<lparr>c_laddr = 2, c_lport = 20, c_raddr = 0, c_rport = 0\<rparr> None)"
  define b1 where "b1 = tcp_segment demo_tenv sample_ip (demo_seg 0 demo_a) [] 0 b0"
  define b2 where "b2 = tcp_segment demo_tenv sample_ip (demo_seg 2 demo_a) [[104, 105]] 2 b1"
  have l: "length (t_out demo_a) = 3" by code_simp
  have d: "map (\<lambda>(src, dst, seg, data). data) (t_out demo_a) = [[], [], [104, 105]]" by code_simp
  have del: "delivered log (demo_seg k t) (map (\<lambda>(src, dst, seg, data). data) log ! k)" if "k < length log" "log = t_out t" for k log t
  proof -
    obtain src dst sg dt where e: "log ! k = (src, dst, sg, dt)" by (cases "log ! k") auto
    then have "(src, dst, sg, dt) \<in> set log" using that nth_mem by metis
    then show ?thesis using that e unfolding delivered_def demo_seg_def by (intro disjI2) (auto intro!: bexI [of _ "(src, dst, sg, dt)"])
  qed
  have p: "delivered (t_out demo_a) (demo_seg 0 demo_a) []" "delivered (t_out demo_a) (demo_seg 2 demo_a) [104, 105]"
    using del [OF _ refl, of 0 demo_a] del [OF _ refl, of 2 demo_a] unfolding d l by simp_all
  have "?E b0 b1" using tcp_event.segment [OF demo_env, of "delivered (t_out demo_a)" _ "[]" 0] p(1) by (simp add: b1_def)
  moreover have "?E b1 b2"
    using tcp_event.segment [OF demo_env, of "delivered (t_out demo_a)" _ "[[104, 105]]" 0] p(2) by (simp add: b2_def)
  moreover have "user_run 0 demo_tenv b2 demo_b"
    using user_run.takes [OF user_run.nothing, of 0] by (simp add: demo_b_def b2_def b1_def b0_def)
  then have "?E b2 demo_b" by (rule tcp_event.call [OF demo_env])
  ultimately show ?thesis unfolding b0_def [symmetric] by (meson converse_rtranclp_into_rtranclp r_into_rtranclp)
qed


end
