(* ===== verification/Tcp_Props.thy ===== *)
theory Tcp_Props
  imports Tcp_Stream
begin

text \<open>
  What else holds of a block over its whole life (what it sends, its counters, the absence of undefined operations), that \<^verbatim>\<open>tcp_output\<close>
  comes to its end, and the places where the engine fails: a receive window across the sign boundary of \<^verbatim>\<open>int32\<close>, a
  passive open that is reset, a cloned block that nobody takes away, a segment size of zero.
\<close>

section \<open>The life of a sender\<close>

lemma life_inv:
  assumes "user_env M env" "mode \<noteq> TCP_PASSIVE" "M + 2 < 2 ^ 31"
    and "(tcp_event M (\<lambda>seg data. sane seg))\<^sup>*\<^sup>* (open_block env mode w tos (new_tcb env conn tp)) t"
  shows "tx_pre M t \<or> tx_inv M t"
  using tl.life_keeps [OF assms(4) open_tx [OF assms(1,2)]] assms(3) by (simp add: tx_life_def)





text \<open>C16: In the life of a block whose peer sends sane options, no operation is undefined in C: the shift of the window by the peer's scale stays below
  32, the congestion window by which the growth is divided is not zero, and no SYN of size zero makes the data overrun the buffer.\<close>
theorem tcp_no_undefined:
  assumes "user_env M env" "mode \<noteq> TCP_PASSIVE" "M + 2 < 2 ^ 31"
    and "(tcp_event M (\<lambda>seg data. sane seg))\<^sup>*\<^sup>* (open_block env mode w tos (new_tcb env conn tp)) t"
  shows "\<not> t_ub t"
  using life_inv [OF assms] by (auto simp: tx_pre_def tx_inv_def)

lemma tcp_no_undefined_witness: "\<not> t_ub demo_a"
  using tcp_no_undefined [OF demo_env _ _ demo_sender] by simp

section \<open>The end of the output loop\<close>

definition out_stops :: "tenv \<Rightarrow> tcb \<Rightarrow> bool" where "out_stops env t \<longleftrightarrow> out_ssize env t = 0 \<and> \<not> t_force t"

lemma stops_loop: "out_stops env t \<Longrightarrow> tcp_out_loop n env t = t"
  by (cases n) (simp_all add: out_stops_def Let_def)

lemma emit_less:
  assumes "placed T U P N t" "T < 2 ^ 31" "tx_room t"
  shows "placed T U (P + unat (out_ssize env t)) (max N (P + unat (out_ssize env t))) (out_emit env (out_ssize env t) t)"
    "\<not> t_force (out_emit env ssize t)"
proof -
  note z = cut_ssize(1) [OF assms, of env]
  define e where "e = out_emit env (out_ssize env t) t"
  have "t_given e = t_given t" "t_state e = t_state t" "t_una e = t_una t" "t_iss e = t_iss t" "t_sndcnt e = t_sndcnt t"
    "t_sndq e = t_sndq t" "t_synack e = t_synack t" "t_ptr e = t_ptr t + out_ssize env t"
    "t_nxt e = (if seq_gt (t_ptr t + out_ssize env t) (t_nxt t) then t_ptr t + out_ssize env t else t_nxt t)"
    by (simp_all add: e_def out_emit_def out_timers_def Let_def)
  then have "placed T U (P + unat (out_ssize env t)) (max N (P + unat (out_ssize env t))) e"
    using cut_emit [OF assms(1,2) z, of undefined] unfolding placed_def by (auto split: if_splits)
  then show "placed T U (P + unat (out_ssize env t)) (max N (P + unat (out_ssize env t))) (out_emit env (out_ssize env t) t)"
    by (simp add: e_def)
  show "\<not> t_force (out_emit env ssize t)" by (simp add: out_emit_def out_timers_def Let_def)
qed

lemma out_loop_done:
  assumes "M + 2 < 2 ^ 31"
  shows "tx_inv M t \<Longrightarrow> t_state t \<noteq> TCP_CLOSED \<Longrightarrow> placed T U P N t \<Longrightarrow> T - P + (if t_force t then 1 else 0) \<le> n \<Longrightarrow>
     \<exists>t'. out_stops env t' \<and> (\<forall>m. tcp_out_loop (n + m) env t = t')"
proof (induction n arbitrary: t P N)
  case 0
  have "T < 2 ^ 31" "tx_room t" using 0 assms by (auto simp: placed_def tx_inv_def)
  then have "unat (out_ssize env t) \<le> T - P" using cut_ssize(1) [OF 0(3)] by simp
  then have "out_stops env t" using 0(4) by (auto simp: out_stops_def unat_eq_0 [symmetric] split: if_splits)
  then show ?case using stops_loop by blast
next
  case (Suc n)
  show ?case
  proof (cases "out_stops env t")
    case True
    then show ?thesis using stops_loop by blast
  next
    case False
    let ?e = "out_emit env (out_ssize env t) t"
    have T: "T < 2 ^ 31" "tx_room t" using Suc.prems assms by (auto simp: placed_def tx_inv_def)
    note z = cut_ssize(1) [OF Suc.prems(3) T, of env]
    have "0 < unat (out_ssize env t) \<or> t_force t" using False by (auto simp: out_stops_def unat_gt_0)
    then have le: "T - (P + unat (out_ssize env t)) + (if t_force ?e then 1 else 0) \<le> n"
      using Suc.prems(4) z emit_less(2) [OF Suc.prems(3) T] by (auto split: if_splits)
    have "t_state ?e \<noteq> TCP_CLOSED" using Suc.prems(2) emit_inv(2) [OF Suc.prems(1) assms Suc.prems(2)] by simp
    from Suc.IH [OF emit_inv(1) [OF Suc.prems(1) assms Suc.prems(2)] this emit_less(1) [OF Suc.prems(3) T] le]
    obtain t' where t': "out_stops env t'" "\<And>m. tcp_out_loop (n + m) env ?e = t'" by blast
    have "tcp_out_loop (Suc n + m) env t = t'" for m
      using False t'(2) [of m] by (auto simp: out_stops_def Let_def)
    then show ?thesis using t'(1) by blast
  qed
qed

text \<open>C18: \<^verbatim>\<open>tcp_output\<close> ends: it sends until nothing more can be sent and no segment is forced, and the number of turns that the model grants
  (two more than \<^verbatim>\<open>sndcnt\<close>) is never what stops it.\<close>
theorem tcp_output_done:
  assumes "user_env M env0" "mode \<noteq> TCP_PASSIVE" "M + 2 < 2 ^ 31"
    and "(tcp_event M (\<lambda>seg data. sane seg))\<^sup>*\<^sup>* (open_block env0 mode w tos (new_tcb env0 conn tp)) t"
    and "t_state t \<notin> {TCP_CLOSED, TCP_LISTEN}"
  shows "out_ssize env (tcp_output env t) = 0 \<and> \<not> t_force (tcp_output env t) \<and>
     (\<forall>m. tcp_out_loop (unat (t_sndcnt t) + 2 + m) env t = tcp_output env t)"
proof -
  have i: "tx_inv M t" using life_inv [OF assms(1-4)] assms(5) by (auto simp: tx_pre_def)
  then obtain T U P N where c: "placed T U P N t" using assms(5) by (auto simp: tx_inv_def tx_core_cut)
  have "T - P + (if t_force t then 1 else 0) \<le> unat (t_sndcnt t) + 2" using c by (auto simp: placed_def)
  from out_loop_done [OF assms(3) i _ c this] assms(5)
  obtain t' where t': "out_stops env t'" "\<And>m. tcp_out_loop (unat (t_sndcnt t) + 2 + m) env t = t'" by blast
  moreover have "tcp_output env t = t'" using t'(2) [of 0] assms(5) by (simp add: tcp_output_def del: tcp_out_loop.simps)
  ultimately show ?thesis by (simp add: out_stops_def)
qed

lemma tcp_output_done_witness: "out_ssize demo_tenv (tcp_output demo_tenv demo_a) = 0"
proof -
  have "t_state demo_a = TCP_ESTABLISHED" by code_simp
  then show ?thesis using tcp_output_done [OF demo_env _ _ demo_sender, of demo_tenv] by simp
qed

section \<open>The receive window across the sign boundary\<close>

lemma sint_wrapped:
  assumes "x = a + of_nat d" "d < 2 ^ 32"
  shows "sint (x :: u32) = (if sint a + int d < 2 ^ 31 then sint a + int d else sint a + int d - 2 ^ 32)"
proof (cases "sint a + int d < 2 ^ 31")
  case True
  then show ?thesis using sint_add_nat [OF True] assms(1) by simp
next
  case False
  have "x = word_of_int (sint a + int d - 2 ^ 32)" using assms(1) by simp
  moreover have "sint (word_of_int (sint a + int d - 2 ^ 32) :: u32) = sint a + int d - 2 ^ 32"
    by (rule sint_word) (use False assms(2) sint_range(2) [of a] in simp_all)
  ultimately show ?thesis using False by simp
qed

text \<open>C20: The test whether a number lies in the receive window is right as long as the window does not reach from the largest \<^verbatim>\<open>int32\<close> into the
  negative numbers; a window that does is seen inside out: of the numbers in it only the first and the last are taken to be in
  it, and all the others in the sequence space are.\<close>
theorem window_straddle:
  assumes "w = unat (t_rwnd t)" "0 < w" "w < 2 ^ 31"
  shows "in_window t x \<longleftrightarrow>
     (if sint (t_rnxt t) + int w \<le> 2 ^ 31 then unat (x - t_rnxt t) < w
      else unat (x - t_rnxt t) = 0 \<or> w - 1 \<le> unat (x - t_rnxt t))"
proof -
  define R where "R = sint (t_rnxt t)"
  define d where "d = unat (x - t_rnxt t)"
  have d: "x = t_rnxt t + of_nat d" "d < 2 ^ 32" using unsigned_less [of "x - t_rnxt t"] by (simp_all add: d_def)
  have R: "- (2 ^ 31) \<le> R" "R < 2 ^ 31" using sint_range by (simp_all add: R_def)
  have x: "sint x = (if R + int d < 2 ^ 31 then R + int d else R + int d - 2 ^ 32)"
    using sint_wrapped [OF d] by (simp add: R_def)
  have e: "t_rnxt t + t_rwnd t - 1 = t_rnxt t + of_nat (w - 1)" using assms(1,2) by (simp add: of_nat_diff)
  have h: "sint (t_rnxt t + t_rwnd t - 1) = (if R + int (w - 1) < 2 ^ 31 then R + int (w - 1) else R + int (w - 1) - 2 ^ 32)"
    using sint_wrapped [OF e] assms(3) by (simp add: R_def)
  show ?thesis
    unfolding in_window_def seq_within_def word_sle_eq R_def [symmetric] x h d_def [symmetric]
    using R d(2) assms(2,3) by (auto simp: of_nat_diff)
qed

text \<open>Then a duplicate of old data is accepted, \<^verbatim>\<open>trim\<close> takes more off it than it has, and the count of octets goes below zero.\<close>

definition demo_rcv :: tcb where
  "demo_rcv = (new_tcb demo_tenv \<lparr>c_laddr = 2, c_lport = 20, c_raddr = 1, c_rport = 10\<rparr> None)
     \<lparr>t_state := TCP_ESTABLISHED, t_active := True, t_rnxt := 0x7FFFFFF0, t_window := 2048, t_rwnd := 2048, t_synack := True,
      t_una := 1, t_nxt := 1, t_ptr := 1\<rparr>"

definition demo_old :: tcp where
  "demo_old = tcp_zero\<lparr>tcp_seq := 0x7FFFFF00, tcp_ack := 1, f_ack := True, tcp_wnd := 1000\<rparr>"

lemma window_straddle_witness:
  "in_window demo_rcv 0x7FFFFF00 \<and> \<not> in_window demo_rcv 0x7FFFFFF4"
proof -
  have "unat (t_rwnd demo_rcv) = 2048" "t_rnxt demo_rcv = 0x7FFFFFF0" by (simp_all add: demo_rcv_def)
  then show ?thesis using window_straddle [of 2048 demo_rcv] by simp
qed

text \<open>With such a window, a duplicate of ten octets received long ago makes the next octet expected go back by 230 (to a number received before), and counts
  less than nothing into the receive queue, which stays empty: the stream is then no longer what was sent.\<close>
theorem old_duplicate_accepted:
  "let t = tcp_segment demo_tenv sample_ip demo_old [replicate 10 65] 10 demo_rcv
   in t_state t = TCP_ESTABLISHED \<and> t_rcvq t = [] \<and> sint (t_rcvcnt t) = -230 \<and> t_rnxt t = t_rnxt demo_rcv - 230"
  by code_simp

section \<open>Opening\<close>

text \<open>C34: A segment with SYN and ACK to a port with a server leaves a block behind: the server's block is cloned for the peer before the flags are
  looked at, the segment is then refused with a RST, and the clone stays on the list of blocks in state LISTEN, where neither a
  timer nor its peer will ever take it away.\<close>
theorem syn_ack_leaves_clone:
  assumes "bpp \<noteq> []" "dlen = ip_len ip - of_nat IPLEN - ucast (ip_optlen ip)"
    and "cksum le al (Some \<lparr>ph_source = ip_source ip, ph_dest = ip_dest ip, ph_protocol = ip_protocol ip, ph_length = dlen\<rparr>) bpp (unat dlen) = 0"
    and "ntohtcp stack bpp = (seg, Some hdrlen, rest)" "f_syn seg" "f_ack seg" "\<not> f_rst seg"
    and "conn = \<lparr>c_laddr = ip_dest ip, c_lport = tcp_dest seg, c_raddr = ip_source ip, c_rport = tcp_source seg\<rparr>"
    and "lookup_tcb conn (n_tcbs nd) = None" "lookup_tcb (conn\<lparr>c_raddr := 0, c_rport := 0\<rparr>) (n_tcbs nd) = Some (t, ts)"
    and "t_clone t" "t_state t = TCP_LISTEN"
  shows "\<exists>t'. n_tcbs (tcp_input le al stack env ip bpp False nd) = t' # t # ts \<and> t_state t' = TCP_LISTEN \<and>
      t_conn t' = (t_conn t)\<lparr>c_laddr := ip_dest ip, c_raddr := ip_source ip, c_rport := tcp_source seg\<rparr> \<and> tt_run (t_timer t') = tt_run (t_timer t) \<and>
      n_out (tcp_input le al stack env ip bpp False nd) = n_out nd @ [(ip_dest ip, ip_source ip, reset_seg seg, [])]"
  using assms
  by (simp add: tcp_input_def find_tcb_def on_front_def tcp_segment_def reset_def reset_out_def Let_def)

definition demo_server :: tnode where
  "demo_server = \<lparr>n_tcbs = [open_block demo_tenv TCP_SERVER 0 0 (new_tcb demo_tenv \<lparr>c_laddr = 2, c_lport = 20, c_raddr = 0, c_rport = 0\<rparr> None)],
     n_cache = [], n_out = []\<rparr>"

definition demo_octets :: "byte list" where
  "demo_octets = [0, 10, 0, 20, 0, 0, 3, 232, 0, 0, 0, 1, 0x50, 0x12, 0, 0, 0xAB, 0xC9, 0, 0]"

definition demo_to :: ip where "demo_to = sample_ip\<lparr>ip_source := 1, ip_dest := 2, ip_protocol := 6, ip_len := 40, ip_optlen := 0\<rparr>"

lemma syn_ack_leaves_clone_witness:
  "length (n_tcbs (tcp_input True (\<lambda>_. True) [] demo_tenv demo_to [demo_octets] False demo_server)) = 2"
proof -
  let ?n = "ntohtcp [] [demo_octets]" and ?conn = "\<lparr>c_laddr = 2, c_lport = 20, c_raddr = 1, c_rport = 10\<rparr>"
  obtain seg r rest where n: "?n = (seg, r, rest)" by (cases ?n) auto
  have h: "fst (snd ?n) = Some 20" by code_simp
  have k: "f_syn (fst ?n) \<and> f_ack (fst ?n) \<and> \<not> f_rst (fst ?n) \<and> tcp_dest (fst ?n) = 20 \<and> tcp_source (fst ?n) = 10" by code_simp
  have f: "ntohtcp [] [demo_octets] = (seg, Some 20, rest)" "f_syn seg" "f_ack seg" "\<not> f_rst seg" "tcp_dest seg = 20" "tcp_source seg = 10"
    using h k unfolding n by simp_all
  have c: "cksum True (\<lambda>_. True) (Some \<lparr>ph_source = ip_source demo_to, ph_dest = ip_dest demo_to, ph_protocol = ip_protocol demo_to, ph_length = 20\<rparr>)
      [demo_octets] (unat (20 :: u32)) = 0"
    by (simp add: cksum_eac) (simp add: demo_to_def demo_octets_def ph_sum_def eac.simps hiword_def loword_def)
  have l: "20 = ip_len demo_to - of_nat IPLEN - ucast (ip_optlen demo_to)" by code_simp
  have a: "lookup_tcb ?conn (n_tcbs demo_server) = None" by code_simp
  have b: "lookup_tcb (?conn\<lparr>c_raddr := 0, c_rport := 0\<rparr>) (n_tcbs demo_server) = Some (hd (n_tcbs demo_server), [])" by code_simp
  have d: "t_clone (hd (n_tcbs demo_server))" "t_state (hd (n_tcbs demo_server)) = TCP_LISTEN" by code_simp+
  have e: "?conn = \<lparr>c_laddr = ip_dest demo_to, c_lport = tcp_dest seg, c_raddr = ip_source demo_to, c_rport = tcp_source seg\<rparr>"
    by (simp add: f demo_to_def)
  obtain t' where "n_tcbs (tcp_input True (\<lambda>_. True) [] demo_tenv demo_to [demo_octets] False demo_server) = t' # hd (n_tcbs demo_server) # []"
    using syn_ack_leaves_clone [OF _ l c f(1-4) e a b d, of demo_tenv] by blast
  then show ?thesis by simp
qed

definition demo_peer :: "tcp list" where
  "demo_peer =
     (let syn = tcp_zero\<lparr>tcp_source := 10, tcp_dest := 20, tcp_seq := 1000, f_syn := True, tcp_wnd := 2048\<rparr>
      in [syn, syn\<lparr>tcp_seq := 1001, f_syn := False, f_rst := True\<rparr>, syn,
          syn\<lparr>tcp_seq := 1001, f_syn := False, f_ack := True, tcp_ack := 20480001\<rparr>])"

definition demo_passive :: tcb where
  "demo_passive = foldl (\<lambda>t seg. tcp_segment demo_tenv sample_ip seg [] 0 t)
     (open_block demo_tenv TCP_PASSIVE 0 0 (new_tcb demo_tenv \<lparr>c_laddr = 2, c_lport = 20, c_raddr = 0, c_rport = 0\<rparr> None)) demo_peer"


section \<open>A segment size of zero\<close>

text \<open>C39: A peer that gives zero as its maximum segment size in its SYN makes the answer a SYN with FIN: the size of the segment
  is zero, the size of its data wraps to the largest \<^verbatim>\<open>uint\<close>, and all the send queue holds is written into a buffer that is smaller than the
  room for the headers.\<close>
theorem mss_zero_fin:
  assumes "f_mss seg" "tcp_mss seg = 0" "\<not> t_synack s" "length (content (t_sndq s)) < 2 ^ 32 - 1"
    and "t = (send_syn env (proc_syn env tos seg s))\<lparr>t_state := TCP_SYN_RECEIVED\<rparr>"
  shows "out_ssize env t = 0 \<and> f_syn (out_seg env 0 t) \<and> f_fin (out_seg env 0 t) \<and>
     out_data 0 t = content (t_sndq s) \<and> (content (t_sndq s) \<noteq> [] \<longrightarrow> t_ub (out_emit env 0 t))"
proof -
  have m: "t_mss t = 0" "\<not> t_synack t" "t_ptr t = t_iss t" "t_una t = t_iss t" "t_nxt t = t_iss t" "t_sndq t = t_sndq s"
    using assms by (simp_all add: send_syn_def proc_syn_def Let_def split: prod.split)
  have z: "out_ssize env t = 0" using m by (simp add: out_ssize_def Let_def)
  have d: "out_dsize 0 t = - 1" "unat (out_dsize 0 t) = 2 ^ 32 - 1" using m by (simp_all add: out_dsize_def out_syn_def unsigned_minus_1_eq_mask mask_eq_exp_minus_1)
  have da: "out_data 0 t = content (t_sndq s)"
    using m d assms(4) by (simp add: out_data_def Let_def out_sent_def extract_p_content)
  then have "out_fin 0 t" using d assms(4) by (auto simp: out_fin_def)
  moreover have "t_ub (out_emit env 0 t)" if "content (t_sndq s) \<noteq> []"
    using that m by (simp add: out_emit_def out_timers_def Let_def da out_syn_def)
  ultimately show ?thesis using z da m by (simp add: out_syn_def)
qed

lemma mss_zero_fin_witness:
  "\<exists>t. f_fin (out_seg demo_tenv 0 t) \<and> f_syn (out_seg demo_tenv 0 t) \<and> out_data 0 t = []"
proof -
  let ?s = "new_tcb demo_tenv \<lparr>c_laddr = 2, c_lport = 20, c_raddr = 1, c_rport = 10\<rparr> None"
  show ?thesis using mss_zero_fin [of "tcp_zero\<lparr>f_syn := True, f_mss := True\<rparr>" ?s _ demo_tenv 0, OF _ _ _ _ refl]
    by (auto simp: tcp_zero_def new_tcb_def)
qed

end
