(* ===== verification/Spec2Isabelle.thy ===== *)
theory Spec2Isabelle
  imports Wampes_Prelude Mbuf Crc Ax25_Hdr Inet_Hdr Slip Ip_Reasm Ip_Table Ip_Route Lapb_Alive Tcp_Props
begin

text \<open>
  WAMPES is a node for amateur packet radio: it carries IP and its own protocols over AX.25 links, and AX.25 over serial lines and IP.
  This library models the protocol core of its program \<^verbatim>\<open>src/src\<close> and proves what it guarantees and where it fails.

  Parts and how they work together.  A packet is a chain of mbufs (\<^verbatim>\<open>mbuf.c\<close>).  Frames come from a serial line through SLIP and KISS
  (\<^verbatim>\<open>slip.c\<close>, \<^verbatim>\<open>kiss.c\<close>, \<^verbatim>\<open>crc.c\<close>), are AX.25 frames with an address header (\<^verbatim>\<open>ax25hdr.c\<close>, \<^verbatim>\<open>ax25subr.c\<close>), and go to the link control
  (\<^verbatim>\<open>lapb.c\<close>, \<^verbatim>\<open>lapbtime.c\<close>, \<^verbatim>\<open>xid.c\<close>), which gives datagrams back in order; a datagram with IP goes through the hopper
  (\<^verbatim>\<open>iproute.c\<close>), which asks the routing table and the filters, is forwarded, with fragmentation if it must be, or put together again
  (\<^verbatim>\<open>ip.c\<close>) and given to a transport: TCP (\<^verbatim>\<open>tcp*.c\<close>), UDP, ICMP.

  Theories.  A theory follows the order of the C file it models; the map between definitions and lines of code is kept beside the library.
    \<^item> \<open>Wampes_Prelude\<close>: the C types (\<open>byte\<close>, \<open>u32\<close>, \<open>u64\<close>), \<^verbatim>\<open>put16\<close> to \<^verbatim>\<open>get32\<close> of \<^verbatim>\<open>misc.c\<close>, shared hints.
    \<^item> \<open>Mbuf\<close>: chains as lists of lists of octets; \<open>content\<close> forgets the cut.  The locales \<open>byte_stream\<close> and \<open>packet_fifo\<close> are what the other
      theories use of \<open>pullup\<close>, \<open>pushdown\<close> and the packet queues.
    \<^item> \<open>Crc\<close>: the tables and checks of CRC-16, CRC-CCITT and RMNC, tied to a bit serial definition; \<open>frame_check\<close>, \<open>burst_check\<close>.
    \<^item> \<open>Ax25_Addr\<close>, \<open>Ax25_Hdr\<close>: addresses, their text form, the address header in its normal and its FlexNet form.
    \<^item> \<open>Inet_Cksum\<close>, \<open>Inet_Hdr\<close>, \<open>Tcp_Hdr\<close>: checksum and headers of IP, UDP, ICMP, ARP and TCP; \<open>header_codec\<close> is the contract of a pair of
      writer and reader, each pair an interpretation.
    \<^item> \<open>Slip\<close>: encoder and decoder of SLIP, the KISS layer with its checksums, and their abstract counterparts.
    \<^item> \<open>Ip_Filter\<close>, \<open>Ip_Table\<close>, \<open>Ip_Route\<close>, \<open>Ip_Reasm\<close>: the filters, the routing table with its caches and merging, the hopper with options, TTL,
      checksum update and fragmentation, the reassembly.
    \<^item> \<open>Lapb_Seg\<close>, \<open>Lapb\<close>, \<open>Lapb_Send\<close>, \<open>Lapb_Fsm\<close>: the segmenter, the routines of the link control, \<^verbatim>\<open>send_ax25\<close>, and the state machine of
      \<^verbatim>\<open>lapb_input\<close>; \<open>Xid\<close>, \<open>Lapb_Setup\<close>: the XID field and the set-up of a link.
    \<^item> \<open>Lapb_Steps\<close>, \<open>Lapb_Ops\<close>, \<open>Lapb_Handlers\<close>: the same as sequences of micro steps on what matters for the data; \<open>Lapb_Link\<close>,
      \<open>Lapb_Service\<close>: two stations and a line that loses frames, and what they get from it; \<open>Lapb_Open\<close>: what the set-up establishes;
      \<open>Lapb_Alive\<close>: that a link does not hang.
    \<^item> \<open>Tcp\<close>, \<open>Tcp_In\<close>, \<open>Tcp_User\<close>: the control block and its operations, input, and the calls of the user.  \<open>Tcp_Tx\<close>, \<open>Tcp_Rx\<close>: the invariants of the
      sending and of the receiving side; \<open>Tcp_Life\<close>: the locales \<open>user_law\<close> and \<open>block_law\<close>, what an invariant has to obey and what follows
      for upcalls and for the life of a block; \<open>Tcp_Stream\<close>, \<open>Tcp_Props\<close>: the properties.

  How state and operations correspond.  A struct is a record with the members that matter, a w-bit integer a word, \<^verbatim>\<open>int32\<close> the word
  with signed comparisons written out; a linked list is a list in its order; a handler is a function from the state to the state.  What a
  handler sends or hands up is appended to a log in the state.  Memory that may be refused, the byte order, the alignment of
  buffers, octets of the stack that are read before they are written, the clock and the settings of commands are arguments.  User code called back by
  TCP is an argument too; the theorems allow any finite nesting of calls of the engine in it (\<open>user_env\<close>).

  What is shown.  Round trips of all headers, of the framing and of segmentation, for every cut of the packets into mbufs; the checksums
  and checks against their mathematical definition; the routing table as a longest-prefix match; fragmentation and
  reassembly as inverse to each other under loss, repetition and reordering; the link as a reliable, ordered channel over a lossy line, in both
  sequence number sizes, and as free of deadlock; a TCP connection as a stream of which the receiver gets a first part, under any behaviour of the
  network; that the output loop ends.  The failures that the models exposed are theorems of their own: what they assume is what a peer can do.

  Bounds and fuel.  \<open>vr_loop\<close> and \<open>deliver_loop\<close> have 256 turns: there are at most 128 slots, and each turn passes one.  \<open>tcp_out_loop\<close> has two
  turns more than \<^verbatim>\<open>sndcnt\<close>: each turn but a forced one sends at least one number.  \<open>rx_loop\<close> has one turn more than the
  resequencing queue has entries: each further turn takes one off.  The link theorems hold for windows up to half of the sequence
  numbers as the code allows them (\<open>W \<le> mask\<close> with the sum of the octets telling old frames from new ones).  The TCP theorems hold for fewer
  than \<open>2 ^ 31\<close> octets in a connection, and those on the receiving side while the numbers of stream and window do not pass from the largest \<^verbatim>\<open>int32\<close> to
  the smallest; \<open>Tcp_Props\<close> shows that this limit is one of the code.

  Not modelled.  MIB counters and traces; the passive open of a single TCP connection and the active open by sending on a listening block
  are in the model but outside the TCP theorems, because the first counts its SYN twice when it is reset and the second calls the user in
  the middle of the call.  The links that are digipeated through this node, DAMA, NET/ROM, FlexNet, AXIP and the other tunnels, ARP tables, RIP
  apart from its merging of routes, the resolver, drivers, the kernel, commands, sessions and servers, and the programs beside the node
  (mailbox, conference, utilities) are left out: each is a protocol or application of its own, or mostly system calls.
\<close>

end
